(* ===== verification/Prelude.thy ===== *)
theory Prelude
  imports Main "HOL-Library.AList" "HOL-Library.Word"
begin

section \<open>Shared types, containers and automation\<close>

text \<open>
  The containers of the C++ standard library as the components use them:
  \<^item> a hash map that is only looked up and updated is a map \<open>'k \<rightharpoonup> 'v\<close>;
  \<^item> a hash map that is iterated is an association list, handled with \<open>AList.update\<close> and
    \<open>AList.delete\<close>; C++ leaves the iteration order open, the list fixes one;
  \<^item> an ordered map (\<open>std::map\<close>) is an association list sorted by key: \<open>omap_update\<close>,
    \<open>omap_erase\<close>, looked up with \<open>map_of\<close>;
  \<^item> a hash set is a list without duplicates: \<open>uset_insert\<close>, \<open>uset_erase\<close>.
  The collection \<open>container_simps\<close> holds the lookup laws of these operations.
\<close>

named_theorems container_simps \<open>what a lookup returns after an update of a container\<close>
named_theorems wf_intros \<open>preservation of the well-formedness invariants\<close>

type_synonym path = string

subsection \<open>How a call can go wrong\<close>

text \<open>
  \<open>LogicalError\<close>: an exception with code \<open>LOGICAL_ERROR\<close>. \<open>Terminated\<close>: the process calls
  \<open>std::terminate\<close>. \<open>Undefined\<close>: a null or end iterator is dereferenced.
  \<open>ZkException\<close>: a \<open>Coordination::Exception\<close>. \<open>DbException\<close>: a \<open>DB::Exception\<close> with another code.
  \<open>Diverges\<close>: the call does not return.
\<close>

datatype failure =
    LogicalError string
  | Terminated string
  | Undefined string
  | ZkException string
  | DbException string
  | Diverges string

type_synonym 'a result = "failure + 'a"

definition res_bind :: "'a result \<Rightarrow> ('a \<Rightarrow> 'b result) \<Rightarrow> 'b result" where
  "res_bind r f = (case r of Inl e \<Rightarrow> Inl e | Inr x \<Rightarrow> f x)"

lemma res_bind_simps [simp]:
  "res_bind (Inl e) f = Inl e"
  "res_bind (Inr x) f = f x"
  by (simp_all add: res_bind_def)

lemma res_bind_Inr_iff:
  "res_bind r f = Inr y \<longleftrightarrow> (\<exists>x. r = Inr x \<and> f x = Inr y)"
  by (cases r) auto

lemma res_bind_assoc: "res_bind (res_bind r f) g = res_bind r (\<lambda>x. res_bind (f x) g)"
  by (cases r) auto

text \<open>A loop over a list that stops at the first failure.\<close>

fun res_fold :: "('a \<Rightarrow> 's \<Rightarrow> 's result) \<Rightarrow> 'a list \<Rightarrow> 's \<Rightarrow> 's result" where
  "res_fold f [] s = Inr s"
| "res_fold f (x # xs) s = res_bind (f x s) (res_fold f xs)"

lemma res_fold_append:
  "res_fold f (xs @ ys) s = res_bind (res_fold f xs s) (res_fold f ys)"
  by (induction xs arbitrary: s) (auto simp: res_bind_def split: sum.splits)

lemma res_fold_invariant:
  assumes step: "\<And>x s s'. x \<in> set xs \<Longrightarrow> P s \<Longrightarrow> f x s = Inr s' \<Longrightarrow> P s'"
    and run: "res_fold f xs s = Inr s'"
    and init: "P s"
  shows "P s'"
  using assms
proof (induction xs arbitrary: s)
  case Nil
  then show ?case by simp
next
  case (Cons x xs)
  then obtain t where "f x s = Inr t" "res_fold f xs t = Inr s'"
    by (auto simp: res_bind_Inr_iff)
  note t = this
  from Cons.prems(1) [OF _ Cons.prems(3) t(1)] have "P t" by simp
  show ?case
    by (rule Cons.IH [OF _ t(2) \<open>P t\<close>]) (use Cons.prems(1) in auto)
qed

lemma res_fold_total:
  assumes step: "\<And>x s. x \<in> set xs \<Longrightarrow> P s \<Longrightarrow> \<exists>s'. f x s = Inr s' \<and> P s'"
    and init: "P s"
  shows "\<exists>s'. res_fold f xs s = Inr s' \<and> P s'"
  using assms
proof (induction xs arbitrary: s)
  case Nil
  then show ?case by simp
next
  case (Cons x xs)
  then obtain t where "f x s = Inr t" "P t"
    by (meson list.set_intros(1))
  with Cons show ?case by auto
qed

subsection \<open>Hash sets as lists without duplicates\<close>

definition uset_insert :: "'a \<Rightarrow> 'a list \<Rightarrow> 'a list" where
  "uset_insert x xs = (if x \<in> set xs then xs else xs @ [x])"

definition uset_erase :: "'a \<Rightarrow> 'a list \<Rightarrow> 'a list" where
  "uset_erase x xs = removeAll x xs"

lemma set_uset_insert [simp, container_simps]: "set (uset_insert x xs) = insert x (set xs)"
  by (auto simp: uset_insert_def)

lemma set_uset_erase [simp, container_simps]: "set (uset_erase x xs) = set xs - {x}"
  by (auto simp: uset_erase_def)

lemma distinct_uset_insert [simp]: "distinct (uset_insert x xs) = distinct xs"
  by (auto simp: uset_insert_def)

lemma distinct_uset_erase [intro]: "distinct xs \<Longrightarrow> distinct (uset_erase x xs)"
  by (simp add: uset_erase_def distinct_removeAll)

lemma length_uset_insert: "length (uset_insert x xs) = (if x \<in> set xs then length xs else Suc (length xs))"
  by (simp add: uset_insert_def)

lemma length_uset_erase:
  "distinct xs \<Longrightarrow> length (uset_erase x xs) = (if x \<in> set xs then length xs - 1 else length xs)"
  by (simp add: uset_erase_def distinct_remove1_removeAll [symmetric] length_remove1)

lemma uset_erase_insert: "x \<notin> set xs \<Longrightarrow> uset_erase x (uset_insert x xs) = xs"
  by (simp add: uset_insert_def uset_erase_def)

subsection \<open>Ordered maps as sorted association lists\<close>

definition omap_wf :: "('k::linorder \<times> 'v) list \<Rightarrow> bool" where
  "omap_wf m \<longleftrightarrow> sorted (map fst m) \<and> distinct (map fst m)"

fun omap_update :: "'k::linorder \<Rightarrow> 'v \<Rightarrow> ('k \<times> 'v) list \<Rightarrow> ('k \<times> 'v) list" where
  "omap_update k v [] = [(k, v)]"
| "omap_update k v ((k', v') # m) =
     (if k < k' then (k, v) # (k', v') # m
      else if k = k' then (k, v) # m
      else (k', v') # omap_update k v m)"

definition omap_erase :: "'k \<Rightarrow> ('k \<times> 'v) list \<Rightarrow> ('k \<times> 'v) list" where
  "omap_erase k m = filter (\<lambda>e. fst e \<noteq> k) m"

lemma omap_wf_Nil [simp]: "omap_wf []"
  by (simp add: omap_wf_def)

lemma omap_wf_Cons:
  "omap_wf (e # m) \<longleftrightarrow> (\<forall>e' \<in> set m. fst e < fst e') \<and> omap_wf m"
  by (auto simp: omap_wf_def less_le image_iff)

lemma keys_omap_update: "fst ` set (omap_update k v m) = insert k (fst ` set m)"
  by (induction k v m rule: omap_update.induct) auto

lemma omap_wf_update [wf_intros]: "omap_wf m \<Longrightarrow> omap_wf (omap_update k v m)"
proof (induction k v m rule: omap_update.induct)
  case (1 k v)
  then show ?case by (simp add: omap_wf_def)
next
  case (2 k v k' v' m)
  show ?case
  proof (cases "k < k' \<or> k = k'")
    case True
    with 2(2) show ?thesis by (auto simp: omap_wf_Cons)
  next
    case False
    have "\<forall>x \<in> fst ` set (omap_update k v m). k' < x"
      using 2(2) False by (auto simp: keys_omap_update omap_wf_Cons)
    with 2 False show ?thesis by (auto simp: omap_wf_Cons)
  qed
qed

lemma map_of_omap_update [container_simps]:
  "omap_wf m \<Longrightarrow> map_of (omap_update k v m) = (map_of m)(k \<mapsto> v)"
proof (induction k v m rule: omap_update.induct)
  case (1 k v)
  then show ?case by simp
next
  case (2 k v k' v' m)
  then show ?case
    by (auto simp: omap_wf_Cons fun_eq_iff)
qed

lemma omap_wf_erase [wf_intros]: "omap_wf m \<Longrightarrow> omap_wf (omap_erase k m)"
  by (induction m) (auto simp: omap_erase_def omap_wf_Cons)

lemma map_of_omap_erase [container_simps]: "map_of (omap_erase k m) = (map_of m)(k := None)"
  by (induction m) (auto simp: omap_erase_def fun_eq_iff)

text \<open>A property of all entries, kept opaque for the simplifier.\<close>

lemma list_all_omap_update: "list_all P m \<Longrightarrow> P (k, v) \<Longrightarrow> list_all P (omap_update k v m)"
  by (induction k v m rule: omap_update.induct) auto

lemma list_all_omap_erase: "list_all P m \<Longrightarrow> list_all P (omap_erase k m)"
  by (auto simp: list_all_iff omap_erase_def)

lemma list_all_map_of: "list_all P m \<Longrightarrow> map_of m k = Some v \<Longrightarrow> P (k, v)"
  by (auto simp: list_all_iff dest: map_of_SomeD)

subsection \<open>Association lists\<close>

lemma map_of_alist_update [container_simps]: "map_of (AList.update k v m) = (map_of m)(k \<mapsto> v)"
  by (rule update_conv')

lemma map_of_alist_delete [container_simps]: "map_of (AList.delete k m) = (map_of m)(k := None)"
  by (rule delete_conv')

lemma alist_update_update [container_simps]: "AList.update k v (AList.update k w m) = AList.update k v m"
  by (induction m) auto

lemma distinct_alist_update [wf_intros]: "distinct (map fst m) \<Longrightarrow> distinct (map fst (AList.update k v m))"
  by (rule distinct_update)

lemma distinct_alist_delete [wf_intros]: "distinct (map fst m) \<Longrightarrow> distinct (map fst (AList.delete k m))"
  by (rule distinct_delete)

subsection \<open>Lists\<close>

lemma last_takeWhile_rev_split:
  "xs = rev (dropWhile P (rev xs)) @ rev (takeWhile P (rev xs))"
  by (metis rev_append rev_rev_ident takeWhile_dropWhile_id)

end
