(* ===== verification/Keeper_Types.thy ===== *)
theory Keeper_Types
  imports Prelude
begin

section \<open>The vocabulary of Keeper: errors, ACLs, statistics, requests and responses\<close>

text \<open>
  The data types of \<open>src/src/Common/ZooKeeper/IKeeper.h\<close>, \<open>ZooKeeperCommon.h\<close> and
  \<open>ZooKeeperConstants.h\<close>. Field names carry a prefix where two structures share a name.
  Signed machine integers of the protocol are \<open>int\<close> (their overflow is undefined in C++ and no
  theorem depends on it); unsigned 64-bit digests are \<open>64 word\<close>, so that they wrap.
\<close>

datatype zk_error =
    ZOK
  | ZSYSTEMERROR | ZRUNTIMEINCONSISTENCY | ZDATAINCONSISTENCY | ZCONNECTIONLOSS
  | ZMARSHALLINGERROR | ZUNIMPLEMENTED | ZOPERATIONTIMEOUT | ZBADARGUMENTS | ZINVALIDSTATE
  | ZOUTOFMEMORY
  | ZAPIERROR
  | ZNONODE | ZNOAUTH | ZBADVERSION | ZNOCHILDRENFOREPHEMERALS | ZNODEEXISTS | ZNOTEMPTY
  | ZSESSIONEXPIRED | ZINVALIDCALLBACK | ZINVALIDACL | ZAUTHFAILED | ZCLOSING | ZNOTHING
  | ZSESSIONMOVED | ZNOTREADONLY

fun error_code :: "zk_error \<Rightarrow> int" where
  "error_code ZOK = 0"
| "error_code ZSYSTEMERROR = -1"
| "error_code ZRUNTIMEINCONSISTENCY = -2"
| "error_code ZDATAINCONSISTENCY = -3"
| "error_code ZCONNECTIONLOSS = -4"
| "error_code ZMARSHALLINGERROR = -5"
| "error_code ZUNIMPLEMENTED = -6"
| "error_code ZOPERATIONTIMEOUT = -7"
| "error_code ZBADARGUMENTS = -8"
| "error_code ZINVALIDSTATE = -9"
| "error_code ZOUTOFMEMORY = -10"
| "error_code ZAPIERROR = -100"
| "error_code ZNONODE = -101"
| "error_code ZNOAUTH = -102"
| "error_code ZBADVERSION = -103"
| "error_code ZNOCHILDRENFOREPHEMERALS = -108"
| "error_code ZNODEEXISTS = -110"
| "error_code ZNOTEMPTY = -111"
| "error_code ZSESSIONEXPIRED = -112"
| "error_code ZINVALIDCALLBACK = -113"
| "error_code ZINVALIDACL = -114"
| "error_code ZAUTHFAILED = -115"
| "error_code ZCLOSING = -116"
| "error_code ZNOTHING = -117"
| "error_code ZSESSIONMOVED = -118"
| "error_code ZNOTREADONLY = -119"

definition isHardwareError :: "zk_error \<Rightarrow> bool" where
  "isHardwareError e \<longleftrightarrow>
     e = ZINVALIDSTATE \<or> e = ZSESSIONEXPIRED \<or> e = ZSESSIONMOVED \<or> e = ZCONNECTIONLOSS
     \<or> e = ZMARSHALLINGERROR \<or> e = ZOPERATIONTIMEOUT \<or> e = ZNOTREADONLY"

definition isUserError :: "zk_error \<Rightarrow> bool" where
  "isUserError e \<longleftrightarrow>
     e = ZNONODE \<or> e = ZBADVERSION \<or> e = ZNOCHILDRENFOREPHEMERALS \<or> e = ZNODEEXISTS
     \<or> e = ZNOTEMPTY"

subsection \<open>ACLs and node statistics\<close>

record acl =
  acl_permissions :: int
  acl_scheme :: string
  acl_ident :: string

type_synonym acls = "acl list"

definition ACL_Read :: int where "ACL_Read = 1"
definition ACL_Write :: int where "ACL_Write = 2"
definition ACL_Create :: int where "ACL_Create = 4"
definition ACL_Delete :: int where "ACL_Delete = 8"
definition ACL_Admin :: int where "ACL_Admin = 16"

record stat =
  st_czxid :: int
  st_mzxid :: int
  st_ctime :: int
  st_mtime :: int
  st_version :: int
  st_cversion :: int
  st_aversion :: int
  st_ephemeralOwner :: int
  st_dataLength :: int
  st_numChildren :: int
  st_pzxid :: int

definition default_stat :: stat where
  "default_stat = \<lparr>st_czxid = 0, st_mzxid = 0, st_ctime = 0, st_mtime = 0, st_version = 0,
     st_cversion = 0, st_aversion = 0, st_ephemeralOwner = 0, st_dataLength = 0,
     st_numChildren = 0, st_pzxid = 0\<rparr>"

subsection \<open>Operation numbers\<close>

datatype op_num =
    OpClose | OpError | OpCreate | OpRemove | OpExists | OpGet | OpSet | OpGetACL | OpSetACL
  | OpSimpleList | OpSync | OpHeartbeat | OpList | OpCheck | OpMulti | OpReconfig | OpMultiRead
  | OpAuth | OpFilteredList | OpCheckNotExists | OpCreateIfNotExists | OpRemoveRecursive
  | OpSessionID

fun op_code :: "op_num \<Rightarrow> int" where
  "op_code OpClose = -11"
| "op_code OpError = -1"
| "op_code OpCreate = 1"
| "op_code OpRemove = 2"
| "op_code OpExists = 3"
| "op_code OpGet = 4"
| "op_code OpSet = 5"
| "op_code OpGetACL = 6"
| "op_code OpSetACL = 7"
| "op_code OpSimpleList = 8"
| "op_code OpSync = 9"
| "op_code OpHeartbeat = 11"
| "op_code OpList = 12"
| "op_code OpCheck = 13"
| "op_code OpMulti = 14"
| "op_code OpReconfig = 16"
| "op_code OpMultiRead = 22"
| "op_code OpAuth = 100"
| "op_code OpFilteredList = 500"
| "op_code OpCheckNotExists = 501"
| "op_code OpCreateIfNotExists = 502"
| "op_code OpRemoveRecursive = 503"
| "op_code OpSessionID = 997"

definition VALID_OPERATIONS :: "op_num list" where
  "VALID_OPERATIONS = [OpClose, OpError, OpCreate, OpRemove, OpExists, OpGet, OpSet, OpSimpleList,
     OpSync, OpHeartbeat, OpList, OpCheck, OpReconfig, OpMulti, OpMultiRead, OpCreateIfNotExists,
     OpAuth, OpSessionID, OpSetACL, OpGetACL, OpFilteredList, OpCheckNotExists, OpRemoveRecursive]"

text \<open>The cast \<open>static_cast<OpNum>\<close> of a valid code is the operation with that code.\<close>

definition getOpNum_raw :: "int \<Rightarrow> op_num result" where
  "getOpNum_raw raw =
     (case find (\<lambda>op. op_code op = raw) VALID_OPERATIONS of
        None \<Rightarrow> Inl (ZkException ''Operation is unknown'')
      | Some op \<Rightarrow> Inr op)"

subsection \<open>Requests\<close>

text \<open>The type of a filtered list is read from a byte without a check, so that it may be any other value.\<close>

datatype list_request_type = LIST_ALL | PERSISTENT_ONLY | EPHEMERAL_ONLY | OTHER_LIST_TYPE int

text \<open>\<open>ZooKeeperListRequest\<close> and its two subclasses.\<close>

datatype list_kind = PlainList | SimpleList | FilteredList list_request_type

datatype multi_type = ReadOps | WriteOps

record create_request =
  cr_path :: path
  cr_data :: string
  cr_is_ephemeral :: bool
  cr_is_sequential :: bool
  cr_acls :: acls
  cr_not_exists :: bool
  cr_parent_cversion :: int

text \<open>
  One constructor per concrete request class. \<open>has_watch\<close> is kept where the wire format
  carries it, \<open>restored_from_zookeeper_log\<close> where the storage reads it.
\<close>

datatype zk_request =
    HeartbeatRequest
  | SyncRequest path
  | ReconfigRequest string string string int
  | AuthRequest int string string
  | CloseRequest
  | CreateRequest create_request
  | RemoveRequest path int bool
  | RemoveRecursiveRequest path "32 word" bool
  | ExistsRequest path bool
  | GetRequest path bool
  | SetRequest path string int
  | ListRequest list_kind path bool
  | CheckRequest path int bool
  | MultiRequest "multi_type option" "zk_request list"
  | SetACLRequest path acls int
  | GetACLRequest path
  | SessionIDRequest int int int

definition keeper_system_path :: path where "keeper_system_path = ''/keeper''"
definition keeper_api_version_path :: path where
  "keeper_api_version_path = keeper_system_path @ ''/api_version''"
definition keeper_api_feature_flags_path :: path where
  "keeper_api_feature_flags_path = keeper_system_path @ ''/feature_flags''"
definition keeper_config_path :: path where
  "keeper_config_path = keeper_system_path @ ''/config''"
definition keeper_availability_zone_path :: path where
  "keeper_availability_zone_path = keeper_system_path @ ''/availability_zone''"

fun getOpNum :: "zk_request \<Rightarrow> op_num" where
  "getOpNum HeartbeatRequest = OpHeartbeat"
| "getOpNum (SyncRequest _) = OpSync"
| "getOpNum (ReconfigRequest _ _ _ _) = OpReconfig"
| "getOpNum (AuthRequest _ _ _) = OpAuth"
| "getOpNum CloseRequest = OpClose"
| "getOpNum (CreateRequest c) = (if cr_not_exists c then OpCreateIfNotExists else OpCreate)"
| "getOpNum (RemoveRequest _ _ _) = OpRemove"
| "getOpNum (RemoveRecursiveRequest _ _ _) = OpRemoveRecursive"
| "getOpNum (ExistsRequest _ _) = OpExists"
| "getOpNum (GetRequest _ _) = OpGet"
| "getOpNum (SetRequest _ _ _) = OpSet"
| "getOpNum (ListRequest PlainList _ _) = OpList"
| "getOpNum (ListRequest SimpleList _ _) = OpSimpleList"
| "getOpNum (ListRequest (FilteredList _) _ _) = OpFilteredList"
| "getOpNum (CheckRequest _ _ not_exists) = (if not_exists then OpCheckNotExists else OpCheck)"
| "getOpNum (MultiRequest ty _) = (if ty = None \<or> ty = Some WriteOps then OpMulti else OpMultiRead)"
| "getOpNum (SetACLRequest _ _ _) = OpSetACL"
| "getOpNum (GetACLRequest _) = OpGetACL"
| "getOpNum (SessionIDRequest _ _ _) = OpSessionID"

fun getPath :: "zk_request \<Rightarrow> path" where
  "getPath (SyncRequest p) = p"
| "getPath (ReconfigRequest _ _ _ _) = keeper_config_path"
| "getPath (CreateRequest c) = cr_path c"
| "getPath (RemoveRequest p _ _) = p"
| "getPath (RemoveRecursiveRequest p _ _) = p"
| "getPath (ExistsRequest p _) = p"
| "getPath (GetRequest p _) = p"
| "getPath (SetRequest p _ _) = p"
| "getPath (ListRequest _ p _) = p"
| "getPath (CheckRequest p _ _) = p"
| "getPath (SetACLRequest p _ _) = p"
| "getPath (GetACLRequest p) = p"
| "getPath _ = []"

fun has_watch :: "zk_request \<Rightarrow> bool" where
  "has_watch (ExistsRequest _ w) = w"
| "has_watch (GetRequest _ w) = w"
| "has_watch (ListRequest _ _ w) = w"
| "has_watch _ = False"

fun isReadRequest :: "zk_request \<Rightarrow> bool" where
  "isReadRequest (ExistsRequest _ _) = True"
| "isReadRequest (GetRequest _ _) = True"
| "isReadRequest (ListRequest _ _ _) = True"
| "isReadRequest (CheckRequest _ _ _) = True"
| "isReadRequest (GetACLRequest _) = True"
| "isReadRequest (MultiRequest ty rs) = (getOpNum (MultiRequest ty rs) = OpMultiRead)"
| "isReadRequest _ = False"

subsection \<open>Responses\<close>

definition WATCH_XID :: int where "WATCH_XID = -1"

datatype watch_event = EvCreated | EvDeleted | EvChanged | EvChild | EvSession | EvNotWatching

datatype watch_state =
    EXPIRED_SESSION | AUTH_FAILED | CONNECTING | ASSOCIATING | CONNECTED | READONLY | NOTCONNECTED

text \<open>
  The body of a response; the error code, \<open>xid\<close> and \<open>zxid\<close> are its header. A response whose
  error is not \<open>ZOK\<close> keeps the default body of its class.
\<close>

datatype response_body =
    HeartbeatBody
  | SyncBody path
  | ReconfigBody string stat
  | AuthBody
  | CloseBody
  | CreateBody path
  | CreateIfNotExistsBody path
  | RemoveBody
  | RemoveRecursiveBody
  | ExistsBody stat
  | GetBody string stat
  | SetBody stat
  | ListBody "string list" stat
  | SimpleListBody "string list" stat
  | CheckBody
  | CheckNotExistsBody
  | ErrorBody
  | SetACLBody stat
  | GetACLBody acls stat
  | MultiWriteBody "zk_response list"
  | MultiReadBody "zk_response list"
  | WatchBody watch_event watch_state path
  | SessionIDBody int int int
and zk_response = Response (resp_error: zk_error) (resp_xid: int) (resp_zxid: int) (resp_body: response_body)

fun response_getOpNum :: "response_body \<Rightarrow> op_num option" where
  "response_getOpNum HeartbeatBody = Some OpHeartbeat"
| "response_getOpNum (SyncBody _) = Some OpSync"
| "response_getOpNum (ReconfigBody _ _) = Some OpReconfig"
| "response_getOpNum AuthBody = Some OpAuth"
| "response_getOpNum CloseBody = Some OpClose"
| "response_getOpNum (CreateBody _) = Some OpCreate"
| "response_getOpNum (CreateIfNotExistsBody _) = Some OpCreateIfNotExists"
| "response_getOpNum RemoveBody = Some OpRemove"
| "response_getOpNum RemoveRecursiveBody = Some OpRemoveRecursive"
| "response_getOpNum (ExistsBody _) = Some OpExists"
| "response_getOpNum (GetBody _ _) = Some OpGet"
| "response_getOpNum (SetBody _) = Some OpSet"
| "response_getOpNum (ListBody _ _) = Some OpList"
| "response_getOpNum (SimpleListBody _ _) = Some OpSimpleList"
| "response_getOpNum CheckBody = Some OpCheck"
| "response_getOpNum CheckNotExistsBody = Some OpCheckNotExists"
| "response_getOpNum ErrorBody = Some OpError"
| "response_getOpNum (SetACLBody _) = Some OpSetACL"
| "response_getOpNum (GetACLBody _ _) = Some OpGetACL"
| "response_getOpNum (MultiWriteBody _) = Some OpMulti"
| "response_getOpNum (MultiReadBody _) = Some OpMultiRead"
| "response_getOpNum (WatchBody _ _ _) = None"
| "response_getOpNum (SessionIDBody _ _ _) = Some OpSessionID"

text \<open>\<open>makeResponse\<close>: the response object of the class that belongs to a request.\<close>

fun makeResponse :: "zk_request \<Rightarrow> zk_response" where
  "makeResponse HeartbeatRequest = Response ZOK 0 0 HeartbeatBody"
| "makeResponse (SyncRequest _) = Response ZOK 0 0 (SyncBody [])"
| "makeResponse (ReconfigRequest _ _ _ _) = Response ZOK 0 0 (ReconfigBody [] default_stat)"
| "makeResponse (AuthRequest _ _ _) = Response ZOK 0 0 AuthBody"
| "makeResponse CloseRequest = Response ZOK 0 0 CloseBody"
| "makeResponse (CreateRequest c) =
     Response ZOK 0 0 (if cr_not_exists c then CreateIfNotExistsBody [] else CreateBody [])"
| "makeResponse (RemoveRequest _ _ _) = Response ZOK 0 0 RemoveBody"
| "makeResponse (RemoveRecursiveRequest _ _ _) = Response ZOK 0 0 RemoveRecursiveBody"
| "makeResponse (ExistsRequest _ _) = Response ZOK 0 0 (ExistsBody default_stat)"
| "makeResponse (GetRequest _ _) = Response ZOK 0 0 (GetBody [] default_stat)"
| "makeResponse (SetRequest _ _ _) = Response ZOK 0 0 (SetBody default_stat)"
| "makeResponse (ListRequest SimpleList _ _) = Response ZOK 0 0 (SimpleListBody [] default_stat)"
| "makeResponse (ListRequest _ _ _) = Response ZOK 0 0 (ListBody [] default_stat)"
| "makeResponse (CheckRequest _ _ not_exists) =
     Response ZOK 0 0 (if not_exists then CheckNotExistsBody else CheckBody)"
| "makeResponse (MultiRequest ty rs) =
     Response ZOK 0 0
       (if getOpNum (MultiRequest ty rs) = OpMulti then MultiWriteBody (map makeResponse rs)
        else MultiReadBody (map makeResponse rs))"
| "makeResponse (SetACLRequest _ _ _) = Response ZOK 0 0 (SetACLBody default_stat)"
| "makeResponse (GetACLRequest _) = Response ZOK 0 0 (GetACLBody [] default_stat)"
| "makeResponse (SessionIDRequest _ _ _) = Response ZOK 0 0 (SessionIDBody 0 0 0)"

record response_for_session =
  rfs_session_id :: int
  rfs_response :: zk_response

subsection \<open>Facts about the vocabulary\<close>

definition all_errors :: "zk_error list" where
  "all_errors = [ZOK, ZSYSTEMERROR, ZRUNTIMEINCONSISTENCY, ZDATAINCONSISTENCY, ZCONNECTIONLOSS,
     ZMARSHALLINGERROR, ZUNIMPLEMENTED, ZOPERATIONTIMEOUT, ZBADARGUMENTS, ZINVALIDSTATE,
     ZOUTOFMEMORY, ZAPIERROR, ZNONODE, ZNOAUTH, ZBADVERSION, ZNOCHILDRENFOREPHEMERALS,
     ZNODEEXISTS, ZNOTEMPTY, ZSESSIONEXPIRED, ZINVALIDCALLBACK, ZINVALIDACL, ZAUTHFAILED,
     ZCLOSING, ZNOTHING, ZSESSIONMOVED, ZNOTREADONLY]"

lemma all_errors_complete: "e \<in> set all_errors"
  by (cases e) (simp_all add: all_errors_def)

lemma error_code_inject: "error_code e = error_code e' \<longleftrightarrow> e = e'"
proof -
  have "distinct (map error_code all_errors)"
    by (simp add: all_errors_def)
  then have "inj_on error_code (set all_errors)"
    by (simp add: distinct_map)
  then show ?thesis
    using all_errors_complete by (auto dest: inj_onD)
qed

lemma VALID_OPERATIONS_complete: "op \<in> set VALID_OPERATIONS"
  by (cases op) (simp_all add: VALID_OPERATIONS_def)

lemma op_code_inject: "op_code a = op_code b \<longleftrightarrow> a = b"
proof -
  have "distinct (map op_code VALID_OPERATIONS)"
    by (simp add: VALID_OPERATIONS_def)
  then have "inj_on op_code (set VALID_OPERATIONS)"
    by (simp add: distinct_map)
  then show ?thesis
    using VALID_OPERATIONS_complete by (auto dest: inj_onD)
qed

lemma getOpNum_raw_op_code: "getOpNum_raw (op_code op) = Inr op"
proof -
  obtain op' where "find (\<lambda>x. op_code x = op_code op) VALID_OPERATIONS = Some op'"
    using VALID_OPERATIONS_complete [of op] find_None_iff [of "\<lambda>x. op_code x = op_code op" VALID_OPERATIONS]
    by (cases "find (\<lambda>x. op_code x = op_code op) VALID_OPERATIONS") auto
  moreover from this have "op_code op' = op_code op"
    by (auto simp: find_Some_iff)
  ultimately show ?thesis
    by (simp add: getOpNum_raw_def op_code_inject)
qed

lemma user_errors_are_not_hardware_errors: "isUserError e \<Longrightarrow> \<not> isHardwareError e"
  by (auto simp: isUserError_def isHardwareError_def)

end
