(* ===== verification/Keeper_Paths.thy ===== *)
theory Keeper_Paths
  imports Keeper_Types
begin

section \<open>Node paths\<close>

text \<open>
  \<open>findLastSlash\<close>, \<open>parentNodePath\<close> and \<open>getBaseNodeName\<close> of
  \<open>src/src/Coordination/KeeperCommon.cpp\<close>, \<open>matchPath\<close> of
  \<open>src/src/Common/ZooKeeper/ZooKeeperCommon.cpp\<close> and the path operator of
  \<open>std::filesystem\<close> that \<open>KeeperStorage.cpp\<close> applies to a node and a child name.
  The lemmas characterise them by the decomposition of a path at its last slash and show that
  a path without empty components is rebuilt from its parent and its base name.
\<close>

definition slash :: char where "slash = CHR ''/''"

subsection \<open>Parent and base name\<close>

text \<open>The loop of \<open>findLastSlash\<close> from index \<open>i\<close> down to 1.\<close>

fun find_slash_down :: "string \<Rightarrow> nat \<Rightarrow> nat option" where
  "find_slash_down p 0 = None"
| "find_slash_down p (Suc i) = (if p ! Suc i = slash then Some (Suc i) else find_slash_down p i)"

text \<open>\<open>None\<close> stands for \<open>std::string::npos\<close>.\<close>

definition findLastSlash :: "string \<Rightarrow> nat option" where
  "findLastSlash p =
     (if p = [] then None
      else case find_slash_down p (length p - 1) of
             Some i \<Rightarrow> Some i
           | None \<Rightarrow> if p ! 0 = slash then Some 0 else None)"

text \<open>
  With \<open>npos\<close> the code builds a \<open>StringRef\<close> of length \<open>npos\<close> over the bytes of the path, one that runs past
  the end of the string: every use of its bytes is undefined.
\<close>

definition parentNodePath :: "path \<Rightarrow> path result" where
  "parentNodePath p =
     (case findLastSlash p of
        None \<Rightarrow> Inl (Undefined ''string reference past the end of the path'')
      | Some i \<Rightarrow> Inr (if i > 0 then take i p else [slash]))"

text \<open>The parent of a path with a slash, for specifications.\<close>

definition parentOf :: "path \<Rightarrow> path" where
  "parentOf p = (case parentNodePath p of Inr q \<Rightarrow> q | Inl _ \<Rightarrow> p)"

text \<open>Here \<open>npos + 1\<close> wraps to 0: the base name of a path without a slash is the path.\<close>

definition getBaseNodeName :: "path \<Rightarrow> string" where
  "getBaseNodeName p =
     (case findLastSlash p of
        None \<Rightarrow> p
      | Some i \<Rightarrow> drop (i + 1) p)"

subsection \<open>Matching a path against the system path\<close>

datatype PathMatchResult = NOT_MATCH | EXACT | IS_CHILD

fun mismatch :: "'a list \<Rightarrow> 'a list \<Rightarrow> 'a list \<times> 'a list" where
  "mismatch (x # xs) (y # ys) = (if x = y then mismatch xs ys else (x # xs, y # ys))"
| "mismatch xs ys = (xs, ys)"

definition remove_slash_suffix :: "string \<Rightarrow> string" where
  "remove_slash_suffix p = (if p \<noteq> [] \<and> last p = slash then butlast p else p)"

definition matchPath :: "path \<Rightarrow> path \<Rightarrow> PathMatchResult" where
  "matchPath p match_to =
     (case mismatch (remove_slash_suffix p) (remove_slash_suffix match_to) of
        (rest, rest_to) \<Rightarrow>
          if rest_to \<noteq> [] then NOT_MATCH
          else case rest of [] \<Rightarrow> EXACT | c # _ \<Rightarrow> if c = slash then IS_CHILD else NOT_MATCH)"

subsection \<open>Joining a node and a child name\<close>

text \<open>\<open>std::filesystem::path(p) / name\<close>, as a generic string.\<close>

definition fs_join :: "path \<Rightarrow> string \<Rightarrow> path" where
  "fs_join p name =
     (if name \<noteq> [] \<and> hd name = slash then name
      else if p = [] \<or> last p = slash then p @ name
      else p @ slash # name)"

subsection \<open>Decomposition at the last slash\<close>

lemma find_slash_down_last:
  assumes "slash \<notin> set b" and "i \<le> length b"
  shows "find_slash_down (q @ slash # b) (length q + i) =
           (if length q = 0 then None else Some (length q))"
  using assms(2)
proof (induction i)
  case 0
  then show ?case by (cases "length q") (auto simp: nth_append)
next
  case (Suc i)
  from Suc.prems assms(1) have "b ! i \<noteq> slash"
    by (metis Suc_le_lessD nth_mem)
  with Suc show ?case
    by (simp add: nth_append nth_Cons')
qed

lemma findLastSlash_split:
  assumes "slash \<notin> set b"
  shows "findLastSlash (q @ slash # b) = Some (length q)"
  using find_slash_down_last [OF assms, of "length b" q]
  by (cases q) (simp_all add: findLastSlash_def)

lemma parentOf_split:
  assumes "slash \<notin> set b"
  shows "parentOf (q @ slash # b) = (if q = [] then [slash] else q)"
  by (simp add: parentOf_def parentNodePath_def findLastSlash_split [OF assms])

lemma getBaseNodeName_split:
  assumes "slash \<notin> set b"
  shows "getBaseNodeName (q @ slash # b) = b"
  by (simp add: getBaseNodeName_def findLastSlash_split [OF assms])

lemma path_split_last_slash:
  assumes "slash \<in> set p"
  obtains q b where "p = q @ slash # b" and "slash \<notin> set b"
  using split_list_last [OF assms] by blast

lemma parentNodePath_slash:
  assumes "slash \<in> set p"
  shows "parentNodePath p = Inr (parentOf p)"
proof -
  obtain q b where "p = q @ slash # b" "slash \<notin> set b" by (rule path_split_last_slash [OF assms])
  then show ?thesis by (simp add: parentOf_def parentNodePath_def findLastSlash_split)
qed

lemma parentNodePath_neq: "parentOf p \<noteq> p \<Longrightarrow> parentNodePath p = Inr (parentOf p)"
  by (auto simp: parentOf_def split: sum.splits)

lemma parentOf_Inr: "parentNodePath p = Inr q \<Longrightarrow> parentOf p = q"
  by (simp add: parentOf_def)

lemma findLastSlash_None:
  assumes "slash \<notin> set p"
  shows "findLastSlash p = None"
proof -
  have "find_slash_down p i = None" if "i < length p" for i
    using that assms by (induction i) (auto simp: nth_mem dest: nth_mem)
  with assms show ?thesis by (cases p) (auto simp: findLastSlash_def)
qed

text \<open>The reference is usable for the paths with a slash, and only for them.\<close>

lemma parentNodePath_iff: "(\<exists>q. parentNodePath p = Inr q) \<longleftrightarrow> slash \<in> set p"
  by (cases "slash \<in> set p") (simp_all add: parentNodePath_slash, simp add: parentNodePath_def findLastSlash_None)

lemma parent_neq_slash: "parentOf p \<noteq> p \<Longrightarrow> slash \<in> set p"
  using parentNodePath_neq parentNodePath_iff by blast

text \<open>
  A canonical path: the root, or a path that begins with a slash, has no empty component and
  does not end with a slash.
\<close>

fun canonical_rest :: "string \<Rightarrow> bool" where
  "canonical_rest [] = False"
| "canonical_rest [c] = (c \<noteq> slash)"
| "canonical_rest (c # d # r) = (\<not> (c = slash \<and> d = slash) \<and> canonical_rest (d # r))"

definition canonical_path :: "path \<Rightarrow> bool" where
  "canonical_path p \<longleftrightarrow> p = [slash] \<or> (p \<noteq> [] \<and> hd p = slash \<and> canonical_rest p)"

lemma canonical_path_slash: "canonical_path p \<Longrightarrow> slash \<in> set p"
  by (cases p) (auto simp: canonical_path_def)

lemmas parentNodePath_canonical = parentNodePath_slash [OF canonical_path_slash]

lemma canonical_rest_append:
  "canonical_rest (q @ r) \<Longrightarrow> r \<noteq> [] \<Longrightarrow> canonical_rest r"
  by (induction q rule: canonical_rest.induct) (auto simp: neq_Nil_conv)

lemma canonical_rest_prefix:
  assumes "canonical_rest (q @ slash # b)" and "q \<noteq> []"
  shows "canonical_rest q"
  using assms
proof (induction q rule: canonical_rest.induct)
  case (2 c)
  then show ?case by (cases b) auto
qed auto

lemma canonical_split:
  assumes "canonical_path p" and "p \<noteq> [slash]"
  obtains q b where "p = q @ slash # b" and "slash \<notin> set b" and "b \<noteq> []"
    and "q = [] \<or> (canonical_path q \<and> q \<noteq> [slash])"
proof -
  from assms have p: "p \<noteq> []" "hd p = slash" "canonical_rest p"
    by (auto simp: canonical_path_def)
  then have "slash \<in> set p" by (metis hd_in_set)
  then obtain q b where qb: "p = q @ slash # b" "slash \<notin> set b"
    by (rule path_split_last_slash)
  have b: "b \<noteq> []"
    using canonical_rest_append [of q "slash # b"] p(3) qb(1) by auto
  have "q = [] \<or> (canonical_path q \<and> q \<noteq> [slash])"
  proof (cases "q = []")
    case False
    with p qb(1) have "hd q = slash" "canonical_rest q"
      by (auto intro: canonical_rest_prefix)
    then show ?thesis by (auto simp: canonical_path_def)
  qed simp
  with qb b that show thesis by blast
qed

lemma canonical_parent:
  assumes "canonical_path p"
  shows "canonical_path (parentOf p)"
proof (cases "p = [slash]")
  case True
  then show ?thesis
    using parentOf_split [of "[]" "[]"] by (simp add: canonical_path_def)
next
  case False
  with assms obtain q b where "p = q @ slash # b" "slash \<notin> set b"
      "q = [] \<or> canonical_path q"
    by (metis canonical_split)
  then show ?thesis
    by (auto simp: parentOf_split canonical_path_def)
qed

lemma parent_root [simp]: "parentOf [slash] = [slash]"
  using parentOf_split [of "[]" "[]"] by simp

lemma base_root [simp]: "getBaseNodeName [slash] = []"
  using getBaseNodeName_split [of "[]" "[]"] by simp

lemma parent_neq_self:
  assumes "canonical_path p" and "p \<noteq> [slash]"
  shows "parentOf p \<noteq> p" and "length (parentOf p) < length p"
proof -
  from assms obtain q b where "p = q @ slash # b" "slash \<notin> set b" "b \<noteq> []"
    by (metis canonical_split)
  then show "length (parentOf p) < length p"
    by (auto simp: parentOf_split)
  then show "parentOf p \<noteq> p" by auto
qed

lemma base_name_nonempty:
  assumes "canonical_path p" and "p \<noteq> [slash]"
  shows "getBaseNodeName p \<noteq> []" and "slash \<notin> set (getBaseNodeName p)"
proof -
  from assms obtain q b where "p = q @ slash # b" "slash \<notin> set b" "b \<noteq> []"
    by (metis canonical_split)
  then show "getBaseNodeName p \<noteq> []" and "slash \<notin> set (getBaseNodeName p)"
    by (simp_all add: getBaseNodeName_split)
qed

text \<open>Joining the parent and the base name of a canonical path gives the path back.\<close>

lemma fs_join_parent_base:
  assumes "canonical_path p" and "p \<noteq> [slash]"
  shows "fs_join (parentOf p) (getBaseNodeName p) = p"
proof -
  from assms obtain q b where qb: "p = q @ slash # b" "slash \<notin> set b" "b \<noteq> []"
      "q = [] \<or> (canonical_path q \<and> q \<noteq> [slash])"
    by (metis canonical_split)
  have "q \<noteq> [] \<Longrightarrow> last q \<noteq> slash"
  proof -
    assume "q \<noteq> []"
    with qb(4) have "canonical_rest q" by (auto simp: canonical_path_def)
    with \<open>q \<noteq> []\<close> show "last q \<noteq> slash"
      using canonical_rest_append [of "butlast q" "[last q]"] by simp
  qed
  moreover have "hd b \<noteq> slash"
    using qb(2,3) by (metis hd_in_set)
  ultimately show ?thesis
    using qb by (auto simp: fs_join_def parentOf_split getBaseNodeName_split)
qed

lemma canonical_path_inj:
  assumes "canonical_path p" "p \<noteq> [slash]" "canonical_path p'" "p' \<noteq> [slash]"
    and "parentOf p = parentOf p'" "getBaseNodeName p = getBaseNodeName p'"
  shows "p = p'"
  using assms fs_join_parent_base by metis

subsection \<open>What \<open>matchPath\<close> decides\<close>

lemma mismatch_append_left: "mismatch (xs @ ys) xs = (ys, [])"
  by (induction xs) (cases ys; simp)+

lemma mismatch_snd_Nil:
  "snd (mismatch xs ys) = [] \<Longrightarrow> xs = ys @ fst (mismatch xs ys)"
  by (induction xs ys rule: mismatch.induct) (auto split: if_splits)

lemma matchPath_EXACT_iff:
  "matchPath p m = EXACT \<longleftrightarrow> remove_slash_suffix p = remove_slash_suffix m"
proof
  assume "matchPath p m = EXACT"
  then have "snd (mismatch (remove_slash_suffix p) (remove_slash_suffix m)) = []"
      and "fst (mismatch (remove_slash_suffix p) (remove_slash_suffix m)) = []"
    by (auto simp: matchPath_def split: prod.splits if_splits list.splits)
  then show "remove_slash_suffix p = remove_slash_suffix m"
    using mismatch_snd_Nil by fastforce
next
  assume "remove_slash_suffix p = remove_slash_suffix m"
  then show "matchPath p m = EXACT"
    using mismatch_append_left [of "remove_slash_suffix m" "[]"] by (simp add: matchPath_def)
qed

lemma matchPath_IS_CHILD_iff:
  "matchPath p m = IS_CHILD \<longleftrightarrow>
     (\<exists>r. remove_slash_suffix p = remove_slash_suffix m @ slash # r)"
proof
  assume m: "matchPath p m = IS_CHILD"
  then obtain r where
      "mismatch (remove_slash_suffix p) (remove_slash_suffix m) = (slash # r, [])"
    by (auto simp: matchPath_def split: prod.splits if_splits list.splits)
  then show "\<exists>r. remove_slash_suffix p = remove_slash_suffix m @ slash # r"
    using mismatch_snd_Nil [of "remove_slash_suffix p" "remove_slash_suffix m"] by auto
next
  assume "\<exists>r. remove_slash_suffix p = remove_slash_suffix m @ slash # r"
  then obtain r where "remove_slash_suffix p = remove_slash_suffix m @ slash # r" ..
  then show "matchPath p m = IS_CHILD"
    using mismatch_append_left [of "remove_slash_suffix m" "slash # r"]
    by (simp add: matchPath_def)
qed

end
