(* ===== verification/Sip_Hash.thy ===== *)
theory Sip_Hash
  imports Prelude
begin

unbundle bit_operations_syntax

section \<open>SipHash\<close>

text \<open>
  The streaming SipHash-2-4 of \<open>src/src/Common/SipHash.h\<close>, on a little-endian machine. The union
  of \<open>current_word\<close> and \<open>current_bytes\<close> is the list of its eight bytes; all state words wrap at
  64 bits. The main result is that the class may be fed in any portions: \<open>sip_update\<close> absorbs
  the bytes one by one, whatever is left over from earlier calls.
\<close>

type_synonym byte = "8 word"

record sip_hash =
  sh_v0 :: "64 word"
  sh_v1 :: "64 word"
  sh_v2 :: "64 word"
  sh_v3 :: "64 word"
  sh_cnt :: "64 word"
  sh_is_reference_128 :: bool
  sh_current_bytes :: "byte list"

definition zero_bytes :: "byte list" where
  "zero_bytes = replicate 8 0"

definition le_load :: "byte list \<Rightarrow> 64 word" where
  "le_load bs = foldr (\<lambda>b acc. ucast b OR push_bit 8 acc) bs 0"

definition sip_init :: "64 word \<Rightarrow> 64 word \<Rightarrow> bool \<Rightarrow> sip_hash" where
  "sip_init key0 key1 is_reference =
     \<lparr>sh_v0 = 0x736f6d6570736575 XOR key0,
      sh_v1 = (0x646f72616e646f6d XOR key1) XOR (if is_reference then 0xee else 0),
      sh_v2 = 0x6c7967656e657261 XOR key0,
      sh_v3 = 0x7465646279746573 XOR key1,
      sh_cnt = 0,
      sh_is_reference_128 = is_reference,
      sh_current_bytes = zero_bytes\<rparr>"

text \<open>\<open>std::rotl\<close> on 64 bits.\<close>

definition rotl64 :: "nat \<Rightarrow> 64 word \<Rightarrow> 64 word" where
  "rotl64 n w = push_bit n w OR drop_bit (64 - n) w"

text \<open>The macro \<open>SIPROUND\<close>, line by line.\<close>

definition SIPROUND :: "sip_hash \<Rightarrow> sip_hash" where
  "SIPROUND h =
     (let v0 = sh_v0 h; v1 = sh_v1 h; v2 = sh_v2 h; v3 = sh_v3 h;
          v0 = v0 + v1; v1 = rotl64 13 v1; v1 = v1 XOR v0; v0 = rotl64 32 v0;
          v2 = v2 + v3; v3 = rotl64 16 v3; v3 = v3 XOR v2;
          v0 = v0 + v3; v3 = rotl64 21 v3; v3 = v3 XOR v0;
          v2 = v2 + v1; v1 = rotl64 17 v1; v1 = v1 XOR v2; v2 = rotl64 32 v2
      in h\<lparr>sh_v0 := v0, sh_v1 := v1, sh_v2 := v2, sh_v3 := v3\<rparr>)"

text \<open>Absorb \<open>current_word\<close>: the block repeated on lines 78 to 81, 129 to 132 and 141 to 144.\<close>

definition sip_compress :: "sip_hash \<Rightarrow> sip_hash" where
  "sip_compress h =
     (let w = le_load (sh_current_bytes h);
          h1 = SIPROUND (SIPROUND (h\<lparr>sh_v3 := sh_v3 h XOR w\<rparr>))
      in h1\<lparr>sh_v0 := sh_v0 h1 XOR w\<rparr>)"

text \<open>The position \<open>cnt & 7\<close> in the current word.\<close>

definition sip_pos :: "sip_hash \<Rightarrow> nat" where
  "sip_pos h = unat (sh_cnt h AND 7)"

text \<open>The first loop of \<open>update\<close>: finish the word that an earlier call began.\<close>

fun sip_fill :: "sip_hash \<Rightarrow> byte list \<Rightarrow> sip_hash \<times> byte list" where
  "sip_fill h [] = (h, [])"
| "sip_fill h (b # data) =
     (if sip_pos h \<noteq> 0
      then sip_fill (h\<lparr>sh_current_bytes := (sh_current_bytes h)[sip_pos h := b], sh_cnt := sh_cnt h + 1\<rparr>) data
      else (h, b # data))"

text \<open>The second loop, over whole words, and the padded remainder.\<close>

function sip_words :: "sip_hash \<Rightarrow> byte list \<Rightarrow> sip_hash" where
  "sip_words h data =
     (if 8 \<le> length data
      then sip_words (sip_compress (h\<lparr>sh_current_bytes := take 8 data\<rparr>)) (drop 8 data)
      else h\<lparr>sh_current_bytes := data @ replicate (8 - length data) 0\<rparr>)"
  by pat_completeness auto
termination
  by (relation "measure (\<lambda>(h, data). length data)") auto

declare sip_words.simps [simp del]

definition sip_update :: "sip_hash \<Rightarrow> byte list \<Rightarrow> sip_hash" where
  "sip_update h data =
     (let whole = (\<lambda>h data. sip_words (h\<lparr>sh_cnt := sh_cnt h + of_nat (length data)\<rparr>) data) in
      if sip_pos h \<noteq> 0
      then (let (h1, rest) = sip_fill h data in
            if sip_pos h1 \<noteq> 0 then h1 else whole (sip_compress h1) rest)
      else whole h data)"

definition sip_finalize :: "sip_hash \<Rightarrow> sip_hash" where
  "sip_finalize h =
     (let h1 = sip_compress (h\<lparr>sh_current_bytes := (sh_current_bytes h)[7 := ucast (sh_cnt h)]\<rparr>);
          h2 = h1\<lparr>sh_v2 := sh_v2 h1 XOR (if sh_is_reference_128 h1 then 0xee else 0xff)\<rparr>
      in SIPROUND (SIPROUND (SIPROUND (SIPROUND h2))))"

definition get64 :: "sip_hash \<Rightarrow> 64 word" where
  "get64 h = (let f = sip_finalize h in sh_v0 f XOR sh_v1 f XOR sh_v2 f XOR sh_v3 f)"

definition get128 :: "sip_hash \<Rightarrow> 64 word \<times> 64 word" where
  "get128 h = (let f = sip_finalize h in (sh_v0 f XOR sh_v1 f, sh_v2 f XOR sh_v3 f))"

text \<open>The bytes of a string and of an integer of \<open>n\<close> bytes in memory.\<close>

definition str_bytes :: "string \<Rightarrow> byte list" where
  "str_bytes s = map of_char s"

definition le_bytes :: "nat \<Rightarrow> int \<Rightarrow> byte list" where
  "le_bytes n x = map (\<lambda>i. word_of_int (drop_bit (8 * i) x)) [0..<n]"

subsection \<open>Feeding byte by byte\<close>

definition sip_byte :: "byte \<Rightarrow> sip_hash \<Rightarrow> sip_hash" where
  "sip_byte b h =
     (let h1 = h\<lparr>sh_current_bytes := (sh_current_bytes h)[sip_pos h := b], sh_cnt := sh_cnt h + 1\<rparr> in
      if sip_pos h1 = 0 then (sip_compress h1)\<lparr>sh_current_bytes := zero_bytes\<rparr> else h1)"

text \<open>A state between two calls: the bytes after the position are zero.\<close>

definition sip_wf :: "sip_hash \<Rightarrow> bool" where
  "sip_wf h \<longleftrightarrow> length (sh_current_bytes h) = 8
     \<and> drop (sip_pos h) (sh_current_bytes h) = replicate (8 - sip_pos h) 0"

lemma sip_pos_mod: "sip_pos h = unat (sh_cnt h) mod 8"
proof -
  have "sh_cnt h AND 7 = take_bit 3 (sh_cnt h)"
    by (simp add: take_bit_eq_mask mask_eq_exp_minus_1)
  then show ?thesis
    by (simp add: sip_pos_def take_bit_eq_mod unat_mod)
qed

lemma sip_pos_less: "sip_pos h < 8"
  by (simp add: sip_pos_mod)

lemma unat_add_mod8: "unat (c + of_nat n :: 64 word) mod 8 = (unat c + n) mod 8"
proof -
  have dvd: "(8::nat) dvd 2 ^ 64" by simp
  have "unat (c + of_nat n :: 64 word) = (unat c + n) mod 2 ^ 64"
    by (simp add: unat_word_ariths unat_of_nat mod_simps)
  then show ?thesis
    by (simp only: mod_mod_cancel [OF dvd])
qed

lemma sip_pos_add: "sip_pos (h\<lparr>sh_cnt := sh_cnt h + of_nat n\<rparr>) = (sip_pos h + n) mod 8"
  by (simp add: sip_pos_mod unat_add_mod8 mod_simps)

lemma sip_pos_Suc: "sip_pos (h\<lparr>sh_current_bytes := bs, sh_cnt := sh_cnt h + 1\<rparr>) = (if sip_pos h = 7 then 0 else Suc (sip_pos h))"
  using sip_pos_add [of h 1] sip_pos_less [of h] by (auto simp: sip_pos_mod mod_Suc)

lemma sip_pos_upd [simp]:
  "sip_pos (h\<lparr>sh_current_bytes := bs\<rparr>) = sip_pos h"
  "sip_pos (sip_compress h) = sip_pos h"
  by (simp_all add: sip_pos_def sip_compress_def SIPROUND_def Let_def)

lemma sip_compress_frame [simp]:
  "sh_cnt (sip_compress h) = sh_cnt h"
  "sh_current_bytes (sip_compress h) = sh_current_bytes h"
  "sip_compress (h\<lparr>sh_cnt := c\<rparr>) = (sip_compress h)\<lparr>sh_cnt := c\<rparr>"
  by (simp_all add: sip_compress_def SIPROUND_def Let_def)

lemma sip_words_cnt: "sip_words (h\<lparr>sh_cnt := c\<rparr>) data = (sip_words h data)\<lparr>sh_cnt := c\<rparr>"
proof (induction h data rule: sip_words.induct)
  case (1 h data)
  have swap: "h\<lparr>sh_cnt := c, sh_current_bytes := bs\<rparr> = h\<lparr>sh_current_bytes := bs, sh_cnt := c\<rparr>" for bs
    by simp
  from 1 show ?case
    by (cases "8 \<le> length data") (simp_all add: sip_words.simps [of _ data] swap)
qed

text \<open>The old content of the current word does not matter once whole words are read.\<close>

lemma sip_words_bytes: "sip_words (h\<lparr>sh_current_bytes := bs\<rparr>) data = sip_words h data"
  by (simp add: sip_words.simps [of _ data])

text \<open>Bytes that do not complete a word are stored one after the other.\<close>

lemma sip_byte_partial:
  assumes "sip_wf h" "sip_pos h + length xs < 8"
  shows "fold sip_byte xs h =
    h\<lparr>sh_current_bytes := take (sip_pos h) (sh_current_bytes h) @ xs @ replicate (8 - sip_pos h - length xs) 0,
      sh_cnt := sh_cnt h + of_nat (length xs)\<rparr>"
  using assms
proof (induction xs rule: rev_induct)
  case Nil
  have "take (sip_pos h) (sh_current_bytes h) @ replicate (8 - sip_pos h) 0 = sh_current_bytes h"
    using Nil.prems(1) append_take_drop_id [of "sip_pos h" "sh_current_bytes h"] by (simp add: sip_wf_def)
  then show ?case by simp
next
  case (snoc x xs)
  let ?g = "h\<lparr>sh_current_bytes := take (sip_pos h) (sh_current_bytes h) @ xs @ replicate (8 - sip_pos h - length xs) 0,
      sh_cnt := sh_cnt h + of_nat (length xs)\<rparr>"
  have IH: "fold sip_byte xs h = ?g" using snoc by simp
  have len: "length (sh_current_bytes h) = 8" using snoc.prems by (simp add: sip_wf_def)
  have pos: "sip_pos ?g = sip_pos h + length xs"
    using sip_pos_add [of h "length xs"] snoc.prems by (simp add: sip_pos_mod)
  define k where "k = 8 - sip_pos h - Suc (length xs)"
  have k: "8 - sip_pos h - length xs = Suc k"
    using snoc.prems by (simp add: k_def)
  have bytes: "(sh_current_bytes ?g)[sip_pos h + length xs := x]
      = take (sip_pos h) (sh_current_bytes h) @ (xs @ [x]) @ replicate k 0"
    using len sip_pos_less [of h] unfolding k by (simp add: list_update_append)
  have "sip_pos h + length xs \<noteq> 7" using snoc.prems by simp
  with pos have "sip_byte x ?g = ?g\<lparr>sh_current_bytes := (sh_current_bytes ?g)[sip_pos h + length xs := x],
      sh_cnt := sh_cnt ?g + 1\<rparr>"
    unfolding sip_byte_def Let_def sip_pos_Suc by simp
  with IH bytes show ?case
    by (simp add: k_def add.assoc)
qed

text \<open>The byte that completes a word absorbs it.\<close>

lemma sip_byte_word:
  assumes wf: "sip_wf h" and len: "sip_pos h + length xs = 8"
  shows "fold sip_byte xs h =
    (sip_compress (h\<lparr>sh_current_bytes := take (sip_pos h) (sh_current_bytes h) @ xs,
                      sh_cnt := sh_cnt h + of_nat (length xs)\<rparr>))\<lparr>sh_current_bytes := zero_bytes\<rparr>"
proof -
  obtain ys y where xs: "xs = ys @ [y]"
    using len sip_pos_less [of h] by (cases xs rule: rev_cases) auto
  let ?g = "h\<lparr>sh_current_bytes := take (sip_pos h) (sh_current_bytes h) @ ys @ [0],
      sh_cnt := sh_cnt h + of_nat (length ys)\<rparr>"
  have l8: "length (sh_current_bytes h) = 8" using wf by (simp add: sip_wf_def)
  have "8 - sip_pos h - length ys = 1" using len xs by simp
  then have IH: "fold sip_byte ys h = ?g"
    using sip_byte_partial [OF wf, of ys] len xs by simp
  have pos: "sip_pos ?g = 7"
    using sip_pos_add [of h "length ys"] len xs by (simp add: sip_pos_mod)
  have "7 = length (take (sip_pos h) (sh_current_bytes h) @ ys)"
    using l8 len xs by simp
  then have "(sh_current_bytes ?g)[7 := y] = take (sip_pos h) (sh_current_bytes h) @ xs"
    using list_update_length [of "take (sip_pos h) (sh_current_bytes h) @ ys" 0 "[]" y] xs by simp
  then have "sip_byte y ?g = (sip_compress (?g\<lparr>sh_current_bytes := take (sip_pos h) (sh_current_bytes h) @ xs,
      sh_cnt := sh_cnt ?g + 1\<rparr>))\<lparr>sh_current_bytes := zero_bytes\<rparr>"
    unfolding sip_byte_def Let_def sip_pos_Suc pos by simp
  with IH xs show ?thesis by (simp add: add.assoc)
qed

text \<open>The loop over whole words, started at a word boundary.\<close>

lemma sip_words_fold:
  assumes "sip_pos h = 0" "sh_current_bytes h = zero_bytes"
  shows "sip_words (h\<lparr>sh_cnt := sh_cnt h + of_nat (length data)\<rparr>) data = fold sip_byte data h"
  using assms
proof (induction "length data" arbitrary: h data rule: less_induct)
  case less
  have wf: "sip_wf h" using less.prems by (simp add: sip_wf_def zero_bytes_def)
  show ?case
  proof (cases "8 \<le> length data")
    case False
    then show ?thesis
      using sip_byte_partial [OF wf, of data] less.prems by (simp add: sip_words.simps)
  next
    case True
    let ?w = "h\<lparr>sh_current_bytes := take 8 data, sh_cnt := sh_cnt h + 8\<rparr>"
    let ?g = "(sip_compress ?w)\<lparr>sh_current_bytes := zero_bytes\<rparr>"
    have word: "fold sip_byte (take 8 data) h = ?g"
      using sip_byte_word [OF wf, of "take 8 data"] less.prems True by simp
    have pos: "sip_pos ?g = 0"
      using sip_pos_add [of h 8] less.prems by (simp add: sip_pos_mod)
    have cnt: "sh_cnt ?g + of_nat (length (drop 8 data)) = sh_cnt h + of_nat (length data)"
      using True by (simp add: of_nat_diff)
    have "sip_words (h\<lparr>sh_cnt := c\<rparr>) data = sip_words (?g\<lparr>sh_cnt := c\<rparr>) (drop 8 data)" for c
      using True
      by (simp add: sip_words_cnt sip_words_bytes) (simp add: sip_words.simps [of h data])
    then have "sip_words (h\<lparr>sh_cnt := sh_cnt h + of_nat (length data)\<rparr>) data
        = sip_words (?g\<lparr>sh_cnt := sh_cnt ?g + of_nat (length (drop 8 data))\<rparr>) (drop 8 data)"
      by (simp only: cnt)
    also have "\<dots> = fold sip_byte (drop 8 data) ?g"
      by (rule less.hyps) (use True pos in simp_all)
    also have "\<dots> = fold sip_byte (take 8 data @ drop 8 data) h"
      by (simp only: fold_append comp_apply word)
    finally show ?thesis by simp
  qed
qed

text \<open>The loop that finishes a begun word.\<close>

lemma sip_fill_short:
  assumes "0 < sip_pos h" "sip_pos h + length xs < 8" "length (sh_current_bytes h) = 8"
  shows "sip_fill h xs = (h\<lparr>sh_current_bytes := take (sip_pos h) (sh_current_bytes h) @ xs @ drop (sip_pos h + length xs) (sh_current_bytes h),
      sh_cnt := sh_cnt h + of_nat (length xs)\<rparr>, [])"
  using assms
proof (induction xs arbitrary: h)
  case Nil
  then show ?case by simp
next
  case (Cons x xs)
  let ?g = "h\<lparr>sh_current_bytes := (sh_current_bytes h)[sip_pos h := x], sh_cnt := sh_cnt h + 1\<rparr>"
  have pos: "sip_pos ?g = Suc (sip_pos h)"
    using Cons.prems unfolding sip_pos_Suc by simp
  have "sip_fill ?g xs = (?g\<lparr>sh_current_bytes := take (sip_pos ?g) (sh_current_bytes ?g) @ xs @ drop (sip_pos ?g + length xs) (sh_current_bytes ?g),
      sh_cnt := sh_cnt ?g + of_nat (length xs)\<rparr>, [])"
    by (rule Cons.IH) (use Cons.prems pos in simp_all)
  with Cons.prems pos show ?case
    by (simp add: take_Suc_conv_app_nth add.assoc)
qed

lemma sip_fill_long:
  assumes "0 < sip_pos h" "8 \<le> sip_pos h + length xs" "length (sh_current_bytes h) = 8"
  shows "sip_fill h xs = (h\<lparr>sh_current_bytes := take (sip_pos h) (sh_current_bytes h) @ take (8 - sip_pos h) xs,
      sh_cnt := sh_cnt h + of_nat (8 - sip_pos h)\<rparr>, drop (8 - sip_pos h) xs)"
  using assms
proof (induction xs arbitrary: h)
  case Nil
  then show ?case using sip_pos_less [of h] by simp
next
  case (Cons x xs)
  let ?g = "h\<lparr>sh_current_bytes := (sh_current_bytes h)[sip_pos h := x], sh_cnt := sh_cnt h + 1\<rparr>"
  show ?case
  proof (cases "sip_pos h = 7")
    case True
    have "sip_pos ?g = 0" unfolding sip_pos_Suc by (simp add: True)
    moreover have "(sh_current_bytes h)[7 := x] = take 7 (sh_current_bytes h) @ [x]"
      using Cons.prems(3) by (simp add: upd_conv_take_nth_drop)
    ultimately show ?thesis
      using True by (cases xs) simp_all
  next
    case False
    then have pos: "sip_pos ?g = Suc (sip_pos h)" unfolding sip_pos_Suc by simp
    obtain k where k: "8 - sip_pos h = Suc k" "8 - Suc (sip_pos h) = k"
      using sip_pos_less [of h] by (metis Suc_diff_Suc)
    have "sip_fill ?g xs = (?g\<lparr>sh_current_bytes := take (sip_pos ?g) (sh_current_bytes ?g) @ take (8 - sip_pos ?g) xs,
      sh_cnt := sh_cnt ?g + of_nat (8 - sip_pos ?g)\<rparr>, drop (8 - sip_pos ?g) xs)"
      by (rule Cons.IH) (use Cons.prems pos in simp_all)
    with Cons.prems pos k show ?thesis
      by (simp add: take_Suc_conv_app_nth add.assoc sip_pos_less)
  qed
qed

subsection \<open>The class may be fed in any portions\<close>

lemma sip_update_fold:
  assumes wf: "sip_wf h"
  shows "sip_update h data = fold sip_byte data h"
proof -
  define p where "p = sip_pos h"
  have len: "length (sh_current_bytes h) = 8" and zeros: "drop p (sh_current_bytes h) = replicate (8 - p) 0"
    using wf by (simp_all add: sip_wf_def p_def)
  consider "p = 0" | "0 < p" "p + length data < 8" | "0 < p" "8 \<le> p + length data" by linarith
  then show ?thesis
  proof cases
    case 1
    moreover from this have "sh_current_bytes h = zero_bytes"
      using len zeros by (simp add: zero_bytes_def)
    ultimately show ?thesis
      by (simp add: sip_update_def sip_words_fold p_def)
  next
    case 2
    have "drop (p + length data) (sh_current_bytes h) = drop (length data) (drop p (sh_current_bytes h))"
      by (simp add: add.commute)
    then have "drop (p + length data) (sh_current_bytes h) = replicate (8 - p - length data) 0"
      by (simp add: zeros)
    then have fill: "sip_fill h data = (fold sip_byte data h, [])"
      using 2 sip_fill_short [OF _ _ len, of data] sip_byte_partial [OF wf, of data]
      by (simp add: p_def)
    have "sip_pos (fold sip_byte data h) = p + length data"
      using 2 sip_pos_add [of h "length data"] sip_byte_partial [OF wf, of data]
      by (simp add: p_def sip_pos_mod)
    with fill 2 show ?thesis
      by (simp add: sip_update_def p_def)
  next
    case 3
    let ?a = "take (8 - p) data" and ?b = "drop (8 - p) data"
    let ?w = "h\<lparr>sh_current_bytes := take p (sh_current_bytes h) @ ?a, sh_cnt := sh_cnt h + of_nat (8 - p)\<rparr>"
    let ?g = "(sip_compress ?w)\<lparr>sh_current_bytes := zero_bytes\<rparr>"
    have p8: "p < 8" by (simp add: p_def sip_pos_less)
    have la: "length ?a = 8 - p" using 3 by simp
    have fill: "sip_fill h data = (?w, ?b)"
      using 3 sip_fill_long [OF _ _ len, of data] by (simp add: p_def)
    have pos: "sip_pos ?w = 0"
      using sip_pos_add [of h "8 - p"] p8 by (simp add: sip_pos_mod p_def)
    have word: "fold sip_byte ?a h = ?g"
      using sip_byte_word [OF wf, of ?a] la p8 by (simp add: p_def)
    have "sip_update h data = sip_words ((sip_compress ?w)\<lparr>sh_cnt := sh_cnt (sip_compress ?w) + of_nat (length ?b)\<rparr>) ?b"
      using 3 fill pos by (simp add: sip_update_def p_def [symmetric])
    also have "\<dots> = sip_words (?g\<lparr>sh_cnt := sh_cnt ?g + of_nat (length ?b)\<rparr>) ?b"
      by (simp add: sip_words_cnt sip_words_bytes)
    also have "\<dots> = fold sip_byte ?b ?g"
    proof (rule sip_words_fold)
      show "sip_pos ?g = 0" using pos by (simp only: sip_pos_upd)
    qed simp
    also have "\<dots> = fold sip_byte (?a @ ?b) h"
      by (simp only: fold_append comp_apply word)
    finally show ?thesis by simp
  qed
qed

lemma sip_wf_init: "sip_wf (sip_init k0 k1 r)"
  by (simp add: sip_wf_def sip_init_def zero_bytes_def sip_pos_def)

lemma sip_wf_byte: "sip_wf h \<Longrightarrow> sip_wf (sip_byte b h)"
proof -
  assume wf: "sip_wf h"
  show ?thesis
  proof (cases "sip_pos h = 7")
    case True
    have "sip_pos (h\<lparr>sh_current_bytes := bs, sh_cnt := sh_cnt h + 1\<rparr>) = 0" for bs
      unfolding sip_pos_Suc by (simp add: True)
    then show ?thesis
      by (simp add: sip_byte_def sip_wf_def zero_bytes_def)
  next
    case False
    have pos: "sip_pos (h\<lparr>sh_current_bytes := bs, sh_cnt := sh_cnt h + 1\<rparr>) = Suc (sip_pos h)" for bs
      unfolding sip_pos_Suc by (simp add: False)
    have "drop (Suc (sip_pos h)) (sh_current_bytes h) = tl (drop (sip_pos h) (sh_current_bytes h))"
      by (simp add: drop_Suc tl_drop)
    with wf have "drop (Suc (sip_pos h)) (sh_current_bytes h) = replicate (8 - Suc (sip_pos h)) 0"
      by (cases "8 - sip_pos h") (simp_all add: sip_wf_def)
    with wf pos show ?thesis
      by (simp add: sip_byte_def sip_wf_def Let_def)
  qed
qed

lemma sip_wf_fold: "sip_wf h \<Longrightarrow> sip_wf (fold sip_byte xs h)"
  by (induction xs arbitrary: h) (auto intro: sip_wf_byte)

lemma sip_wf_update [wf_intros]: "sip_wf h \<Longrightarrow> sip_wf (sip_update h xs)"
  by (simp add: sip_update_fold sip_wf_fold)

text \<open>
  C28. The hash is independent of how the input is cut into calls of \<open>update\<close>: any list of portions
  leaves the state that a single call on their concatenation leaves.
\<close>

theorem sip_hash_streaming:
  "fold (\<lambda>portion h. sip_update h portion) portions (sip_init key0 key1 r)
     = sip_update (sip_init key0 key1 r) (concat portions)"
proof -
  have "sip_wf h \<Longrightarrow> fold (\<lambda>portion h. sip_update h portion) portions h = sip_update h (concat portions)" for h
  proof (induction portions arbitrary: h)
    case Nil
    then show ?case by (simp add: sip_update_fold)
  next
    case (Cons a portions)
    then show ?case
      by (simp add: sip_wf_update sip_update_fold sip_wf_fold)
  qed
  then show ?thesis by (simp add: sip_wf_init)
qed

end
