(* ===== verification/Keeper_Node.thy ===== *)
theory Keeper_Node
  imports Keeper_Paths Sip_Hash
begin

section \<open>The nodes of the tree\<close>

text \<open>
  \<open>NodeStats\<close> and \<open>KeeperMemNode\<close> of \<open>src/src/Coordination/KeeperStorage.h\<close> and
  \<open>KeeperStorage.cpp\<close>, in the in-memory instance of the storage. The bit field of the creation
  time has 63 bits. The union of the ephemeral owner and the pair of sequence number and number of
  children is a datatype; reading it through the other member reinterprets the 64 bits on a
  little-endian machine, as the code does. The data buffer is kept apart from its size:
  \<open>setData\<close> leaves the buffer in place when the new size is zero.
\<close>

datatype ephemeral_or_children =
    EphemeralOwner int
  | ChildrenInfo int int \<comment> \<open>\<open>seq_num\<close>, \<open>num_children\<close>\<close>

record node_stats =
  ns_czxid :: int
  ns_mzxid :: int
  ns_pzxid :: int
  ns_mtime :: int
  ns_version :: int
  ns_cversion :: int
  ns_aversion :: int
  ns_data_size :: nat
  ns_is_ephemeral :: bool
  ns_ctime :: int
  ns_data :: ephemeral_or_children

definition default_stats :: node_stats where
  "default_stats = \<lparr>ns_czxid = 0, ns_mzxid = 0, ns_pzxid = 0, ns_mtime = 0, ns_version = 0,
     ns_cversion = 0, ns_aversion = 0, ns_data_size = 0, ns_is_ephemeral = False, ns_ctime = 0,
     ns_data = ChildrenInfo 0 0\<rparr>"

fun union_owner :: "ephemeral_or_children \<Rightarrow> int" where
  "union_owner (EphemeralOwner owner) = owner"
| "union_owner (ChildrenInfo seq num) =
     signed_take_bit 63 (take_bit 32 seq + push_bit 32 (take_bit 32 num))"

fun union_seq :: "ephemeral_or_children \<Rightarrow> int" where
  "union_seq (ChildrenInfo seq num) = seq"
| "union_seq (EphemeralOwner owner) = signed_take_bit 31 owner"

fun union_num :: "ephemeral_or_children \<Rightarrow> int" where
  "union_num (ChildrenInfo seq num) = num"
| "union_num (EphemeralOwner owner) = signed_take_bit 31 (drop_bit 32 owner)"

definition isEphemeral :: "node_stats \<Rightarrow> bool" where
  "isEphemeral s = ns_is_ephemeral s"

definition ephemeralOwner :: "node_stats \<Rightarrow> int" where
  "ephemeralOwner s = (if isEphemeral s then union_owner (ns_data s) else 0)"

definition setEphemeralOwner :: "int \<Rightarrow> node_stats \<Rightarrow> node_stats" where
  "setEphemeralOwner owner s = s\<lparr>ns_is_ephemeral := True, ns_data := EphemeralOwner owner\<rparr>"

definition numChildren :: "node_stats \<Rightarrow> int" where
  "numChildren s = (if isEphemeral s then 0 else union_num (ns_data s))"

definition setNumChildren :: "int \<Rightarrow> node_stats \<Rightarrow> node_stats" where
  "setNumChildren n s = s\<lparr>ns_is_ephemeral := False, ns_data := ChildrenInfo (union_seq (ns_data s)) n\<rparr>"

definition increaseNumChildren :: "node_stats \<Rightarrow> node_stats" where
  "increaseNumChildren s = s\<lparr>ns_data := ChildrenInfo (union_seq (ns_data s)) (union_num (ns_data s) + 1)\<rparr>"

definition decreaseNumChildren :: "node_stats \<Rightarrow> node_stats" where
  "decreaseNumChildren s = s\<lparr>ns_data := ChildrenInfo (union_seq (ns_data s)) (union_num (ns_data s) - 1)\<rparr>"

definition seqNum :: "node_stats \<Rightarrow> int" where
  "seqNum s = (if isEphemeral s then 0 else union_seq (ns_data s))"

definition setSeqNum :: "int \<Rightarrow> node_stats \<Rightarrow> node_stats" where
  "setSeqNum n s = s\<lparr>ns_data := ChildrenInfo n (union_num (ns_data s))\<rparr>"

definition increaseSeqNum :: "node_stats \<Rightarrow> node_stats" where
  "increaseSeqNum s = s\<lparr>ns_data := ChildrenInfo (union_seq (ns_data s) + 1) (union_num (ns_data s))\<rparr>"

definition setCtime :: "int \<Rightarrow> node_stats \<Rightarrow> node_stats" where
  "setCtime t s = s\<lparr>ns_ctime := signed_take_bit 62 t\<rparr>"

definition copyStats :: "stat \<Rightarrow> node_stats \<Rightarrow> node_stats" where
  "copyStats st s =
     (let s1 = s\<lparr>ns_czxid := st_czxid st, ns_mzxid := st_mzxid st, ns_pzxid := st_pzxid st,
                 ns_mtime := st_mtime st\<rparr>;
          s2 = (setCtime (st_ctime st) s1)\<lparr>ns_version := st_version st, ns_cversion := st_cversion st,
                 ns_aversion := st_aversion st\<rparr>
      in if st_ephemeralOwner st = 0 then setNumChildren (st_numChildren st) s2
         else setEphemeralOwner (st_ephemeralOwner st) s2)"

subsection \<open>Nodes\<close>

record mem_node =
  mn_stats :: node_stats
  mn_data :: string
  mn_cached_digest :: "64 word"
  mn_acl_id :: nat
  mn_children :: "string list"

definition default_node :: mem_node where
  "default_node = \<lparr>mn_stats = default_stats, mn_data = [], mn_cached_digest = 0, mn_acl_id = 0,
     mn_children = []\<rparr>"

definition getData :: "mem_node \<Rightarrow> string" where
  "getData n = take (ns_data_size (mn_stats n)) (mn_data n)"

definition node_empty :: "mem_node \<Rightarrow> bool" where
  "node_empty n \<longleftrightarrow> ns_data_size (mn_stats n) = 0 \<and> ns_mzxid (mn_stats n) = 0"

definition node_copyStats :: "stat \<Rightarrow> mem_node \<Rightarrow> mem_node" where
  "node_copyStats st n = n\<lparr>mn_stats := copyStats st (mn_stats n)\<rparr>"

definition setResponseStat :: "mem_node \<Rightarrow> stat" where
  "setResponseStat n =
     (let s = mn_stats n in
      \<lparr>st_czxid = ns_czxid s, st_mzxid = ns_mzxid s, st_ctime = ns_ctime s, st_mtime = ns_mtime s,
       st_version = ns_version s, st_cversion = ns_cversion s, st_aversion = ns_aversion s,
       st_ephemeralOwner = ephemeralOwner s,
       st_dataLength = signed_take_bit 31 (int (ns_data_size s)),
       st_numChildren = numChildren s, st_pzxid = ns_pzxid s\<rparr>)"

definition setData :: "string \<Rightarrow> mem_node \<Rightarrow> mem_node" where
  "setData new_data n =
     (let size = length new_data mod 2 ^ 32;
          n' = n\<lparr>mn_stats := (mn_stats n)\<lparr>ns_data_size := size\<rparr>\<rparr>
      in if size \<noteq> 0 then n'\<lparr>mn_data := take size new_data\<rparr> else n')"

definition addChild :: "string \<Rightarrow> mem_node \<Rightarrow> mem_node" where
  "addChild child n = n\<lparr>mn_children := uset_insert child (mn_children n)\<rparr>"

definition removeChild :: "string \<Rightarrow> mem_node \<Rightarrow> mem_node" where
  "removeChild child n = n\<lparr>mn_children := uset_erase child (mn_children n)\<rparr>"

definition invalidateDigestCache :: "mem_node \<Rightarrow> mem_node" where
  "invalidateDigestCache n = n\<lparr>mn_cached_digest := 0\<rparr>"

text \<open>Copy construction: \<open>operator=\<close> on a default node. The cached digest is not copied.\<close>

definition assign_node :: "mem_node \<Rightarrow> mem_node \<Rightarrow> mem_node" where
  "assign_node n other =
     (let n' = n\<lparr>mn_stats := mn_stats other, mn_acl_id := mn_acl_id other, mn_children := mn_children other\<rparr>
      in if ns_data_size (mn_stats other) \<noteq> 0 then n'\<lparr>mn_data := getData other\<rparr> else n')"

definition copy_node :: "mem_node \<Rightarrow> mem_node" where
  "copy_node other = assign_node default_node other"

text \<open>\<open>shallowCopy\<close> leaves out the children and takes the cached digest along.\<close>

definition shallowCopy :: "mem_node \<Rightarrow> mem_node \<Rightarrow> mem_node" where
  "shallowCopy n other =
     (let n' = n\<lparr>mn_stats := mn_stats other, mn_acl_id := mn_acl_id other,
                 mn_cached_digest := mn_cached_digest other\<rparr>
      in if ns_data_size (mn_stats other) \<noteq> 0 then n'\<lparr>mn_data := getData other\<rparr> else n')"

subsection \<open>Digests\<close>

definition calculateDigest :: "path \<Rightarrow> mem_node \<Rightarrow> 64 word" where
  "calculateDigest p n =
     (let s = mn_stats n;
          h = sip_update (sip_init 0 0 False) (str_bytes p);
          h = (if getData n \<noteq> [] then sip_update h (str_bytes (getData n)) else h);
          h = sip_update h (le_bytes 8 (ns_czxid s));
          h = sip_update h (le_bytes 8 (ns_mzxid s));
          h = sip_update h (le_bytes 8 (ns_ctime s));
          h = sip_update h (le_bytes 8 (ns_mtime s));
          h = sip_update h (le_bytes 4 (ns_version s));
          h = sip_update h (le_bytes 4 (ns_cversion s));
          h = sip_update h (le_bytes 4 (ns_aversion s));
          h = sip_update h (le_bytes 8 (ephemeralOwner s));
          h = sip_update h (le_bytes 4 (numChildren s));
          h = sip_update h (le_bytes 8 (ns_pzxid s));
          digest = get64 h
      in if digest = 0 then 1 else digest)"

text \<open>\<open>getDigest\<close> caches its result in the node, with 0 for no cached digest.\<close>

definition getDigest :: "path \<Rightarrow> mem_node \<Rightarrow> 64 word \<times> mem_node" where
  "getDigest p n =
     (let n' = (if mn_cached_digest n = 0 then n\<lparr>mn_cached_digest := calculateDigest p n\<rparr> else n)
      in (mn_cached_digest n', n'))"

end
