(* ===== verification/Acl_Map.thy ===== *)
theory Acl_Map
  imports Keeper_Types
begin

section \<open>The ACL map: interned access control lists with usage counters\<close>

text \<open>
  \<open>ACLMap\<close> of \<open>src/src/Coordination/ACLMap.h\<close> and \<open>ACLMap.cpp\<close>. A node stores the number
  of its ACL vector; the map interns vectors, resolves numbers and drops a vector when its usage
  counter reaches zero. The contract that the storage relies on is the locale \<open>acl_store\<close>:
  as long as every node is counted, the number of every node resolves to its vector.
  Numbers are \<open>nat\<close>: the 64-bit counter \<open>max_acl_id\<close> grows by one per new vector.
\<close>

record acl_map =
  acl_to_num :: "acls \<rightharpoonup> nat"
  num_to_acl :: "nat \<rightharpoonup> acls"
  usage_counter :: "nat \<rightharpoonup> nat"
  max_acl_id :: nat

definition empty_acl_map :: acl_map where
  "empty_acl_map = \<lparr>acl_to_num = Map.empty, num_to_acl = Map.empty, usage_counter = Map.empty,
     max_acl_id = 1\<rparr>"

text \<open>The loop of \<open>ACLsComparator\<close> over two vectors of the same length.\<close>

fun acls_equal_loop :: "acls \<Rightarrow> acls \<Rightarrow> bool" where
  "acls_equal_loop (l # ls) (r # rs) =
     (if acl_permissions l \<noteq> acl_permissions r then False
      else if acl_scheme l \<noteq> acl_scheme r then False
      else if acl_ident l \<noteq> acl_ident r then False
      else acls_equal_loop ls rs)"
| "acls_equal_loop _ _ = True"

definition ACLsComparator :: "acls \<Rightarrow> acls \<Rightarrow> bool" where
  "ACLsComparator left right =
     (if length left \<noteq> length right then False else acls_equal_loop left right)"

definition convertACLs :: "acl_map \<Rightarrow> acls \<Rightarrow> nat \<times> acl_map" where
  "convertACLs m acls =
     (if acls = [] then (0, m)
      else case acl_to_num m acls of
             Some n \<Rightarrow> (n, m)
           | None \<Rightarrow>
               (let index = max_acl_id m in
                (index, m\<lparr>max_acl_id := max_acl_id m + 1,
                          acl_to_num := (acl_to_num m)(acls \<mapsto> index),
                          num_to_acl := (num_to_acl m)(index \<mapsto> acls)\<rparr>)))"

definition convertNumber :: "acl_map \<Rightarrow> nat \<Rightarrow> acls result" where
  "convertNumber m acls_id =
     (if acls_id = 0 then Inr []
      else case num_to_acl m acls_id of
             None \<Rightarrow> Inl (LogicalError ''Unknown ACL id'')
           | Some acls \<Rightarrow> Inr acls)"

definition addMapping :: "acl_map \<Rightarrow> nat \<Rightarrow> acls \<Rightarrow> acl_map" where
  "addMapping m acls_id acls =
     m\<lparr>num_to_acl := (num_to_acl m)(acls_id \<mapsto> acls),
       acl_to_num := (acl_to_num m)(acls \<mapsto> acls_id),
       max_acl_id := max (acls_id + 1) (max_acl_id m)\<rparr>"

definition usage_of :: "acl_map \<Rightarrow> nat \<Rightarrow> nat" where
  "usage_of m n = (case usage_counter m n of None \<Rightarrow> 0 | Some c \<Rightarrow> c)"

definition addUsage :: "acl_map \<Rightarrow> nat \<Rightarrow> acl_map" where
  "addUsage m acl_id = m\<lparr>usage_counter := (usage_counter m)(acl_id \<mapsto> usage_of m acl_id + 1)\<rparr>"

definition removeUsage :: "acl_map \<Rightarrow> nat \<Rightarrow> acl_map" where
  "removeUsage m acl_id =
     (case usage_counter m acl_id of
        None \<Rightarrow> m
      | Some c \<Rightarrow>
          (let m' = m\<lparr>usage_counter := (usage_counter m)(acl_id \<mapsto> c - 1)\<rparr> in
           if c - 1 = 0 then
             (let acls = (case num_to_acl m' acl_id of Some a \<Rightarrow> a | None \<Rightarrow> []) in
              m'\<lparr>num_to_acl := (num_to_acl m')(acl_id := None),
                 acl_to_num := (acl_to_num m')(acls := None),
                 usage_counter := (usage_counter m')(acl_id := None)\<rparr>)
           else m'))"

subsection \<open>The comparator is equality\<close>

lemma acls_equal_loop_eq: "length l = length r \<Longrightarrow> acls_equal_loop l r \<longleftrightarrow> l = r"
  by (induction l r rule: acls_equal_loop.induct) auto

lemma ACLsComparator_eq: "ACLsComparator l r \<longleftrightarrow> l = r"
  by (auto simp: ACLsComparator_def acls_equal_loop_eq)

subsection \<open>Well-formedness\<close>

definition acl_map_wf :: "acl_map \<Rightarrow> bool" where
  "acl_map_wf m \<longleftrightarrow>
     (\<forall>a n. acl_to_num m a = Some n \<longleftrightarrow> num_to_acl m n = Some a)
     \<and> num_to_acl m 0 = None
     \<and> acl_to_num m [] = None
     \<and> (\<forall>n. num_to_acl m n \<noteq> None \<longrightarrow> n < max_acl_id m)
     \<and> (\<forall>n. usage_counter m n \<noteq> Some 0)
     \<and> 0 < max_acl_id m"

lemma acl_map_wf_iff: "acl_map_wf m \<Longrightarrow> acl_to_num m a = Some n \<longleftrightarrow> num_to_acl m n = Some a"
  by (simp add: acl_map_wf_def)

lemma acl_map_wf_no_default:
  "acl_map_wf m \<Longrightarrow> num_to_acl m 0 = None"
  "acl_map_wf m \<Longrightarrow> acl_to_num m [] = None"
  "acl_map_wf m \<Longrightarrow> num_to_acl m n \<noteq> Some []"
  by (simp_all add: acl_map_wf_def) (metis option.distinct(1))

lemma acl_map_wf_fresh: "acl_map_wf m \<Longrightarrow> num_to_acl m (max_acl_id m) = None"
  by (auto simp: acl_map_wf_def)

lemma acl_map_wf_inj:
  "acl_map_wf m \<Longrightarrow> num_to_acl m n = Some a \<Longrightarrow> num_to_acl m k = Some a \<Longrightarrow> n = k"
  by (metis acl_map_wf_iff option.inject)

lemma acl_map_wf_empty [wf_intros]: "acl_map_wf empty_acl_map"
  by (simp add: acl_map_wf_def empty_acl_map_def)

lemma acl_map_wf_convertACLs [wf_intros]:
  assumes "acl_map_wf m"
  shows "acl_map_wf (snd (convertACLs m acls))"
proof (cases "acls = [] \<or> acl_to_num m acls \<noteq> None")
  case True
  with assms show ?thesis by (auto simp: convertACLs_def)
next
  case False
  then have none: "acl_to_num m acls = None" by simp
  with assms have "num_to_acl m n \<noteq> Some acls" for n
    by (auto simp flip: acl_map_wf_iff)
  with False none assms acl_map_wf_fresh [OF assms] show ?thesis
    by (auto simp: acl_map_wf_def convertACLs_def Let_def less_Suc_eq)
qed

lemma acl_map_wf_addUsage [wf_intros]: "acl_map_wf m \<Longrightarrow> acl_map_wf (addUsage m n)"
  by (auto simp: acl_map_wf_def addUsage_def)

lemma acl_map_wf_drop:
  assumes wf: "acl_map_wf m" and num: "num_to_acl m n = Some a" and u: "\<And>k. u k \<noteq> Some 0"
  shows "acl_map_wf (m\<lparr>num_to_acl := (num_to_acl m)(n := None),
     acl_to_num := (acl_to_num m)(a := None), usage_counter := u\<rparr>)"
proof -
  have key: "num_to_acl m k = Some a \<longleftrightarrow> k = n" for k
    using acl_map_wf_inj [OF wf num] num by metis
  have iff: "((acl_to_num m)(a := None)) b = Some k \<longleftrightarrow> ((num_to_acl m)(n := None)) k = Some b" for b k
    using key [of k] num by (auto simp: acl_map_wf_iff [OF wf])
  show ?thesis
    unfolding acl_map_wf_def
  proof (intro conjI allI)
    fix b k
    show "(acl_to_num (m\<lparr>num_to_acl := (num_to_acl m)(n := None),
            acl_to_num := (acl_to_num m)(a := None), usage_counter := u\<rparr>) b = Some k)
        = (num_to_acl (m\<lparr>num_to_acl := (num_to_acl m)(n := None),
            acl_to_num := (acl_to_num m)(a := None), usage_counter := u\<rparr>) k = Some b)"
      using iff by simp
  qed (use wf u in \<open>simp_all add: acl_map_wf_def\<close>)
qed

lemma acl_map_wf_counter:
  "acl_map_wf m \<Longrightarrow> v \<noteq> Some 0 \<Longrightarrow> acl_map_wf (m\<lparr>usage_counter := (usage_counter m)(n := v)\<rparr>)"
  by (simp add: acl_map_wf_def)

lemma acl_map_wf_removeUsage [wf_intros]:
  assumes wf: "acl_map_wf m"
  shows "acl_map_wf (removeUsage m n)"
proof (cases "usage_counter m n")
  case None
  with wf show ?thesis by (simp add: removeUsage_def)
next
  case c: (Some c)
  have u: "((usage_counter m)(n := None)) k \<noteq> Some 0" for k
    using wf by (simp add: acl_map_wf_def)
  show ?thesis
  proof (cases "num_to_acl m n")
    case None
    then show ?thesis
      using c acl_map_wf_counter [OF wf, of None n] acl_map_wf_counter [OF wf, of "Some (c - 1)" n]
        acl_map_wf_no_default(2) [OF wf]
      by (simp add: removeUsage_def Let_def fun_upd_idem)
  next
    case (Some a)
    then show ?thesis
      using c acl_map_wf_drop [OF wf Some, of "(usage_counter m)(n := None)", OF u] acl_map_wf_counter [OF wf, of "Some (c - 1)" n]
      by (simp add: removeUsage_def Let_def)
  qed
qed

text \<open>Restoring a mapping of a snapshot keeps the map well formed when number and vector are
  unused, which is how the deserializer calls it.\<close>

lemma acl_map_wf_addMapping:
  assumes "acl_map_wf m" "n \<noteq> 0" "acls \<noteq> []" "num_to_acl m n = None" "acl_to_num m acls = None"
  shows "acl_map_wf (addMapping m n acls)"
proof -
  have "num_to_acl m k \<noteq> Some acls" for k
    using assms by (auto simp flip: acl_map_wf_iff)
  with assms show ?thesis
    by (auto simp: acl_map_wf_def addMapping_def less_max_iff_disj less_Suc_eq)
qed

subsection \<open>The contract of the map\<close>

lemma convertNumber_after_convertACLs:
  assumes "acl_map_wf m" "convertACLs m acls = (n, m')"
  shows "convertNumber m' n = Inr acls"
  using assms acl_map_wf_no_default(1) [OF assms(1)]
  by (cases "n = 0") (auto simp: convertACLs_def convertNumber_def acl_map_wf_def Let_def split: if_splits option.splits)

lemma convertACLs_keeps:
  assumes "acl_map_wf m" "convertACLs m acls = (n, m')" "convertNumber m k = Inr a"
  shows "convertNumber m' k = Inr a"
proof -
  have "num_to_acl m (max_acl_id m) = None"
    using assms(1) by (auto simp: acl_map_wf_def)
  with assms show ?thesis
    by (auto simp: convertACLs_def convertNumber_def Let_def split: if_splits option.splits)
qed

lemma usage_convertACLs: "convertACLs m acls = (n, m') \<Longrightarrow> usage_of m' k = usage_of m k"
  by (auto simp: convertACLs_def usage_of_def Let_def split: if_splits option.splits)

lemma usage_addUsage: "usage_of (addUsage m n) k = (if k = n then usage_of m k + 1 else usage_of m k)"
  by (simp add: usage_of_def addUsage_def)

lemma usage_removeUsage: "usage_of (removeUsage m n) k = (if k = n then usage_of m k - 1 else usage_of m k)"
  by (auto simp: usage_of_def removeUsage_def Let_def split: option.splits)

lemma convertNumber_addUsage: "convertNumber (addUsage m n) k = convertNumber m k"
  by (simp add: convertNumber_def addUsage_def)

lemma removeUsage_keeps:
  assumes "k \<noteq> n \<or> 1 < usage_of m n"
  shows "convertNumber (removeUsage m n) k = convertNumber m k"
  using assms
  by (auto simp: convertNumber_def removeUsage_def usage_of_def Let_def split: option.splits)

text \<open>
  A store that interns values under reference-counted numbers. The number 0 always resolves and
  is not counted. \<open>counted m L\<close>: the counters are the reference counts \<open>L\<close> and every
  referenced number resolves.
\<close>

locale acl_store =
  fixes conv :: "'m \<Rightarrow> 'v \<Rightarrow> nat \<times> 'm"
    and num :: "'m \<Rightarrow> nat \<Rightarrow> 'v result"
    and add :: "'m \<Rightarrow> nat \<Rightarrow> 'm"
    and rem :: "'m \<Rightarrow> nat \<Rightarrow> 'm"
    and uses :: "'m \<Rightarrow> nat \<Rightarrow> nat"
    and inv :: "'m \<Rightarrow> bool"
    and zero_value :: 'v
  assumes num_zero: "num m 0 = Inr zero_value"
    and conv_num: "inv m \<Longrightarrow> conv m v = (n, m') \<Longrightarrow> num m' n = Inr v"
    and conv_keeps: "inv m \<Longrightarrow> conv m v = (n, m') \<Longrightarrow> num m k = Inr w \<Longrightarrow> num m' k = Inr w"
    and conv_uses: "conv m v = (n, m') \<Longrightarrow> uses m' k = uses m k"
    and conv_inv: "inv m \<Longrightarrow> conv m v = (n, m') \<Longrightarrow> inv m'"
    and add_num: "num (add m n) k = num m k"
    and add_uses: "uses (add m n) k = (if k = n then uses m k + 1 else uses m k)"
    and add_inv: "inv m \<Longrightarrow> inv (add m n)"
    and rem_num: "k \<noteq> n \<or> 1 < uses m n \<Longrightarrow> num (rem m n) k = num m k"
    and rem_uses: "uses (rem m n) k = (if k = n then uses m k - 1 else uses m k)"
    and rem_inv: "inv m \<Longrightarrow> inv (rem m n)"
begin

definition counted :: "'m \<Rightarrow> (nat \<Rightarrow> nat) \<Rightarrow> bool" where
  "counted m L \<longleftrightarrow> inv m \<and> (\<forall>k. k \<noteq> 0 \<longrightarrow> uses m k = L k)
     \<and> (\<forall>k. k \<noteq> 0 \<longrightarrow> 0 < L k \<longrightarrow> (\<exists>v. num m k = Inr v))"

lemma counted_resolves: "counted m L \<Longrightarrow> 0 < L k \<Longrightarrow> \<exists>v. num m k = Inr v"
  by (cases "k = 0") (auto simp: counted_def num_zero)

text \<open>A new reference to an interned value.\<close>

lemma counted_intern:
  assumes "counted m L" and "conv m v = (n, m')"
  shows "counted (add m' n) (L(n := L n + 1))"
    and "num (add m' n) n = Inr v"
    and "num m k = Inr w \<Longrightarrow> num (add m' n) k = Inr w"
proof -
  from assms have inv: "inv m" by (simp add: counted_def)
  show n: "num (add m' n) n = Inr v"
    using conv_num [OF inv assms(2)] by (simp add: add_num)
  show keep: "num m k = Inr w \<Longrightarrow> num (add m' n) k = Inr w" for k w
    using conv_keeps [OF inv assms(2)] by (simp add: add_num)
  have "\<exists>v. num (add m' n) k = Inr v" if "k \<noteq> 0" "0 < (L(n := L n + 1)) k" for k
  proof (cases "k = n")
    case True
    with n show ?thesis by blast
  next
    case False
    with that assms(1) obtain w where "num m k = Inr w" by (auto simp: counted_def)
    then show ?thesis using keep by blast
  qed
  then show "counted (add m' n) (L(n := L n + 1))"
    using assms(1) conv_inv [OF inv assms(2)]
    by (auto simp: counted_def add_uses conv_uses [OF assms(2)] add_inv)
qed

text \<open>Dropping a reference: every number that is still referenced keeps its value.\<close>

lemma counted_release:
  assumes "counted m L" and "n = 0 \<or> 0 < L n"
  shows "counted (rem m n) (L(n := L n - 1))"
    and "k = 0 \<or> 0 < (L(n := L n - 1)) k \<Longrightarrow> num (rem m n) k = num m k"
proof -
  show keep: "num (rem m n) k = num m k" if "k = 0 \<or> 0 < (L(n := L n - 1)) k" for k
  proof (cases "k = 0")
    case True
    then show ?thesis by (simp add: num_zero)
  next
    case False
    with that assms show ?thesis
      by (intro rem_num) (auto simp: counted_def split: if_splits)
  qed
  have "\<exists>v. num (rem m n) k = Inr v" if "k \<noteq> 0" "0 < (L(n := L n - 1)) k" for k
  proof -
    from that have "0 < L k" by (auto split: if_splits)
    with that assms(1) obtain v where "num m k = Inr v"
      by (auto simp: counted_def)
    with keep that show ?thesis by auto
  qed
  with assms show "counted (rem m n) (L(n := L n - 1))"
    by (auto simp: counted_def rem_uses rem_inv)
qed

end

text \<open>\<open>ACLMap\<close> keeps the contract.\<close>

interpretation am: acl_store convertACLs convertNumber addUsage removeUsage usage_of acl_map_wf "[]"
proof unfold_locales
  show "acl_map_wf m \<Longrightarrow> convertACLs m v = (n, m') \<Longrightarrow> acl_map_wf m'" for m v n m'
    using acl_map_wf_convertACLs [of m v] by simp
qed (auto simp: convertNumber_addUsage usage_addUsage usage_removeUsage removeUsage_keeps
       convertNumber_def [of _ 0]
     intro: convertNumber_after_convertACLs convertACLs_keeps usage_convertACLs
       acl_map_wf_addUsage acl_map_wf_removeUsage)

end
