(* ===== verification/Session_Expiry.thy ===== *)
theory Session_Expiry
  imports Keeper_Types "HOL-Library.Signed_Division"
begin

section \<open>The queue of session expiry times\<close>

text \<open>
  \<open>SessionExpiryQueue\<close> of \<open>src/src/Coordination/SessionExpiryQueue.h\<close> and
  \<open>SessionExpiryQueue.cpp\<close>. Sessions stand in buckets keyed by their rounded expiry time; the
  buckets are an ordered map. The clock that \<open>getNowMilliseconds\<close> reads is the argument
  \<open>now\<close>. Dereferencing the end iterator after a failed \<open>find\<close> is the failure
  \<open>Undefined\<close>; the lemmas show that it cannot happen. The specification is the map from
  sessions to expiry times: each operation is a simple update of it and the expired sessions are
  those whose time has come.
\<close>

record session_expiry_queue =
  session_to_expiration_time :: "int \<rightharpoonup> int"
  expiry_to_sessions :: "(int \<times> int list) list"
  expiration_interval :: int

definition new_expiry_queue :: "int \<Rightarrow> session_expiry_queue" where
  "new_expiry_queue interval =
     \<lparr>session_to_expiration_time = Map.empty, expiry_to_sessions = [], expiration_interval = interval\<rparr>"

definition nextInterval :: "session_expiry_queue \<Rightarrow> int \<Rightarrow> int" where
  "nextInterval q time = (time sdiv expiration_interval q + 1) * expiration_interval q"

text \<open>An interval of 0 makes the division undefined.\<close>

definition roundToNextInterval :: "session_expiry_queue \<Rightarrow> int \<Rightarrow> int result" where
  "roundToNextInterval q time =
     (if expiration_interval q = 0 then Inl (Undefined ''division by zero'') else Inr (nextInterval q time))"

text \<open>Erase a session from its bucket, and the bucket when nothing is left in it: the step shared
  by \<open>remove\<close> (lines 12 to 18) and \<open>addNewSessionOrUpdate\<close> (lines 52 to 59).\<close>

definition erase_from_bucket :: "(int \<times> int list) list \<Rightarrow> int \<Rightarrow> int \<Rightarrow> (int \<times> int list) list result" where
  "erase_from_bucket buckets t session_id =
     (case map_of buckets t of
        None \<Rightarrow> Inl (Undefined ''end iterator of expiry_to_sessions'')
      | Some sessions \<Rightarrow>
          (let left = uset_erase session_id sessions in
           Inr (if left = [] then omap_erase t buckets else omap_update t left buckets)))"

text \<open>Find the bucket or create it, then insert the session.\<close>

definition insert_in_bucket :: "(int \<times> int list) list \<Rightarrow> int \<Rightarrow> int \<Rightarrow> (int \<times> int list) list" where
  "insert_in_bucket buckets t session_id =
     (let sessions = (case map_of buckets t of None \<Rightarrow> [] | Some s \<Rightarrow> s) in
      omap_update t (uset_insert session_id sessions) buckets)"

definition remove_session :: "session_expiry_queue \<Rightarrow> int \<Rightarrow> (bool \<times> session_expiry_queue) result" where
  "remove_session q session_id =
     (case session_to_expiration_time q session_id of
        None \<Rightarrow> Inr (False, q)
      | Some t \<Rightarrow>
          res_bind (erase_from_bucket (expiry_to_sessions q) t session_id) (\<lambda>buckets.
            Inr (True, q\<lparr>expiry_to_sessions := buckets,
                         session_to_expiration_time := (session_to_expiration_time q)(session_id := None)\<rparr>)))"

definition addNewSessionOrUpdate ::
  "session_expiry_queue \<Rightarrow> int \<Rightarrow> int \<Rightarrow> int \<Rightarrow> session_expiry_queue result" where
  "addNewSessionOrUpdate q now session_id timeout_ms =
     res_bind (roundToNextInterval q (now + timeout_ms)) (\<lambda>new_expiry_time.
      let q' = q\<lparr>session_to_expiration_time := (session_to_expiration_time q)(session_id \<mapsto> new_expiry_time)\<rparr>;
          buckets = insert_in_bucket (expiry_to_sessions q) new_expiry_time session_id
      in case session_to_expiration_time q session_id of
           Some prev_expiry_time \<Rightarrow>
             if new_expiry_time = prev_expiry_time then Inr q'
             else res_bind (erase_from_bucket buckets prev_expiry_time session_id) (\<lambda>buckets'.
                    Inr (q'\<lparr>expiry_to_sessions := buckets'\<rparr>))
         | None \<Rightarrow> Inr (q'\<lparr>expiry_to_sessions := buckets\<rparr>))"

text \<open>The loop of \<open>getExpiredSessions\<close> over the buckets in key order, with its early exit.\<close>

fun expired_loop :: "int \<Rightarrow> (int \<times> int list) list \<Rightarrow> int list" where
  "expired_loop now [] = []"
| "expired_loop now ((expire_time, expired_sessions) # buckets) =
     (if expire_time \<le> now then expired_sessions @ expired_loop now buckets else [])"

definition getExpiredSessions :: "session_expiry_queue \<Rightarrow> int \<Rightarrow> int list" where
  "getExpiredSessions q now = expired_loop now (expiry_to_sessions q)"

definition clear_sessions :: "session_expiry_queue \<Rightarrow> session_expiry_queue" where
  "clear_sessions q = q\<lparr>session_to_expiration_time := Map.empty, expiry_to_sessions := []\<rparr>"

subsection \<open>Rounding\<close>

text \<open>For times after the epoch the bucket lies strictly after the time, at most one interval
  later, and is a multiple of the interval.\<close>

lemma nextInterval_bounds:
  assumes "0 < expiration_interval q" "0 \<le> t"
  shows "t < nextInterval q t" and "nextInterval q t \<le> t + expiration_interval q"
    and "expiration_interval q dvd nextInterval q t"
proof -
  have d: "t sdiv expiration_interval q = t div expiration_interval q"
    using assms by (cases "t = 0") (simp_all add: signed_divide_int_def)
  have m: "t = t div expiration_interval q * expiration_interval q + t mod expiration_interval q"
    by simp
  have "0 \<le> t mod expiration_interval q" "t mod expiration_interval q < expiration_interval q"
    using assms by simp_all
  with m show "t < nextInterval q t" "nextInterval q t \<le> t + expiration_interval q"
    unfolding nextInterval_def d distrib_right by linarith+
  show "expiration_interval q dvd nextInterval q t"
    by (simp add: nextInterval_def)
qed

subsection \<open>The invariant of the buckets\<close>

definition buckets_ok :: "(int \<times> int list) list \<Rightarrow> bool" where
  "buckets_ok buckets \<longleftrightarrow>
     omap_wf buckets \<and> list_all (\<lambda>e. snd e \<noteq> [] \<and> distinct (snd e)) buckets"

definition in_bucket :: "(int \<times> int list) list \<Rightarrow> int \<Rightarrow> int \<Rightarrow> bool" where
  "in_bucket buckets t sid \<longleftrightarrow> (\<exists>s. map_of buckets t = Some s \<and> sid \<in> set s)"

definition queue_wf :: "session_expiry_queue \<Rightarrow> bool" where
  "queue_wf q \<longleftrightarrow> expiration_interval q \<noteq> 0 \<and> buckets_ok (expiry_to_sessions q)
     \<and> (\<forall>sid t. in_bucket (expiry_to_sessions q) t sid \<longleftrightarrow> session_to_expiration_time q sid = Some t)"

lemma queue_wf_new [wf_intros]: "i \<noteq> 0 \<Longrightarrow> queue_wf (new_expiry_queue i)"
  by (simp add: queue_wf_def buckets_ok_def in_bucket_def new_expiry_queue_def)

lemma queue_wf_clear [wf_intros]: "queue_wf q \<Longrightarrow> queue_wf (clear_sessions q)"
  by (simp add: queue_wf_def buckets_ok_def in_bucket_def clear_sessions_def)

lemma buckets_ok_lookup: "buckets_ok b \<Longrightarrow> map_of b t = Some s \<Longrightarrow> s \<noteq> [] \<and> distinct s"
  by (auto simp: buckets_ok_def dest: list_all_map_of)

lemma insert_in_bucket_ok:
  assumes "buckets_ok buckets"
  shows "buckets_ok (insert_in_bucket buckets t sid)"
    and "in_bucket (insert_in_bucket buckets t sid) t' sid'
           \<longleftrightarrow> in_bucket buckets t' sid' \<or> (t' = t \<and> sid' = sid)"
proof -
  define s where "s = (case map_of buckets t of None \<Rightarrow> [] | Some s \<Rightarrow> s)"
  have s: "distinct s" "x \<in> set s \<longleftrightarrow> in_bucket buckets t x" for x
  proof -
    show "distinct s"
      using buckets_ok_lookup [OF assms, of t s] by (cases "map_of buckets t") (simp_all add: s_def)
    show "x \<in> set s \<longleftrightarrow> in_bucket buckets t x"
      by (cases "map_of buckets t") (simp_all add: s_def in_bucket_def)
  qed
  have ne: "uset_insert sid s \<noteq> []"
    by (auto simp: uset_insert_def)
  have m: "map_of (insert_in_bucket buckets t sid) = (map_of buckets)(t \<mapsto> uset_insert sid s)"
    using assms by (simp add: buckets_ok_def insert_in_bucket_def map_of_omap_update s_def)
  show "buckets_ok (insert_in_bucket buckets t sid)"
    using assms s(1) ne
    by (simp add: buckets_ok_def insert_in_bucket_def s_def omap_wf_update list_all_omap_update)
  show "in_bucket (insert_in_bucket buckets t sid) t' sid'
           \<longleftrightarrow> in_bucket buckets t' sid' \<or> (t' = t \<and> sid' = sid)"
  proof (cases "t' = t")
    case True
    then have "in_bucket (insert_in_bucket buckets t sid) t' sid' \<longleftrightarrow> sid' \<in> insert sid (set s)"
      by (simp add: in_bucket_def m)
    with True s(2) show ?thesis by auto
  next
    case False
    then show ?thesis by (simp add: in_bucket_def m)
  qed
qed

lemma erase_from_bucket_ok:
  assumes ok: "buckets_ok buckets" and mem: "in_bucket buckets t sid"
  obtains buckets' where "erase_from_bucket buckets t sid = Inr buckets'" "buckets_ok buckets'"
    "\<And>t' sid'. in_bucket buckets' t' sid' \<longleftrightarrow> in_bucket buckets t' sid' \<and> \<not> (t' = t \<and> sid' = sid)"
proof -
  from mem obtain s where s: "map_of buckets t = Some s" "sid \<in> set s"
    by (auto simp: in_bucket_def)
  define left where "left = uset_erase sid s"
  define buckets' where "buckets' = (if left = [] then omap_erase t buckets else omap_update t left buckets)"
  have ok': "omap_wf buckets" "distinct left" "set left = set s - {sid}"
    using ok buckets_ok_lookup [OF ok s(1)] by (auto simp: buckets_ok_def left_def)
  have "buckets_ok buckets'"
    using ok ok'(2)
    by (simp add: buckets_ok_def buckets'_def omap_wf_update omap_wf_erase
          list_all_omap_update list_all_omap_erase)
  moreover have "in_bucket buckets' t' sid' \<longleftrightarrow> in_bucket buckets t' sid' \<and> \<not> (t' = t \<and> sid' = sid)" for t' sid'
    using ok' s
    by (cases "left = []") (auto simp: in_bucket_def buckets'_def container_simps)
  moreover have "erase_from_bucket buckets t sid = Inr buckets'"
    using s by (simp add: erase_from_bucket_def buckets'_def left_def Let_def)
  ultimately show ?thesis using that by blast
qed

text \<open>\<open>remove\<close> deletes the session from the specification map and never fails.\<close>

lemma remove_session_spec:
  assumes wf: "queue_wf q"
  obtains q' where "remove_session q sid = Inr (session_to_expiration_time q sid \<noteq> None, q')" "queue_wf q'"
    "session_to_expiration_time q' = (session_to_expiration_time q)(sid := None)"
    "expiration_interval q' = expiration_interval q"
proof (cases "session_to_expiration_time q sid")
  case None
  then have "(session_to_expiration_time q)(sid := None) = session_to_expiration_time q"
    by auto
  with None wf that show ?thesis by (simp add: remove_session_def)
next
  case (Some t)
  with wf have "in_bucket (expiry_to_sessions q) t sid" and ok: "buckets_ok (expiry_to_sessions q)"
    by (simp_all add: queue_wf_def)
  from erase_from_bucket_ok [OF ok this(1)] obtain b where b:
    "erase_from_bucket (expiry_to_sessions q) t sid = Inr b" "buckets_ok b"
    "\<And>t' sid'. in_bucket b t' sid' \<longleftrightarrow> in_bucket (expiry_to_sessions q) t' sid' \<and> \<not> (t' = t \<and> sid' = sid)"
    by blast
  show ?thesis
    by (rule that [of "q\<lparr>expiry_to_sessions := b,
                         session_to_expiration_time := (session_to_expiration_time q)(sid := None)\<rparr>"])
      (use Some b wf in \<open>auto simp: remove_session_def queue_wf_def\<close>)
qed

text \<open>A heartbeat moves the session to the bucket of its new expiry time and never fails.\<close>

lemma addNewSessionOrUpdate_spec:
  assumes wf: "queue_wf q"
  obtains q' where "addNewSessionOrUpdate q now sid timeout_ms = Inr q'" "queue_wf q'"
    "session_to_expiration_time q'
       = (session_to_expiration_time q)(sid \<mapsto> nextInterval q (now + timeout_ms))"
    "expiration_interval q' = expiration_interval q"
proof -
  define t where "t = nextInterval q (now + timeout_ms)"
  have rnd: "roundToNextInterval q (now + timeout_ms) = Inr t" using wf by (simp add: roundToNextInterval_def queue_wf_def t_def)
  define m where "m = (session_to_expiration_time q)(sid \<mapsto> t)"
  define b where "b = insert_in_bucket (expiry_to_sessions q) t sid"
  have ok: "buckets_ok b" and mem: "in_bucket b t' sid' \<longleftrightarrow>
      session_to_expiration_time q sid' = Some t' \<or> (t' = t \<and> sid' = sid)" for t' sid'
    using wf by (simp_all add: b_def queue_wf_def insert_in_bucket_ok)
  consider (new) "session_to_expiration_time q sid = None"
    | (same) "session_to_expiration_time q sid = Some t"
    | (move) p where "session_to_expiration_time q sid = Some p" "p \<noteq> t"
    by (cases "session_to_expiration_time q sid") auto
  then obtain b' where run: "addNewSessionOrUpdate q now sid timeout_ms
        = Inr (q\<lparr>session_to_expiration_time := m, expiry_to_sessions := b'\<rparr>)"
      and ok': "buckets_ok b'" and mem': "\<And>t' sid'. in_bucket b' t' sid' \<longleftrightarrow> m sid' = Some t'"
  proof cases
    case new
    show ?thesis
      by (rule that [of b]) (use new ok mem in \<open>auto simp: addNewSessionOrUpdate_def rnd Let_def m_def b_def\<close>)
  next
    case same
    show ?thesis
      by (rule that [of "expiry_to_sessions q"])
        (use same wf in \<open>auto simp: addNewSessionOrUpdate_def rnd Let_def m_def queue_wf_def\<close>)
  next
    case move
    from move mem have "in_bucket b p sid" by simp
    from erase_from_bucket_ok [OF ok this] obtain b' where b':
      "erase_from_bucket b p sid = Inr b'" "buckets_ok b'"
      "\<And>t' sid'. in_bucket b' t' sid' \<longleftrightarrow> in_bucket b t' sid' \<and> \<not> (t' = p \<and> sid' = sid)"
      by blast
    show ?thesis
      by (rule that [of b'])
        (use move b' mem in \<open>auto simp: addNewSessionOrUpdate_def rnd Let_def m_def b_def [symmetric]\<close>)
  qed
  show ?thesis
    by (rule that [OF run]) (use ok' mem' wf in \<open>simp_all add: queue_wf_def m_def t_def\<close>)
qed

subsection \<open>The expired sessions\<close>

lemma expired_loop_none: "\<forall>e \<in> set buckets. now < fst e \<Longrightarrow> expired_loop now buckets = []"
  by (cases buckets) auto

lemma expired_loop_mem:
  assumes "omap_wf buckets"
  shows "sid \<in> set (expired_loop now buckets) \<longleftrightarrow> (\<exists>e \<in> set buckets. sid \<in> set (snd e) \<and> fst e \<le> now)"
  using assms
proof (induction now buckets rule: expired_loop.induct)
  case (1 now)
  then show ?case by simp
next
  case (2 now t s buckets)
  show ?case
  proof (cases "t \<le> now")
    case True
    with 2 show ?thesis by (simp add: omap_wf_Cons)
  next
    case False
    with 2(2) have "\<forall>e \<in> set buckets. \<not> fst e \<le> now"
      by (auto simp: omap_wf_Cons)
    with False show ?thesis by simp
  qed
qed

lemma in_bucket_set: "omap_wf buckets \<Longrightarrow> in_bucket buckets t sid \<longleftrightarrow> (\<exists>e \<in> set buckets. fst e = t \<and> sid \<in> set (snd e))"
  unfolding in_bucket_def omap_wf_def Bex_def split_paired_Ex fst_conv snd_conv
  using map_of_eq_Some_iff [of buckets t] by blast

lemma getExpiredSessions_iff:
  assumes "queue_wf q"
  shows "sid \<in> set (getExpiredSessions q now) \<longleftrightarrow> (\<exists>t. session_to_expiration_time q sid = Some t \<and> t \<le> now)"
proof -
  have wf: "omap_wf (expiry_to_sessions q)"
    and eq: "session_to_expiration_time q sid = Some t \<longleftrightarrow> in_bucket (expiry_to_sessions q) t sid" for t
    using assms by (simp_all add: queue_wf_def buckets_ok_def)
  show ?thesis
    by (auto simp: getExpiredSessions_def expired_loop_mem [OF wf] eq in_bucket_set [OF wf])
qed

lemma distinct_expired_loop:
  assumes "buckets_ok buckets" "\<And>t t' sid. in_bucket buckets t sid \<Longrightarrow> in_bucket buckets t' sid \<Longrightarrow> t = t'"
  shows "distinct (expired_loop now buckets)"
  using assms
proof (induction now buckets rule: expired_loop.induct)
  case (1 now)
  then show ?case by simp
next
  case (2 now t s buckets)
  have wf: "omap_wf ((t, s) # buckets)" "omap_wf buckets" and ok: "buckets_ok buckets" "distinct s"
    using 2(2) by (simp_all add: buckets_ok_def omap_wf_Cons)
  have tail: "in_bucket ((t, s) # buckets) t' sid" if "in_bucket buckets t' sid" for t' sid
    using that by (auto simp: in_bucket_set [OF wf(1)] in_bucket_set [OF wf(2)])
  have "set s \<inter> set (expired_loop now buckets) = {}"
  proof -
    have False if s: "sid \<in> set s" and e: "e \<in> set buckets" "sid \<in> set (snd e)" for sid e
    proof -
      have "in_bucket ((t, s) # buckets) t sid" "in_bucket ((t, s) # buckets) (fst e) sid"
        using s e by (auto simp: in_bucket_set [OF wf(1)])
      then have "t = fst e" by (rule 2(3))
      with wf(1) e(1) show False by (auto simp: omap_wf_Cons)
    qed
    then show ?thesis by (auto simp: expired_loop_mem [OF wf(2)])
  qed
  moreover have "distinct (expired_loop now buckets)" if "t \<le> now"
    using 2(1) [OF that ok(1)] 2(3) tail by blast
  ultimately show ?case using ok(2) by simp
qed

lemma distinct_getExpiredSessions: "queue_wf q \<Longrightarrow> distinct (getExpiredSessions q now)"
  unfolding getExpiredSessions_def
  by (rule distinct_expired_loop) (auto simp: queue_wf_def)

subsection \<open>Sequences of operations\<close>

datatype expiry_op =
    Touch int int int \<comment> \<open>clock, session, timeout: \<open>addNewSessionOrUpdate\<close>\<close>
  | Drop int \<comment> \<open>\<open>remove\<close>\<close>
  | ClearAll \<comment> \<open>\<open>clear\<close>\<close>

fun expiry_step :: "expiry_op \<Rightarrow> session_expiry_queue \<Rightarrow> session_expiry_queue result" where
  "expiry_step (Touch now sid timeout_ms) q = addNewSessionOrUpdate q now sid timeout_ms"
| "expiry_step (Drop sid) q = res_bind (remove_session q sid) (\<lambda>r. Inr (snd r))"
| "expiry_step ClearAll q = Inr (clear_sessions q)"

text \<open>What a sequence of operations means: the rounded expiry time of each live session.\<close>

fun expiry_spec :: "session_expiry_queue \<Rightarrow> expiry_op \<Rightarrow> (int \<rightharpoonup> int) \<Rightarrow> (int \<rightharpoonup> int)" where
  "expiry_spec q (Touch now sid timeout_ms) m = m(sid \<mapsto> nextInterval q (now + timeout_ms))"
| "expiry_spec q (Drop sid) m = m(sid := None)"
| "expiry_spec q ClearAll m = Map.empty"

lemma expiry_step_refines:
  assumes "queue_wf q"
  obtains q' where "expiry_step op q = Inr q'" "queue_wf q'" "expiration_interval q' = expiration_interval q"
    "session_to_expiration_time q' = expiry_spec q op (session_to_expiration_time q)"
proof (cases op)
  case (Touch now sid timeout_ms)
  show ?thesis
    by (rule addNewSessionOrUpdate_spec [OF assms, of now sid timeout_ms])
      (use Touch that in simp)
next
  case (Drop sid)
  show ?thesis
    by (rule remove_session_spec [OF assms, of sid]) (use Drop that in simp)
next
  case ClearAll
  with that [of "clear_sessions q"] show ?thesis
    using assms by (simp add: queue_wf_clear) (simp add: clear_sessions_def)
qed

lemma expiry_spec_interval:
  "expiration_interval q' = expiration_interval q \<Longrightarrow> expiry_spec q' op m = expiry_spec q op m"
  by (cases op) (simp_all add: nextInterval_def)

lemma expiry_run_refines:
  assumes "queue_wf q"
  obtains q' where "res_fold expiry_step ops q = Inr q'" "queue_wf q'"
    "expiration_interval q' = expiration_interval q"
    "session_to_expiration_time q' = fold (expiry_spec q) ops (session_to_expiration_time q)"
  using assms
proof (induction ops arbitrary: q thesis)
  case Nil
  then show ?case by simp
next
  case (Cons op ops)
  obtain r where r: "expiry_step op q = Inr r" "queue_wf r" "expiration_interval r = expiration_interval q"
    "session_to_expiration_time r = expiry_spec q op (session_to_expiration_time q)"
    by (rule expiry_step_refines [OF Cons.prems(2)])
  have spec: "expiry_spec r = expiry_spec q"
    using expiry_spec_interval [OF r(3)] by blast
  obtain q' where "res_fold expiry_step ops r = Inr q'" "queue_wf q'" "expiration_interval q' = expiration_interval r"
    "session_to_expiration_time q' = fold (expiry_spec r) ops (session_to_expiration_time r)"
    using Cons.IH r(2) by blast
  with Cons.prems(1) [of q'] r spec show ?case by simp
qed

subsection \<open>Properties\<close>

lemma expiry_step_idle: "expiry_step (Drop sid) (new_expiry_queue i) = Inr (new_expiry_queue i)"
  "expiry_step ClearAll (new_expiry_queue i) = Inr (new_expiry_queue i)"
  by (simp_all add: new_expiry_queue_def remove_session_def clear_sessions_def)

fun heartbeat :: "expiry_op \<Rightarrow> bool" where
  "heartbeat (Touch now sid timeout_ms) = True"
| "heartbeat op = False"

text \<open>Without an interval the first heartbeat divides by zero.\<close>

lemma expiry_run_zero:
  "\<exists>op\<in>set ops. heartbeat op \<Longrightarrow> res_fold expiry_step ops (new_expiry_queue 0) = Inl (Undefined ''division by zero'')"
proof (induction ops)
  case (Cons op ops)
  show ?case
  proof (cases op)
    case (Touch now sid timeout_ms)
    then show ?thesis by (simp add: addNewSessionOrUpdate_def roundToNextInterval_def new_expiry_queue_def)
  qed (use Cons in \<open>auto simp: expiry_step_idle simp del: expiry_step.simps\<close>)
qed simp

text \<open>
  C21. Any sequence of heartbeats, removals and clears, started on an empty queue, runs to its end
  (no end iterator is ever dereferenced), and the expired sessions it then reports at any time are,
  each once, exactly the sessions whose rounded expiry time has been reached. The only exception is a queue with the
  interval 0: there a sequence with a heartbeat divides by zero.
\<close>

theorem expired_sessions_after_any_run:
  "if interval = 0 \<and> (\<exists>op\<in>set ops. heartbeat op)
   then res_fold expiry_step ops (new_expiry_queue interval) = Inl (Undefined ''division by zero'')
   else \<exists>q. res_fold expiry_step ops (new_expiry_queue interval) = Inr q
     \<and> (\<forall>now. distinct (getExpiredSessions q now)
          \<and> set (getExpiredSessions q now)
            = {sid. \<exists>t. fold (expiry_spec (new_expiry_queue interval)) ops Map.empty sid = Some t \<and> t \<le> now})"
proof (cases "interval = 0")
  case True
  have idle: "res_fold expiry_step ops (new_expiry_queue interval) = Inr (new_expiry_queue interval)
      \<and> fold (expiry_spec (new_expiry_queue interval)) ops Map.empty = Map.empty" if "\<forall>op\<in>set ops. \<not> heartbeat op" for ops
    using that
  proof (induction ops)
    case (Cons op ops)
    then show ?case by (cases op) (simp_all add: expiry_step_idle del: expiry_step.simps)
  qed simp
  have "getExpiredSessions (new_expiry_queue interval) now = []" for now
    by (simp add: getExpiredSessions_def new_expiry_queue_def)
  with True expiry_run_zero [of ops] idle [of ops] show ?thesis by auto
next
  case False
  obtain q where q: "res_fold expiry_step ops (new_expiry_queue interval) = Inr q" "queue_wf q"
    "session_to_expiration_time q
       = fold (expiry_spec (new_expiry_queue interval)) ops (session_to_expiration_time (new_expiry_queue interval))"
    by (rule expiry_run_refines [OF queue_wf_new [OF False]])
  have init: "session_to_expiration_time (new_expiry_queue interval) = Map.empty"
    by (simp add: new_expiry_queue_def)
  show ?thesis
    using q distinct_getExpiredSessions [OF q(2)] getExpiredSessions_iff [OF q(2)]
    by (auto simp: init set_eq_iff False)
qed

text \<open>
  A session is never expired early and never kept long: right after a heartbeat at time
  \<open>now\<close> with timeout \<open>timeout_ms\<close>, the session is not reported at any time up to
  \<open>now + timeout_ms\<close>, and is reported at every time from one expiration interval later on.
\<close>

lemma heartbeat_expiry_window:
  assumes "queue_wf q" "0 < expiration_interval q" "0 \<le> now + timeout_ms"
  shows "\<exists>q'. addNewSessionOrUpdate q now sid timeout_ms = Inr q'
     \<and> (\<forall>t \<le> now + timeout_ms. sid \<notin> set (getExpiredSessions q' t))
     \<and> (\<forall>t \<ge> now + timeout_ms + expiration_interval q. sid \<in> set (getExpiredSessions q' t))"
proof -
  obtain q' where q': "addNewSessionOrUpdate q now sid timeout_ms = Inr q'" "queue_wf q'"
    "session_to_expiration_time q' = (session_to_expiration_time q)(sid \<mapsto> nextInterval q (now + timeout_ms))"
    by (rule addNewSessionOrUpdate_spec [OF assms(1)])
  with nextInterval_bounds [OF assms(2,3)] show ?thesis
    by (auto simp: getExpiredSessions_iff [OF q'(2)])
qed

text \<open>Whether an operation is about a session.\<close>

fun concerns :: "int \<Rightarrow> expiry_op \<Rightarrow> bool" where
  "concerns sid (Touch now sid' timeout_ms) = (sid' = sid)"
| "concerns sid (Drop sid') = (sid' = sid)"
| "concerns sid ClearAll = True"

lemma expiry_spec_other: "list_all (\<lambda>op. \<not> concerns sid op) ops \<Longrightarrow> fold (expiry_spec q) ops m sid = m sid"
proof (induction ops arbitrary: m)
  case (Cons op ops)
  then show ?case by (cases op) simp_all
qed simp

text \<open>
  C27. A silent session expires: after its last heartbeat, whatever the other sessions do before and after,
  the queue reports it from one interval after its timeout on.
\<close>

theorem silent_session_expires:
  assumes "0 < interval" "0 \<le> t + timeout_ms" "list_all (\<lambda>op. \<not> concerns sid op) later"
  shows "\<exists>q. res_fold expiry_step (earlier @ Touch t sid timeout_ms # later) (new_expiry_queue interval) = Inr q
    \<and> (\<forall>now \<ge> t + timeout_ms + interval. sid \<in> set (getExpiredSessions q now))"
proof -
  let ?q0 = "new_expiry_queue interval"
  have "interval \<noteq> 0" using assms(1) by simp
  note wf = queue_wf_new [OF this]
  obtain q where q: "res_fold expiry_step (earlier @ Touch t sid timeout_ms # later) ?q0 = Inr q" "queue_wf q"
    "session_to_expiration_time q = fold (expiry_spec ?q0) (earlier @ Touch t sid timeout_ms # later) (session_to_expiration_time ?q0)"
    by (rule expiry_run_refines [OF wf])
  have "session_to_expiration_time q sid = Some (nextInterval ?q0 (t + timeout_ms))"
    by (simp add: q(3) expiry_spec_other [OF assms(3)])
  moreover have "nextInterval ?q0 (t + timeout_ms) \<le> t + timeout_ms + interval"
    using nextInterval_bounds [of ?q0 "t + timeout_ms"] assms(1,2) by (simp add: new_expiry_queue_def)
  ultimately show ?thesis using q(1) by (auto simp: getExpiredSessions_iff [OF q(2)])
qed

theorem silent_session_expires_witness:
  "\<exists>q. res_fold expiry_step ([Touch 900 8 30000] @ Touch 1000 7 30000 # [Touch 2000 8 30000, Drop 8]) (new_expiry_queue 500) = Inr q
    \<and> 7 \<in> set (getExpiredSessions q 31500)"
  using silent_session_expires [of 500 1000 30000 7 "[Touch 2000 8 30000, Drop 8]" "[Touch 900 8 30000]"] by auto

end
