(* ===== verification/Keeper_Storage.thy ===== *)
theory Keeper_Storage
  imports Keeper_Node Acl_Map Session_Expiry
begin

section \<open>The state of the storage\<close>

text \<open>
  The data of \<open>KeeperStorage\<close> (\<open>src/src/Coordination/KeeperStorage.h\<close>): deltas, the uncommitted
  state and the committed state, in the in-memory instance. Every operation takes the storage and
  returns it changed. Containers that the code iterates (\<open>container\<close>, \<open>nodes\<close>) are association
  lists; the iterators kept in \<open>zxid_to_nodes\<close> are the paths they point to, and dereferencing
  one whose path has left \<open>nodes\<close> is the failure \<open>Undefined\<close>, as is a null node. A call of
  \<open>onStorageInconsistency\<close> is the failure \<open>Terminated\<close>. An exception aborts the server in
  every caller, so a failure carries no state.
\<close>

record auth_id =
  au_scheme :: string
  au_ident :: string

text \<open>
  The shared pointer of \<open>AddAuthDelta\<close> is a number that identifies the object and a copy of the
  object; the same number stands in the list of uncommitted authentications of the session.
\<close>

datatype operation =
    CreateNodeDelta stat acls string
  | RemoveNodeDelta int node_stats acls string
  | UpdateNodeStatDelta node_stats node_stats int
  | UpdateNodeDataDelta string string int
  | SetACLDelta acls acls int
  | AddAuthDelta int nat auth_id
  | ErrorDelta zk_error
  | SubDeltaEnd
  | FailedMultiDelta "zk_error list" zk_error
  | CloseSessionDelta int

datatype delta = Delta (delta_path: path) (delta_zxid: int) (delta_operation: operation)

definition error_delta :: "int \<Rightarrow> zk_error \<Rightarrow> delta" where
  "error_delta zxid e = Delta [] zxid (ErrorDelta e)"

text \<open>\<open>UpdateNodeStatDelta(node)\<close>: both versions start from the statistics of the node.\<close>

definition new_stat_delta :: "mem_node \<Rightarrow> (node_stats \<Rightarrow> node_stats) \<Rightarrow> int \<Rightarrow> operation" where
  "new_stat_delta n change version = UpdateNodeStatDelta (mn_stats n) (change (mn_stats n)) version"

record uncommitted_node =
  un_node :: "mem_node option"
  un_acls :: "acls option"
  un_applied_zxids :: "int list"

record uncommitted_state =
  us_closed_sessions :: "int list"
  us_nodes :: "(path \<times> uncommitted_node) list"
  us_ephemerals :: "int \<rightharpoonup> path list"
  us_session_and_auth :: "int \<rightharpoonup> (int \<times> nat \<times> auth_id) list"
  us_zxid_to_nodes :: "(int \<times> path list) list"
  us_deltas :: "delta list"
  us_next_auth :: nat

datatype digest_version = NO_DIGEST | DIGEST_V1 | DIGEST_V2 | DIGEST_V3 | DIGEST_V4

record keeper_digest =
  kd_version :: digest_version
  kd_value :: "64 word"

definition KEEPER_CURRENT_DIGEST_VERSION :: digest_version where
  "KEEPER_CURRENT_DIGEST_VERSION = DIGEST_V4"

record transaction_info =
  ti_zxid :: int
  ti_nodes_digest :: keeper_digest
  ti_log_idx :: int

record storage =
  container :: "(path \<times> mem_node) list"
  uncommitted :: uncommitted_state
  committed_zxid :: int
  old_snapshot_zxid :: int
  nodes_digest :: "64 word"
  session_id_counter :: int
  committed_session_and_auth :: "int \<rightharpoonup> auth_id list"
  acl_map_of :: acl_map
  superdigest :: string
  committed_ephemerals :: "int \<rightharpoonup> path list"
  committed_ephemeral_nodes :: nat
  session_and_timeout :: "int \<rightharpoonup> int"
  watches :: "path \<rightharpoonup> int list"
  list_watches :: "path \<rightharpoonup> int list"
  sessions_and_watchers :: "int \<rightharpoonup> (path \<times> bool) list"
  total_watches_count :: "64 word"
  session_expiry_queue_of :: session_expiry_queue
  uncommitted_transactions :: "transaction_info list"
  finalized :: bool
  initialized :: bool

datatype server_phase = INIT | RUNNING | SHUTDOWN

text \<open>
  What the storage reads of \<open>KeeperContext\<close>, and the code outside the repository's Keeper:
  the cluster configuration kept by the consensus library and the SHA-1 digest of the crypto
  library, in its base-64 text.
\<close>

record keeper_context =
  kc_digest_enabled :: bool
  kc_digest_enabled_on_commit :: bool
  kc_server_state :: server_phase
  kc_ignore_system_path_on_startup :: bool
  kc_system_nodes_with_data :: "(path \<times> string) list"
  kc_cluster_config :: string
  kc_base64_sha1 :: "string \<Rightarrow> string"

subsection \<open>Small container operations\<close>

definition bucket :: "('k \<rightharpoonup> 'v list) \<Rightarrow> 'k \<Rightarrow> 'v list" where
  "bucket m k = (case m k of None \<Rightarrow> [] | Some l \<Rightarrow> l)"

text \<open>\<open>zxid_to_nodes[zxid].insert(it)\<close>\<close>

definition track_node :: "int \<Rightarrow> path \<Rightarrow> (int \<times> path list) list \<Rightarrow> (int \<times> path list) list" where
  "track_node zxid p m = omap_update zxid (uset_insert p (bucket (map_of m) zxid)) m"

abbreviation upd_uncommitted :: "(uncommitted_state \<Rightarrow> uncommitted_state) \<Rightarrow> storage \<Rightarrow> storage" where
  "upd_uncommitted f s \<equiv> s\<lparr>uncommitted := f (uncommitted s)\<rparr>"

definition find_node :: "storage \<Rightarrow> path \<Rightarrow> mem_node option" where
  "find_node s p = map_of (container s) p"

definition find_entry :: "storage \<Rightarrow> path \<Rightarrow> uncommitted_node option" where
  "find_entry s p = map_of (us_nodes (uncommitted s)) p"

definition set_entry :: "path \<Rightarrow> uncommitted_node \<Rightarrow> storage \<Rightarrow> storage" where
  "set_entry p e s = upd_uncommitted (\<lambda>u. u\<lparr>us_nodes := AList.update p e (us_nodes u)\<rparr>) s"

text \<open>\<open>container.insert\<close> copies the node; \<open>updateValue\<close> changes it in place.\<close>

definition insert_node :: "path \<Rightarrow> mem_node \<Rightarrow> storage \<Rightarrow> storage" where
  "insert_node p n s =
     (if find_node s p = None then s\<lparr>container := AList.update p (copy_node n) (container s)\<rparr> else s)"

definition updateValue :: "path \<Rightarrow> (mem_node \<Rightarrow> mem_node) \<Rightarrow> storage \<Rightarrow> storage result" where
  "updateValue p f s =
     (case find_node s p of
        None \<Rightarrow> Inl (LogicalError ''Could not find key'')
      | Some n \<Rightarrow> Inr (s\<lparr>container := AList.update p (f n) (container s)\<rparr>))"

definition erase_node :: "path \<Rightarrow> storage \<Rightarrow> storage" where
  "erase_node p s = s\<lparr>container := AList.delete p (container s)\<rparr>"

definition unregisterEphemeralPath ::
  "(int \<rightharpoonup> path list) \<Rightarrow> int \<Rightarrow> path \<Rightarrow> bool \<Rightarrow> (int \<rightharpoonup> path list) result" where
  "unregisterEphemeralPath ephemerals session_id p throw_if_missing =
     (case ephemerals session_id of
        None \<Rightarrow>
          if throw_if_missing then Inl (LogicalError ''no ephemeral path is registered'')
          else Inr ephemerals
      | Some paths \<Rightarrow>
          if p \<notin> set paths \<and> throw_if_missing then Inl (LogicalError ''missing ephemeral path'')
          else (let left = uset_erase p paths in
                Inr (if left = [] then ephemerals(session_id := None)
                     else ephemerals(session_id \<mapsto> left))))"

definition registerEphemeralPath :: "(int \<rightharpoonup> path list) \<Rightarrow> int \<Rightarrow> path \<Rightarrow> (int \<rightharpoonup> path list)" where
  "registerEphemeralPath ephemerals session_id p =
     ephemerals(session_id \<mapsto> uset_insert p (bucket ephemerals session_id))"

end
