(* ===== verification/Keeper_Uncommitted.thy ===== *)
theory Keeper_Uncommitted
  imports Keeper_Storage
begin

section \<open>The uncommitted state\<close>

text \<open>
  The methods of \<open>KeeperStorage::UncommittedState\<close> (\<open>KeeperStorage.cpp\<close>, lines 665 to 1101):
  loading nodes from the committed container, applying and rolling back deltas, cleaning up after
  a commit, and the lookups that the request handlers use. The pointer \<open>digest\<close> is an optional
  value that is threaded through.
\<close>

definition tryGetNodeFromStorage :: "storage \<Rightarrow> path \<Rightarrow> mem_node option" where
  "tryGetNodeFromStorage s p = map_option (shallowCopy default_node) (find_node s p)"

text \<open>\<open>nodes.emplace(path, entry)\<close> followed by \<open>zxid_to_nodes[0].insert(it)\<close>.\<close>

definition emplace_entry :: "path \<Rightarrow> uncommitted_node \<Rightarrow> storage \<Rightarrow> storage" where
  "emplace_entry p e s =
     upd_uncommitted (\<lambda>u. u\<lparr>us_nodes := AList.update p e (us_nodes u),
                             us_zxid_to_nodes := track_node 0 p (us_zxid_to_nodes u)\<rparr>) s"

definition fresh_entry :: "mem_node option \<Rightarrow> uncommitted_node" where
  "fresh_entry n = \<lparr>un_node = n, un_acls = None, un_applied_zxids = []\<rparr>"

definition materializeACL :: "acl_map \<Rightarrow> uncommitted_node \<Rightarrow> uncommitted_node result" where
  "materializeACL m e =
     (case un_acls e of
        Some _ \<Rightarrow> Inr e
      | None \<Rightarrow>
          (case un_node e of
             None \<Rightarrow> Inl (Undefined ''null node'')
           | Some n \<Rightarrow> res_bind (convertNumber m (mn_acl_id n)) (\<lambda>a. Inr (e\<lparr>un_acls := Some a\<rparr>))))"

subsection \<open>Applying a delta\<close>

text \<open>
  Subtract the digest of a node that the transaction touches for the first time. The node must
  exist; computing its digest caches it.
\<close>

definition subtract_digest ::
  "path \<Rightarrow> bool \<Rightarrow> mem_node option \<Rightarrow> 64 word option \<Rightarrow> (mem_node option \<times> 64 word option) result" where
  "subtract_digest p seen node digest =
     (case digest of
        None \<Rightarrow> Inr (node, None)
      | Some g \<Rightarrow>
          if seen then Inr (node, Some g)
          else (case node of
                  None \<Rightarrow> Inl (Undefined ''null node'')
                | Some n \<Rightarrow> (let (d, n') = getDigest p n in Inr (Some n', Some (g - d)))))"

text \<open>The visitor of \<open>applyDelta\<close> on the entry of the delta's path.\<close>

definition apply_operation ::
  "path \<Rightarrow> bool \<Rightarrow> operation \<Rightarrow> 64 word option \<Rightarrow> uncommitted_node \<Rightarrow> (64 word option \<times> uncommitted_node) result" where
  "apply_operation p seen op digest e =
     (case op of
        CreateNodeDelta st acls data \<Rightarrow>
          Inr (digest, e\<lparr>un_node := Some (setData data (node_copyStats st default_node)),
                         un_acls := Some acls\<rparr>)
      | RemoveNodeDelta version st acls data \<Rightarrow>
          res_bind (subtract_digest p seen (un_node e) digest) (\<lambda>(node, digest').
            Inr (digest', e\<lparr>un_node := None\<rparr>))
      | UpdateNodeStatDelta old_stats new_stats version \<Rightarrow>
          res_bind (subtract_digest p seen (un_node e) digest) (\<lambda>(node, digest').
            case node of
              None \<Rightarrow> Inl (Undefined ''null node'')
            | Some n \<Rightarrow> Inr (digest', e\<lparr>un_node := Some ((invalidateDigestCache n)\<lparr>mn_stats := new_stats\<rparr>)\<rparr>))
      | UpdateNodeDataDelta old_data new_data version \<Rightarrow>
          res_bind (subtract_digest p seen (un_node e) digest) (\<lambda>(node, digest').
            case node of
              None \<Rightarrow> Inl (Undefined ''null node'')
            | Some n \<Rightarrow> Inr (digest', e\<lparr>un_node := Some (setData new_data (invalidateDigestCache n))\<rparr>))
      | SetACLDelta old_acls new_acls version \<Rightarrow> Inr (digest, e\<lparr>un_acls := Some new_acls\<rparr>)
      | _ \<Rightarrow> Inr (digest, e))"

definition load_entry :: "path \<Rightarrow> storage \<Rightarrow> uncommitted_node \<times> storage" where
  "load_entry p s =
     (case find_entry s p of
        Some e \<Rightarrow> (e, s)
      | None \<Rightarrow>
          (let e = fresh_entry (tryGetNodeFromStorage s p) in (e, emplace_entry p e s)))"

definition applyDelta :: "delta \<Rightarrow> 64 word option \<times> storage \<Rightarrow> (64 word option \<times> storage) result" where
  "applyDelta d ds =
     (let (digest, s) = ds;
          p = delta_path d;
          (e, s1) = load_entry p s;
          z = delta_zxid d;
          seen = (p \<in> set (bucket (map_of (us_zxid_to_nodes (uncommitted s1))) z))
      in res_bind (apply_operation p seen (delta_operation d) digest e) (\<lambda>(digest', e').
           Inr (digest',
                upd_uncommitted (\<lambda>u.
                  u\<lparr>us_nodes := AList.update p (e'\<lparr>un_applied_zxids := uset_insert z (un_applied_zxids e')\<rparr>) (us_nodes u),
                    us_zxid_to_nodes := track_node z p (us_zxid_to_nodes u)\<rparr>) s1)))"

text \<open>One step of \<open>applyDeltas\<close>.\<close>

definition applyDeltas_step :: "delta \<Rightarrow> 64 word option \<times> storage \<Rightarrow> (64 word option \<times> storage) result" where
  "applyDeltas_step d ds =
     (if delta_path d \<noteq> [] then applyDelta d ds
      else case delta_operation d of
             AddAuthDelta session_id ptr auth \<Rightarrow>
               Inr (fst ds, upd_uncommitted (\<lambda>u. u\<lparr>us_session_and_auth :=
                 (us_session_and_auth u)(session_id \<mapsto>
                    bucket (us_session_and_auth u) session_id @ [(delta_zxid d, ptr, auth)])\<rparr>) (snd ds))
           | CloseSessionDelta session_id \<Rightarrow>
               Inr (fst ds, upd_uncommitted (\<lambda>u. u\<lparr>us_closed_sessions :=
                 uset_insert session_id (us_closed_sessions u)\<rparr>) (snd ds))
           | _ \<Rightarrow> Inr ds)"

definition applyDeltas :: "delta list \<Rightarrow> 64 word option \<times> storage \<Rightarrow> (64 word option \<times> storage) result" where
  "applyDeltas = res_fold applyDeltas_step"

definition addDeltas :: "delta list \<Rightarrow> storage \<Rightarrow> storage" where
  "addDeltas new_deltas s = upd_uncommitted (\<lambda>u. u\<lparr>us_deltas := us_deltas u @ new_deltas\<rparr>) s"

subsection \<open>Rolling back\<close>

definition rollback_operation :: "operation \<Rightarrow> uncommitted_node \<Rightarrow> uncommitted_node result" where
  "rollback_operation op e =
     (case op of
        CreateNodeDelta st acls data \<Rightarrow> Inr (e\<lparr>un_node := None\<rparr>)
      | RemoveNodeDelta version st acls data \<Rightarrow>
          Inr (e\<lparr>un_node := Some (setData data (default_node\<lparr>mn_stats := st\<rparr>)), un_acls := Some acls\<rparr>)
      | UpdateNodeStatDelta old_stats new_stats version \<Rightarrow>
          (case un_node e of
             None \<Rightarrow> Inl (Undefined ''null node'')
           | Some n \<Rightarrow> Inr (e\<lparr>un_node := Some ((invalidateDigestCache n)\<lparr>mn_stats := old_stats\<rparr>)\<rparr>))
      | UpdateNodeDataDelta old_data new_data version \<Rightarrow>
          (case un_node e of
             None \<Rightarrow> Inl (Undefined ''null node'')
           | Some n \<Rightarrow> Inr (e\<lparr>un_node := Some (setData old_data (invalidateDigestCache n))\<rparr>))
      | SetACLDelta old_acls new_acls version \<Rightarrow> Inr (e\<lparr>un_acls := Some old_acls\<rparr>)
      | _ \<Rightarrow> Inr e)"

definition rollbackDelta :: "delta \<Rightarrow> storage \<Rightarrow> storage result" where
  "rollbackDelta d s =
     (case find_entry s (delta_path d) of
        None \<Rightarrow> Inl (LogicalError ''out of range'')
      | Some e \<Rightarrow>
          res_bind (rollback_operation (delta_operation d) e) (\<lambda>e'.
            Inr (upd_uncommitted (\<lambda>u.
              u\<lparr>us_nodes := AList.update (delta_path d)
                    (e'\<lparr>un_applied_zxids := uset_erase (delta_zxid d) (un_applied_zxids e')\<rparr>) (us_nodes u),
                us_zxid_to_nodes := omap_erase (delta_zxid d) (us_zxid_to_nodes u)\<rparr>) s)))"

text \<open>The undo of the ephemeral mapping that precedes \<open>rollbackDelta\<close>.\<close>

definition rollback_ephemerals :: "delta \<Rightarrow> storage \<Rightarrow> storage result" where
  "rollback_ephemerals d s =
     (case delta_operation d of
        CreateNodeDelta st acls data \<Rightarrow>
          if st_ephemeralOwner st \<noteq> 0
          then res_bind (unregisterEphemeralPath (us_ephemerals (uncommitted s)) (st_ephemeralOwner st) (delta_path d) False)
                 (\<lambda>eph. Inr (upd_uncommitted (\<lambda>u. u\<lparr>us_ephemerals := eph\<rparr>) s))
          else Inr s
      | RemoveNodeDelta version st acls data \<Rightarrow>
          if ephemeralOwner st \<noteq> 0
          then Inr (upd_uncommitted (\<lambda>u. u\<lparr>us_ephemerals :=
                 registerEphemeralPath (us_ephemerals u) (ephemeralOwner st) (delta_path d)\<rparr>) s)
          else Inr s
      | _ \<Rightarrow> Inr s)"

text \<open>
  The loop body of \<open>rollback(std::list<Delta>)\<close>. An uncommitted authentication is dropped when it
  is the object of the delta; \<open>back()\<close> of an empty list is undefined.
\<close>

definition rollback_step :: "delta \<Rightarrow> storage \<Rightarrow> storage result" where
  "rollback_step d s =
     (if delta_path d \<noteq> [] then res_bind (rollback_ephemerals d s) (rollbackDelta d)
      else case delta_operation d of
             AddAuthDelta session_id ptr auth \<Rightarrow>
               (let auths = bucket (us_session_and_auth (uncommitted s)) session_id in
                if auths = [] then Inl (Undefined ''back of an empty list'')
                else Inr (upd_uncommitted (\<lambda>u. u\<lparr>us_session_and_auth :=
                       (if fst (snd (last auths)) = ptr
                        then (if butlast auths = [] then (us_session_and_auth u)(session_id := None)
                              else (us_session_and_auth u)(session_id \<mapsto> butlast auths))
                        else (us_session_and_auth u)(session_id \<mapsto> auths))\<rparr>) s))
           | CloseSessionDelta session_id \<Rightarrow>
               Inr (upd_uncommitted (\<lambda>u. u\<lparr>us_closed_sessions := uset_erase session_id (us_closed_sessions u)\<rparr>) s)
           | _ \<Rightarrow> Inr s)"

definition rollback_deltas :: "delta list \<Rightarrow> storage \<Rightarrow> storage result" where
  "rollback_deltas ds s = res_fold rollback_step (rev ds) s"

text \<open>\<open>rollback(rollback_zxid)\<close>: split off the deltas of the last transaction and undo them.\<close>

definition rollback_zxid :: "int \<Rightarrow> storage \<Rightarrow> storage result" where
  "rollback_zxid z s =
     (let deltas = us_deltas (uncommitted s) in
      if deltas \<noteq> [] \<and> delta_zxid (last deltas) > z
      then Inl (LogicalError ''Invalid state of deltas found while trying to rollback request'')
      else (let undone = rev (takeWhile (\<lambda>d. delta_zxid d = z) (rev deltas));
                kept = rev (dropWhile (\<lambda>d. delta_zxid d = z) (rev deltas))
            in rollback_deltas undone (upd_uncommitted (\<lambda>u. u\<lparr>us_deltas := kept\<rparr>) s)))"

subsection \<open>Digest, cleanup and lookups\<close>

definition digest_step :: "path \<Rightarrow> 64 word \<times> storage \<Rightarrow> (64 word \<times> storage) result" where
  "digest_step p gs =
     (case find_entry (snd gs) p of
        None \<Rightarrow> Inl (Undefined ''stale iterator in zxid_to_nodes'')
      | Some e \<Rightarrow>
          (case un_node e of
             None \<Rightarrow> Inr gs
           | Some n \<Rightarrow>
               (let (d, n') = getDigest p (invalidateDigestCache n)
                in Inr (fst gs + d, set_entry p (e\<lparr>un_node := Some n'\<rparr>) (snd gs)))))"

definition updateNodesDigest :: "keeper_context \<Rightarrow> 64 word \<Rightarrow> int \<Rightarrow> storage \<Rightarrow> (64 word \<times> storage) result" where
  "updateNodesDigest ctx current_digest zxid s =
     (if \<not> kc_digest_enabled ctx then Inr (current_digest, s)
      else case map_of (us_zxid_to_nodes (uncommitted s)) zxid of
             None \<Rightarrow> Inr (current_digest, s)
           | Some paths \<Rightarrow> res_fold digest_step paths (current_digest, s))"

definition cleanup_node :: "int \<Rightarrow> path \<Rightarrow> (path \<times> uncommitted_node) list \<Rightarrow> (path \<times> uncommitted_node) list result" where
  "cleanup_node zxid p nodes =
     (case map_of nodes p of
        None \<Rightarrow> Inl (Undefined ''stale iterator in zxid_to_nodes'')
      | Some e \<Rightarrow>
          (let applied = uset_erase zxid (un_applied_zxids e) in
           Inr (if applied = [] then AList.delete p nodes
                else AList.update p (e\<lparr>un_applied_zxids := applied\<rparr>) nodes)))"

fun cleanup_loop ::
  "int \<Rightarrow> (int \<times> path list) list \<Rightarrow> (path \<times> uncommitted_node) list
     \<Rightarrow> ((int \<times> path list) list \<times> (path \<times> uncommitted_node) list) result" where
  "cleanup_loop commit_zxid [] nodes = Inr ([], nodes)"
| "cleanup_loop commit_zxid ((transaction_zxid, transaction_nodes) # rest) nodes =
     (if transaction_zxid > commit_zxid then Inr ((transaction_zxid, transaction_nodes) # rest, nodes)
      else res_bind (res_fold (cleanup_node transaction_zxid) transaction_nodes nodes)
             (cleanup_loop commit_zxid rest))"

definition cleanup_auth :: "int \<Rightarrow> (int \<rightharpoonup> (int \<times> nat \<times> auth_id) list) \<Rightarrow> (int \<rightharpoonup> (int \<times> nat \<times> auth_id) list)" where
  "cleanup_auth commit_zxid m =
     (\<lambda>session_id. case m session_id of
        None \<Rightarrow> None
      | Some auths \<Rightarrow>
          (let left = filter (\<lambda>a. \<not> fst a \<le> commit_zxid) auths in if left = [] then None else Some left))"

definition cleanup :: "int \<Rightarrow> storage \<Rightarrow> storage result" where
  "cleanup commit_zxid s =
     res_bind (cleanup_loop commit_zxid (us_zxid_to_nodes (uncommitted s)) (us_nodes (uncommitted s)))
       (\<lambda>(z2n, nodes). Inr (upd_uncommitted (\<lambda>u.
          u\<lparr>us_zxid_to_nodes := z2n, us_nodes := nodes,
            us_session_and_auth := cleanup_auth commit_zxid (us_session_and_auth u)\<rparr>) s))"

definition getNode :: "path \<Rightarrow> storage \<Rightarrow> mem_node option \<times> storage" where
  "getNode p s =
     (case find_entry s p of
        Some e \<Rightarrow> (un_node e, s)
      | None \<Rightarrow>
          (case tryGetNodeFromStorage s p of
             None \<Rightarrow> (None, s)
           | Some n \<Rightarrow> (Some n, emplace_entry p (fresh_entry (Some n)) s)))"

definition getActualNodeView :: "path \<Rightarrow> mem_node \<Rightarrow> storage \<Rightarrow> mem_node option" where
  "getActualNodeView p storage_node s =
     (case find_entry s p of Some e \<Rightarrow> un_node e | None \<Rightarrow> Some storage_node)"

definition getACLs :: "path \<Rightarrow> storage \<Rightarrow> (acls \<times> storage) result" where
  "getACLs p s =
     (case find_entry s p of
        Some e \<Rightarrow>
          res_bind (materializeACL (acl_map_of s) e) (\<lambda>e'. Inr (the (un_acls e'), set_entry p e' s))
      | None \<Rightarrow>
          (case tryGetNodeFromStorage s p of
             None \<Rightarrow> Inr ([], s)
           | Some n \<Rightarrow>
               res_bind (convertNumber (acl_map_of s) (mn_acl_id n)) (\<lambda>a.
                 Inr (a, emplace_entry p ((fresh_entry (Some n))\<lparr>un_acls := Some a\<rparr>) s))))"

text \<open>
  \<open>hasACL\<close>: the subscript \<open>committed_session_and_auth[session_id]\<close> creates an empty entry.
\<close>

definition touch_committed_auth :: "int \<Rightarrow> storage \<Rightarrow> storage" where
  "touch_committed_auth session_id s =
     s\<lparr>committed_session_and_auth :=
         (committed_session_and_auth s)(session_id \<mapsto> bucket (committed_session_and_auth s) session_id)\<rparr>"

definition hasACL :: "int \<Rightarrow> bool \<Rightarrow> (auth_id \<Rightarrow> bool) \<Rightarrow> storage \<Rightarrow> bool \<times> storage" where
  "hasACL session_id is_local predicate s =
     (let committed = list_ex predicate (bucket (committed_session_and_auth s) session_id);
          s' = touch_committed_auth session_id s
      in if is_local then (committed, s')
         else if session_id \<in> set (us_closed_sessions (uncommitted s)) then (False, s)
         else if committed then (True, s')
         else case us_session_and_auth (uncommitted s) session_id of
                None \<Rightarrow> (False, s')
              | Some auths \<Rightarrow>
                  if list_ex (\<lambda>a. predicate (snd (snd a))) auths then (True, s')
                  else (committed, s'))"

text \<open>The authentications that \<open>forEachAuthInSession\<close> visits, in order.\<close>

definition authsInSession :: "int \<Rightarrow> storage \<Rightarrow> auth_id list" where
  "authsInSession session_id s =
     filter (\<lambda>a. au_scheme a \<noteq> []) (bucket (committed_session_and_auth s) session_id)
     @ filter (\<lambda>a. au_scheme a \<noteq> []) (map (\<lambda>a. snd (snd a)) (bucket (us_session_and_auth (uncommitted s)) session_id))"

end
