(* ===== verification/Keeper_Commit.thy ===== *)
theory Keeper_Commit
  imports Keeper_Uncommitted
begin

section \<open>Committing deltas\<close>

text \<open>
  \<open>commit\<close>, \<open>createNode\<close> and \<open>removeNode\<close> of \<open>KeeperStorage.cpp\<close> (lines 1165 to 1369), the
  digest of the committed nodes and the construction of the storage (lines 573 to 652).
\<close>

definition removeDigest :: "mem_node \<Rightarrow> path \<Rightarrow> storage \<Rightarrow> storage" where
  "removeDigest n p s = s\<lparr>nodes_digest := nodes_digest s - fst (getDigest p n)\<rparr>"

definition addDigest :: "mem_node \<Rightarrow> path \<Rightarrow> storage \<Rightarrow> storage" where
  "addDigest n p s = s\<lparr>nodes_digest := nodes_digest s + fst (getDigest p n)\<rparr>"

text \<open>
  \<open>getDigest\<close> on a node of the container leaves the digest cached there.
\<close>

definition cache_digest :: "path \<Rightarrow> storage \<Rightarrow> storage" where
  "cache_digest p s =
     (case find_node s p of
        None \<Rightarrow> s
      | Some n \<Rightarrow> s\<lparr>container := AList.update p (snd (getDigest p n)) (container s)\<rparr>)"

definition createNode ::
  "path \<Rightarrow> string \<Rightarrow> stat \<Rightarrow> acls \<Rightarrow> bool \<Rightarrow> storage \<Rightarrow> (bool \<times> storage) result" where
  "createNode p data st node_acls update_digest s =
     res_bind (parentNodePath p) (\<lambda>parent_path.
      case find_node s parent_path of
        None \<Rightarrow> Inr (False, s)
      | Some parent \<Rightarrow>
          if isEphemeral (mn_stats parent) then Inr (False, s)
          else if find_node s p \<noteq> None then Inr (False, s)
          else
            (let (acl_id, m1) = convertACLs (acl_map_of s) node_acls;
                 s1 = s\<lparr>acl_map_of := addUsage m1 acl_id\<rparr>;
                 created = setData data (node_copyStats st (default_node\<lparr>mn_acl_id := acl_id\<rparr>));
                 s2 = insert_node p created s1
             in res_bind (updateValue parent_path (addChild (getBaseNodeName p)) s2) (\<lambda>s3.
                  let s4 = (if update_digest
                            then (case find_node s3 p of
                                    None \<Rightarrow> s3
                                  | Some n \<Rightarrow> cache_digest p (addDigest n p s3))
                            else s3);
                      s5 = (if st_ephemeralOwner st \<noteq> 0
                            then s4\<lparr>committed_ephemeral_nodes := committed_ephemeral_nodes s4 + 1,
                                    committed_ephemerals :=
                                      registerEphemeralPath (committed_ephemerals s4) (st_ephemeralOwner st) p\<rparr>
                            else s4)
                  in Inr (True, s5))))"

definition removeNode :: "path \<Rightarrow> int \<Rightarrow> bool \<Rightarrow> storage \<Rightarrow> (bool \<times> storage) result" where
  "removeNode p version update_digest s =
     (case find_node s p of
        None \<Rightarrow> Inr (False, s)
      | Some n \<Rightarrow>
          if version \<noteq> -1 \<and> version \<noteq> ns_version (mn_stats n) then Inr (False, s)
          else
            (let prev_node = shallowCopy default_node n;
                 s1 = s\<lparr>acl_map_of := removeUsage (acl_map_of s) (mn_acl_id n)\<rparr>
             in res_bind (res_bind (parentNodePath p) (\<lambda>parent_path. updateValue parent_path (removeChild (getBaseNodeName p)) s1)) (\<lambda>s2.
                  let s3 = erase_node p s2;
                      s4 = (if update_digest then removeDigest prev_node p s3 else s3)
                  in if ephemeralOwner (mn_stats prev_node) \<noteq> 0
                     then res_bind (unregisterEphemeralPath (committed_ephemerals s4)
                                      (ephemeralOwner (mn_stats prev_node)) p True)
                            (\<lambda>eph. Inr (True, s4\<lparr>committed_ephemeral_nodes := committed_ephemeral_nodes s4 - 1,
                                                   committed_ephemerals := eph\<rparr>))
                     else Inr (True, s4))))"

text \<open>
  \<open>std::move(*operation.auth_id)\<close> empties the object that the uncommitted list of the session
  still points to.
\<close>

definition move_out_auth :: "nat \<Rightarrow> storage \<Rightarrow> storage" where
  "move_out_auth ptr s =
     upd_uncommitted (\<lambda>u. u\<lparr>us_session_and_auth := (\<lambda>session_id.
       map_option (map (\<lambda>a. if fst (snd a) = ptr then (fst a, ptr, \<lparr>au_scheme = [], au_ident = []\<rparr>) else a))
         (us_session_and_auth u session_id))\<rparr>) s"

text \<open>The branch of the visitor of \<open>commit\<close> shared by the two kinds of updates.\<close>

definition commit_update ::
  "bool \<Rightarrow> path \<Rightarrow> int \<Rightarrow> (mem_node \<Rightarrow> mem_node) \<Rightarrow> storage \<Rightarrow> (zk_error \<times> storage) result" where
  "commit_update digest_on_commit p version change s =
     (case find_node s p of
        None \<Rightarrow> Inl (Terminated ''Node to be updated is missing'')
      | Some n \<Rightarrow>
          if version \<noteq> -1 \<and> version \<noteq> ns_version (mn_stats n)
          then Inl (Terminated ''Node to be updated has invalid version'')
          else
            (let s1 = (if digest_on_commit then cache_digest p (removeDigest n p s) else s)
             in res_bind (updateValue p (\<lambda>n. invalidateDigestCache (change n)) s1) (\<lambda>s2.
                  Inr (ZOK,
                    if digest_on_commit
                    then (case find_node s2 p of
                            None \<Rightarrow> s2
                          | Some n' \<Rightarrow> cache_digest p (addDigest n' p s2))
                    else s2))))"

definition commit_delta :: "keeper_context \<Rightarrow> delta \<Rightarrow> storage \<Rightarrow> (zk_error \<times> storage) result" where
  "commit_delta ctx d s =
     (let digest_on_commit = (kc_digest_enabled ctx \<and> kc_digest_enabled_on_commit ctx);
          p = delta_path d
      in case delta_operation d of
           CreateNodeDelta st acls data \<Rightarrow>
             res_bind (createNode p data st acls digest_on_commit s) (\<lambda>(ok, s').
               if ok then Inr (ZOK, s') else Inl (Terminated ''Failed to create a node''))
         | UpdateNodeStatDelta old_stats new_stats version \<Rightarrow>
             commit_update digest_on_commit p version (\<lambda>n. n\<lparr>mn_stats := new_stats\<rparr>) s
         | UpdateNodeDataDelta old_data new_data version \<Rightarrow>
             commit_update digest_on_commit p version (setData new_data) s
         | RemoveNodeDelta version st acls data \<Rightarrow>
             res_bind (removeNode p version digest_on_commit s) (\<lambda>(ok, s').
               if ok then Inr (ZOK, s') else Inl (Terminated ''Failed to remove node''))
         | SetACLDelta old_acls new_acls version \<Rightarrow>
             (case find_node s p of
                None \<Rightarrow> Inl (Terminated ''Failed to set ACL because node is missing'')
              | Some n \<Rightarrow>
                  if version \<noteq> -1 \<and> version \<noteq> ns_aversion (mn_stats n)
                  then Inl (Terminated ''Failed to set ACL because version of the node is invalid'')
                  else
                    (let m1 = removeUsage (acl_map_of s) (mn_acl_id n);
                         (acl_id, m2) = convertACLs m1 new_acls;
                         s1 = s\<lparr>acl_map_of := addUsage m2 acl_id\<rparr>
                     in res_bind (updateValue p (\<lambda>n. n\<lparr>mn_acl_id := acl_id\<rparr>) s1) (\<lambda>s2. Inr (ZOK, s2))))
         | ErrorDelta e \<Rightarrow> Inr (e, s)
         | SubDeltaEnd \<Rightarrow> Inr (ZOK, s)
         | AddAuthDelta session_id ptr auth \<Rightarrow>
             Inr (ZOK, move_out_auth ptr (s\<lparr>committed_session_and_auth :=
               (committed_session_and_auth s)(session_id \<mapsto>
                  bucket (committed_session_and_auth s) session_id @ [auth])\<rparr>))
         | CloseSessionDelta session_id \<Rightarrow> Inr (ZOK, s)
         | FailedMultiDelta errors global \<Rightarrow> Inl (Terminated ''Invalid delta operation''))"

text \<open>\<open>commit\<close> stops at the first delta that carries an error.\<close>

fun commit :: "keeper_context \<Rightarrow> delta list \<Rightarrow> storage \<Rightarrow> (zk_error \<times> storage) result" where
  "commit ctx [] s = Inr (ZOK, s)"
| "commit ctx (d # ds) s =
     res_bind (commit_delta ctx d s) (\<lambda>(e, s').
       if e \<noteq> ZOK then Inr (e, s') else commit ctx ds s')"

subsection \<open>Construction\<close>

definition empty_uncommitted :: uncommitted_state where
  "empty_uncommitted = \<lparr>us_closed_sessions = [], us_nodes = [], us_ephemerals = Map.empty,
     us_session_and_auth = Map.empty, us_zxid_to_nodes = [], us_deltas = [], us_next_auth = 0\<rparr>"

definition base_storage :: "int \<Rightarrow> string \<Rightarrow> storage" where
  "base_storage tick_time_ms super =
     \<lparr>container = [], uncommitted = empty_uncommitted, committed_zxid = 0, old_snapshot_zxid = 0,
      nodes_digest = 0, session_id_counter = 1, committed_session_and_auth = Map.empty,
      acl_map_of = empty_acl_map, superdigest = super, committed_ephemerals = Map.empty,
      committed_ephemeral_nodes = 0, session_and_timeout = Map.empty, watches = Map.empty,
      list_watches = Map.empty, sessions_and_watchers = Map.empty, total_watches_count = 0,
      session_expiry_queue_of = new_expiry_queue tick_time_ms, uncommitted_transactions = [],
      finalized = False, initialized = False\<rparr>"

text \<open>The loop of \<open>initializeSystemNodes\<close> over the system nodes with data.\<close>

definition insert_system_node :: "path \<times> string \<Rightarrow> storage \<Rightarrow> storage result" where
  "insert_system_node pd s =
     res_bind (parentNodePath (fst pd)) (\<lambda>parent_path. updateValue parent_path (addChild (getBaseNodeName (fst pd)))
       (insert_node (fst pd) (setData (snd pd) default_node) s))"

definition initializeSystemNodes :: "keeper_context \<Rightarrow> storage \<Rightarrow> storage result" where
  "initializeSystemNodes ctx s =
     (if initialized s then Inl (LogicalError ''KeeperStorage system nodes initialized twice'')
      else
        res_bind
          (if find_node s keeper_system_path = None
           then
             (let s1 = addDigest default_node keeper_system_path (insert_node keeper_system_path default_node s)
              in case find_node s1 ''/'' of
                   None \<Rightarrow> Inl (Undefined ''root node is missing'')
                 | Some root \<Rightarrow>
                     res_bind (updateValue ''/''
                        (\<lambda>n. invalidateDigestCache (addChild (getBaseNodeName keeper_system_path)
                               (n\<lparr>mn_stats := increaseNumChildren (mn_stats n)\<rparr>)))
                        (cache_digest ''/'' (removeDigest root ''/'' s1)))
                       (\<lambda>s2. case find_node s2 ''/'' of
                                None \<Rightarrow> Inr s2
                              | Some root' \<Rightarrow> Inr (cache_digest ''/'' (addDigest root' ''/'' s2))))
           else Inr s)
          (\<lambda>s3. res_bind (res_fold insert_system_node (kc_system_nodes_with_data ctx) s3)
             (\<lambda>s4. Inr (s4\<lparr>initialized := True\<rparr>))))"

definition new_storage :: "keeper_context \<Rightarrow> int \<Rightarrow> string \<Rightarrow> bool \<Rightarrow> storage result" where
  "new_storage ctx tick_time_ms super initialize_system_nodes =
     (let s = addDigest default_node ''/'' (insert_node ''/'' default_node (base_storage tick_time_ms super))
      in if initialize_system_nodes then initializeSystemNodes ctx s else Inr s)"

end
