(* ===== verification/Keeper_Preprocess.thy ===== *)
theory Keeper_Preprocess
  imports Keeper_Commit
begin

unbundle bit_operations_syntax

section \<open>Preprocessing requests\<close>

text \<open>
  Access checks (\<open>fixupACL\<close>, \<open>checkACL\<close>, \<open>checkAuth\<close>) and the \<open>preprocess\<close> function of every
  request (\<open>KeeperStorage.cpp\<close>). Preprocessing reads the uncommitted state and returns the deltas
  of the request; it changes the storage only by loading nodes, by materializing ACLs, in the
  uncommitted map of ephemeral nodes and, for \<open>Multi\<close>, by applying the deltas of the
  subrequests. The search of \<open>ToDeleteTreeCollector\<close> is a loop without a bound, so its model is
  a partial function; not returning is the failure \<open>Diverges\<close>.
\<close>

subsection \<open>Access control\<close>

definition count_colons :: "string \<Rightarrow> nat" where
  "count_colons s = length (filter (\<lambda>c. c = CHR '':'') s)"

text \<open>The loop of \<open>fixupACL\<close>: \<open>None\<close> is the early \<open>return false\<close>; otherwise the flag
  \<open>valid_found\<close> and the accumulated ACLs.\<close>

fun fixupACL_loop :: "auth_id list \<Rightarrow> acls \<Rightarrow> bool \<Rightarrow> acls \<Rightarrow> (bool \<times> acls) option" where
  "fixupACL_loop auths [] valid_found result = Some (valid_found, result)"
| "fixupACL_loop auths (a # rest) valid_found result =
     (if acl_scheme a = ''auth'' then
        fixupACL_loop auths rest (valid_found \<or> auths \<noteq> [])
          (result @ map (\<lambda>au. a\<lparr>acl_scheme := au_scheme au, acl_ident := au_ident au\<rparr>) auths)
      else if acl_scheme a = ''world'' \<and> acl_ident a = ''anyone'' then
        fixupACL_loop auths rest True result
      else if acl_scheme a = ''digest'' then
        (if count_colons (acl_ident a) \<noteq> 1 then None
         else fixupACL_loop auths rest True (result @ [a]))
      else fixupACL_loop auths rest valid_found result)"

definition fixupACL :: "acls \<Rightarrow> int \<Rightarrow> storage \<Rightarrow> acls option" where
  "fixupACL request_acls session_id s =
     (if request_acls = [] then Some []
      else case fixupACL_loop (authsInSession session_id s) request_acls False [] of
             None \<Rightarrow> None
           | Some (valid_found, result) \<Rightarrow> if valid_found then Some result else None)"

definition getNodeACLs :: "path \<Rightarrow> bool \<Rightarrow> storage \<Rightarrow> (acls \<times> storage) result" where
  "getNodeACLs p is_local s =
     (if is_local
      then (case find_node s p of
              None \<Rightarrow> Inr ([], s)
            | Some n \<Rightarrow> res_bind (convertNumber (acl_map_of s) (mn_acl_id n)) (\<lambda>a. Inr (a, s)))
      else getACLs p s)"

definition handleSystemNodeModification :: "keeper_context \<Rightarrow> unit result" where
  "handleSystemNodeModification ctx =
     (if kc_server_state ctx = INIT \<and> \<not> kc_ignore_system_path_on_startup ctx
      then Inl (LogicalError ''Trying to modify an internal Keeper path'')
      else Inr ())"

text \<open>The loop of \<open>checkACL\<close> over the ACLs of the node.\<close>

fun checkACL_loop :: "acls \<Rightarrow> int \<Rightarrow> int \<Rightarrow> bool \<Rightarrow> storage \<Rightarrow> bool \<times> storage" where
  "checkACL_loop [] permission session_id is_local s = (False, s)"
| "checkACL_loop (a # rest) permission session_id is_local s =
     (if (acl_permissions a AND permission) \<noteq> 0 then
        (if acl_scheme a = ''world'' \<and> acl_ident a = ''anyone'' then (True, s)
         else (let (found, s') = hasACL session_id is_local
                      (\<lambda>au. au_scheme au = acl_scheme a \<and> au_ident au = acl_ident a) s
               in if found then (True, s') else checkACL_loop rest permission session_id is_local s'))
      else checkACL_loop rest permission session_id is_local s)"

definition checkACL :: "path \<Rightarrow> int \<Rightarrow> int \<Rightarrow> bool \<Rightarrow> storage \<Rightarrow> (bool \<times> storage) result" where
  "checkACL p permission session_id is_local s =
     res_bind (getNodeACLs p is_local s) (\<lambda>(node_acls, s1).
       if node_acls = [] then Inr (True, s1)
       else (let (super, s2) = hasACL session_id is_local (\<lambda>au. au_scheme au = ''super'') s1 in
             if super then Inr (True, s2)
             else Inr (checkACL_loop node_acls permission session_id is_local s2)))"

text \<open>
  \<open>checkAuth\<close> of every request; the requests without an overload keep the default. The two
  requests that \<open>callOnConcreteRequestType\<close> does not know raise an exception.
\<close>

fun checkAuth :: "zk_request \<Rightarrow> int \<Rightarrow> bool \<Rightarrow> storage \<Rightarrow> (bool \<times> storage) result"
  and checkAuth_all :: "zk_request list \<Rightarrow> int \<Rightarrow> bool \<Rightarrow> storage \<Rightarrow> (bool \<times> storage) result" where
  "checkAuth (CreateRequest c) sid is_local s =
     res_bind (parentNodePath (cr_path c)) (\<lambda>parent_path. checkACL parent_path ACL_Create sid is_local s)"
| "checkAuth (GetRequest p w) sid is_local s = checkACL p ACL_Read sid is_local s"
| "checkAuth (RemoveRequest p v r) sid is_local s =
     res_bind (parentNodePath p) (\<lambda>parent_path. checkACL parent_path ACL_Delete sid is_local s)"
| "checkAuth (RemoveRecursiveRequest p l r) sid is_local s =
     res_bind (parentNodePath p) (\<lambda>parent_path. checkACL parent_path ACL_Delete sid is_local s)"
| "checkAuth (SetRequest p d v) sid is_local s = checkACL p ACL_Write sid is_local s"
| "checkAuth (ListRequest k p w) sid is_local s = checkACL p ACL_Read sid is_local s"
| "checkAuth (CheckRequest p v not_exists) sid is_local s =
     res_bind (if not_exists then parentNodePath p else Inr p) (\<lambda>path. checkACL path ACL_Read sid is_local s)"
| "checkAuth (SetACLRequest p a v) sid is_local s = checkACL p ACL_Admin sid is_local s"
| "checkAuth (GetACLRequest p) sid is_local s = checkACL p (ACL_Admin OR ACL_Read) sid is_local s"
| "checkAuth (MultiRequest ty rs) sid is_local s = checkAuth_all rs sid is_local s"
| "checkAuth (ReconfigRequest _ _ _ _) sid is_local s = Inl (LogicalError ''Unexpected request type'')"
| "checkAuth (SessionIDRequest _ _ _) sid is_local s = Inl (LogicalError ''Unexpected request type'')"
| "checkAuth _ sid is_local s = Inr (True, s)"
| "checkAuth_all [] sid is_local s = Inr (True, s)"
| "checkAuth_all (r # rs) sid is_local s =
     res_bind (checkAuth r sid is_local s) (\<lambda>(ok, s'). if ok then checkAuth_all rs sid is_local s' else Inr (False, s'))"

subsection \<open>Create\<close>

text \<open>Decimal output of an integer, padded on the left with zeros to the width 10.\<close>

fun nat_decimal :: "nat \<Rightarrow> string" where
  "nat_decimal n =
     (if n < 10 then [char_of (n + 48)] else nat_decimal (n div 10) @ [char_of (n mod 10 + 48)])"

declare nat_decimal.simps [simp del]

definition int_decimal :: "int \<Rightarrow> string" where
  "int_decimal z = (if z < 0 then CHR ''-'' # nat_decimal (nat (- z)) else nat_decimal (nat z))"

definition seq_num_str :: "int \<Rightarrow> string" where
  "seq_num_str z = replicate (10 - length (int_decimal z)) CHR ''0'' @ int_decimal z"

text \<open>The new statistics of the parent of a created node.\<close>

definition create_parent_stats :: "int \<Rightarrow> int \<Rightarrow> node_stats \<Rightarrow> node_stats" where
  "create_parent_stats parent_cversion zxid old =
     (let st = increaseSeqNum old;
          st = (if parent_cversion = -1 then st\<lparr>ns_cversion := ns_cversion st + 1\<rparr>
                else if parent_cversion > ns_cversion old then st\<lparr>ns_cversion := parent_cversion\<rparr>
                else st);
          st = (if zxid > ns_pzxid old then st\<lparr>ns_pzxid := zxid\<rparr> else st)
      in increaseNumChildren st)"

definition created_stat :: "int \<Rightarrow> int \<Rightarrow> int \<Rightarrow> stat" where
  "created_stat zxid time owner =
     default_stat\<lparr>st_czxid := zxid, st_mzxid := zxid, st_pzxid := zxid, st_ctime := time,
       st_mtime := time, st_numChildren := 0, st_version := 0, st_aversion := 0, st_cversion := 0,
       st_ephemeralOwner := owner\<rparr>"

definition preprocess_create ::
  "keeper_context \<Rightarrow> create_request \<Rightarrow> int \<Rightarrow> int \<Rightarrow> int \<Rightarrow> storage \<Rightarrow> (delta list \<times> storage) result" where
  "preprocess_create ctx c zxid session_id time s =
     res_bind (parentNodePath (cr_path c)) (\<lambda>parent_path.
      let (parent_node, s1) = getNode parent_path s
      in case parent_node of
           None \<Rightarrow> Inr ([error_delta zxid ZNONODE], s1)
         | Some parent \<Rightarrow>
             if isEphemeral (mn_stats parent) then Inr ([error_delta zxid ZNOCHILDRENFOREPHEMERALS], s1)
             else if cr_is_sequential c \<and> cr_not_exists c then Inr ([error_delta zxid ZBADARGUMENTS], s1)
             else
               (let path_created = (if cr_is_sequential c
                                    then cr_path c @ seq_num_str (seqNum (mn_stats parent)) else cr_path c)
                in if matchPath path_created keeper_system_path \<noteq> NOT_MATCH
                   then res_bind (handleSystemNodeModification ctx) (\<lambda>_. Inr ([error_delta zxid ZBADARGUMENTS], s1))
                   else
                     (let (existing, s2) = getNode path_created s1
                      in if existing \<noteq> None
                         then (if cr_not_exists c then Inr ([], s2) else Inr ([error_delta zxid ZNODEEXISTS], s2))
                         else if getBaseNodeName path_created = [] then Inr ([error_delta zxid ZBADARGUMENTS], s2)
                         else
                           (case fixupACL (cr_acls c) session_id s2 of
                              None \<Rightarrow> Inr ([error_delta zxid ZINVALIDACL], s2)
                            | Some node_acls \<Rightarrow>
                                (let s3 = (if cr_is_ephemeral c
                                           then upd_uncommitted (\<lambda>u. u\<lparr>us_ephemerals :=
                                                  registerEphemeralPath (us_ephemerals u) session_id path_created\<rparr>) s2
                                           else s2);
                                     stat = created_stat zxid time (if cr_is_ephemeral c then session_id else 0)
                                 in Inr ([Delta parent_path zxid
                                            (new_stat_delta parent (create_parent_stats (cr_parent_cversion c) zxid) (-1)),
                                          Delta path_created zxid (CreateNodeDelta stat node_acls (cr_data c))],
                                         s3))))))"

subsection \<open>Get, Exists, List, Check and GetACL\<close>

definition require_node :: "path \<Rightarrow> int \<Rightarrow> storage \<Rightarrow> (delta list \<times> storage) result" where
  "require_node p zxid s =
     (let (node, s1) = getNode p s in Inr (if node = None then [error_delta zxid ZNONODE] else [], s1))"

definition preprocess_get :: "path \<Rightarrow> int \<Rightarrow> storage \<Rightarrow> (delta list \<times> storage) result" where
  "preprocess_get p zxid s =
     (if p = keeper_api_feature_flags_path \<or> p = keeper_config_path \<or> p = keeper_availability_zone_path
      then Inr ([], s) else require_node p zxid s)"

definition preprocess_check :: "path \<Rightarrow> int \<Rightarrow> bool \<Rightarrow> int \<Rightarrow> storage \<Rightarrow> (delta list \<times> storage) result" where
  "preprocess_check p version not_exists zxid s =
     (let (node, s1) = getNode p s in
      Inr ((if not_exists
            then (case node of
                    None \<Rightarrow> []
                  | Some n \<Rightarrow> if version = -1 \<or> version = ns_version (mn_stats n)
                              then [error_delta zxid ZNODEEXISTS] else [])
            else (case node of
                    None \<Rightarrow> [error_delta zxid ZNONODE]
                  | Some n \<Rightarrow> if version \<noteq> -1 \<and> version \<noteq> ns_version (mn_stats n)
                              then [error_delta zxid ZBADVERSION] else [])), s1))"

subsection \<open>Remove\<close>

text \<open>The new statistics of the parent of a removed node. With \<open>restored\<close> the request comes from
  a ZooKeeper log.\<close>

definition remove_parent_stats :: "bool \<Rightarrow> int \<Rightarrow> node_stats \<Rightarrow> node_stats" where
  "remove_parent_stats restored zxid old =
     (let st = (if restored \<and> ns_pzxid old < zxid then old\<lparr>ns_pzxid := zxid\<rparr> else old)
      in decreaseNumChildren (st\<lparr>ns_cversion := ns_cversion st + 1\<rparr>))"

definition unregister_uncommitted :: "int \<Rightarrow> path \<Rightarrow> storage \<Rightarrow> storage result" where
  "unregister_uncommitted owner p s =
     res_bind (unregisterEphemeralPath (us_ephemerals (uncommitted s)) owner p False)
       (\<lambda>eph. Inr (upd_uncommitted (\<lambda>u. u\<lparr>us_ephemerals := eph\<rparr>) s))"

definition preprocess_remove ::
  "keeper_context \<Rightarrow> path \<Rightarrow> int \<Rightarrow> bool \<Rightarrow> int \<Rightarrow> storage \<Rightarrow> (delta list \<times> storage) result" where
  "preprocess_remove ctx p version restored zxid s =
     (if matchPath p keeper_system_path \<noteq> NOT_MATCH
      then res_bind (handleSystemNodeModification ctx) (\<lambda>_. Inr ([error_delta zxid ZBADARGUMENTS], s))
      else
        res_bind (parentNodePath p) (\<lambda>parent_path.
         let (parent_node, s1) = getNode parent_path s;
             (node, s2) = getNode p s1
         in case node of
              None \<Rightarrow> Inr ([error_delta zxid ZNONODE], s2)
            | Some n \<Rightarrow>
                if version \<noteq> -1 \<and> version \<noteq> ns_version (mn_stats n) then Inr ([error_delta zxid ZBADVERSION], s2)
                else if numChildren (mn_stats n) \<noteq> 0 then Inr ([error_delta zxid ZNOTEMPTY], s2)
                else case parent_node of
                       None \<Rightarrow> Inl (Undefined ''parent delta is missing'')
                     | Some parent \<Rightarrow>
                         res_bind (getACLs p s2) (\<lambda>(acls, s3).
                           let deltas = [Delta parent_path zxid (new_stat_delta parent (remove_parent_stats restored zxid) (-1)),
                                         Delta p zxid (RemoveNodeDelta version (mn_stats n) acls (getData n))]
                           in if isEphemeral (mn_stats n)
                              then res_bind (unregister_uncommitted (ephemeralOwner (mn_stats n)) p s3) (\<lambda>s4. Inr (deltas, s4))
                              else Inr (deltas, s3))))"

subsection \<open>Set and SetACL\<close>

definition set_stats :: "string \<Rightarrow> int \<Rightarrow> int \<Rightarrow> node_stats \<Rightarrow> node_stats" where
  "set_stats data zxid time st =
     st\<lparr>ns_version := ns_version st + 1, ns_mzxid := zxid, ns_mtime := time,
        ns_data_size := length data mod 2 ^ 32\<rparr>"

definition preprocess_set ::
  "keeper_context \<Rightarrow> path \<Rightarrow> string \<Rightarrow> int \<Rightarrow> int \<Rightarrow> int \<Rightarrow> storage \<Rightarrow> (delta list \<times> storage) result" where
  "preprocess_set ctx p data version zxid time s =
     (if matchPath p keeper_system_path \<noteq> NOT_MATCH
      then res_bind (handleSystemNodeModification ctx) (\<lambda>_. Inr ([error_delta zxid ZBADARGUMENTS], s))
      else
        (let (node, s1) = getNode p s
         in case node of
              None \<Rightarrow> Inr ([error_delta zxid ZNONODE], s1)
            | Some n \<Rightarrow>
                if version \<noteq> -1 \<and> version \<noteq> ns_version (mn_stats n) then Inr ([error_delta zxid ZBADVERSION], s1)
                else
                  res_bind (parentNodePath p) (\<lambda>parent_path.
                   let (parent_node, s2) = getNode parent_path s1
                   in case parent_node of
                        None \<Rightarrow> Inl (Undefined ''null parent node'')
                      | Some parent \<Rightarrow>
                          Inr ([Delta p zxid (UpdateNodeDataDelta (getData n) data version),
                                Delta p zxid (new_stat_delta n (set_stats data zxid time) version),
                                Delta parent_path zxid
                                  (new_stat_delta parent (\<lambda>st. st\<lparr>ns_cversion := ns_cversion st + 1\<rparr>) (-1))],
                               s2))))"

definition preprocess_set_acl ::
  "keeper_context \<Rightarrow> path \<Rightarrow> acls \<Rightarrow> int \<Rightarrow> int \<Rightarrow> int \<Rightarrow> storage \<Rightarrow> (delta list \<times> storage) result" where
  "preprocess_set_acl ctx p request_acls version zxid session_id s =
     (if matchPath p keeper_system_path \<noteq> NOT_MATCH
      then res_bind (handleSystemNodeModification ctx) (\<lambda>_. Inr ([error_delta zxid ZBADARGUMENTS], s))
      else
        (let (node, s1) = getNode p s
         in case node of
              None \<Rightarrow> Inr ([error_delta zxid ZNONODE], s1)
            | Some n \<Rightarrow>
                if version \<noteq> -1 \<and> version \<noteq> ns_aversion (mn_stats n) then Inr ([error_delta zxid ZBADVERSION], s1)
                else
                  (case fixupACL request_acls session_id s1 of
                     None \<Rightarrow> Inr ([error_delta zxid ZINVALIDACL], s1)
                   | Some node_acls \<Rightarrow>
                       res_bind (getACLs p s1) (\<lambda>(old_acls, s2).
                         Inr ([Delta p zxid (SetACLDelta old_acls node_acls version),
                               Delta p zxid (new_stat_delta n (\<lambda>st. st\<lparr>ns_aversion := ns_aversion st + 1\<rparr>) (-1))],
                              s2)))))"

subsection \<open>Auth\<close>

definition generateDigest :: "keeper_context \<Rightarrow> string \<Rightarrow> string" where
  "generateDigest ctx userdata =
     takeWhile (\<lambda>c. c \<noteq> CHR '':'') userdata @ '':'' @ kc_base64_sha1 ctx userdata"

text \<open>\<open>AddAuthDelta\<close> with a new shared object.\<close>

definition add_auth_delta :: "int \<Rightarrow> int \<Rightarrow> auth_id \<Rightarrow> storage \<Rightarrow> delta list \<times> storage" where
  "add_auth_delta zxid session_id auth s =
     ([Delta [] zxid (AddAuthDelta session_id (us_next_auth (uncommitted s)) auth)],
      upd_uncommitted (\<lambda>u. u\<lparr>us_next_auth := us_next_auth u + 1\<rparr>) s)"

definition preprocess_auth ::
  "keeper_context \<Rightarrow> string \<Rightarrow> string \<Rightarrow> int \<Rightarrow> int \<Rightarrow> storage \<Rightarrow> (delta list \<times> storage) result" where
  "preprocess_auth ctx scheme data zxid session_id s =
     (if scheme \<noteq> ''digest'' \<or> count_colons data \<noteq> 1 then Inr ([error_delta zxid ZAUTHFAILED], s)
      else
        (let auth_digest = generateDigest ctx data in
         if auth_digest = superdigest s
         then Inr (add_auth_delta zxid session_id \<lparr>au_scheme = ''super'', au_ident = []\<rparr> s)
         else
           (let new_auth = \<lparr>au_scheme = scheme, au_ident = auth_digest\<rparr>;
                (known, s1) = hasACL session_id False (\<lambda>a. new_auth = a) s
            in if known then Inr ([], s1) else Inr (add_auth_delta zxid session_id new_auth s1))))"

end
