(* ===== verification/Keeper_Requests.thy ===== *)
theory Keeper_Requests
  imports Keeper_Preprocess
begin

section \<open>Recursive removal, Multi and the preprocessing of a transaction\<close>

text \<open>
  \<open>ToDeleteTreeCollector\<close>, the \<open>preprocess\<close> functions of \<open>RemoveRecursive\<close> and \<open>Multi\<close>, and
  \<open>preprocessRequest\<close> with the special treatment of \<open>Close\<close> (\<open>KeeperStorage.cpp\<close>).
\<close>

subsection \<open>Collecting the tree to delete\<close>

datatype collect_status = CollectOk | NoAuth | LimitExceeded

text \<open>
  The deltas stand in the order of the code's list, the newest in front; \<open>tc_visited\<close> counts the
  deltas that the reverse iterator has passed. \<open>nodes_observed\<close> wraps at 32 bits.
\<close>

record tree_collector =
  tc_deltas :: "delta list"
  tc_nodes_observed :: "32 word"
  tc_visited :: nat

definition checkLimits :: "32 word \<Rightarrow> node_stats \<Rightarrow> tree_collector \<Rightarrow> bool \<times> tree_collector" where
  "checkLimits limit st c =
     (let observed = tc_nodes_observed c + of_int (numChildren st)
      in (observed > limit, c\<lparr>tc_nodes_observed := observed\<rparr>))"

definition collector_addDelta :: "int \<Rightarrow> path \<Rightarrow> node_stats \<Rightarrow> acls \<Rightarrow> string \<Rightarrow> tree_collector \<Rightarrow> tree_collector" where
  "collector_addDelta zxid p st acls data c =
     c\<lparr>tc_deltas := Delta p zxid (RemoveNodeDelta (-1) st acls data) # tc_deltas c\<rparr>"

text \<open>
  The loop of \<open>visitUncommitted\<close>: the second component collects \<open>uncommitted_children\<close>. The comparison with the
  parent of a path without a slash looks at the lengths first, which differ.
\<close>

fun visitUncommitted ::
  "int \<Rightarrow> 32 word \<Rightarrow> path \<Rightarrow> (path \<times> uncommitted_node) list \<Rightarrow> path list \<Rightarrow> tree_collector \<Rightarrow> storage
     \<Rightarrow> (collect_status \<times> path list \<times> tree_collector \<times> storage) result" where
  "visitUncommitted zxid limit p [] children c s = Inr (CollectOk, children, c, s)"
| "visitUncommitted zxid limit p ((node_path, e) # nodes) children c s =
     (if parentNodePath node_path \<noteq> Inr p then visitUncommitted zxid limit p nodes children c s
      else
        (let children' = uset_insert node_path children in
         case un_node e of
           None \<Rightarrow> visitUncommitted zxid limit p nodes children' c s
         | Some n \<Rightarrow>
             (let (exceeded, c1) = checkLimits limit (mn_stats n) c in
              if exceeded then Inr (LimitExceeded, children', c1, s)
              else
                res_bind (materializeACL (acl_map_of s) e) (\<lambda>e'.
                  visitUncommitted zxid limit p nodes children'
                    (collector_addDelta zxid node_path (mn_stats n) (the (un_acls e')) (getData n) c1)
                    (set_entry node_path e' s)))))"

text \<open>The loop of \<open>visitMemNode\<close> over the children of the committed node.\<close>

fun visit_children ::
  "int \<Rightarrow> 32 word \<Rightarrow> path \<Rightarrow> path list \<Rightarrow> string list \<Rightarrow> tree_collector \<Rightarrow> storage
     \<Rightarrow> (collect_status \<times> tree_collector) result" where
  "visit_children zxid limit p skip [] c s = Inr (CollectOk, c)"
| "visit_children zxid limit p skip (child_name # names) c s =
     (let child_path = fs_join p child_name in
      if child_path \<in> set skip then visit_children zxid limit p skip names c s
      else case find_node s child_path of
             None \<Rightarrow> Inl (Undefined ''child is missing in the container'')
           | Some n \<Rightarrow>
               (let (exceeded, c1) = checkLimits limit (mn_stats n) c in
                if exceeded then Inr (LimitExceeded, c1)
                else
                  res_bind (convertNumber (acl_map_of s) (mn_acl_id n)) (\<lambda>a.
                    visit_children zxid limit p skip names
                      (collector_addDelta zxid child_path (mn_stats n) a (getData n) c1) s)))"

definition visitMemNode ::
  "int \<Rightarrow> 32 word \<Rightarrow> path \<Rightarrow> path list \<Rightarrow> tree_collector \<Rightarrow> storage \<Rightarrow> (collect_status \<times> tree_collector) result" where
  "visitMemNode zxid limit p skip c s =
     (case find_node s p of
        None \<Rightarrow> Inr (CollectOk, c)
      | Some n \<Rightarrow> visit_children zxid limit p skip (mn_children n) c s)"

text \<open>The body of the loop of \<open>collect\<close> for the delta under the iterator.\<close>

definition collect_visit ::
  "int \<Rightarrow> int \<Rightarrow> 32 word \<Rightarrow> tree_collector \<Rightarrow> storage \<Rightarrow> (collect_status \<times> tree_collector \<times> storage) result" where
  "collect_visit zxid session_id limit c s =
     (let p = delta_path (tc_deltas c ! (length (tc_deltas c) - 1 - tc_visited c)) in
      res_bind (checkACL p ACL_Delete session_id False s) (\<lambda>(allowed, s1).
        if \<not> allowed then Inr (NoAuth, c, s1)
        else
          res_bind (visitUncommitted zxid limit p (us_nodes (uncommitted s1)) [] c s1) (\<lambda>(status, children, c1, s2).
            if status \<noteq> CollectOk then Inr (status, c1, s2)
            else res_bind (visitMemNode zxid limit p children c1 s2) (\<lambda>(status', c2). Inr (status', c2, s2)))))"

partial_function (option) collect_loop ::
  "int \<Rightarrow> int \<Rightarrow> 32 word \<Rightarrow> tree_collector \<Rightarrow> storage
     \<Rightarrow> (collect_status \<times> tree_collector \<times> storage) result option" where
  "collect_loop zxid session_id limit c s =
     (if length (tc_deltas c) \<le> tc_visited c then Some (Inr (CollectOk, c, s))
      else case collect_visit zxid session_id limit c s of
             Inl e \<Rightarrow> Some (Inl e)
           | Inr r \<Rightarrow>
               (if fst r \<noteq> CollectOk then Some (Inr r)
                else collect_loop zxid session_id limit
                       ((fst (snd r))\<lparr>tc_visited := tc_visited (fst (snd r)) + 1\<rparr>) (snd (snd r))))"

definition collect ::
  "int \<Rightarrow> int \<Rightarrow> 32 word \<Rightarrow> path \<Rightarrow> mem_node \<Rightarrow> storage
     \<Rightarrow> (collect_status \<times> tree_collector \<times> storage) result option" where
  "collect zxid session_id limit root_path root_node s =
     (let c0 = \<lparr>tc_deltas = [], tc_nodes_observed = 1, tc_visited = 0\<rparr>;
          (exceeded, c1) = checkLimits limit (mn_stats root_node) c0
      in if exceeded then Some (Inr (LimitExceeded, c1, s))
         else case getACLs root_path s of
                Inl e \<Rightarrow> Some (Inl e)
              | Inr (acls, s1) \<Rightarrow>
                  collect_loop zxid session_id limit
                    (collector_addDelta zxid root_path (mn_stats root_node) acls (getData root_node) c1) s1)"

text \<open>The loop that drops the collected ephemeral nodes from the uncommitted map.\<close>

definition unregister_removed :: "delta \<Rightarrow> storage \<Rightarrow> storage result" where
  "unregister_removed d s =
     (case delta_operation d of
        RemoveNodeDelta version st acls data \<Rightarrow>
          if ephemeralOwner st \<noteq> 0 then unregister_uncommitted (ephemeralOwner st) (delta_path d) s else Inr s
      | _ \<Rightarrow> Inr s)"

definition preprocess_remove_recursive ::
  "keeper_context \<Rightarrow> path \<Rightarrow> 32 word \<Rightarrow> bool \<Rightarrow> int \<Rightarrow> int \<Rightarrow> storage \<Rightarrow> (delta list \<times> storage) result" where
  "preprocess_remove_recursive ctx p limit restored zxid session_id s =
     (if matchPath p keeper_system_path \<noteq> NOT_MATCH
      then res_bind (handleSystemNodeModification ctx) (\<lambda>_. Inr ([error_delta zxid ZBADARGUMENTS], s))
      else
        res_bind (parentNodePath p) (\<lambda>parent_path.
         let (node, s1) = getNode p s;
             (parent_node, s2) = getNode parent_path s1
         in case node of
              None \<Rightarrow> Inr ([error_delta zxid ZNONODE], s2)
            | Some n \<Rightarrow>
                (case collect zxid session_id limit p n s2 of
                   None \<Rightarrow> Inl (Diverges ''collect'')
                 | Some (Inl e) \<Rightarrow> Inl e
                 | Some (Inr (status, c, s3)) \<Rightarrow>
                     (case status of
                        NoAuth \<Rightarrow> Inr ([error_delta zxid ZNOAUTH], s3)
                      | LimitExceeded \<Rightarrow> Inr ([error_delta zxid ZNOTEMPTY], s3)
                      | CollectOk \<Rightarrow>
                          (case parent_node of
                             None \<Rightarrow> Inl (Undefined ''parent delta is missing'')
                           | Some parent \<Rightarrow>
                               res_bind (res_fold unregister_removed (tc_deltas c) s3) (\<lambda>s4.
                                 Inr (Delta parent_path zxid (new_stat_delta parent (remove_parent_stats restored zxid) (-1))
                                        # tc_deltas c, s4)))))))"

subsection \<open>Multi and the dispatch on the request\<close>

definition is_error_delta :: "delta \<Rightarrow> zk_error option" where
  "is_error_delta d = (case delta_operation d of ErrorDelta e \<Rightarrow> Some e | _ \<Rightarrow> None)"

text \<open>The error of the last delta of a subrequest, if it has one.\<close>

definition last_error :: "delta list \<Rightarrow> zk_error option" where
  "last_error ds = (if ds = [] then None else is_error_delta (last ds))"

text \<open>A request without deltas of its own keeps the digest.\<close>

definition with_digest ::
  "64 word option \<Rightarrow> (delta list \<times> storage) result \<Rightarrow> (delta list \<times> 64 word option \<times> storage) result" where
  "with_digest digest r = res_bind r (\<lambda>(ds, s). Inr (ds, digest, s))"

fun preprocess ::
  "keeper_context \<Rightarrow> int \<Rightarrow> int \<Rightarrow> int \<Rightarrow> zk_request \<Rightarrow> 64 word option \<Rightarrow> storage
     \<Rightarrow> (delta list \<times> 64 word option \<times> storage) result"
  and preprocess_subrequests ::
  "keeper_context \<Rightarrow> int \<Rightarrow> int \<Rightarrow> int \<Rightarrow> bool \<Rightarrow> zk_request list \<Rightarrow> zk_error list \<Rightarrow> delta list \<Rightarrow> 64 word option \<Rightarrow> storage
     \<Rightarrow> ((zk_error list \<times> storage) + (delta list \<times> 64 word option \<times> storage)) result" where
  "preprocess ctx zxid sid time (CreateRequest c) g s = with_digest g (preprocess_create ctx c zxid sid time s)"
| "preprocess ctx zxid sid time (GetRequest p w) g s = with_digest g (preprocess_get p zxid s)"
| "preprocess ctx zxid sid time (RemoveRequest p v r) g s = with_digest g (preprocess_remove ctx p v r zxid s)"
| "preprocess ctx zxid sid time (RemoveRecursiveRequest p l r) g s =
     with_digest g (preprocess_remove_recursive ctx p l r zxid sid s)"
| "preprocess ctx zxid sid time (ExistsRequest p w) g s = with_digest g (require_node p zxid s)"
| "preprocess ctx zxid sid time (SetRequest p d v) g s = with_digest g (preprocess_set ctx p d v zxid time s)"
| "preprocess ctx zxid sid time (ListRequest k p w) g s = with_digest g (require_node p zxid s)"
| "preprocess ctx zxid sid time (CheckRequest p v ne) g s = with_digest g (preprocess_check p v ne zxid s)"
| "preprocess ctx zxid sid time (AuthRequest ty scheme d) g s = with_digest g (preprocess_auth ctx scheme d zxid sid s)"
| "preprocess ctx zxid sid time (SetACLRequest p a v) g s = with_digest g (preprocess_set_acl ctx p a v zxid sid s)"
| "preprocess ctx zxid sid time (GetACLRequest p) g s = with_digest g (require_node p zxid s)"
| "preprocess ctx zxid sid time (MultiRequest ty rs) g s =
     res_bind (preprocess_subrequests ctx zxid sid time (getOpNum (MultiRequest ty rs) = OpMulti) rs [] [] g s) (\<lambda>r.
       case r of
         Inl (errors, s') \<Rightarrow> Inr ([Delta [] zxid (FailedMultiDelta errors ZOK)], g, s')
       | Inr (new_deltas, g', s') \<Rightarrow> Inr ([], g', addDeltas new_deltas s'))"
| "preprocess ctx zxid sid time (ReconfigRequest _ _ _ _) g s = Inl (LogicalError ''Unexpected request type'')"
| "preprocess ctx zxid sid time (SessionIDRequest _ _ _) g s = Inl (LogicalError ''Unexpected request type'')"
| "preprocess ctx zxid sid time _ g s = Inr ([], g, s)"
| "preprocess_subrequests ctx zxid sid time is_multi [] errors new_deltas g s = Inr (Inr (new_deltas, g, s))"
| "preprocess_subrequests ctx zxid sid time is_multi (r # rs) errors new_deltas g s =
     res_bind (preprocess ctx zxid sid time r None s) (\<lambda>(subdeltas, g0, s1).
       case (if is_multi then last_error subdeltas else None) of
         Some e \<Rightarrow>
           res_bind (rollback_deltas new_deltas s1) (\<lambda>s2.
             Inr (Inl (errors @ [e] @ replicate (length rs) ZRUNTIMEINCONSISTENCY, s2)))
       | None \<Rightarrow>
           (let subdeltas' = subdeltas @ [Delta [] zxid SubDeltaEnd] in
            res_bind (applyDeltas subdeltas' (g, s1)) (\<lambda>(g', s2).
              preprocess_subrequests ctx zxid sid time is_multi rs (errors @ [ZOK]) (new_deltas @ subdeltas') g' s2)))"

subsection \<open>Close\<close>

text \<open>The state of the two loops over the ephemeral nodes of a closing session.\<close>

record close_state =
  cs_parent_updates :: "(path \<times> (node_stats \<times> node_stats)) list"
  cs_processed :: "path list"
  cs_deltas :: "delta list"
  cs_storage :: storage

text \<open>The pending update of the parent: found in \<open>parent_updates\<close> or started from the parent.\<close>

definition close_parent :: "path \<Rightarrow> close_state \<Rightarrow> ((node_stats \<times> node_stats) \<times> storage) result" where
  "close_parent parent_path c =
     (case map_of (cs_parent_updates c) parent_path of
        Some upd \<Rightarrow> Inr (upd, cs_storage c)
      | None \<Rightarrow>
          (let (parent_node, s1) = getNode parent_path (cs_storage c) in
           case parent_node of
             None \<Rightarrow> Inl (Undefined ''null parent node'')
           | Some n \<Rightarrow> Inr ((mn_stats n, mn_stats n), s1)))"

definition close_node :: "int \<Rightarrow> int \<Rightarrow> path \<Rightarrow> close_state \<Rightarrow> close_state result" where
  "close_node session_id zxid p c =
     (let (node, s1) = getNode p (cs_storage c);
          c1 = c\<lparr>cs_storage := s1\<rparr>
      in case node of
           None \<Rightarrow> Inr c1
         | Some n \<Rightarrow>
             if ephemeralOwner (mn_stats n) \<noteq> session_id then Inr c1
             else
               res_bind (parentNodePath p) (\<lambda>parent_path.
                res_bind (close_parent parent_path c1) (\<lambda>((old, new), s2).
                  let new' = decreaseNumChildren (new\<lparr>ns_cversion := ns_cversion new + 1\<rparr>) in
                  res_bind (getACLs p s2) (\<lambda>(acls, s3).
                    Inr (c1\<lparr>cs_parent_updates := AList.update parent_path (old, new') (cs_parent_updates c1),
                            cs_deltas := cs_deltas c1 @ [Delta p zxid (RemoveNodeDelta (-1) (mn_stats n) acls (getData n))],
                            cs_storage := s3\<rparr>)))))"

text \<open>One round of \<open>process_ephemerals_for_session\<close>, for the uncommitted and the committed map.\<close>

definition close_uncommitted :: "int \<Rightarrow> int \<Rightarrow> path \<Rightarrow> close_state \<Rightarrow> close_state result" where
  "close_uncommitted session_id zxid p c =
     close_node session_id zxid p (c\<lparr>cs_processed := uset_insert p (cs_processed c)\<rparr>)"

definition close_committed :: "int \<Rightarrow> int \<Rightarrow> path \<Rightarrow> close_state \<Rightarrow> close_state result" where
  "close_committed session_id zxid p c =
     (if p \<in> set (cs_processed c) then Inr c else close_node session_id zxid p c)"

text \<open>The loops over the sets of ephemeral nodes visit every element once.\<close>

definition preprocess_close :: "int \<Rightarrow> int \<Rightarrow> storage \<Rightarrow> (delta list \<times> storage) result" where
  "preprocess_close session_id zxid s =
     (let c0 = \<lparr>cs_parent_updates = [], cs_processed = [], cs_deltas = [], cs_storage = s\<rparr> in
      res_bind (res_fold (close_uncommitted session_id zxid) (remdups (bucket (us_ephemerals (uncommitted s)) session_id)) c0) (\<lambda>c1.
        res_bind (res_fold (close_committed session_id zxid) (remdups (bucket (committed_ephemerals s) session_id)) c1) (\<lambda>c2.
          Inr (cs_deltas c2
                 @ map (\<lambda>(p, old, new). Delta p zxid (UpdateNodeStatDelta old new (-1))) (cs_parent_updates c2)
                 @ [Delta [] zxid (CloseSessionDelta session_id)],
               upd_uncommitted (\<lambda>u. u\<lparr>us_ephemerals := (us_ephemerals u)(session_id := None)\<rparr>) (cs_storage c2)))))"

subsection \<open>The preprocessing of a transaction\<close>

definition getNextZXID :: "storage \<Rightarrow> int" where
  "getNextZXID s =
     (if uncommitted_transactions s = [] then committed_zxid s + 1
      else ti_zxid (last (uncommitted_transactions s)) + 1)"

definition getNodesDigest :: "keeper_context \<Rightarrow> bool \<Rightarrow> storage \<Rightarrow> keeper_digest" where
  "getNodesDigest ctx is_committed s =
     (if \<not> kc_digest_enabled ctx then \<lparr>kd_version = NO_DIGEST, kd_value = 0\<rparr>
      else if is_committed \<or> uncommitted_transactions s = []
      then \<lparr>kd_version = KEEPER_CURRENT_DIGEST_VERSION, kd_value = nodes_digest s\<rparr>
      else ti_nodes_digest (last (uncommitted_transactions s)))"

definition checkDigest :: "keeper_digest \<Rightarrow> keeper_digest \<Rightarrow> bool" where
  "checkDigest first second =
     (if kd_version first \<noteq> kd_version second then True
      else if kd_version first = NO_DIGEST then True
      else kd_value first = kd_value second)"

text \<open>
  What happens on leaving \<open>preprocessRequest\<close>: the deltas are applied and appended, the digest
  of the transaction is stored and the entries of committed transactions are cleaned up. The
  transaction is the last of the list.
\<close>

definition finish_preprocess ::
  "keeper_context \<Rightarrow> int \<Rightarrow> delta list \<Rightarrow> 64 word \<Rightarrow> storage \<Rightarrow> storage result" where
  "finish_preprocess ctx new_last_zxid new_deltas new_digest s =
     res_bind (applyDeltas new_deltas (if kc_digest_enabled ctx then Some new_digest else None, s)) (\<lambda>(g, s1).
       let s2 = addDeltas new_deltas s1 in
       res_bind
         (if kc_digest_enabled ctx
          then res_bind (updateNodesDigest ctx (the g) new_last_zxid s2) (\<lambda>(digest, s3).
                 Inr (\<lparr>kd_version = KEEPER_CURRENT_DIGEST_VERSION, kd_value = digest\<rparr>, s3))
          else Inr (\<lparr>kd_version = NO_DIGEST, kd_value = 0\<rparr>, s2))
         (\<lambda>(digest, s3).
            let t = last (uncommitted_transactions s3) in
            cleanup (committed_zxid s3)
              (s3\<lparr>uncommitted_transactions :=
                    butlast (uncommitted_transactions s3) @ [t\<lparr>ti_nodes_digest := digest\<rparr>]\<rparr>)))"

text \<open>The deltas of a request that is not \<open>Close\<close>, after the access check.\<close>

definition preprocess_checked ::
  "keeper_context \<Rightarrow> zk_request \<Rightarrow> int \<Rightarrow> int \<Rightarrow> int \<Rightarrow> bool \<Rightarrow> 64 word \<Rightarrow> storage
     \<Rightarrow> (delta list \<times> 64 word \<times> storage) result" where
  "preprocess_checked ctx r session_id time zxid check_acl digest s =
     res_bind (if check_acl then checkAuth r session_id False s else Inr (True, s)) (\<lambda>(allowed, s1).
       if \<not> allowed then
         Inr ((case r of
                 MultiRequest ty rs \<Rightarrow> [Delta [] zxid (FailedMultiDelta (replicate (length rs) ZOK) ZNOAUTH)]
               | _ \<Rightarrow> [error_delta zxid ZNOAUTH]), digest, s1)
       else
         res_bind (preprocess ctx zxid session_id time r (if kc_digest_enabled ctx then Some digest else None) s1)
           (\<lambda>(ds, g, s2). Inr (ds, (case g of Some d \<Rightarrow> d | None \<Rightarrow> digest), s2)))"

definition preprocessRequest ::
  "keeper_context \<Rightarrow> zk_request \<Rightarrow> int \<Rightarrow> int \<Rightarrow> int \<Rightarrow> bool \<Rightarrow> keeper_digest option \<Rightarrow> int \<Rightarrow> storage \<Rightarrow> storage result" where
  "preprocessRequest ctx r session_id time new_last_zxid check_acl digest log_idx s =
     (if \<not> initialized s then Inl (LogicalError ''KeeperStorage system nodes are not initialized'')
      else
        (let last_zxid = getNextZXID s - 1;
             current_digest = getNodesDigest ctx False s;
             begin_transaction =
               (let s1 = s\<lparr>uncommitted_transactions := uncommitted_transactions s @
                           [\<lparr>ti_zxid = new_last_zxid, ti_nodes_digest = \<lparr>kd_version = NO_DIGEST, kd_value = 0\<rparr>,
                             ti_log_idx = log_idx\<rparr>]\<rparr>
                in if r = CloseRequest
                   then res_bind (preprocess_close session_id new_last_zxid s1) (\<lambda>(ds, s2).
                          finish_preprocess ctx new_last_zxid ds (kd_value current_digest) s2)
                   else res_bind (preprocess_checked ctx r session_id time new_last_zxid check_acl (kd_value current_digest) s1)
                          (\<lambda>(ds, g, s2). finish_preprocess ctx new_last_zxid ds g s2))
         in if uncommitted_transactions s = [] then
              (if last_zxid \<noteq> old_snapshot_zxid s \<and> new_last_zxid \<le> last_zxid
               then Inl (LogicalError ''Got new ZXID smaller or equal to current ZXID'')
               else begin_transaction)
            else
              (case digest of
                 Some g \<Rightarrow>
                   if last_zxid = new_last_zxid \<and> checkDigest g current_digest
                   then Inr (s\<lparr>uncommitted_transactions := butlast (uncommitted_transactions s)
                               @ [(last (uncommitted_transactions s))\<lparr>ti_log_idx := log_idx\<rparr>]\<rparr>)
                   else if new_last_zxid \<le> last_zxid
                   then Inl (LogicalError ''Got new ZXID smaller or equal to current ZXID'')
                   else begin_transaction
               | None \<Rightarrow>
                   if new_last_zxid \<le> last_zxid
                   then Inl (LogicalError ''Got new ZXID smaller or equal to current ZXID'')
                   else begin_transaction)))"

definition rollbackRequest :: "int \<Rightarrow> bool \<Rightarrow> storage \<Rightarrow> storage result" where
  "rollbackRequest rollback_z allow_missing s =
     (let ts = uncommitted_transactions s in
      if allow_missing \<and> (ts = [] \<or> ti_zxid (last ts) < rollback_z) then Inr s
      else if ts = [] \<or> ti_zxid (last ts) \<noteq> rollback_z
      then Inl (LogicalError ''Trying to rollback invalid ZXID'')
      else (case rollback_zxid rollback_z (s\<lparr>uncommitted_transactions := butlast ts\<rparr>) of
              Inl e \<Rightarrow> Inl (Terminated ''Failed to rollback log'')
            | Inr s' \<Rightarrow> Inr s'))"

text \<open>\<open>applyUncommittedState\<close>: hand the transactions after a log index over to another storage.\<close>

definition applyUncommittedState :: "storage \<Rightarrow> int \<Rightarrow> storage \<Rightarrow> storage result" where
  "applyUncommittedState s last_log_idx other =
     (if list_ex (\<lambda>t. ti_log_idx t = 0) (uncommitted_transactions s)
      then Inl (LogicalError ''Transaction has log idx equal to 0'')
      else
        (let ts = filter (\<lambda>t. \<not> ti_log_idx t \<le> last_log_idx) (uncommitted_transactions s);
             zxids = map ti_zxid ts;
             ds = filter (\<lambda>d. delta_zxid d \<in> set zxids) (us_deltas (uncommitted s));
             other1 = other\<lparr>uncommitted_transactions := uncommitted_transactions other @ ts\<rparr>
         in res_fold (\<lambda>d o1. res_bind (applyDelta d (None, o1)) (\<lambda>(g, o2). Inr (addDeltas [d] o2))) ds other1))"

end
