(* ===== verification/Keeper_Process.thy ===== *)
theory Keeper_Process
  imports Keeper_Requests
begin

section \<open>Processing requests\<close>

text \<open>
  Watches (\<open>processWatchesImpl\<close>, \<open>processWatches\<close>, \<open>clearDeadWatches\<close>), the \<open>process\<close> and
  \<open>processLocal\<close> functions of every request, \<open>processRequest\<close> and the session bookkeeping of
  \<open>KeeperStorage.cpp\<close>. The \<open>xid\<close> of a request is an argument; the clock that the expiry queue
  reads is \<open>now\<close>. The statistics counters of \<open>updateStats\<close> are left out.
\<close>

subsection \<open>Watches\<close>

record watch_tables =
  wt_watches :: "path \<rightharpoonup> int list"
  wt_list_watches :: "path \<rightharpoonup> int list"
  wt_sessions :: "int \<rightharpoonup> (path \<times> bool) list"

definition watch_response :: "watch_event \<Rightarrow> path \<Rightarrow> int \<Rightarrow> response_for_session" where
  "watch_response ev p session_id =
     \<lparr>rfs_session_id = session_id, rfs_response = Response ZOK WATCH_XID (-1) (WatchBody ev CONNECTED p)\<rparr>"

text \<open>\<open>sessions_and_watchers[watcher_session].erase(info)\<close> for every watcher.\<close>

definition erase_watcher :: "path \<times> bool \<Rightarrow> int \<Rightarrow> (int \<rightharpoonup> (path \<times> bool) list) \<Rightarrow> (int \<rightharpoonup> (path \<times> bool) list)" where
  "erase_watcher info session_id m = m(session_id \<mapsto> uset_erase info (bucket m session_id))"

definition fire_watches :: "path \<Rightarrow> watch_event \<Rightarrow> watch_tables \<Rightarrow> response_for_session list \<times> watch_tables" where
  "fire_watches p ev t =
     (case wt_watches t p of
        None \<Rightarrow> ([], t)
      | Some sessions \<Rightarrow>
          (map (watch_response ev p) sessions,
           t\<lparr>wt_watches := (wt_watches t)(p := None),
             wt_sessions := fold (erase_watcher (p, False)) sessions (wt_sessions t)\<rparr>))"

definition fire_list_watches :: "path \<Rightarrow> watch_event \<Rightarrow> watch_tables \<Rightarrow> response_for_session list \<times> watch_tables" where
  "fire_list_watches p ev t =
     (case wt_list_watches t p of
        None \<Rightarrow> ([], t)
      | Some sessions \<Rightarrow>
          (map (watch_response ev p) sessions,
           t\<lparr>wt_list_watches := (wt_list_watches t)(p := None),
             wt_sessions := fold (erase_watcher (p, True)) sessions (wt_sessions t)\<rparr>))"

text \<open>The loop over the paths whose list watches fire.\<close>

definition fire_lists :: "path \<Rightarrow> path list \<Rightarrow> response_for_session list \<times> watch_tables \<Rightarrow> response_for_session list \<times> watch_tables" where
  "fire_lists parent_path paths_to_check =
     fold (\<lambda>q (result, t).
           let (new, t') = fire_list_watches q (if q = parent_path then EvChild else EvDeleted) t
           in (result @ new, t')) paths_to_check"

text \<open>A change of a node never looks at its parent.\<close>

definition processWatchesImpl :: "path \<Rightarrow> watch_event \<Rightarrow> watch_tables \<Rightarrow> (response_for_session list \<times> watch_tables) result" where
  "processWatchesImpl p event_type t =
     (if event_type = EvCreated
      then res_bind (parentNodePath p) (\<lambda>parent_path. Inr (fire_lists parent_path [parent_path] (fire_watches p event_type t)))
      else if event_type = EvDeleted
      then res_bind (parentNodePath p) (\<lambda>parent_path. Inr (fire_lists parent_path [p, parent_path] (fire_watches p event_type t)))
      else Inr (fire_watches p event_type t))"

text \<open>\<open>extractSubdeltas\<close>: the deltas up to and including the first \<open>SubDeltaEnd\<close>, and the rest.\<close>

fun extractSubdeltas :: "delta list \<Rightarrow> delta list \<times> delta list" where
  "extractSubdeltas [] = ([], [])"
| "extractSubdeltas (d # ds) =
     (if delta_operation d = SubDeltaEnd then ([d], ds)
      else (let (sub, rest) = extractSubdeltas ds in (d # sub, rest)))"

definition is_failed_multi :: "delta \<Rightarrow> (zk_error list \<times> zk_error) option" where
  "is_failed_multi d = (case delta_operation d of FailedMultiDelta es e \<Rightarrow> Some (es, e) | _ \<Rightarrow> None)"

definition is_remove_delta :: "delta \<Rightarrow> bool" where
  "is_remove_delta d = (case delta_operation d of RemoveNodeDelta _ _ _ _ \<Rightarrow> True | _ \<Rightarrow> False)"

definition is_create_delta :: "delta \<Rightarrow> bool" where
  "is_create_delta d = (case delta_operation d of CreateNodeDelta _ _ _ \<Rightarrow> True | _ \<Rightarrow> False)"

text \<open>Fire the deletion watches of every removed path.\<close>

definition removed_watches :: "delta list \<Rightarrow> watch_tables \<Rightarrow> (response_for_session list \<times> watch_tables) result" where
  "removed_watches ds t =
     res_fold (\<lambda>d (result, t).
        if is_remove_delta d
        then res_bind (processWatchesImpl (delta_path d) EvDeleted t) (\<lambda>(new, t'). Inr (result @ new, t'))
        else Inr (result, t)) ds ([], t)"

fun processWatches :: "zk_request \<Rightarrow> delta list \<Rightarrow> watch_tables \<Rightarrow> (response_for_session list \<times> watch_tables) result"
  and processWatches_all :: "zk_request list \<Rightarrow> delta list \<Rightarrow> watch_tables \<Rightarrow> (response_for_session list \<times> watch_tables) result" where
  "processWatches (CreateRequest c) ds t = processWatchesImpl (cr_path c) EvCreated t"
| "processWatches (RemoveRequest p v r) ds t = processWatchesImpl p EvDeleted t"
| "processWatches (RemoveRecursiveRequest p l r) ds t = removed_watches ds t"
| "processWatches (SetRequest p d v) ds t = processWatchesImpl p EvChanged t"
| "processWatches (MultiRequest ty rs) ds t =
     (if ds = [] \<or> is_failed_multi (hd ds) \<noteq> None then Inr ([], t) else processWatches_all rs ds t)"
| "processWatches _ ds t = Inr ([], t)"
| "processWatches_all [] ds t = Inr ([], t)"
| "processWatches_all (r # rs) ds t =
     (let (sub, rest) = extractSubdeltas ds in
      res_bind (processWatches r sub t) (\<lambda>(new, t1).
        res_bind (processWatches_all rs rest t1) (\<lambda>(more, t2). Inr (new @ more, t2))))"

definition watch_tables_of :: "storage \<Rightarrow> watch_tables" where
  "watch_tables_of s = \<lparr>wt_watches = watches s, wt_list_watches = list_watches s, wt_sessions = sessions_and_watchers s\<rparr>"

definition set_watch_tables :: "watch_tables \<Rightarrow> storage \<Rightarrow> storage" where
  "set_watch_tables t s = s\<lparr>watches := wt_watches t, list_watches := wt_list_watches t, sessions_and_watchers := wt_sessions t\<rparr>"

text \<open>Register a watch of a session, as \<open>processRequest\<close> does.\<close>

definition add_watch :: "path \<Rightarrow> bool \<Rightarrow> int \<Rightarrow> storage \<Rightarrow> storage" where
  "add_watch p is_list_watch session_id s =
     (let table = (if is_list_watch then list_watches s else watches s);
          old = bucket table p;
          table' = table(p \<mapsto> uset_insert session_id old);
          s1 = (if is_list_watch then s\<lparr>list_watches := table'\<rparr> else s\<lparr>watches := table'\<rparr>)
      in if session_id \<in> set old then s1
         else s1\<lparr>total_watches_count := total_watches_count s1 + 1,
                 sessions_and_watchers := (sessions_and_watchers s1)(session_id \<mapsto>
                   uset_insert (p, is_list_watch) (bucket (sessions_and_watchers s1) session_id))\<rparr>)"

text \<open>One step of the loop of \<open>clearDeadWatches\<close>; a missing path is an end iterator.\<close>

definition clear_dead_watch :: "int \<Rightarrow> path \<times> bool \<Rightarrow> storage \<Rightarrow> storage result" where
  "clear_dead_watch session_id info s =
     (let table = (if snd info then list_watches s else watches s) in
      case table (fst info) of
        None \<Rightarrow> Inl (Undefined ''watch is missing'')
      | Some sessions \<Rightarrow>
          (let left = uset_erase session_id sessions;
               table' = (if left = [] then table(fst info := None) else table(fst info \<mapsto> left))
           in Inr (if snd info then s\<lparr>list_watches := table'\<rparr> else s\<lparr>watches := table'\<rparr>)))"

definition clearDeadWatches :: "int \<Rightarrow> storage \<Rightarrow> storage result" where
  "clearDeadWatches session_id s =
     (case sessions_and_watchers s session_id of
        None \<Rightarrow> Inr s
      | Some infos \<Rightarrow>
          res_bind (res_fold (clear_dead_watch session_id) infos s) (\<lambda>s1.
            Inr (s1\<lparr>total_watches_count := total_watches_count s1 - of_nat (length infos),
                     sessions_and_watchers := (sessions_and_watchers s1)(session_id := None)\<rparr>)))"

subsection \<open>Processing one request\<close>

definition response_of :: "zk_error \<Rightarrow> response_body \<Rightarrow> zk_response" where
  "response_of e b = Response e 0 0 b"

text \<open>Commit first; an error becomes the error of the response with its default body.\<close>

definition after_commit ::
  "keeper_context \<Rightarrow> delta list \<Rightarrow> response_body \<Rightarrow> (storage \<Rightarrow> (zk_response \<times> storage) result) \<Rightarrow> storage
     \<Rightarrow> (zk_response \<times> storage) result" where
  "after_commit ctx ds default_body k s =
     res_bind (commit ctx ds s) (\<lambda>(e, s1).
       if e \<noteq> ZOK then Inr (response_of e default_body, s1) else k s1)"

definition process_create :: "keeper_context \<Rightarrow> create_request \<Rightarrow> delta list \<Rightarrow> storage \<Rightarrow> (zk_response \<times> storage) result" where
  "process_create ctx c ds s =
     (let body = (if cr_not_exists c then CreateIfNotExistsBody else CreateBody) in
      if ds = [] then Inr (response_of ZOK (body (cr_path c)), s)
      else
        (let created = (case find is_create_delta ds of Some d \<Rightarrow> delta_path d | None \<Rightarrow> []) in
         after_commit ctx ds (body []) (\<lambda>s1. Inr (response_of ZOK (body created), s1)) s))"

text \<open>Reading a committed node: missing is an error locally and an inconsistency otherwise.\<close>

definition read_node ::
  "bool \<Rightarrow> path \<Rightarrow> response_body \<Rightarrow> string \<Rightarrow> (mem_node \<Rightarrow> zk_response result) \<Rightarrow> storage \<Rightarrow> (zk_response \<times> storage) result" where
  "read_node is_local p default_body msg f s =
     (case find_node s p of
        None \<Rightarrow> if is_local then Inr (response_of ZNONODE default_body, s) else Inl (Terminated msg)
      | Some n \<Rightarrow> res_bind (f n) (\<lambda>r. Inr (r, s)))"

definition get_body :: "keeper_context \<Rightarrow> bool \<Rightarrow> path \<Rightarrow> storage \<Rightarrow> (zk_response \<times> storage) result" where
  "get_body ctx is_local p s =
     (if p = keeper_config_path
      then Inr (response_of ZOK (GetBody (kc_cluster_config ctx) default_stat), s)
      else read_node is_local p (GetBody [] default_stat) ''Failed to get node because it's missing''
             (\<lambda>n. Inr (response_of ZOK (GetBody (getData n) (setResponseStat n)))) s)"

definition exists_body :: "bool \<Rightarrow> path \<Rightarrow> storage \<Rightarrow> (zk_response \<times> storage) result" where
  "exists_body is_local p s =
     read_node is_local p (ExistsBody default_stat) ''Node unexpectedly missing while checking if it exists''
       (\<lambda>n. Inr (response_of ZOK (ExistsBody (setResponseStat n)))) s"

text \<open>\<open>add_child\<close> of the list request.\<close>

fun list_children :: "list_request_type \<Rightarrow> path \<Rightarrow> storage \<Rightarrow> string list \<Rightarrow> string list result" where
  "list_children ty p s [] = Inr []"
| "list_children ty p s (child # children) =
     (if ty = LIST_ALL then res_bind (list_children ty p s children) (\<lambda>names. Inr (child # names))
      else case find_node s (fs_join p child) of
             None \<Rightarrow> Inl (Terminated ''Failed to find a child'')
           | Some n \<Rightarrow>
               (let is_ephemeral = isEphemeral (mn_stats n) in
                res_bind (list_children ty p s children) (\<lambda>names.
                  Inr (if (is_ephemeral \<and> ty = EPHEMERAL_ONLY) \<or> (\<not> is_ephemeral \<and> ty = PERSISTENT_ONLY)
                       then child # names else names))))"

definition list_type :: "list_kind \<Rightarrow> list_request_type" where
  "list_type k = (case k of FilteredList ty \<Rightarrow> ty | _ \<Rightarrow> LIST_ALL)"

definition list_body :: "bool \<Rightarrow> list_kind \<Rightarrow> path \<Rightarrow> storage \<Rightarrow> (zk_response \<times> storage) result" where
  "list_body is_local k p s =
     (let body = (if k = SimpleList then SimpleListBody else ListBody) in
      read_node is_local p (body [] default_stat) ''Failed to list children of node because it's missing''
        (\<lambda>n. if p = [] then Inl (LogicalError ''Path cannot be empty'')
              else res_bind (list_children (list_type k) p s (mn_children n)) (\<lambda>names.
                     Inr (response_of ZOK (body names (setResponseStat n))))) s)"

definition check_body :: "bool \<Rightarrow> path \<Rightarrow> int \<Rightarrow> bool \<Rightarrow> storage \<Rightarrow> (zk_response \<times> storage) result" where
  "check_body is_local p version not_exists s =
     (let body = (if not_exists then CheckNotExistsBody else CheckBody);
          on_error = (\<lambda>e. if is_local then Inr (response_of e body, s)
                          else Inl (Terminated ''Node to check is unexpectedly missing''));
          ok = Inr (response_of ZOK body, s)
      in case find_node s p of
           None \<Rightarrow> if not_exists then ok else on_error ZNONODE
         | Some n \<Rightarrow>
             if not_exists
             then (if version = -1 \<or> version = ns_version (mn_stats n) then on_error ZNODEEXISTS else ok)
             else (if version \<noteq> -1 \<and> version \<noteq> ns_version (mn_stats n) then on_error ZBADVERSION else ok))"

definition get_acl_body :: "bool \<Rightarrow> path \<Rightarrow> storage \<Rightarrow> (zk_response \<times> storage) result" where
  "get_acl_body is_local p s =
     read_node is_local p (GetACLBody [] default_stat) ''Failed to get ACL because node is missing''
       (\<lambda>n. res_bind (convertNumber (acl_map_of s) (mn_acl_id n)) (\<lambda>a.
              Inr (response_of ZOK (GetACLBody a (setResponseStat n))))) s"

text \<open>Set and SetACL answer with the statistics of the node after the commit.\<close>

definition stat_after_commit ::
  "keeper_context \<Rightarrow> path \<Rightarrow> delta list \<Rightarrow> (stat \<Rightarrow> response_body) \<Rightarrow> string \<Rightarrow> storage \<Rightarrow> (zk_response \<times> storage) result" where
  "stat_after_commit ctx p ds body msg s =
     after_commit ctx ds (body default_stat)
       (read_node False p (body default_stat) msg (\<lambda>n. Inr (response_of ZOK (body (setResponseStat n))))) s"

text \<open>The responses of a failed \<open>Multi\<close>: one error response per subrequest.\<close>

definition failed_responses :: "zk_request list \<Rightarrow> zk_error list \<Rightarrow> zk_response list result" where
  "failed_responses rs errors =
     (if length errors < length rs then Inl (Undefined ''error_codes out of range'')
      else Inr (map (\<lambda>e. response_of e ErrorBody) (take (length rs) errors)))"

fun process :: "keeper_context \<Rightarrow> zk_request \<Rightarrow> delta list \<Rightarrow> storage \<Rightarrow> (zk_response \<times> storage) result"
  and process_all :: "keeper_context \<Rightarrow> zk_request list \<Rightarrow> delta list \<Rightarrow> storage \<Rightarrow> (zk_response list \<times> storage) result" where
  "process ctx HeartbeatRequest ds s =
     res_bind (commit ctx ds s) (\<lambda>(e, s1). Inr (response_of e HeartbeatBody, s1))"
| "process ctx (SyncRequest p) ds s = Inr (response_of ZOK (SyncBody p), s)"
| "process ctx (CreateRequest c) ds s = process_create ctx c ds s"
| "process ctx (GetRequest p w) ds s = after_commit ctx ds (GetBody [] default_stat) (get_body ctx False p) s"
| "process ctx (RemoveRequest p v r) ds s =
     res_bind (commit ctx ds s) (\<lambda>(e, s1). Inr (response_of e RemoveBody, s1))"
| "process ctx (RemoveRecursiveRequest p l r) ds s =
     res_bind (commit ctx ds s) (\<lambda>(e, s1). Inr (response_of e RemoveRecursiveBody, s1))"
| "process ctx (ExistsRequest p w) ds s = after_commit ctx ds (ExistsBody default_stat) (exists_body False p) s"
| "process ctx (SetRequest p d v) ds s = stat_after_commit ctx p ds SetBody ''Node to be updated is missing'' s"
| "process ctx (ListRequest k p w) ds s =
     after_commit ctx ds (if k = SimpleList then SimpleListBody [] default_stat else ListBody [] default_stat)
       (list_body False k p) s"
| "process ctx (CheckRequest p v ne) ds s =
     after_commit ctx ds (if ne then CheckNotExistsBody else CheckBody) (check_body False p v ne) s"
| "process ctx (AuthRequest ty scheme d) ds s =
     res_bind (commit ctx ds s) (\<lambda>(e, s1). Inr (response_of e AuthBody, s1))"
| "process ctx CloseRequest ds s = Inl (LogicalError ''Called process on close request'')"
| "process ctx (SetACLRequest p a v) ds s =
     stat_after_commit ctx p ds SetACLBody ''Failed to set ACL because node is missing'' s"
| "process ctx (GetACLRequest p) ds s =
     after_commit ctx ds (GetACLBody [] default_stat) (get_acl_body False p) s"
| "process ctx (MultiRequest ty rs) ds s =
     (let body = (if getOpNum (MultiRequest ty rs) = OpMulti then MultiWriteBody else MultiReadBody) in
      if ds = [] then Inl (Undefined ''front of an empty range'')
      else case is_failed_multi (hd ds) of
             Some (errors, global_error) \<Rightarrow>
               res_bind (failed_responses rs errors) (\<lambda>responses. Inr (response_of global_error (body responses), s))
           | None \<Rightarrow>
               res_bind (process_all ctx rs ds s) (\<lambda>(responses, s1). Inr (response_of ZOK (body responses), s1)))"
| "process ctx (ReconfigRequest _ _ _ _) ds s = Inl (LogicalError ''Unexpected request type'')"
| "process ctx (SessionIDRequest _ _ _) ds s = Inl (LogicalError ''Unexpected request type'')"
| "process_all ctx [] ds s = Inr ([], s)"
| "process_all ctx (r # rs) ds s =
     (let (sub, rest) = extractSubdeltas ds in
      res_bind (process ctx r sub s) (\<lambda>(response, s1).
        res_bind (process_all ctx rs rest s1) (\<lambda>(responses, s2). Inr (response # responses, s2))))"

text \<open>Reads answered from the committed state without a transaction.\<close>

fun processLocal :: "keeper_context \<Rightarrow> zk_request \<Rightarrow> storage \<Rightarrow> (zk_response \<times> storage) result"
  and processLocal_all :: "keeper_context \<Rightarrow> zk_request list \<Rightarrow> storage \<Rightarrow> (zk_response list \<times> storage) result" where
  "processLocal ctx (GetRequest p w) s = get_body ctx True p s"
| "processLocal ctx (ExistsRequest p w) s = exists_body True p s"
| "processLocal ctx (ListRequest k p w) s = list_body True k p s"
| "processLocal ctx (CheckRequest p v ne) s = check_body True p v ne s"
| "processLocal ctx (GetACLRequest p) s = get_acl_body True p s"
| "processLocal ctx (MultiRequest ty rs) s =
     res_bind (processLocal_all ctx rs s) (\<lambda>(responses, s1). Inr (response_of ZOK (MultiReadBody responses), s1))"
| "processLocal ctx (ReconfigRequest _ _ _ _) s = Inl (LogicalError ''Unexpected request type'')"
| "processLocal ctx (SessionIDRequest _ _ _) s = Inl (LogicalError ''Unexpected request type'')"
| "processLocal ctx _ s = Inl (LogicalError ''Local processing not supported'')"
| "processLocal_all ctx [] s = Inr ([], s)"
| "processLocal_all ctx (r # rs) s =
     res_bind (processLocal ctx r s) (\<lambda>(response, s1).
       res_bind (processLocal_all ctx rs s1) (\<lambda>(responses, s2). Inr (response # responses, s2)))"

subsection \<open>Processing a transaction\<close>

definition set_ids :: "int \<Rightarrow> int \<Rightarrow> zk_response \<Rightarrow> zk_response" where
  "set_ids xid zxid r = Response (resp_error r) xid zxid (resp_body r)"

text \<open>The deltas of the front transaction are spliced out of the uncommitted list.\<close>

definition take_deltas :: "int \<Rightarrow> storage \<Rightarrow> delta list \<times> storage" where
  "take_deltas commit_zxid s =
     (takeWhile (\<lambda>d. delta_zxid d = commit_zxid) (us_deltas (uncommitted s)),
      upd_uncommitted (\<lambda>u. u\<lparr>us_deltas := dropWhile (\<lambda>d. delta_zxid d = commit_zxid) (us_deltas u)\<rparr>) s)"

text \<open>Every request prolongs its session; an unknown session gets the timeout 0.\<close>

definition touch_session :: "int \<Rightarrow> int \<Rightarrow> storage \<Rightarrow> storage result" where
  "touch_session now session_id s =
     (let timeout = (case session_and_timeout s session_id of Some t \<Rightarrow> t | None \<Rightarrow> 0) in
      res_bind (addNewSessionOrUpdate (session_expiry_queue_of s) now session_id timeout) (\<lambda>q.
        Inr (s\<lparr>session_and_timeout := (session_and_timeout s)(session_id \<mapsto> timeout), session_expiry_queue_of := q\<rparr>)))"

definition process_close ::
  "keeper_context \<Rightarrow> int \<Rightarrow> int \<Rightarrow> int \<Rightarrow> 64 word \<Rightarrow> delta list \<Rightarrow> storage \<Rightarrow> (response_for_session list \<times> storage) result" where
  "process_close ctx xid session_id commit_zxid transaction_digest ds s =
     res_bind (removed_watches ds (watch_tables_of s)) (\<lambda>(fired, t).
      let s1 = set_watch_tables t s
      in res_bind (commit ctx ds s1) (\<lambda>(e, s2).
           let s3 = (if kc_digest_enabled_on_commit ctx then s2 else s2\<lparr>nodes_digest := transaction_digest\<rparr>);
               s4 = s3\<lparr>committed_session_and_auth := (committed_session_and_auth s3)(session_id := None)\<rparr>
           in res_bind (clearDeadWatches session_id s4) (\<lambda>s5.
                res_bind (remove_session (session_expiry_queue_of s5) session_id) (\<lambda>(removed, q).
                  Inr (fired @ [\<lparr>rfs_session_id = session_id, rfs_response = Response ZOK xid commit_zxid CloseBody\<rparr>],
                       s5\<lparr>session_expiry_queue_of := q,
                          session_and_timeout := (session_and_timeout s5)(session_id := None)\<rparr>)))))"

text \<open>The watch that the request itself asks for.\<close>

definition register_watch :: "zk_request \<Rightarrow> zk_error \<Rightarrow> int \<Rightarrow> storage \<Rightarrow> storage" where
  "register_watch r e session_id s =
     (if has_watch r
      then (if e = ZOK
            then add_watch (getPath r) (getOpNum r \<in> {OpList, OpSimpleList, OpFilteredList}) session_id s
            else if e = ZNONODE \<and> getOpNum r = OpExists then add_watch (getPath r) False session_id s
            else s)
      else s)"

definition process_normal ::
  "keeper_context \<Rightarrow> zk_request \<Rightarrow> int \<Rightarrow> int \<Rightarrow> int \<Rightarrow> 64 word \<Rightarrow> bool \<Rightarrow> bool \<Rightarrow> delta list \<Rightarrow> storage
     \<Rightarrow> (response_for_session list \<times> storage) result" where
  "process_normal ctx r xid session_id commit_zxid transaction_digest check_acl is_local ds s =
     res_bind
       (if is_local
        then res_bind (if check_acl then checkAuth r session_id True s else Inr (True, s)) (\<lambda>(allowed, s1).
               if \<not> allowed
               then Inr (response_of ZNOAUTH (resp_body (makeResponse r)), s1)
               else processLocal ctx r s1)
        else res_bind (process ctx r ds s) (\<lambda>(response, s1).
               Inr (response, if kc_digest_enabled_on_commit ctx then s1 else s1\<lparr>nodes_digest := transaction_digest\<rparr>)))
       (\<lambda>(response, s2).
          let e = resp_error response;
              s3 = register_watch r e session_id s2
          in res_bind
               (if e = ZOK
                then res_bind (processWatches r ds (watch_tables_of s3)) (\<lambda>(fired, t).
                       let s' = set_watch_tables t s3
                       in Inr (fired, s'\<lparr>total_watches_count := total_watches_count s' - of_nat (length fired)\<rparr>))
                else Inr ([], s3))
               (\<lambda>(fired, s4).
                  Inr (fired @ [\<lparr>rfs_session_id = session_id, rfs_response = set_ids xid commit_zxid response\<rparr>], s4)))"

definition processRequest ::
  "keeper_context \<Rightarrow> int \<Rightarrow> zk_request \<Rightarrow> int \<Rightarrow> int \<Rightarrow> int option \<Rightarrow> bool \<Rightarrow> bool \<Rightarrow> storage
     \<Rightarrow> (response_for_session list \<times> storage) result" where
  "processRequest ctx now r xid session_id new_last_zxid check_acl is_local s =
     (if \<not> initialized s then Inl (LogicalError ''KeeperStorage system nodes are not initialized'')
      else
        res_bind
          (case new_last_zxid of
             None \<Rightarrow> Inr (committed_zxid s, 0)
           | Some z \<Rightarrow>
               if uncommitted_transactions s = [] then Inl (LogicalError ''Trying to commit a ZXID which was not preprocessed'')
               else if ti_zxid (hd (uncommitted_transactions s)) \<noteq> z
               then Inl (LogicalError ''Trying to commit a ZXID while the next ZXID to commit is another'')
               else Inr (z, kd_value (ti_nodes_digest (hd (uncommitted_transactions s)))))
          (\<lambda>(commit_zxid, transaction_digest).
             let (ds, s1) = (if is_local then ([], s) else take_deltas commit_zxid s) in
             res_bind (touch_session now session_id s1) (\<lambda>s2.
               res_bind
                 (if r = CloseRequest then process_close ctx xid session_id commit_zxid transaction_digest ds s2
                  else if r = HeartbeatRequest
                  then res_bind (process ctx r ds s2) (\<lambda>(response, s3).
                         Inr ([\<lparr>rfs_session_id = session_id, rfs_response = set_ids xid commit_zxid response\<rparr>], s3))
                  else process_normal ctx r xid session_id commit_zxid transaction_digest check_acl is_local ds s2)
                 (\<lambda>(results, s3).
                    if commit_zxid < committed_zxid s3 then Inl (LogicalError ''Trying to commit smaller ZXID'')
                    else Inr (results,
                              s3\<lparr>uncommitted_transactions :=
                                   (if new_last_zxid = None then uncommitted_transactions s3
                                    else tl (uncommitted_transactions s3)),
                                 committed_zxid := commit_zxid\<rparr>)))))"

subsection \<open>Sessions\<close>

definition getSessionID :: "int \<Rightarrow> int \<Rightarrow> storage \<Rightarrow> (int \<times> storage) result" where
  "getSessionID now timeout_ms s =
     (let sid = session_id_counter s in
      res_bind (addNewSessionOrUpdate (session_expiry_queue_of s) now sid timeout_ms) (\<lambda>q.
        Inr (sid, s\<lparr>session_id_counter := sid + 1,
                    session_and_timeout :=
                      (if session_and_timeout s sid = None then (session_and_timeout s)(sid \<mapsto> timeout_ms)
                       else session_and_timeout s),
                    session_expiry_queue_of := q\<rparr>)))"

definition addSessionID :: "int \<Rightarrow> int \<Rightarrow> int \<Rightarrow> storage \<Rightarrow> storage result" where
  "addSessionID now sid timeout_ms s =
     res_bind (addNewSessionOrUpdate (session_expiry_queue_of s) now sid timeout_ms) (\<lambda>q.
       Inr (s\<lparr>session_and_timeout :=
                (if session_and_timeout s sid = None then (session_and_timeout s)(sid \<mapsto> timeout_ms)
                 else session_and_timeout s),
              session_expiry_queue_of := q\<rparr>))"

definition getDeadSessions :: "int \<Rightarrow> storage \<Rightarrow> int list" where
  "getDeadSessions now s = getExpiredSessions (session_expiry_queue_of s) now"

definition finalize :: "storage \<Rightarrow> storage result" where
  "finalize s =
     (if finalized s then Inl (LogicalError ''KeeperStorage already finalized'')
      else Inr (s\<lparr>finalized := True, committed_ephemerals := Map.empty, watches := Map.empty,
                  list_watches := Map.empty, sessions_and_watchers := Map.empty,
                  session_expiry_queue_of := clear_sessions (session_expiry_queue_of s)\<rparr>))"

end
