(* ===== verification/Keeper_View.thy ===== *)
theory Keeper_View
  imports Keeper_Process
begin

section \<open>The abstract tree and the meaning of a delta\<close>

text \<open>
  The specification of \<open>KeeperStorage\<close>: a tree is a map from paths to the statistics, data and
  ACLs of a node. A delta is an update of this map. \<open>cview\<close> is the tree of the committed
  container, \<open>uview\<close> the tree that the request handlers see through \<open>UncommittedState\<close>. The
  lemmas show that \<open>applyDelta\<close>, \<open>rollbackDelta\<close> and \<open>commit\<close> implement the abstract update,
  its inverse and, on the committed tree, the update again.
\<close>

record anode =
  an_stats :: node_stats
  an_data :: string
  an_acls :: acls

type_synonym tree = "path \<rightharpoonup> anode"

definition acls_of :: "acl_map \<Rightarrow> nat \<Rightarrow> acls" where
  "acls_of m n = (case convertNumber m n of Inr a \<Rightarrow> a | Inl _ \<Rightarrow> [])"

definition abs_node :: "acls \<Rightarrow> mem_node \<Rightarrow> anode" where
  "abs_node a n = \<lparr>an_stats = mn_stats n, an_data = getData n, an_acls = a\<rparr>"

definition cview :: "storage \<Rightarrow> tree" where
  "cview s p = map_option (\<lambda>n. abs_node (acls_of (acl_map_of s) (mn_acl_id n)) n) (find_node s p)"

text \<open>The ACLs of an entry: materialized, or still those of the number.\<close>

definition entry_acls :: "acl_map \<Rightarrow> acls option \<Rightarrow> nat \<Rightarrow> acls" where
  "entry_acls m acls acl_id = (case acls of Some a \<Rightarrow> a | None \<Rightarrow> acls_of m acl_id)"

lemma entry_acls_simps [simp]:
  "entry_acls m (Some a) k = a"
  "entry_acls m None k = acls_of m k"
  by (simp_all add: entry_acls_def)

definition entry_view :: "acl_map \<Rightarrow> uncommitted_node \<Rightarrow> anode option" where
  "entry_view m e =
     map_option (\<lambda>n. abs_node (entry_acls m (un_acls e) (mn_acl_id n)) n) (un_node e)"

definition uview :: "storage \<Rightarrow> tree" where
  "uview s p = (case find_entry s p of Some e \<Rightarrow> entry_view (acl_map_of s) e | None \<Rightarrow> cview s p)"

subsection \<open>Abstract updates\<close>

definition data_anode :: "string \<Rightarrow> anode \<Rightarrow> anode" where
  "data_anode data a =
     a\<lparr>an_stats := (an_stats a)\<lparr>ns_data_size := length data mod 2 ^ 32\<rparr>,
       an_data := take (length data mod 2 ^ 32) data\<rparr>"

definition stat_anode :: "node_stats \<Rightarrow> anode \<Rightarrow> anode" where
  "stat_anode st a = a\<lparr>an_stats := st, an_data := take (ns_data_size st) (an_data a)\<rparr>"

definition create_anode :: "stat \<Rightarrow> acls \<Rightarrow> string \<Rightarrow> anode" where
  "create_anode st acls data =
     data_anode data \<lparr>an_stats = copyStats st default_stats, an_data = [], an_acls = acls\<rparr>"

fun abs_op :: "operation \<Rightarrow> anode option \<Rightarrow> anode option" where
  "abs_op (CreateNodeDelta st acls data) a = Some (create_anode st acls data)"
| "abs_op (RemoveNodeDelta version st acls data) a = None"
| "abs_op (UpdateNodeStatDelta old new version) a = map_option (stat_anode new) a"
| "abs_op (UpdateNodeDataDelta old new version) a = map_option (data_anode new) a"
| "abs_op (SetACLDelta old new version) a = map_option (\<lambda>a. a\<lparr>an_acls := new\<rparr>) a"
| "abs_op _ a = a"

definition abs_delta :: "delta \<Rightarrow> tree \<Rightarrow> tree" where
  "abs_delta d m = m(delta_path d := abs_op (delta_operation d) (m (delta_path d)))"

definition abs_deltas :: "delta list \<Rightarrow> tree \<Rightarrow> tree" where
  "abs_deltas = fold abs_delta"

text \<open>The inverse of an abstract update, from the old values that the delta carries.\<close>

fun undo_op :: "operation \<Rightarrow> anode option \<Rightarrow> anode option" where
  "undo_op (CreateNodeDelta st acls data) a = None"
| "undo_op (RemoveNodeDelta version st acls data) a =
     Some (data_anode data \<lparr>an_stats = st, an_data = [], an_acls = acls\<rparr>)"
| "undo_op (UpdateNodeStatDelta old new version) a = map_option (stat_anode old) a"
| "undo_op (UpdateNodeDataDelta old new version) a = map_option (data_anode old) a"
| "undo_op (SetACLDelta old new version) a = map_option (\<lambda>a. a\<lparr>an_acls := old\<rparr>) a"
| "undo_op _ a = a"

definition undo_delta :: "delta \<Rightarrow> tree \<Rightarrow> tree" where
  "undo_delta d m = m(delta_path d := undo_op (delta_operation d) (m (delta_path d)))"

subsection \<open>When a delta fits a tree\<close>

definition version_ok :: "int \<Rightarrow> int \<Rightarrow> bool" where
  "version_ok version actual \<longleftrightarrow> version = -1 \<or> version = actual"

definition anode_wf :: "anode \<Rightarrow> bool" where
  "anode_wf a \<longleftrightarrow> ns_data_size (an_stats a) = length (an_data a)"

text \<open>
  The conditions under which \<open>commit\<close> accepts the delta, together with the facts that keep the
  bookkeeping of ephemeral nodes and data buffers consistent.
\<close>

fun ok_op :: "path \<Rightarrow> operation \<Rightarrow> tree \<Rightarrow> bool" where
  "ok_op p (CreateNodeDelta st acls data) m \<longleftrightarrow>
     p \<noteq> [] \<and> m p = None \<and> (\<exists>a. m (parentOf p) = Some a \<and> \<not> isEphemeral (an_stats a))
     \<and> canonical_path p \<and> p \<noteq> [slash] \<and> (\<forall>q. m q \<noteq> None \<longrightarrow> parentOf q \<noteq> p)"
| "ok_op p (RemoveNodeDelta version st acls data) m \<longleftrightarrow>
     p \<noteq> [] \<and> parentOf p \<noteq> p \<and> m (parentOf p) \<noteq> None
     \<and> (\<exists>a. m p = Some a \<and> version_ok version (ns_version (an_stats a)))"
| "ok_op p (UpdateNodeStatDelta old new version) m \<longleftrightarrow>
     p \<noteq> []
     \<and> (\<exists>a. m p = Some a \<and> version_ok version (ns_version (an_stats a))
          \<and> ns_data_size new \<le> length (an_data a) \<and> ephemeralOwner new = ephemeralOwner (an_stats a)
          \<and> isEphemeral new = isEphemeral (an_stats a))"
| "ok_op p (UpdateNodeDataDelta old new version) m \<longleftrightarrow>
     p \<noteq> [] \<and> (\<exists>a. m p = Some a \<and> version_ok version (ns_version (an_stats a)))"
| "ok_op p (SetACLDelta old new version) m \<longleftrightarrow>
     p \<noteq> [] \<and> (\<exists>a. m p = Some a \<and> version_ok version (ns_aversion (an_stats a)))"
| "ok_op p _ m \<longleftrightarrow> p = []"

definition ok_delta :: "delta \<Rightarrow> tree \<Rightarrow> bool" where
  "ok_delta d m = ok_op (delta_path d) (delta_operation d) m"

fun ok_deltas :: "delta list \<Rightarrow> tree \<Rightarrow> bool" where
  "ok_deltas [] m = True"
| "ok_deltas (d # ds) m \<longleftrightarrow> ok_delta d m \<and> ok_deltas ds (abs_delta d m)"

lemma ok_deltas_append: "ok_deltas (xs @ ys) m \<longleftrightarrow> ok_deltas xs m \<and> ok_deltas ys (abs_deltas xs m)"
  by (induction xs arbitrary: m) (simp_all add: abs_deltas_def)

lemma abs_deltas_simps [simp]:
  "abs_deltas [] m = m"
  "abs_deltas (d # ds) m = abs_deltas ds (abs_delta d m)"
  "abs_deltas (xs @ ys) m = abs_deltas ys (abs_deltas xs m)"
  by (simp_all add: abs_deltas_def)

lemma abs_delta_other: "p \<noteq> delta_path d \<Longrightarrow> abs_delta d m p = m p"
  by (simp add: abs_delta_def)

lemma abs_deltas_other: "p \<notin> delta_path ` set ds \<Longrightarrow> abs_deltas ds m p = m p"
  by (induction ds arbitrary: m) (simp_all add: abs_delta_other)

text \<open>Deltas without a path change nothing.\<close>

lemma abs_delta_no_path: "ok_delta d m \<Longrightarrow> delta_path d = [] \<Longrightarrow> abs_delta d m = m"
  by (cases "delta_operation d") (simp_all add: abs_delta_def ok_delta_def)

subsection \<open>Nodes\<close>

definition node_wf :: "mem_node \<Rightarrow> bool" where
  "node_wf n \<longleftrightarrow> ns_data_size (mn_stats n) \<le> length (mn_data n)"

lemma length_getData: "node_wf n \<Longrightarrow> length (getData n) = ns_data_size (mn_stats n)"
  by (simp add: node_wf_def getData_def)

lemma anode_wf_abs_node [simp]: "anode_wf (abs_node a n) \<longleftrightarrow> node_wf n"
  by (auto simp: anode_wf_def abs_node_def node_wf_def getData_def)

lemma node_wf_default [simp]: "node_wf default_node"
  by (simp add: node_wf_def default_node_def default_stats_def)

lemma mod_length_le: "length xs mod k \<le> length (xs :: 'a list)"
  by simp

lemma setData_simps [simp]:
  "mn_stats (setData d n) = (mn_stats n)\<lparr>ns_data_size := length d mod 2 ^ 32\<rparr>"
  "getData (setData d n) = take (length d mod 2 ^ 32) d"
  "mn_acl_id (setData d n) = mn_acl_id n"
  "mn_children (setData d n) = mn_children n"
  "mn_cached_digest (setData d n) = mn_cached_digest n"
  "node_wf (setData d n)"
  by (auto simp: setData_def getData_def node_wf_def Let_def)

lemma abs_node_setData: "abs_node a (setData d n) = data_anode d (abs_node a' n)\<lparr>an_acls := a\<rparr>"
  by (simp add: abs_node_def data_anode_def)

lemma shallowCopy_simps [simp]:
  "mn_stats (shallowCopy n other) = mn_stats other"
  "mn_acl_id (shallowCopy n other) = mn_acl_id other"
  "node_wf other \<Longrightarrow> node_wf (shallowCopy n other)"
  "getData (shallowCopy n other) = getData other"
  by (auto simp: shallowCopy_def getData_def node_wf_def Let_def)

lemma copy_node_simps [simp]:
  "mn_stats (copy_node n) = mn_stats n"
  "mn_acl_id (copy_node n) = mn_acl_id n"
  "mn_children (copy_node n) = mn_children n"
  "mn_cached_digest (copy_node n) = 0"
  "getData (copy_node n) = getData n"
  "node_wf n \<Longrightarrow> node_wf (copy_node n)"
  by (auto simp: copy_node_def assign_node_def getData_def node_wf_def Let_def default_node_def)

lemma abs_node_copies [simp]:
  "abs_node a (shallowCopy m n) = abs_node a n"
  "abs_node a (copy_node n) = abs_node a n"
  by (simp_all add: abs_node_def)

lemma getDigest_frame [simp]:
  "mn_stats (snd (getDigest p n)) = mn_stats n"
  "mn_data (snd (getDigest p n)) = mn_data n"
  "mn_acl_id (snd (getDigest p n)) = mn_acl_id n"
  "mn_children (snd (getDigest p n)) = mn_children n"
  "getData (snd (getDigest p n)) = getData n"
  "node_wf (snd (getDigest p n)) = node_wf n"
  by (simp_all add: getDigest_def Let_def getData_def node_wf_def)

lemma invalidate_frame [simp]:
  "mn_stats (invalidateDigestCache n) = mn_stats n"
  "mn_data (invalidateDigestCache n) = mn_data n"
  "mn_acl_id (invalidateDigestCache n) = mn_acl_id n"
  "mn_children (invalidateDigestCache n) = mn_children n"
  "mn_cached_digest (invalidateDigestCache n) = 0"
  "getData (invalidateDigestCache n) = getData n"
  "node_wf (invalidateDigestCache n) = node_wf n"
  by (simp_all add: invalidateDigestCache_def getData_def node_wf_def)

lemma abs_node_digest [simp]:
  "abs_node a (snd (getDigest p n)) = abs_node a n"
  "abs_node a (invalidateDigestCache n) = abs_node a n"
  by (simp_all add: abs_node_def)

text \<open>Overwriting the statistics shortens the visible data to the recorded size.\<close>

lemma abs_node_stats:
  assumes "node_wf n" "ns_data_size st \<le> ns_data_size (mn_stats n)"
  shows "abs_node a (n\<lparr>mn_stats := st\<rparr>) = stat_anode st (abs_node a n)"
    and "node_wf (n\<lparr>mn_stats := st\<rparr>)"
  using assms by (simp_all add: abs_node_def stat_anode_def getData_def node_wf_def min_absorb1)

end
