(* ===== verification/Keeper_Apply.thy ===== *)
theory Keeper_Apply
  imports Keeper_View
begin

section \<open>Applying deltas to the uncommitted state\<close>

text \<open>
  The invariant of the cache of uncommitted nodes and the proof that \<open>applyDelta\<close> and
  \<open>applyDeltas\<close> carry out the abstract update on the uncommitted tree, that \<open>rollbackDelta\<close>
  undoes it, and that loading nodes and materializing ACLs leaves the tree alone.
\<close>

subsection \<open>The cache invariant\<close>

text \<open>
  As long as the ACLs of an entry are not materialized, its node has the ACL number of the
  committed node; an entry without a node has ACLs.
\<close>

definition entry_ok :: "storage \<Rightarrow> path \<Rightarrow> uncommitted_node \<Rightarrow> bool" where
  "entry_ok s p e \<longleftrightarrow>
     (case un_node e of
        None \<Rightarrow> un_acls e \<noteq> None
      | Some n \<Rightarrow> un_acls e = None \<longrightarrow> (\<exists>c. find_node s p = Some c \<and> mn_acl_id c = mn_acl_id n))"

text \<open>The iterators of \<open>zxid_to_nodes\<close> point into \<open>nodes\<close>, to entries that list the transaction.\<close>

definition tracking_ok :: "uncommitted_state \<Rightarrow> bool" where
  "tracking_ok u \<longleftrightarrow>
     omap_wf (us_zxid_to_nodes u)
     \<and> list_all (\<lambda>b. 0 \<le> fst b \<and> distinct (snd b)) (us_zxid_to_nodes u)
     \<and> (\<forall>z p. p \<in> set (bucket (map_of (us_zxid_to_nodes u)) z) \<longrightarrow>
          (\<exists>e. map_of (us_nodes u) p = Some e \<and> (z \<noteq> 0 \<longrightarrow> z \<in> set (un_applied_zxids e))))"

definition container_wf :: "storage \<Rightarrow> bool" where
  "container_wf s \<longleftrightarrow> (\<forall>p n. find_node s p = Some n \<longrightarrow> node_wf n)"

text \<open>Every visible node has exactly the data that its recorded size promises.\<close>

definition tree_sized :: "tree \<Rightarrow> bool" where
  "tree_sized t \<longleftrightarrow> (\<forall>p a. t p = Some a \<longrightarrow> anode_wf a)"

definition cache_inv :: "storage \<Rightarrow> bool" where
  "cache_inv s \<longleftrightarrow>
     distinct (map fst (us_nodes (uncommitted s)))
     \<and> (\<forall>p e. find_entry s p = Some e \<longrightarrow> entry_ok s p e)
     \<and> tracking_ok (uncommitted s)"

definition acl_loaded :: "storage \<Rightarrow> path \<Rightarrow> bool" where
  "acl_loaded s p \<longleftrightarrow> (\<exists>e. find_entry s p = Some e \<and> un_acls e \<noteq> None)"

definition applied_to :: "storage \<Rightarrow> path \<Rightarrow> int set" where
  "applied_to s p = (case find_entry s p of None \<Rightarrow> {} | Some e \<Rightarrow> set (un_applied_zxids e))"

text \<open>States that differ only in the cache, and in empty lists of committed authentications.\<close>

definition core :: "storage \<Rightarrow> storage" where
  "core s = s\<lparr>uncommitted := (uncommitted s)\<lparr>us_nodes := [], us_zxid_to_nodes := []\<rparr>,
              committed_session_and_auth := Map.empty\<rparr>"

definition same_core :: "storage \<Rightarrow> storage \<Rightarrow> bool" where
  "same_core s s' \<longleftrightarrow> core s' = core s
     \<and> bucket (committed_session_and_auth s') = bucket (committed_session_and_auth s)"

lemma same_core_refl [intro, simp]: "same_core s s"
  by (simp add: same_core_def)

lemma same_core_trans [trans]: "same_core s s' \<Longrightarrow> same_core s' s'' \<Longrightarrow> same_core s s''"
  by (simp add: same_core_def)

lemma same_core_update [simp]:
  "same_core s (s\<lparr>uncommitted := (uncommitted s)\<lparr>us_nodes := N, us_zxid_to_nodes := Z\<rparr>\<rparr>)"
  "same_core s (s\<lparr>uncommitted := (uncommitted s)\<lparr>us_nodes := N\<rparr>\<rparr>)"
  by (simp_all add: same_core_def core_def)

lemma core_fields:
  "container (core s) = container s" "acl_map_of (core s) = acl_map_of s"
  "committed_zxid (core s) = committed_zxid s" "nodes_digest (core s) = nodes_digest s"
  "committed_ephemerals (core s) = committed_ephemerals s"
  "committed_ephemeral_nodes (core s) = committed_ephemeral_nodes s"
  "uncommitted_transactions (core s) = uncommitted_transactions s"
  "us_deltas (uncommitted (core s)) = us_deltas (uncommitted s)"
  "us_ephemerals (uncommitted (core s)) = us_ephemerals (uncommitted s)"
  "us_session_and_auth (uncommitted (core s)) = us_session_and_auth (uncommitted s)"
  "us_closed_sessions (uncommitted (core s)) = us_closed_sessions (uncommitted s)"
  "us_next_auth (uncommitted (core s)) = us_next_auth (uncommitted s)"
  "initialized (core s) = initialized s" "superdigest (core s) = superdigest s"
  by (simp_all add: core_def)

lemma same_coreD:
  assumes "same_core s s'"
  shows "container s' = container s" "acl_map_of s' = acl_map_of s"
    "committed_zxid s' = committed_zxid s" "nodes_digest s' = nodes_digest s"
    "committed_ephemerals s' = committed_ephemerals s"
    "committed_ephemeral_nodes s' = committed_ephemeral_nodes s"
    "bucket (committed_session_and_auth s') = bucket (committed_session_and_auth s)"
    "uncommitted_transactions s' = uncommitted_transactions s"
    "us_deltas (uncommitted s') = us_deltas (uncommitted s)"
    "us_ephemerals (uncommitted s') = us_ephemerals (uncommitted s)"
    "us_session_and_auth (uncommitted s') = us_session_and_auth (uncommitted s)"
    "us_closed_sessions (uncommitted s') = us_closed_sessions (uncommitted s)"
    "us_next_auth (uncommitted s') = us_next_auth (uncommitted s)"
    "initialized s' = initialized s" "superdigest s' = superdigest s"
  using core_fields [of s] core_fields [of s'] assms by (simp_all add: same_core_def)

lemma same_core_views:
  assumes "same_core s s'"
  shows "find_node s' p = find_node s p" "cview s' = cview s"
  by (simp_all add: find_node_def cview_def fun_eq_iff same_coreD [OF assms])

lemma container_wf_same_core: "same_core s s' \<Longrightarrow> container_wf s \<Longrightarrow> container_wf s'"
  by (simp add: container_wf_def same_core_views)

lemma entry_ok_same_core: "same_core s s' \<Longrightarrow> entry_ok s' p e = entry_ok s p e"
  by (simp add: entry_ok_def same_core_views split: option.split)

subsection \<open>Buckets\<close>

lemma bucket_track_node:
  assumes "omap_wf m"
  shows "set (bucket (map_of (track_node z p m)) z') = set (bucket (map_of m) z') \<union> (if z' = z then {p} else {})"
  using assms by (auto simp: track_node_def bucket_def map_of_omap_update)

lemma omap_wf_track_node [wf_intros]: "omap_wf m \<Longrightarrow> omap_wf (track_node z p m)"
  by (simp add: track_node_def omap_wf_update)

lemma list_all_track_node:
  assumes "list_all (\<lambda>b. 0 \<le> fst b \<and> distinct (snd b)) m" "0 \<le> z"
  shows "list_all (\<lambda>b. 0 \<le> fst b \<and> distinct (snd b)) (track_node z p m)"
proof -
  have "distinct (bucket (map_of m) z)"
    using list_all_map_of [OF assms(1), of z] by (auto simp: bucket_def split: option.split)
  with assms show ?thesis
    by (simp add: track_node_def list_all_omap_update)
qed

text \<open>Updating an entry so that it keeps its transactions, or gains the one that is tracked.\<close>

lemma tracking_ok_update:
  assumes "tracking_ok u"
    and keep: "\<And>e0. map_of (us_nodes u) p = Some e0 \<Longrightarrow> set (un_applied_zxids e0) \<subseteq> set (un_applied_zxids e)"
  shows "tracking_ok (u\<lparr>us_nodes := AList.update p e (us_nodes u)\<rparr>)"
  using assms unfolding tracking_ok_def
  by (simp add: map_of_alist_update) blast

lemma tracking_ok_track:
  assumes "tracking_ok u" "0 \<le> z" "map_of (us_nodes u) p = Some e" "z \<noteq> 0 \<longrightarrow> z \<in> set (un_applied_zxids e)"
  shows "tracking_ok (u\<lparr>us_zxid_to_nodes := track_node z p (us_zxid_to_nodes u)\<rparr>)"
  using assms unfolding tracking_ok_def
  by (auto simp: bucket_track_node omap_wf_track_node list_all_track_node split: if_splits)

subsection \<open>Loading\<close>

lemma uview_absent: "find_entry s p = None \<Longrightarrow> uview s p = cview s p"
  by (simp add: uview_def)

lemma uview_present: "find_entry s p = Some e \<Longrightarrow> uview s p = entry_view (acl_map_of s) e"
  by (simp add: uview_def)

lemma entry_view_fresh:
  "entry_view (acl_map_of s) (fresh_entry (tryGetNodeFromStorage s p)) = cview s p"
  by (cases "find_node s p")
    (simp_all add: entry_view_def fresh_entry_def tryGetNodeFromStorage_def cview_def)

text \<open>
  Replacing the entry of a path, possibly after tracking it: everything the request handlers and
  \<open>applyDelta\<close> do to the cache is of this form.
\<close>

lemma find_entry_update:
  "find_entry (s\<lparr>uncommitted := (uncommitted s)\<lparr>us_nodes := AList.update p e (us_nodes (uncommitted s)), us_zxid_to_nodes := Z\<rparr>\<rparr>) q
     = (if q = p then Some e else find_entry s q)"
  "find_entry (s\<lparr>uncommitted := (uncommitted s)\<lparr>us_nodes := AList.update p e (us_nodes (uncommitted s))\<rparr>\<rparr>) q
     = (if q = p then Some e else find_entry s q)"
  by (simp_all add: find_entry_def map_of_alist_update)

lemma find_entry_simps [simp]:
  "find_entry (set_entry p e s) q = (if q = p then Some e else find_entry s q)"
  "find_entry (emplace_entry p e s) q = (if q = p then Some e else find_entry s q)"
  by (simp_all add: set_entry_def emplace_entry_def find_entry_update)

lemma same_core_entries [simp]:
  "same_core s (set_entry p e s)" "same_core s (emplace_entry p e s)"
  by (simp_all add: set_entry_def emplace_entry_def)

lemma cache_inv_set_entry:
  assumes inv: "cache_inv s" and ok: "entry_ok s p e"
    and keep: "\<And>e0. find_entry s p = Some e0 \<Longrightarrow> set (un_applied_zxids e0) \<subseteq> set (un_applied_zxids e)"
  shows "cache_inv (set_entry p e s)"
proof -
  have "tracking_ok (uncommitted (set_entry p e s))"
    unfolding set_entry_def
    using tracking_ok_update [of "uncommitted s" p e, OF _ keep] inv
    by (simp add: cache_inv_def find_entry_def)
  moreover have "entry_ok (set_entry p e s) q e' = entry_ok s q e'" for q e'
    by (rule entry_ok_same_core) simp
  moreover have "distinct (map fst (us_nodes (uncommitted (set_entry p e s))))"
    using inv by (simp add: set_entry_def cache_inv_def distinct_update)
  ultimately show ?thesis
    using inv ok by (simp add: cache_inv_def)
qed

lemma emplace_entry_eq:
  "emplace_entry p e s =
     (let s1 = set_entry p e s in
      s1\<lparr>uncommitted := (uncommitted s1)\<lparr>us_zxid_to_nodes := track_node 0 p (us_zxid_to_nodes (uncommitted s1))\<rparr>\<rparr>)"
  by (simp add: emplace_entry_def set_entry_def)

lemma cache_inv_track:
  assumes inv: "cache_inv s" and e: "find_entry s p = Some e" and z: "0 \<le> z" "z \<noteq> 0 \<longrightarrow> z \<in> set (un_applied_zxids e)"
  shows "cache_inv (s\<lparr>uncommitted := (uncommitted s)\<lparr>us_zxid_to_nodes := track_node z p (us_zxid_to_nodes (uncommitted s))\<rparr>\<rparr>)"
proof -
  let ?s = "s\<lparr>uncommitted := (uncommitted s)\<lparr>us_zxid_to_nodes := track_node z p (us_zxid_to_nodes (uncommitted s))\<rparr>\<rparr>"
  have "tracking_ok (uncommitted ?s)"
    using inv e z by (simp add: cache_inv_def find_entry_def tracking_ok_track)
  moreover have "find_entry ?s q = find_entry s q" for q
    by (simp add: find_entry_def)
  moreover have "entry_ok ?s q e' = entry_ok s q e'" for q e'
    by (rule entry_ok_same_core) (simp add: same_core_def core_def)
  ultimately show ?thesis
    using inv by (simp add: cache_inv_def)
qed

lemma cache_inv_emplace:
  assumes "cache_inv s" "find_entry s p = None" "entry_ok s p e"
  shows "cache_inv (emplace_entry p e s)"
proof -
  have "cache_inv (set_entry p e s)"
    using assms by (intro cache_inv_set_entry) simp_all
  then show ?thesis
    unfolding emplace_entry_eq Let_def by (rule cache_inv_track) simp_all
qed

lemma uview_same_core:
  assumes "same_core s s'" and "\<And>q. q \<noteq> p \<Longrightarrow> find_entry s' q = find_entry s q"
    and "find_entry s' p = Some e" and "entry_view (acl_map_of s) e = uview s p"
  shows "uview s' = uview s"
proof
  fix q
  show "uview s' q = uview s q"
    using assms(2) [of q] assms(3,4)
    by (cases "q = p")
      (simp_all add: uview_def same_coreD [OF assms(1)] same_core_views [OF assms(1)] split: option.split)
qed

text \<open>What a handler may assume after a step that only loads nodes or materializes ACLs.\<close>

definition loads :: "storage \<Rightarrow> storage \<Rightarrow> bool" where
  "loads s s' \<longleftrightarrow> same_core s s' \<and> uview s' = uview s \<and> cache_inv s'
     \<and> (\<forall>q. acl_loaded s q \<longrightarrow> acl_loaded s' q)
     \<and> (\<forall>q. applied_to s' q = applied_to s q)
     \<and> (\<forall>q. find_entry s q \<noteq> None \<longrightarrow> find_entry s' q \<noteq> None)"

lemma loads_refl: "cache_inv s \<Longrightarrow> loads s s"
  by (simp add: loads_def)

lemma loads_trans [trans]: "loads s s' \<Longrightarrow> loads s' s'' \<Longrightarrow> loads s s''"
  unfolding loads_def by (metis same_core_trans)

lemma loadsD:
  assumes "loads s s'"
  shows "same_core s s'" "uview s' = uview s" "cache_inv s'" "acl_loaded s q \<Longrightarrow> acl_loaded s' q"
    "applied_to s' q = applied_to s q" "find_entry s q \<noteq> None \<Longrightarrow> find_entry s' q \<noteq> None"
  using assms by (simp_all add: loads_def)

lemma loads_emplace:
  assumes inv: "cache_inv s" and p: "find_entry s p = None" and ok: "entry_ok s p e"
    and v: "entry_view (acl_map_of s) e = cview s p" and a: "un_applied_zxids e = []"
  shows "loads s (emplace_entry p e s)"
  unfolding loads_def
proof (intro conjI allI impI)
  show "uview (emplace_entry p e s) = uview s"
    by (rule uview_same_core [of _ _ p e]) (simp_all add: v uview_absent p)
  show "cache_inv (emplace_entry p e s)"
    by (rule cache_inv_emplace [OF inv p ok])
  show "applied_to (emplace_entry p e s) q = applied_to s q" for q
    by (simp add: applied_to_def p a)
  show "acl_loaded s q \<Longrightarrow> acl_loaded (emplace_entry p e s) q" for q
    using p by (auto simp: acl_loaded_def)
qed simp_all

lemma loads_set_entry:
  assumes inv: "cache_inv s" and p: "find_entry s p = Some e0" and ok: "entry_ok s p e"
    and v: "entry_view (acl_map_of s) e = entry_view (acl_map_of s) e0"
    and a: "un_applied_zxids e = un_applied_zxids e0" and acls: "un_acls e0 \<noteq> None \<longrightarrow> un_acls e \<noteq> None"
  shows "loads s (set_entry p e s)"
  unfolding loads_def
proof (intro conjI allI impI)
  show "uview (set_entry p e s) = uview s"
    by (rule uview_same_core [of _ _ p e]) (simp_all add: v uview_present p)
  show "cache_inv (set_entry p e s)"
    by (rule cache_inv_set_entry [OF inv ok]) (use p a in simp)
  show "applied_to (set_entry p e s) q = applied_to s q" for q
    by (simp add: applied_to_def p a)
  show "acl_loaded s q \<Longrightarrow> acl_loaded (set_entry p e s) q" for q
    using p acls by (auto simp: acl_loaded_def)
qed simp_all

lemma entry_ok_fresh:
  assumes "tryGetNodeFromStorage s p = Some n"
  shows "entry_ok s p ((fresh_entry (Some n))\<lparr>un_acls := a\<rparr>)" "entry_ok s p (fresh_entry (Some n))"
  using assms
  by (auto simp: entry_ok_def fresh_entry_def tryGetNodeFromStorage_def)

subsection \<open>The lookups of the request handlers\<close>

lemma getNode_spec:
  assumes inv: "cache_inv s" and run: "getNode p s = (node, s')"
  shows "loads s s'"
    and "map_option mn_stats node = map_option an_stats (uview s p)"
    and "map_option getData node = map_option an_data (uview s p)"
    and "node \<noteq> None \<Longrightarrow> find_entry s' p \<noteq> None"
proof -
  show "loads s s'" "node \<noteq> None \<Longrightarrow> find_entry s' p \<noteq> None"
    using run loads_refl [OF inv] loads_emplace [OF inv _ entry_ok_fresh(2), of p]
      entry_view_fresh [of s p]
    by (auto simp: getNode_def fresh_entry_def split: option.splits)
  show "map_option mn_stats node = map_option an_stats (uview s p)"
    "map_option getData node = map_option an_data (uview s p)"
    using run
    by (auto simp: getNode_def uview_def entry_view_def cview_def tryGetNodeFromStorage_def abs_node_def option.map_comp comp_def
          split: option.splits)
qed

text \<open>The node that \<open>getNode\<close> returns, in terms of the uncommitted tree.\<close>

lemma getNode_cases:
  assumes "cache_inv s" "getNode p s = (node, s')"
  obtains (missing) "node = None" "uview s p = None"
    | (present) n a where "node = Some n" "uview s p = Some a" "an_stats a = mn_stats n" "an_data a = getData n"
  using getNode_spec(2,3) [OF assms] by (cases node; cases "uview s p") auto

definition acls_resolve :: "storage \<Rightarrow> bool" where
  "acls_resolve s \<longleftrightarrow> (\<forall>p n. find_node s p = Some n \<longrightarrow> (\<exists>a. convertNumber (acl_map_of s) (mn_acl_id n) = Inr a))"

lemma acls_resolve_same_core: "same_core s s' \<Longrightarrow> acls_resolve s \<Longrightarrow> acls_resolve s'"
  by (simp add: acls_resolve_def same_coreD same_core_views)

lemma cache_invD: "cache_inv s \<Longrightarrow> find_entry s p = Some e \<Longrightarrow> entry_ok s p e"
  by (simp add: cache_inv_def)

text \<open>Materializing the ACLs of an entry never fails and does not change what it stands for.\<close>

lemma materializeACL_spec:
  assumes ok: "entry_ok s p e" and res: "acls_resolve s"
  obtains e' where "materializeACL (acl_map_of s) e = Inr e'" "entry_ok s p e'" "un_acls e' \<noteq> None"
    "entry_view (acl_map_of s) e' = entry_view (acl_map_of s) e" "un_applied_zxids e' = un_applied_zxids e"
    "un_node e' = un_node e" "un_acls e \<noteq> None \<longrightarrow> e' = e"
proof (cases "un_acls e")
  case (Some a)
  with ok that [of e] show ?thesis by (simp add: materializeACL_def)
next
  case None
  with ok obtain n c where n: "un_node e = Some n" "find_node s p = Some c" "mn_acl_id c = mn_acl_id n"
    by (auto simp: entry_ok_def split: option.splits)
  with res obtain a where a: "convertNumber (acl_map_of s) (mn_acl_id n) = Inr a"
    by (metis acls_resolve_def)
  show ?thesis
    by (rule that [of "e\<lparr>un_acls := Some a\<rparr>"])
      (use None n a in \<open>simp_all add: materializeACL_def entry_ok_def entry_view_def acls_of_def\<close>)
qed

lemma getACLs_spec:
  assumes inv: "cache_inv s" and res: "acls_resolve s"
  obtains a s' where "getACLs p s = Inr (a, s')" "loads s s'"
    "\<And>x. uview s p = Some x \<Longrightarrow> a = an_acls x \<and> acl_loaded s' p"
proof (cases "find_entry s p")
  case (Some e)
  obtain e' where e': "materializeACL (acl_map_of s) e = Inr e'" "entry_ok s p e'" "un_acls e' \<noteq> None"
    "entry_view (acl_map_of s) e' = entry_view (acl_map_of s) e" "un_applied_zxids e' = un_applied_zxids e"
    by (rule materializeACL_spec [OF cache_invD [OF inv Some] res])
  have "loads s (set_entry p e' s)"
    by (rule loads_set_entry [OF inv Some e'(2)]) (use e' in simp_all)
  moreover have "the (un_acls e') = an_acls x" if "uview s p = Some x" for x
    using that e'(3,4) by (auto simp: uview_present [OF Some] entry_view_def abs_node_def split: option.splits)
  ultimately show ?thesis
    using Some e' by (intro that [of "the (un_acls e')" "set_entry p e' s"]) (auto simp: getACLs_def acl_loaded_def)
next
  case None
  show ?thesis
  proof (cases "tryGetNodeFromStorage s p")
    case no_node: None
    then have "uview s p = None"
      by (simp add: uview_absent [OF None] cview_def tryGetNodeFromStorage_def)
    with None no_node loads_refl [OF inv] that show ?thesis
      by (simp add: getACLs_def)
  next
    case node: (Some n)
    then obtain c where c: "find_node s p = Some c" "n = shallowCopy default_node c"
      by (auto simp: tryGetNodeFromStorage_def)
    with res obtain a where a: "convertNumber (acl_map_of s) (mn_acl_id n) = Inr a"
      by (auto simp: acls_resolve_def)
    let ?e = "(fresh_entry (Some n))\<lparr>un_acls := Some a\<rparr>"
    have view: "entry_view (acl_map_of s) ?e = cview s p"
      using c a by (simp add: entry_view_def fresh_entry_def cview_def acls_of_def)
    have "loads s (emplace_entry p ?e s)"
      by (rule loads_emplace [OF inv None entry_ok_fresh(1) [OF node] view]) (simp add: fresh_entry_def)
    moreover have "an_acls x = a" if "uview s p = Some x" for x
      using that c a by (auto simp: uview_absent [OF None] cview_def abs_node_def acls_of_def)
    ultimately show ?thesis
      using None node a by (intro that [of a "emplace_entry p ?e s"]) (auto simp: getACLs_def acl_loaded_def)
  qed
qed

lemma touch_committed_auth_loads:
  assumes "cache_inv s"
  shows "loads s (touch_committed_auth sid s)"
proof -
  let ?s = "touch_committed_auth sid s"
  have core: "same_core s ?s"
    by (auto simp: same_core_def core_def touch_committed_auth_def bucket_def fun_eq_iff)
  have entry: "find_entry ?s q = find_entry s q" for q
    by (simp add: find_entry_def touch_committed_auth_def)
  have "uncommitted ?s = uncommitted s" by (simp add: touch_committed_auth_def)
  with assms core entry show ?thesis
    by (auto simp: loads_def cache_inv_def entry_ok_same_core [OF core] acl_loaded_def applied_to_def
          uview_def fun_eq_iff same_core_views [OF core] same_coreD [OF core] split: option.split)
qed

lemma hasACL_loads:
  assumes "cache_inv s" "hasACL sid is_local P s = (b, s')"
  shows "loads s s'"
  using assms touch_committed_auth_loads loads_refl
  by (auto simp: hasACL_def Let_def split: if_splits option.splits)

lemma checkACL_loop_loads:
  assumes "cache_inv s"
  shows "loads s (snd (checkACL_loop acls perm sid is_local s))"
  using assms
proof (induction acls perm sid is_local s rule: checkACL_loop.induct)
  case (1 permission session_id is_local s)
  then show ?case by (simp add: loads_refl)
next
  case (2 a rest permission session_id is_local s)
  let ?P = "\<lambda>au. au_scheme au = acl_scheme a \<and> au_ident au = acl_ident a"
  obtain b s1 where h: "hasACL session_id is_local ?P s = (b, s1)" by fastforce
  have l: "loads s s1" by (rule hasACL_loads [OF 2(3) h])
  show ?case
    using 2 h l loads_trans [OF l] loadsD(3) [OF l] loads_refl by simp
qed

lemma checkACL_spec:
  assumes inv: "cache_inv s" and res: "acls_resolve s"
  obtains b s' where "checkACL p perm sid False s = Inr (b, s')" "loads s s'"
    "uview s p \<noteq> None \<Longrightarrow> acl_loaded s' p"
proof -
  obtain a s1 where a: "getACLs p s = Inr (a, s1)" "loads s s1"
    "\<And>x. uview s p = Some x \<Longrightarrow> a = an_acls x \<and> acl_loaded s1 p"
    using getACLs_spec [OF assms, of p] by blast
  obtain b2 s2 where h: "hasACL sid False (\<lambda>au. au_scheme au = ''super'') s1 = (b2, s2)" by fastforce
  have l2: "loads s s2"
    using loads_trans [OF a(2) hasACL_loads [OF loadsD(3) [OF a(2)] h]] .
  have l2': "loads s1 s2" by (rule hasACL_loads [OF loadsD(3) [OF a(2)] h])
  obtain b3 s3 where c: "checkACL_loop a perm sid False s2 = (b3, s3)" by fastforce
  have l3': "loads s2 s3"
    using checkACL_loop_loads [OF loadsD(3) [OF l2], of a perm sid False] c by simp
  consider "a = []" | "a \<noteq> []" "b2" | "a \<noteq> []" "\<not> b2" by blast
  then show ?thesis
  proof cases
    case 1
    with a show ?thesis
      by (intro that [of True s1]) (auto simp: checkACL_def getNodeACLs_def)
  next
    case 2
    with a h l2 l2' show ?thesis
      by (intro that [of True s2]) (auto simp: checkACL_def getNodeACLs_def intro: loadsD)
  next
    case 3
    with a h c l2 l2' l3' show ?thesis
      by (intro that [of b3 s3])
        (auto simp: checkACL_def getNodeACLs_def intro: loads_trans loadsD(4))
  qed
qed

subsection \<open>Applying a delta\<close>

text \<open>Deltas that change whether a node exists or its ACLs.\<close>

fun structural_op :: "operation \<Rightarrow> bool" where
  "structural_op (CreateNodeDelta _ _ _) = True"
| "structural_op (RemoveNodeDelta _ _ _ _) = True"
| "structural_op (SetACLDelta _ _ _) = True"
| "structural_op _ = False"

fun remove_op :: "operation \<Rightarrow> bool" where
  "remove_op (RemoveNodeDelta _ _ _ _) = True"
| "remove_op _ = False"

lemma subtract_digest_spec:
  obtains n' g' where "subtract_digest p seen (Some n) g = Inr (Some n', g')" "g' = None \<longleftrightarrow> g = None"
    "mn_stats n' = mn_stats n" "mn_data n' = mn_data n" "mn_acl_id n' = mn_acl_id n" "node_wf n' = node_wf n"
    "\<And>a. abs_node a n' = abs_node a n"
proof (cases "g = None \<or> seen")
  case True
  then have "subtract_digest p seen (Some n) g = Inr (Some n, g)"
    by (cases g) (auto simp: subtract_digest_def)
  then show ?thesis by (rule that) simp_all
next
  case False
  then obtain x where x: "g = Some x" "\<not> seen" by auto
  then have "subtract_digest p seen (Some n) g
      = Inr (Some (snd (getDigest p n)), Some (x - fst (getDigest p n)))"
    by (simp add: subtract_digest_def split_beta)
  then show ?thesis by (rule that) (simp_all add: x)
qed

lemma entry_view_Some_iff:
  "entry_view m e = Some a \<longleftrightarrow>
     (\<exists>n. un_node e = Some n \<and> a = abs_node (entry_acls m (un_acls e) (mn_acl_id n)) n)"
  by (auto simp: entry_view_def)

lemma entry_view_applied [simp]: "entry_view m (e\<lparr>un_applied_zxids := z\<rparr>) = entry_view m e"
  by (simp add: entry_view_def)

text \<open>The visitor of \<open>applyDelta\<close> carries out the abstract operation on the entry.\<close>

lemma apply_operation_spec:
  assumes view: "entry_view m e = t p" and ok: "ok_op p op t" and p: "p \<noteq> []"
    and wf: "\<And>n. un_node e = Some n \<Longrightarrow> node_wf n"
    and acls: "remove_op op \<Longrightarrow> un_acls e \<noteq> None"
  obtains g' e' where "apply_operation p seen op g e = Inr (g', e')" "g' = None \<longleftrightarrow> g = None"
    "entry_view m e' = abs_op op (t p)" "un_applied_zxids e' = un_applied_zxids e"
    "\<forall>n'. un_node e' = Some n' \<longrightarrow> node_wf n'"
    "structural_op op \<or> un_acls e \<noteq> None \<longrightarrow> un_acls e' \<noteq> None"
    "\<forall>n'. un_node e' = Some n' \<longrightarrow> un_acls e' = None \<longrightarrow>
       (\<exists>n. un_node e = Some n \<and> mn_acl_id n = mn_acl_id n' \<and> un_acls e = None)"
    "un_node e' = None \<longrightarrow> un_acls e' \<noteq> None"
proof (cases op)
  case (CreateNodeDelta st a data)
  show ?thesis
    by (rule that [of g "e\<lparr>un_node := Some (setData data (node_copyStats st default_node)), un_acls := Some a\<rparr>"])
      (simp_all add: CreateNodeDelta apply_operation_def entry_view_def create_anode_def abs_node_def data_anode_def
         node_copyStats_def default_node_def)
next
  case (RemoveNodeDelta v st a data)
  with ok obtain x where "t p = Some x" by auto
  with view obtain n where n: "un_node e = Some n" by (auto simp: entry_view_Some_iff)
  obtain n' g' where n': "subtract_digest p seen (Some n) g = Inr (Some n', g')" "g' = None \<longleftrightarrow> g = None"
    by (rule subtract_digest_spec [of p seen n g]) (rule that)
  show ?thesis
    by (rule that [of g' "e\<lparr>un_node := None\<rparr>"])
      (use RemoveNodeDelta n n' acls in \<open>simp_all add: apply_operation_def entry_view_def\<close>)
next
  case (UpdateNodeStatDelta old new v)
  with ok obtain x where x: "t p = Some x" "ns_data_size new \<le> length (an_data x)" by auto
  with view obtain n where n: "un_node e = Some n"
    "x = abs_node (entry_acls m (un_acls e) (mn_acl_id n)) n"
    by (auto simp: entry_view_Some_iff)
  obtain n' g' where n': "subtract_digest p seen (Some n) g = Inr (Some n', g')" "g' = None \<longleftrightarrow> g = None"
    "mn_stats n' = mn_stats n" "mn_data n' = mn_data n" "mn_acl_id n' = mn_acl_id n" "node_wf n' = node_wf n"
    "\<And>a. abs_node a n' = abs_node a n"
    by (rule subtract_digest_spec [of p seen n g]) (rule that)
  let ?n = "(invalidateDigestCache n')\<lparr>mn_stats := new\<rparr>"
  have size: "node_wf (invalidateDigestCache n')" "ns_data_size new \<le> ns_data_size (mn_stats (invalidateDigestCache n'))"
    using wf [OF n(1)] x(2) n(2) n' by (simp_all add: abs_node_def length_getData)
  have abs: "abs_node a ?n = stat_anode new (abs_node a n)" for a
    using abs_node_stats(1) [OF size, of a] n' by simp
  have wf': "node_wf ?n" by (rule abs_node_stats(2) [OF size])
  show ?thesis
    by (rule that [of g' "e\<lparr>un_node := Some ?n\<rparr>"])
      (use UpdateNodeStatDelta n n' x(1) abs wf' in \<open>simp_all add: apply_operation_def entry_view_def\<close>)
next
  case (UpdateNodeDataDelta old new v)
  with ok obtain x where x: "t p = Some x" by auto
  with view obtain n where n: "un_node e = Some n"
    "x = abs_node (entry_acls m (un_acls e) (mn_acl_id n)) n"
    by (auto simp: entry_view_Some_iff)
  obtain n' g' where n': "subtract_digest p seen (Some n) g = Inr (Some n', g')" "g' = None \<longleftrightarrow> g = None"
    "mn_stats n' = mn_stats n" "mn_acl_id n' = mn_acl_id n"
    by (rule subtract_digest_spec [of p seen n g]) (rule that)
  let ?n = "setData new (invalidateDigestCache n')"
  have abs: "abs_node a ?n = data_anode new (abs_node a n)" for a
    using n' by (simp add: abs_node_def data_anode_def)
  show ?thesis
    by (rule that [of g' "e\<lparr>un_node := Some ?n\<rparr>"])
      (use UpdateNodeDataDelta n n' x(1) abs in \<open>simp_all add: apply_operation_def entry_view_def\<close>)
next
  case (SetACLDelta old new v)
  with ok obtain x where x: "t p = Some x" by auto
  with view obtain n where n: "un_node e = Some n"
    "x = abs_node (entry_acls m (un_acls e) (mn_acl_id n)) n"
    by (auto simp: entry_view_Some_iff)
  show ?thesis
    by (rule that [of g "e\<lparr>un_acls := Some new\<rparr>"])
      (use SetACLDelta n x wf in \<open>simp_all add: apply_operation_def entry_view_def abs_node_def\<close>)
qed (use ok p in simp_all)

end
