(* ===== verification/Keeper_Refine.thy ===== *)
theory Keeper_Refine
  imports Keeper_Apply
begin

section \<open>Deltas on the uncommitted state\<close>

text \<open>
  \<open>applyDelta\<close> and \<open>applyDeltas\<close> carry out the abstract updates on the uncommitted tree and never
  fail on deltas that fit it; \<open>rollbackDelta\<close> and \<open>rollback\<close> undo them.
\<close>

subsection \<open>Applying one delta\<close>

text \<open>What a step that applies a delta to the cache leaves alone.\<close>

definition keeps_cache :: "storage \<Rightarrow> storage \<Rightarrow> bool" where
  "keeps_cache s s' \<longleftrightarrow> cache_inv s'
     \<and> (\<forall>q. acl_loaded s q \<longrightarrow> acl_loaded s' q)
     \<and> (\<forall>q. applied_to s q \<subseteq> applied_to s' q)"

lemma keeps_cacheD:
  assumes "keeps_cache s s'"
  shows "cache_inv s'" "acl_loaded s q \<Longrightarrow> acl_loaded s' q" "z \<in> applied_to s q \<Longrightarrow> z \<in> applied_to s' q"
  using assms by (auto simp: keeps_cache_def)

lemma keeps_cache_trans [trans]: "keeps_cache s s' \<Longrightarrow> keeps_cache s' s'' \<Longrightarrow> keeps_cache s s''"
  unfolding keeps_cache_def by blast

lemma loads_keeps_cache: "loads s s' \<Longrightarrow> keeps_cache s s'"
  by (simp add: loads_def keeps_cache_def)

text \<open>\<open>applyDelta\<close> as one replacement of the entry, loaded first if need be.\<close>

definition entry_before :: "storage \<Rightarrow> path \<Rightarrow> uncommitted_node" where
  "entry_before s p =
     (case find_entry s p of Some e \<Rightarrow> e | None \<Rightarrow> fresh_entry (tryGetNodeFromStorage s p))"

lemma entry_before_view: "entry_view (acl_map_of s) (entry_before s p) = uview s p"
  by (simp add: entry_before_def uview_def entry_view_fresh split: option.split)

definition loaded :: "storage \<Rightarrow> path \<Rightarrow> storage" where
  "loaded s p = snd (load_entry p s)"

lemma load_entry_eq: "load_entry p s = (entry_before s p, loaded s p)"
  by (auto simp: load_entry_def entry_before_def loaded_def Let_def split: option.split)

lemma same_core_loaded [simp]: "same_core s (loaded s p)"
  by (simp add: loaded_def load_entry_def Let_def split: option.split)

lemma find_entry_loaded:
  "find_entry (loaded s p) q = (if q = p then Some (entry_before s p) else find_entry s q)"
  by (auto simp: loaded_def load_entry_def entry_before_def Let_def split: option.split)

lemma applied_before: "set (un_applied_zxids (entry_before s p)) = applied_to s p"
  by (simp add: entry_before_def applied_to_def fresh_entry_def split: option.split)

lemma entry_before_node:
  assumes "un_node (entry_before s p) = Some n"
  shows "tree_sized (uview s) \<Longrightarrow> node_wf n"
    and "cache_inv s \<Longrightarrow> un_acls (entry_before s p) = None \<Longrightarrow> \<exists>c. find_node s p = Some c \<and> mn_acl_id c = mn_acl_id n"
proof -
  assume "tree_sized (uview s)"
  moreover have "uview s p = Some (abs_node (entry_acls (acl_map_of s) (un_acls (entry_before s p)) (mn_acl_id n)) n)"
    using assms by (simp add: entry_view_def flip: entry_before_view)
  ultimately have "anode_wf (abs_node (entry_acls (acl_map_of s) (un_acls (entry_before s p)) (mn_acl_id n)) n)"
    unfolding tree_sized_def by blast
  then show "node_wf n" by simp
next
  assume "cache_inv s" "un_acls (entry_before s p) = None"
  then show "\<exists>c. find_node s p = Some c \<and> mn_acl_id c = mn_acl_id n"
    using assms cache_invD [of s p]
    by (auto simp: entry_before_def fresh_entry_def tryGetNodeFromStorage_def entry_ok_def split: option.splits)
qed

lemma acl_loaded_before: "acl_loaded s p \<Longrightarrow> un_acls (entry_before s p) \<noteq> None"
  by (auto simp: acl_loaded_def entry_before_def)

text \<open>Tracking the entry in the bucket of loaded nodes does not depend on its contents.\<close>

lemma cache_inv_replace_loaded:
  assumes inv: "cache_inv s" and ok: "entry_ok s p e" and z: "0 < z" "z \<in> set (un_applied_zxids e)"
    and keep: "applied_to s p \<subseteq> set (un_applied_zxids e)"
  shows "cache_inv ((loaded s p)\<lparr>uncommitted := (uncommitted (loaded s p))\<lparr>
           us_nodes := AList.update p e (us_nodes (uncommitted (loaded s p))),
           us_zxid_to_nodes := track_node z p (us_zxid_to_nodes (uncommitted (loaded s p)))\<rparr>\<rparr>)" (is "cache_inv ?t")
proof (cases "find_entry s p")
  case (Some e0)
  then have l: "loaded s p = s" by (simp add: loaded_def load_entry_def)
  have "cache_inv (set_entry p e s)"
    using keep by (intro cache_inv_set_entry [OF inv ok]) (simp add: applied_to_def)
  from cache_inv_track [OF this, of p e z] z show ?thesis
    by (simp add: l set_entry_def find_entry_update)
next
  case None
  then have l: "loaded s p = emplace_entry p (fresh_entry (tryGetNodeFromStorage s p)) s"
    by (simp add: loaded_def load_entry_def Let_def)
  have "cache_inv (emplace_entry p e s)"
    by (rule cache_inv_emplace [OF inv None ok])
  from cache_inv_track [OF this, of p e z] z show ?thesis
    by (simp add: l emplace_entry_def find_entry_update alist_update_update)
qed

lemma applyDelta_spec:
  assumes inv: "cache_inv s" and wf: "tree_sized (uview s)" and ok: "ok_delta d (uview s)"
    and p: "delta_path d \<noteq> []" and z: "0 < delta_zxid d"
    and acls: "remove_op (delta_operation d) \<Longrightarrow> acl_loaded s (delta_path d)"
  obtains g' s' where "applyDelta d (g, s) = Inr (g', s')" "g' = None \<longleftrightarrow> g = None" "same_core s s'"
    "uview s' = abs_delta d (uview s)" "keeps_cache s s'" "delta_zxid d \<in> applied_to s' (delta_path d)"
    "structural_op (delta_operation d) \<Longrightarrow> acl_loaded s' (delta_path d)"
proof -
  let ?p = "delta_path d" and ?z = "delta_zxid d" and ?l = "loaded s (delta_path d)"
  define seen where "seen \<longleftrightarrow> ?p \<in> set (bucket (map_of (us_zxid_to_nodes (uncommitted ?l))) ?z)"
  obtain g' e' where e': "apply_operation ?p seen (delta_operation d) g (entry_before s ?p) = Inr (g', e')" "g' = None \<longleftrightarrow> g = None"
    "entry_view (acl_map_of s) e' = abs_op (delta_operation d) (uview s ?p)"
    "un_applied_zxids e' = un_applied_zxids (entry_before s ?p)"
    "\<forall>n'. un_node e' = Some n' \<longrightarrow> node_wf n'"
    "structural_op (delta_operation d) \<or> un_acls (entry_before s ?p) \<noteq> None \<longrightarrow> un_acls e' \<noteq> None"
    "\<forall>n'. un_node e' = Some n' \<longrightarrow> un_acls e' = None \<longrightarrow>
       (\<exists>n. un_node (entry_before s ?p) = Some n \<and> mn_acl_id n = mn_acl_id n' \<and> un_acls (entry_before s ?p) = None)"
    "un_node e' = None \<longrightarrow> un_acls e' \<noteq> None"
    by (rule apply_operation_spec [where seen = seen and g = g, OF entry_before_view ok [unfolded ok_delta_def] p
          entry_before_node(1) [OF _ wf] acl_loaded_before [OF acls]])
  let ?e = "e'\<lparr>un_applied_zxids := uset_insert ?z (un_applied_zxids e')\<rparr>"
  define t where "t = ?l\<lparr>uncommitted := (uncommitted ?l)\<lparr>us_nodes := AList.update ?p ?e (us_nodes (uncommitted ?l)),
       us_zxid_to_nodes := track_node ?z ?p (us_zxid_to_nodes (uncommitted ?l))\<rparr>\<rparr>"
  have run: "applyDelta d (g, s) = Inr (g', t)"
    using e'(1) by (simp add: applyDelta_def load_entry_eq Let_def seen_def [symmetric] t_def)
  have eok: "entry_ok s ?p ?e"
    using e'(5,7,8) entry_before_node(2) [OF _ inv, of ?p]
    by (cases "un_node e'") (fastforce simp: entry_ok_def)+
  have core: "same_core s t"
    unfolding t_def by (rule same_core_trans [OF same_core_loaded same_core_update(1)])
  have find: "find_entry t q = (if q = ?p then Some ?e else find_entry s q)" for q
    by (simp add: t_def find_entry_update find_entry_loaded)
  have applied: "set (un_applied_zxids ?e) = insert ?z (applied_to s ?p)"
    using e'(4) by (simp add: applied_before)
  have view: "uview t = abs_delta d (uview s)"
  proof
    fix q
    show "uview t q = abs_delta d (uview s) q"
    proof (cases "q = ?p")
      case True
      then show ?thesis
        using find [of q] e'(3) same_coreD(2) [OF core] by (simp add: uview_present abs_delta_def)
    next
      case False
      then show ?thesis
        using find [of q] same_coreD(2) [OF core] same_core_views(2) [OF core]
        by (simp add: uview_def abs_delta_def split: option.split)
    qed
  qed
  have cache: "cache_inv t"
    unfolding t_def by (rule cache_inv_replace_loaded [OF inv eok z]) (use applied in auto)
  have "acl_loaded t q" if "acl_loaded s q" for q
    using that acl_loaded_before [of s ?p] e'(6) by (cases "q = ?p") (auto simp: acl_loaded_def find)
  moreover have "applied_to t q = (if q = ?p then insert ?z (applied_to s ?p) else applied_to s q)" for q
    using applied by (simp add: applied_to_def find)
  moreover have "acl_loaded t ?p" if "structural_op (delta_operation d)"
    using that e'(6) by (simp add: acl_loaded_def find)
  ultimately show thesis
    using run core view cache e'(2) by (intro that [of g' t]) (auto simp: keeps_cache_def)
qed

subsection \<open>Applying a list of deltas\<close>

lemma anode_wf_intros:
  "anode_wf (create_anode st acls data)" "anode_wf (data_anode data a)"
  "ns_data_size new \<le> length (an_data a) \<Longrightarrow> anode_wf (stat_anode new a)"
  "anode_wf a \<Longrightarrow> anode_wf (a\<lparr>an_acls := acls\<rparr>)"
  by (simp_all add: anode_wf_def create_anode_def data_anode_def stat_anode_def)

lemma tree_sized_abs_delta:
  assumes "tree_sized t" "ok_delta d t"
  shows "tree_sized (abs_delta d t)"
  using assms
  by (cases "delta_operation d")
    (auto simp: tree_sized_def abs_delta_def ok_delta_def intro: anode_wf_intros split: if_splits)

lemma tree_sized_abs_deltas: "tree_sized t \<Longrightarrow> ok_deltas ds t \<Longrightarrow> tree_sized (abs_deltas ds t)"
  by (induction ds arbitrary: t) (simp_all add: tree_sized_abs_delta)

text \<open>
  The parts of the storage that no uncommitted change touches: everything but the cache, the
  uncommitted authentications and the closed sessions, up to empty lists of authentications.
\<close>

definition base :: "storage \<Rightarrow> storage" where
  "base s = (core s)\<lparr>uncommitted := (uncommitted (core s))\<lparr>us_session_and_auth := Map.empty, us_closed_sessions := []\<rparr>\<rparr>"

definition same_base :: "storage \<Rightarrow> storage \<Rightarrow> bool" where
  "same_base s s' \<longleftrightarrow> base s' = base s
     \<and> bucket (committed_session_and_auth s') = bucket (committed_session_and_auth s)"

lemma same_base_refl [intro, simp]: "same_base s s"
  by (simp add: same_base_def)

lemma same_base_trans [trans]: "same_base s s' \<Longrightarrow> same_base s' s'' \<Longrightarrow> same_base s s''"
  by (simp add: same_base_def)

lemma same_core_base: "same_core s s' \<Longrightarrow> same_base s s'"
  by (simp add: same_base_def same_core_def base_def)

lemma base_fields:
  "container (base s) = container s" "acl_map_of (base s) = acl_map_of s"
  "committed_zxid (base s) = committed_zxid s" "nodes_digest (base s) = nodes_digest s"
  "committed_ephemerals (base s) = committed_ephemerals s"
  "committed_ephemeral_nodes (base s) = committed_ephemeral_nodes s"
  "uncommitted_transactions (base s) = uncommitted_transactions s"
  "us_deltas (uncommitted (base s)) = us_deltas (uncommitted s)"
  "us_ephemerals (uncommitted (base s)) = us_ephemerals (uncommitted s)"
  "us_next_auth (uncommitted (base s)) = us_next_auth (uncommitted s)"
  "initialized (base s) = initialized s" "superdigest (base s) = superdigest s"
  by (simp_all add: base_def core_def)

lemma same_baseD:
  assumes "same_base s s'"
  shows "container s' = container s" "acl_map_of s' = acl_map_of s"
    "committed_zxid s' = committed_zxid s" "nodes_digest s' = nodes_digest s"
    "committed_ephemerals s' = committed_ephemerals s"
    "committed_ephemeral_nodes s' = committed_ephemeral_nodes s"
    "bucket (committed_session_and_auth s') = bucket (committed_session_and_auth s)"
    "uncommitted_transactions s' = uncommitted_transactions s"
    "us_deltas (uncommitted s') = us_deltas (uncommitted s)"
    "us_ephemerals (uncommitted s') = us_ephemerals (uncommitted s)"
    "us_next_auth (uncommitted s') = us_next_auth (uncommitted s)"
    "initialized s' = initialized s" "superdigest s' = superdigest s"
  using base_fields [of s] base_fields [of s'] assms by (simp_all add: same_base_def)

lemma same_base_views:
  assumes "same_base s s'"
  shows "find_node s' p = find_node s p" "cview s' = cview s"
  by (simp_all add: find_node_def cview_def fun_eq_iff same_baseD [OF assms])

text \<open>The uncommitted authentications that a list of deltas leaves behind for a session.\<close>

fun auth_of :: "int \<Rightarrow> delta \<Rightarrow> (int \<times> nat \<times> auth_id) list" where
  "auth_of sid (Delta p z (AddAuthDelta sid' ptr auth)) = (if p = [] \<and> sid' = sid then [(z, ptr, auth)] else [])"
| "auth_of sid _ = []"

definition auths_of :: "int \<Rightarrow> delta list \<Rightarrow> (int \<times> nat \<times> auth_id) list" where
  "auths_of sid ds = concat (map (auth_of sid) ds)"

lemma auths_of_simps [simp]:
  "auths_of sid [] = []"
  "auths_of sid (d # ds) = auth_of sid d @ auths_of sid ds"
  "auths_of sid (xs @ ys) = auths_of sid xs @ auths_of sid ys"
  by (simp_all add: auths_of_def)

abbreviation uauths :: "storage \<Rightarrow> int \<Rightarrow> (int \<times> nat \<times> auth_id) list" where
  "uauths s \<equiv> bucket (us_session_and_auth (uncommitted s))"

lemma same_core_uauths: "same_core s s' \<Longrightarrow> uauths s' = uauths s"
  by (simp add: same_coreD)

text \<open>A step that touches neither the cache nor the container.\<close>

lemma cache_frame:
  assumes "us_nodes (uncommitted s') = us_nodes (uncommitted s)"
    "us_zxid_to_nodes (uncommitted s') = us_zxid_to_nodes (uncommitted s)"
    "container s' = container s" "acl_map_of s' = acl_map_of s"
  shows "find_entry s' q = find_entry s q" "uview s' = uview s" "cache_inv s' = cache_inv s"
    "acl_loaded s' q = acl_loaded s q" "applied_to s' q = applied_to s q" "find_node s' q = find_node s q"
proof -
  have e: "find_entry s' = find_entry s" "find_node s' = find_node s"
    using assms by (simp_all add: find_entry_def find_node_def fun_eq_iff)
  then show "find_entry s' q = find_entry s q" "find_node s' q = find_node s q"
    "acl_loaded s' q = acl_loaded s q" "applied_to s' q = applied_to s q"
    by (simp_all add: acl_loaded_def applied_to_def)
  show "uview s' = uview s"
    unfolding uview_def cview_def e assms ..
  show "cache_inv s' = cache_inv s"
    unfolding cache_inv_def tracking_ok_def entry_ok_def e assms ..
qed

text \<open>The effect of deltas on the uncommitted state.\<close>

definition applied :: "delta list \<Rightarrow> storage \<Rightarrow> storage \<Rightarrow> bool" where
  "applied ds s s' \<longleftrightarrow> same_base s s' \<and> uview s' = abs_deltas ds (uview s) \<and> keeps_cache s s'
     \<and> (\<forall>d\<in>set ds. delta_path d \<noteq> [] \<longrightarrow> delta_zxid d \<in> applied_to s' (delta_path d))
     \<and> (\<forall>d\<in>set ds. structural_op (delta_operation d) \<longrightarrow> acl_loaded s' (delta_path d))
     \<and> (\<forall>sid. uauths s' sid = uauths s sid @ auths_of sid ds)"

lemma keeps_cache_refl: "cache_inv s \<Longrightarrow> keeps_cache s s"
  by (simp add: keeps_cache_def)

lemma applied_Nil: "cache_inv s \<Longrightarrow> applied [] s s"
  by (simp add: applied_def keeps_cache_refl)

lemma applied_append:
  assumes "applied xs s s1" "applied ys s1 s2"
  shows "applied (xs @ ys) s s2"
  using assms unfolding applied_def
  by (auto dest: keeps_cacheD(2,3) intro: same_base_trans keeps_cache_trans)

lemma appliedD:
  assumes "applied ds s s'"
  shows "same_base s s'" "uview s' = abs_deltas ds (uview s)" "keeps_cache s s'" "cache_inv s'"
    "d \<in> set ds \<Longrightarrow> delta_path d \<noteq> [] \<Longrightarrow> delta_zxid d \<in> applied_to s' (delta_path d)"
    "d \<in> set ds \<Longrightarrow> structural_op (delta_operation d) \<Longrightarrow> acl_loaded s' (delta_path d)"
    "uauths s' sid = uauths s sid @ auths_of sid ds"
  using assms by (auto simp: applied_def dest: keeps_cacheD(1))

text \<open>Deltas that can be applied: they fit the tree and a removed node has its ACLs loaded.\<close>

definition applicable :: "delta list \<Rightarrow> storage \<Rightarrow> bool" where
  "applicable ds s \<longleftrightarrow> cache_inv s \<and> tree_sized (uview s) \<and> ok_deltas ds (uview s)
     \<and> (\<forall>d\<in>set ds. 0 < delta_zxid d \<and> (remove_op (delta_operation d) \<longrightarrow> acl_loaded s (delta_path d)))"

lemma auth_of_path: "delta_path d \<noteq> [] \<Longrightarrow> auth_of sid d = []"
  by (cases d; cases "delta_operation d") auto

lemma applyDeltas_step_spec:
  assumes "applicable [d] s"
  obtains g' s' where "applyDeltas_step d (g, s) = Inr (g', s')" "g' = None \<longleftrightarrow> g = None" "applied [d] s s'"
proof (cases "delta_path d = []")
  case False
  have d: "cache_inv s" "tree_sized (uview s)" "ok_delta d (uview s)" "0 < delta_zxid d"
    "remove_op (delta_operation d) \<Longrightarrow> acl_loaded s (delta_path d)"
    using assms by (simp_all add: applicable_def)
  obtain g' s' where s': "applyDelta d (g, s) = Inr (g', s')" "g' = None \<longleftrightarrow> g = None" "same_core s s'"
    "uview s' = abs_delta d (uview s)" "keeps_cache s s'" "delta_zxid d \<in> applied_to s' (delta_path d)"
    "structural_op (delta_operation d) \<longrightarrow> acl_loaded s' (delta_path d)"
    using applyDelta_spec [OF d(1-3) False d(4,5), of g] by blast
  then show ?thesis
    using that [of g' s'] False
    by (simp add: applyDeltas_step_def applied_def same_core_base same_core_uauths auth_of_path)
next
  case True
  have d: "cache_inv s" "ok_delta d (uview s)"
    using assms by (simp_all add: applicable_def)
  have view: "abs_delta d (uview s) = uview s"
    by (rule abs_delta_no_path [OF d(2) True])
  have no_op: "\<not> structural_op (delta_operation d)"
    using d(2) True by (cases "delta_operation d") (simp_all add: ok_delta_def)
  let ?s = "snd (projr (applyDeltas_step d (g, s)))"
  have frame: "us_nodes (uncommitted ?s) = us_nodes (uncommitted s)"
    "us_zxid_to_nodes (uncommitted ?s) = us_zxid_to_nodes (uncommitted s)"
    "container ?s = container s" "acl_map_of ?s = acl_map_of s" "same_base s ?s"
    "applyDeltas_step d (g, s) = Inr (g, ?s)" "\<forall>sid. uauths ?s sid = uauths s sid @ auth_of sid d"
    using True by (cases d; cases "delta_operation d";
        simp add: applyDeltas_step_def same_base_def base_def core_def bucket_def)+
  show ?thesis
    by (rule that [OF frame(6)])
      (use d(1) frame(5,7) True no_op view cache_frame [OF frame(1-4)] in
        \<open>simp_all add: applied_def keeps_cache_def\<close>)
qed

lemma applicable_Cons:
  assumes "applicable (d # ds) s" "applied [d] s s'"
  shows "applicable ds s'"
  using assms appliedD [OF assms(2)]
  by (auto simp: applicable_def keeps_cacheD tree_sized_abs_delta)

lemma applyDeltas_spec:
  assumes "applicable ds s"
  obtains g' s' where "applyDeltas ds (g, s) = Inr (g', s')" "g' = None \<longleftrightarrow> g = None" "applied ds s s'"
  using assms
proof (induction ds arbitrary: g s thesis)
  case Nil
  then show ?case by (simp add: applyDeltas_def applied_Nil applicable_def)
next
  case (Cons d ds)
  have "applicable [d] s" using Cons.prems(2) by (simp add: applicable_def)
  then obtain g1 s1 where d: "applyDeltas_step d (g, s) = Inr (g1, s1)" "g1 = None \<longleftrightarrow> g = None" "applied [d] s s1"
    by (rule applyDeltas_step_spec)
  obtain g2 s2 where ds: "applyDeltas ds (g1, s1) = Inr (g2, s2)" "g2 = None \<longleftrightarrow> g1 = None" "applied ds s1 s2"
    by (rule Cons.IH [OF _ applicable_Cons [OF Cons.prems(2) d(3)]])
  show ?case
    by (rule Cons.prems(1) [of g2 s2])
      (use d ds applied_append [OF d(3) ds(3)] in \<open>simp_all add: applyDeltas_def\<close>)
qed

end
