(* ===== verification/Keeper_Rollback.thy ===== *)
theory Keeper_Rollback
  imports Keeper_Refine "HOL-Library.Sublist"
begin

section \<open>Rolling back deltas\<close>

text \<open>
  \<open>rollbackDelta\<close> restores statistics before it restores data, so between two deltas a node may
  promise more data than the abstract tree has. The relation \<open>shows_tree\<close> allows this: the data of
  the abstract node is a prefix of the buffer, and it is all the data once the recorded size fits.
\<close>

subsection \<open>Trees shown by the cache\<close>

definition shows_node :: "acls \<Rightarrow> mem_node \<Rightarrow> anode \<Rightarrow> bool" where
  "shows_node acls n a \<longleftrightarrow> an_stats a = mn_stats n \<and> prefix (an_data a) (mn_data n) \<and> an_acls a = acls"

definition shows_entry :: "acl_map \<Rightarrow> uncommitted_node \<Rightarrow> anode option \<Rightarrow> bool" where
  "shows_entry m e x \<longleftrightarrow>
     (un_node e = None \<longleftrightarrow> x = None)
     \<and> (\<forall>n a. un_node e = Some n \<longrightarrow> x = Some a \<longrightarrow> shows_node (entry_acls m (un_acls e) (mn_acl_id n)) n a)"

definition shows_tree :: "storage \<Rightarrow> tree \<Rightarrow> bool" where
  "shows_tree s t \<longleftrightarrow>
     (\<forall>p. case find_entry s p of None \<Rightarrow> t p = cview s p | Some e \<Rightarrow> shows_entry (acl_map_of s) e (t p))"

lemma shows_treeD:
  "shows_tree s t \<Longrightarrow> find_entry s p = Some e \<Longrightarrow> shows_entry (acl_map_of s) e (t p)"
  "shows_tree s t \<Longrightarrow> find_entry s p = None \<Longrightarrow> t p = cview s p"
  by (auto simp: shows_tree_def dest: spec [of _ p])

lemma shows_node_abs: "shows_node a n (abs_node a n)"
  by (simp add: shows_node_def abs_node_def getData_def take_is_prefix)

lemma shows_tree_uview: "shows_tree s (uview s)"
  by (auto simp: shows_tree_def shows_entry_def uview_def entry_view_def shows_node_abs split: option.split)

lemma shows_node_sized: "shows_node a n x \<Longrightarrow> anode_wf x \<Longrightarrow> abs_node a n = x"
  by (auto simp: shows_node_def anode_wf_def abs_node_def getData_def prefix_def intro: anode.equality)

lemma uview_shows_tree:
  assumes "shows_tree s t" "tree_sized t"
  shows "uview s = t"
proof
  fix p
  show "uview s p = t p"
  proof (cases "find_entry s p")
    case None
    then show ?thesis using shows_treeD(2) [OF assms(1)] by (simp add: uview_def)
  next
    case (Some e)
    note e = shows_treeD(1) [OF assms(1) Some]
    show ?thesis
      using e assms(2) shows_node_sized
      by (cases "un_node e"; cases "t p")
        (auto simp: uview_present [OF Some] shows_entry_def entry_view_def tree_sized_def)
  qed
qed

subsection \<open>One delta\<close>

fun update_op :: "operation \<Rightarrow> bool" where
  "update_op (UpdateNodeStatDelta _ _ _) = True"
| "update_op (UpdateNodeDataDelta _ _ _) = True"
| "update_op _ = False"

fun create_op :: "operation \<Rightarrow> bool" where
  "create_op (CreateNodeDelta _ _ _) = True"
| "create_op _ = False"

lemma shows_stat_undo:
  assumes "shows_node a n x"
  shows "shows_node a ((invalidateDigestCache n)\<lparr>mn_stats := old\<rparr>) (stat_anode old x)"
  using assms prefix_order.order_trans [OF take_is_prefix]
  by (auto simp: shows_node_def stat_anode_def invalidateDigestCache_def)

lemma shows_data_undo:
  assumes "an_stats x = mn_stats n" "an_acls x = a"
  shows "shows_node a (setData old n) (data_anode old x)"
  using assms by (auto simp: shows_node_def data_anode_def setData_def Let_def)

lemma rollback_operation_spec:
  assumes e: "shows_entry m e x" and upd: "update_op op \<Longrightarrow> x \<noteq> None"
  obtains e' where "rollback_operation op e = Inr e'" "shows_entry m e' (undo_op op x)"
    "un_applied_zxids e' = un_applied_zxids e" "un_acls e \<noteq> None \<longrightarrow> un_acls e' \<noteq> None"
    "un_acls e' = None \<longrightarrow> map_option mn_acl_id (un_node e') = map_option mn_acl_id (un_node e) \<or> create_op op"
proof (cases op)
  case (CreateNodeDelta st a data)
  then show ?thesis
    by (intro that [of "e\<lparr>un_node := None\<rparr>"]) (simp_all add: rollback_operation_def shows_entry_def)
next
  case (RemoveNodeDelta v st a data)
  then show ?thesis
    by (intro that [of "e\<lparr>un_node := Some (setData data (default_node\<lparr>mn_stats := st\<rparr>)), un_acls := Some a\<rparr>"])
      (simp_all add: rollback_operation_def shows_entry_def shows_data_undo)
next
  case (UpdateNodeStatDelta old new v)
  then obtain n a where "un_node e = Some n" "x = Some a" "shows_node (entry_acls m (un_acls e) (mn_acl_id n)) n a"
    using e upd by (cases "un_node e"; cases x) (auto simp: shows_entry_def)
  with UpdateNodeStatDelta shows_stat_undo show ?thesis
    by (intro that [of "e\<lparr>un_node := Some ((invalidateDigestCache n)\<lparr>mn_stats := old\<rparr>)\<rparr>"])
      (simp_all add: rollback_operation_def shows_entry_def)
next
  case (UpdateNodeDataDelta old new v)
  then obtain n a where n: "un_node e = Some n" "x = Some a"
    "an_stats a = mn_stats (invalidateDigestCache n)" "an_acls a = entry_acls m (un_acls e) (mn_acl_id n)"
    using e upd by (cases "un_node e"; cases x) (auto simp: shows_entry_def shows_node_def)
  with UpdateNodeDataDelta shows_data_undo [OF n(3,4)] show ?thesis
    by (intro that [of "e\<lparr>un_node := Some (setData old (invalidateDigestCache n))\<rparr>"])
      (simp_all add: rollback_operation_def shows_entry_def)
next
  case (SetACLDelta old new v)
  with e show ?thesis
    by (intro that [of "e\<lparr>un_acls := Some old\<rparr>"])
      (auto simp: rollback_operation_def shows_entry_def shows_node_def)
qed (use e that in \<open>auto simp: rollback_operation_def\<close>)

lemma tracking_ok_drop:
  assumes "tracking_ok u" "map_of (us_nodes u) p = Some e0"
    and "set (un_applied_zxids e0) - {z} \<subseteq> set (un_applied_zxids e)"
  shows "tracking_ok (u\<lparr>us_nodes := AList.update p e (us_nodes u), us_zxid_to_nodes := omap_erase z (us_zxid_to_nodes u)\<rparr>)"
proof -
  have bucket: "set (bucket (map_of (omap_erase z (us_zxid_to_nodes u))) z')
      = (if z' = z then {} else set (bucket (map_of (us_zxid_to_nodes u)) z'))" for z'
    using assms(1) by (simp add: tracking_ok_def bucket_def map_of_omap_erase)
  show ?thesis
    using assms unfolding tracking_ok_def
    by (simp add: bucket omap_wf_erase list_all_omap_erase map_of_alist_update) fastforce
qed

text \<open>The state outside the cache that a rollback may change: the uncommitted bookkeeping.\<close>

definition same_committed :: "storage \<Rightarrow> storage \<Rightarrow> bool" where
  "same_committed s s' \<longleftrightarrow> s'\<lparr>uncommitted := uncommitted s\<rparr> = s
     \<and> us_deltas (uncommitted s') = us_deltas (uncommitted s) \<and> us_next_auth (uncommitted s') = us_next_auth (uncommitted s)"

lemma same_committed_refl [simp]: "same_committed s s"
  by (simp add: same_committed_def)

lemma same_committed_trans [trans]: "same_committed s s' \<Longrightarrow> same_committed s' s'' \<Longrightarrow> same_committed s s''"
proof -
  assume a: "same_committed s s'" "same_committed s' s''"
  have "s''\<lparr>uncommitted := uncommitted s\<rparr> = (s''\<lparr>uncommitted := uncommitted s'\<rparr>)\<lparr>uncommitted := uncommitted s\<rparr>" by simp
  with a show ?thesis by (simp add: same_committed_def)
qed

lemma same_committedD:
  assumes "same_committed s s'"
  shows "container s' = container s" "acl_map_of s' = acl_map_of s" "committed_zxid s' = committed_zxid s"
    "us_deltas (uncommitted s') = us_deltas (uncommitted s)" "us_next_auth (uncommitted s') = us_next_auth (uncommitted s)"
proof -
  have s: "s = s'\<lparr>uncommitted := uncommitted s\<rparr>" using assms by (simp add: same_committed_def)
  show "container s' = container s" "acl_map_of s' = acl_map_of s" "committed_zxid s' = committed_zxid s"
    by (subst s, simp)+
qed (use assms in \<open>simp_all add: same_committed_def\<close>)

text \<open>What rolling back leaves of the cache.\<close>

definition rolled :: "storage \<Rightarrow> storage \<Rightarrow> bool" where
  "rolled s s' \<longleftrightarrow> cache_inv s' \<and> container s' = container s \<and> acl_map_of s' = acl_map_of s
     \<and> (\<forall>q. find_entry s q \<noteq> None \<longrightarrow> find_entry s' q \<noteq> None)
     \<and> (\<forall>q. acl_loaded s q \<longrightarrow> acl_loaded s' q)"

lemma rolled_refl: "cache_inv s \<Longrightarrow> rolled s s"
  by (simp add: rolled_def)

lemma rolled_trans [trans]: "rolled s s' \<Longrightarrow> rolled s' s'' \<Longrightarrow> rolled s s''"
  unfolding rolled_def by simp

lemma rolledD:
  assumes "rolled s s'"
  shows "cache_inv s'" "find_entry s q \<noteq> None \<Longrightarrow> find_entry s' q \<noteq> None" "acl_loaded s q \<Longrightarrow> acl_loaded s' q"
  using assms by (simp_all add: rolled_def)

lemma rollbackDelta_spec:
  assumes inv: "cache_inv s" and t: "shows_tree s t" and entry: "find_entry s (delta_path d) \<noteq> None"
    and upd: "update_op (delta_operation d) \<Longrightarrow> t (delta_path d) \<noteq> None"
    and acls: "create_op (delta_operation d) \<Longrightarrow> acl_loaded s (delta_path d)"
  obtains s' where "rollbackDelta d s = Inr s'" "same_core s s'" "same_committed s s'" "shows_tree s' (undo_delta d t)" "rolled s s'"
    "\<forall>q. applied_to s' q = applied_to s q - (if q = delta_path d then {delta_zxid d} else {})"
proof -
  let ?p = "delta_path d" and ?z = "delta_zxid d"
  obtain e where e: "find_entry s ?p = Some e" using entry by auto
  obtain e' where e': "rollback_operation (delta_operation d) e = Inr e'"
    "shows_entry (acl_map_of s) e' (undo_op (delta_operation d) (t ?p))"
    "un_applied_zxids e' = un_applied_zxids e" "un_acls e \<noteq> None \<longrightarrow> un_acls e' \<noteq> None"
    "un_acls e' = None \<longrightarrow> map_option mn_acl_id (un_node e') = map_option mn_acl_id (un_node e) \<or> create_op (delta_operation d)"
    by (rule rollback_operation_spec [OF shows_treeD(1) [OF t e] upd])
  let ?e = "e'\<lparr>un_applied_zxids := uset_erase ?z (un_applied_zxids e')\<rparr>"
  define s' where "s' = s\<lparr>uncommitted := (uncommitted s)\<lparr>us_nodes := AList.update ?p ?e (us_nodes (uncommitted s)),
       us_zxid_to_nodes := omap_erase ?z (us_zxid_to_nodes (uncommitted s))\<rparr>\<rparr>"
  have run: "rollbackDelta d s = Inr s'"
    using e e'(1) by (simp add: rollbackDelta_def s'_def)
  have core: "same_core s s'" by (simp add: s'_def)
  have find: "find_entry s' q = (if q = ?p then Some ?e else find_entry s q)" for q
    by (simp add: s'_def find_entry_update)
  have ok: "entry_ok s ?p ?e"
    using e'(4,5) cache_invD [OF inv e] acls e
    by (auto simp: entry_ok_def acl_loaded_def split: option.splits)
  have "tracking_ok (uncommitted s')"
    unfolding s'_def using inv e e'(3)
    by (simp add: cache_inv_def find_entry_def) (rule tracking_ok_drop, auto)
  then have cache: "cache_inv s'"
    using inv ok find entry_ok_same_core [OF core]
    by (simp add: cache_inv_def s'_def distinct_alist_update)
  have tree: "shows_tree s' (undo_delta d t)"
    unfolding shows_tree_def
  proof
    fix q
    show "case find_entry s' q of None \<Rightarrow> undo_delta d t q = cview s' q
        | Some e \<Rightarrow> shows_entry (acl_map_of s') e (undo_delta d t q)"
      using e'(2) shows_treeD [OF t, of q] same_coreD(2) [OF core] same_core_views(2) [OF core]
      by (cases "q = ?p") (auto simp: find undo_delta_def shows_entry_def split: option.split)
  qed
  have "applied_to s' q = applied_to s q - (if q = ?p then {?z} else {})" for q
    using e e'(3) by (simp add: applied_to_def find)
  moreover have "rolled s s'"
    using cache e e'(4) same_coreD(1,2) [OF core] by (auto simp: rolled_def find acl_loaded_def)
  ultimately show ?thesis
    using that [OF run core _ tree] by (simp add: s'_def same_committed_def)
qed

subsection \<open>A list of deltas\<close>

text \<open>Deltas from the newest to the oldest that can be undone one after the other.\<close>

definition undo_ok :: "delta \<Rightarrow> tree \<Rightarrow> bool" where
  "undo_ok d t \<longleftrightarrow> (update_op (delta_operation d) \<longrightarrow> t (delta_path d) \<noteq> None)"

fun undoable :: "delta list \<Rightarrow> tree \<Rightarrow> bool" where
  "undoable [] t = True"
| "undoable (d # ds) t \<longleftrightarrow> undo_ok d t \<and> undoable ds (undo_delta d t)"

definition undo_deltas :: "delta list \<Rightarrow> tree \<Rightarrow> tree" where
  "undo_deltas = fold undo_delta"

lemma undo_deltas_simps [simp]:
  "undo_deltas [] t = t"
  "undo_deltas (d # ds) t = undo_deltas ds (undo_delta d t)"
  "undo_deltas (xs @ ys) t = undo_deltas ys (undo_deltas xs t)"
  by (simp_all add: undo_deltas_def)

lemma dom_undo_delta: "dom t = dom t' \<Longrightarrow> dom (undo_delta d t) = dom (undo_delta d t')"
  by (cases "delta_operation d") (auto simp: undo_delta_def dom_def set_eq_iff)

lemma undoable_dom: "dom t = dom t' \<Longrightarrow> undoable ds t \<longleftrightarrow> undoable ds t'"
proof (induction ds arbitrary: t t')
  case (Cons d ds)
  then show ?case
    using dom_undo_delta [OF Cons.prems, of d] by (auto simp: undo_ok_def domIff set_eq_iff)
qed simp

lemma dom_undo_abs: "ok_delta d t \<Longrightarrow> dom (undo_delta d (abs_delta d t)) = dom t"
  by (cases "delta_operation d") (auto simp: undo_delta_def abs_delta_def ok_delta_def dom_def)

lemma undo_ok_abs: "ok_delta d t \<Longrightarrow> undo_ok d (abs_delta d t)"
  by (cases "delta_operation d") (auto simp: undo_ok_def abs_delta_def ok_delta_def)

lemma undoable_applied: "ok_deltas ds t \<Longrightarrow> undoable (rev ds) (abs_deltas ds t)"
proof (induction ds rule: rev_induct)
  case (snoc d ds)
  then have ds: "ok_deltas ds t" "ok_delta d (abs_deltas ds t)"
    by (simp_all add: ok_deltas_append)
  from snoc.IH [OF ds(1)] undoable_dom [OF dom_undo_abs [OF ds(2)]] undo_ok_abs [OF ds(2)]
  show ?case by simp
qed simp

text \<open>
  Undoing in reverse order gives the tree back. Each handler produces deltas with this property;
  it composes.
\<close>

definition reverts :: "delta list \<Rightarrow> tree \<Rightarrow> bool" where
  "reverts ds t \<longleftrightarrow> undo_deltas (rev ds) (abs_deltas ds t) = t"

lemma reverts_Nil [simp]: "reverts [] t"
  by (simp add: reverts_def)

lemma reverts_append: "reverts xs t \<Longrightarrow> reverts ys (abs_deltas xs t) \<Longrightarrow> reverts (xs @ ys) t"
  by (simp add: reverts_def)

text \<open>Identities of the uncommitted authentications: transaction and object.\<close>

abbreviation auth_keys :: "(int \<times> nat \<times> auth_id) list \<Rightarrow> (int \<times> nat) list" where
  "auth_keys \<equiv> map (\<lambda>a. (fst a, fst (snd a)))"

definition auths_end :: "delta list \<Rightarrow> storage \<Rightarrow> bool" where
  "auths_end ds s \<longleftrightarrow> (\<forall>sid. \<exists>older. auth_keys (uauths s sid) = older @ auth_keys (auths_of sid ds))"

text \<open>The state from which deltas, listed oldest first, can be rolled back; \<open>pre\<close> are older deltas.\<close>

definition rollbackable :: "delta list \<Rightarrow> delta list \<Rightarrow> storage \<Rightarrow> tree \<Rightarrow> bool" where
  "rollbackable pre ds s t \<longleftrightarrow> cache_inv s \<and> shows_tree s t \<and> undoable (rev ds) t \<and> auths_end (pre @ ds) s
     \<and> (\<forall>d\<in>set ds. (delta_path d \<noteq> [] \<longrightarrow> find_entry s (delta_path d) \<noteq> None)
          \<and> (delta_path d = [] \<longrightarrow> undo_delta d = id)
          \<and> (create_op (delta_operation d) \<longrightarrow> acl_loaded s (delta_path d)))"

lemma rollback_ephemerals_frame:
  obtains eph where "rollback_ephemerals d s = Inr (s\<lparr>uncommitted := (uncommitted s)\<lparr>us_ephemerals := eph\<rparr>\<rparr>)"
proof (cases "delta_operation d")
  case (CreateNodeDelta st a data)
  then show ?thesis
    using that [of "us_ephemerals (uncommitted s)"] that
    by (fastforce simp: rollback_ephemerals_def unregisterEphemeralPath_def Let_def split: option.splits if_splits)
next
  case (RemoveNodeDelta v st a data)
  then show ?thesis
    using that [of "us_ephemerals (uncommitted s)"] that
    by (cases "ephemeralOwner st = 0") (auto simp: rollback_ephemerals_def)
qed (use that [of "us_ephemerals (uncommitted s)"] in \<open>simp_all add: rollback_ephemerals_def\<close>)

lemma shows_tree_frame:
  assumes "us_nodes (uncommitted s') = us_nodes (uncommitted s)" "container s' = container s" "acl_map_of s' = acl_map_of s"
  shows "shows_tree s' t = shows_tree s t"
proof -
  have e: "find_entry s' = find_entry s" "find_node s' = find_node s"
    using assms by (simp_all add: find_entry_def find_node_def fun_eq_iff)
  show ?thesis
    unfolding shows_tree_def cview_def e assms ..
qed

lemma rolled_frame:
  assumes "cache_inv s" "us_nodes (uncommitted s') = us_nodes (uncommitted s)"
    "us_zxid_to_nodes (uncommitted s') = us_zxid_to_nodes (uncommitted s)"
    "container s' = container s" "acl_map_of s' = acl_map_of s"
  shows "rolled s s'"
  using assms(1,4,5) cache_frame [OF assms(2-5)] by (simp add: rolled_def)

lemma rollback_auth_step:
  assumes keys: "auths_end (ds @ [d]) s" and p: "delta_path d = []"
  obtains s' where "rollback_step d s = Inr s'" "same_committed s s'" "auths_end ds s'"
    "us_nodes (uncommitted s') = us_nodes (uncommitted s)" "us_zxid_to_nodes (uncommitted s') = us_zxid_to_nodes (uncommitted s)"
proof (cases "delta_operation d")
  case (AddAuthDelta sid ptr auth)
  let ?a = "uauths s sid"
  have own: "auth_of sid d = [(delta_zxid d, ptr, auth)]" "\<And>x. x \<noteq> sid \<Longrightarrow> auth_of x d = []"
    using AddAuthDelta p by (cases d; simp)+
  obtain older where "auth_keys ?a = (older @ auth_keys (auths_of sid ds)) @ [(delta_zxid d, ptr)]"
    using keys own(1) by (auto simp: auths_end_def dest: spec [of _ sid])
  then have a: "?a \<noteq> []" "fst (snd (last ?a)) = ptr" "auth_keys (butlast ?a) = older @ auth_keys (auths_of sid ds)"
    by (cases ?a rule: rev_cases; simp)+
  define m where "m = (if butlast ?a = [] then (us_session_and_auth (uncommitted s))(sid := None)
     else (us_session_and_auth (uncommitted s))(sid \<mapsto> butlast ?a))"
  have bucket: "bucket m x = (if x = sid then butlast ?a else uauths s x)" for x
    by (auto simp: m_def bucket_def)
  show ?thesis
  proof (rule that)
    show "rollback_step d s = Inr (s\<lparr>uncommitted := (uncommitted s)\<lparr>us_session_and_auth := m\<rparr>\<rparr>)"
      using AddAuthDelta p a(1,2) by (simp add: rollback_step_def m_def Let_def)
    have "\<exists>older. auth_keys (bucket m x) = older @ auth_keys (auths_of x ds)" for x
      using a(3) keys [unfolded auths_end_def, rule_format, of x] own(2) [of x]
      by (cases "x = sid") (auto simp: bucket)
    then show "auths_end ds (s\<lparr>uncommitted := (uncommitted s)\<lparr>us_session_and_auth := m\<rparr>\<rparr>)"
      by (simp add: auths_end_def)
  qed (simp_all add: same_committed_def)
next
  case (CloseSessionDelta sid)
  then have "auth_of x d = []" for x by (cases d) simp
  with keys CloseSessionDelta p show ?thesis
    by (intro that [of "s\<lparr>uncommitted := (uncommitted s)\<lparr>us_closed_sessions := uset_erase sid (us_closed_sessions (uncommitted s))\<rparr>\<rparr>"])
      (simp_all add: rollback_step_def same_committed_def auths_end_def)
qed (use keys p that [of s] in \<open>cases d; simp add: rollback_step_def auths_end_def\<close>)+

lemma rollback_step_spec:
  assumes "rollbackable pre (ds @ [d]) s t"
  obtains s' where "rollback_step d s = Inr s'" "same_committed s s'" "rolled s s'" "rollbackable pre ds s' (undo_delta d t)"
    "\<forall>q. applied_to s q - {delta_zxid d} \<subseteq> applied_to s' q"
proof -
  have inv: "cache_inv s" "shows_tree s t" "undo_ok d t" "undoable (rev ds) (undo_delta d t)" "auths_end ((pre @ ds) @ [d]) s"
    and ds: "\<forall>x\<in>set (ds @ [d]). (delta_path x \<noteq> [] \<longrightarrow> find_entry s (delta_path x) \<noteq> None)
          \<and> (delta_path x = [] \<longrightarrow> undo_delta x = id) \<and> (create_op (delta_operation x) \<longrightarrow> acl_loaded s (delta_path x))"
    using assms by (simp_all add: rollbackable_def)
  show ?thesis
  proof (cases "delta_path d = []")
    case True
    obtain s' where s': "rollback_step d s = Inr s'" "same_committed s s'" "auths_end (pre @ ds) s'"
      "us_nodes (uncommitted s') = us_nodes (uncommitted s)" "us_zxid_to_nodes (uncommitted s') = us_zxid_to_nodes (uncommitted s)"
      by (rule rollback_auth_step [OF inv(5) True])
    note c = same_committedD(1,2) [OF s'(2)]
    show ?thesis
      using that [OF s'(1,2) rolled_frame [OF inv(1) s'(4,5) c]] inv ds s'(3) True
        cache_frame [OF s'(4,5) c] shows_tree_frame [OF s'(4) c]
      by (simp add: rollbackable_def)
  next
    case False
    obtain eph where eph: "rollback_ephemerals d s = Inr (s\<lparr>uncommitted := (uncommitted s)\<lparr>us_ephemerals := eph\<rparr>\<rparr>)"
      by (rule rollback_ephemerals_frame)
    define s1 where "s1 = s\<lparr>uncommitted := (uncommitted s)\<lparr>us_ephemerals := eph\<rparr>\<rparr>"
    have f: "us_nodes (uncommitted s1) = us_nodes (uncommitted s)" "us_zxid_to_nodes (uncommitted s1) = us_zxid_to_nodes (uncommitted s)"
      "container s1 = container s" "acl_map_of s1 = acl_map_of s"
      by (simp_all add: s1_def)
    note fr = cache_frame [OF f] shows_tree_frame [OF f(1,3,4)]
    have pre: "cache_inv s1" "shows_tree s1 t" "find_entry s1 (delta_path d) \<noteq> None"
      "update_op (delta_operation d) \<Longrightarrow> t (delta_path d) \<noteq> None"
      "create_op (delta_operation d) \<Longrightarrow> acl_loaded s1 (delta_path d)"
      using inv ds False by (simp_all add: fr undo_ok_def)
    obtain s' where s': "rollbackDelta d s1 = Inr s'" "same_core s1 s'" "shows_tree s' (undo_delta d t)" "rolled s1 s'"
      "same_committed s1 s'" "\<forall>q. applied_to s' q = applied_to s1 q - (if q = delta_path d then {delta_zxid d} else {})"
      by (rule rollbackDelta_spec [OF pre])
    have roll: "rolled s s'" by (rule rolled_trans [OF rolled_frame [OF inv(1) f] s'(4)])
    show ?thesis
    proof (rule that)
      show "rollback_step d s = Inr s'"
        using False eph s'(1) by (simp add: rollback_step_def s1_def)
      show "rollbackable pre ds s' (undo_delta d t)"
        using s' inv(4,5) ds rolledD [OF roll] auth_of_path [OF False] same_coreD(11) [OF s'(2)]
        by (simp add: rollbackable_def auths_end_def s1_def)
      have "same_committed s s1" by (simp add: s1_def same_committed_def)
      then show "same_committed s s'" using s'(5) by (rule same_committed_trans)
      show "\<forall>q. applied_to s q - {delta_zxid d} \<subseteq> applied_to s' q"
        using s'(6) by (auto simp: fr)
    qed (rule roll)
  qed
qed

lemma rollback_deltas_spec:
  assumes "rollbackable pre ds s t"
  obtains s' where "rollback_deltas ds s = Inr s'" "same_committed s s'" "rolled s s'"
    "shows_tree s' (undo_deltas (rev ds) t)" "\<forall>q. applied_to s q - delta_zxid ` set ds \<subseteq> applied_to s' q"
    "auths_end pre s'"
  using assms
proof (induction ds arbitrary: s t thesis rule: rev_induct)
  case Nil
  then show ?case by (simp add: rollback_deltas_def rollbackable_def rolled_refl)
next
  case (snoc d ds)
  obtain s1 where s1: "rollback_step d s = Inr s1" "same_committed s s1" "rolled s s1" "rollbackable pre ds s1 (undo_delta d t)"
    "\<forall>q. applied_to s q - {delta_zxid d} \<subseteq> applied_to s1 q"
    by (rule rollback_step_spec [OF snoc.prems(2)])
  obtain s2 where s2: "rollback_deltas ds s1 = Inr s2" "same_committed s1 s2" "rolled s1 s2"
    "shows_tree s2 (undo_deltas (rev ds) (undo_delta d t))" "\<forall>q. applied_to s1 q - delta_zxid ` set ds \<subseteq> applied_to s2 q" "auths_end pre s2"
    by (rule snoc.IH [OF _ s1(4)])
  have "\<forall>q. applied_to s q - delta_zxid ` set (ds @ [d]) \<subseteq> applied_to s2 q"
    using s1(5) s2(5) by fastforce
  with s1 s2 show ?case
    by (intro snoc.prems(1) [of s2])
      (auto simp: rollback_deltas_def intro: same_committed_trans rolled_trans)
qed

subsection \<open>Deltas that were just applied\<close>

lemma undo_delta_no_path: "ok_delta d t \<Longrightarrow> delta_path d = [] \<Longrightarrow> undo_delta d = id"
  by (cases "delta_operation d") (auto simp: undo_delta_def ok_delta_def)

lemma ok_deltas_member: "ok_deltas ds t \<Longrightarrow> d \<in> set ds \<Longrightarrow> \<exists>t'. ok_delta d t'"
  by (induction ds arbitrary: t) auto

lemma create_structural: "create_op op \<Longrightarrow> structural_op op"
  by (cases op) simp_all

lemma applied_to_entry: "z \<in> applied_to s p \<Longrightarrow> find_entry s p \<noteq> None"
  by (auto simp: applied_to_def split: option.splits)

lemma rollbackable_applied:
  assumes "ok_deltas ds (uview s)" "applied ds s s'"
  shows "rollbackable [] ds s' (uview s')"
  unfolding rollbackable_def
proof (intro conjI ballI impI)
  show "undoable (rev ds) (uview s')"
    using undoable_applied [OF assms(1)] appliedD(2) [OF assms(2)] by simp
  show "auths_end ([] @ ds) s'"
    using appliedD(7) [OF assms(2)] by (auto simp: auths_end_def)
  fix d assume d: "d \<in> set ds"
  show "find_entry s' (delta_path d) \<noteq> None" if "delta_path d \<noteq> []"
    using appliedD(5) [OF assms(2) d that] by (rule applied_to_entry)
  show "undo_delta d = id" if "delta_path d = []"
    using ok_deltas_member [OF assms(1) d] that undo_delta_no_path by blast
  show "acl_loaded s' (delta_path d)" if "create_op (delta_operation d)"
    using appliedD(6) [OF assms(2) d create_structural [OF that]] .
qed (rule appliedD(4) [OF assms(2)], rule shows_tree_uview)

lemma rollback_applied:
  assumes "ok_deltas ds (uview s)" "tree_sized (uview s)" "reverts ds (uview s)" "applied ds s s1"
  obtains s2 where "rollback_deltas ds s1 = Inr s2" "same_committed s1 s2" "rolled s1 s2" "uview s2 = uview s"
    "\<forall>q. applied_to s1 q - delta_zxid ` set ds \<subseteq> applied_to s2 q"
proof -
  obtain s2 where s2: "rollback_deltas ds s1 = Inr s2" "same_committed s1 s2" "rolled s1 s2"
    "shows_tree s2 (undo_deltas (rev ds) (uview s1))" "\<forall>q. applied_to s1 q - delta_zxid ` set ds \<subseteq> applied_to s2 q"
    by (rule rollback_deltas_spec [OF rollbackable_applied [OF assms(1,4)]])
  have "undo_deltas (rev ds) (uview s1) = uview s"
    using assms(3) appliedD(2) [OF assms(4)] by (simp add: reverts_def)
  with s2 assms(2) show ?thesis
    by (intro that [of s2]) (simp_all add: uview_shows_tree)
qed

end
