(* ===== verification/Keeper_Commit_Refine.thy ===== *)
theory Keeper_Commit_Refine
  imports Keeper_Rollback
begin

section \<open>Committing deltas to the container\<close>

text \<open>
  \<open>commit\<close> carries out the abstract updates on the committed tree. A delta that fits the
  committed tree never makes it terminate the server or raise an exception, and it keeps the
  reference counts of the ACL map and the table of ephemeral nodes exact.
\<close>

subsection \<open>The invariant of the committed state\<close>

definition acl_users :: "storage \<Rightarrow> nat \<Rightarrow> path set" where
  "acl_users s k = {p. map_option mn_acl_id (find_node s p) = Some k}"

definition acls_counted :: "storage \<Rightarrow> bool" where
  "acls_counted s \<longleftrightarrow> am.counted (acl_map_of s) (\<lambda>k. card (acl_users s k))"

definition ephemerals_exact :: "storage \<Rightarrow> bool" where
  "ephemerals_exact s \<longleftrightarrow>
     (\<forall>sid p. p \<in> set (bucket (committed_ephemerals s) sid)
        \<longleftrightarrow> sid \<noteq> 0 \<and> map_option (\<lambda>n. ephemeralOwner (mn_stats n)) (find_node s p) = Some sid)"

text \<open>The set of children that a node stores names exactly the nodes whose parent it is.\<close>

definition children_exact :: "(path \<rightharpoonup> mem_node) \<Rightarrow> bool" where
  "children_exact X \<longleftrightarrow>
     (\<forall>p n. X p = Some n \<longrightarrow> canonical_path p
        \<and> set (mn_children n) = getBaseNodeName ` {q. X q \<noteq> None \<and> q \<noteq> [slash] \<and> parentOf q = p})"

definition committed_inv :: "storage \<Rightarrow> bool" where
  "committed_inv s \<longleftrightarrow> container_wf s \<and> acls_counted s \<and> ephemerals_exact s \<and> children_exact (find_node s)"

lemma committed_inv_cong:
  assumes "find_node s' = find_node s" "acl_map_of s' = acl_map_of s" "committed_ephemerals s' = committed_ephemerals s"
  shows "committed_inv s' = committed_inv s"
  by (simp add: committed_inv_def container_wf_def acls_counted_def ephemerals_exact_def children_exact_def acl_users_def assms)

lemma children_exact_same:
  assumes ex: "children_exact X" and same: "\<And>x. map_option mn_children (Y x) = map_option mn_children (X x)"
  shows "children_exact Y"
proof -
  have some: "Y x \<noteq> None \<longleftrightarrow> X x \<noteq> None" for x
    using same [of x] by (cases "X x"; cases "Y x") simp_all
  show ?thesis
    unfolding children_exact_def some
  proof (intro allI impI)
    fix p n assume n: "Y p = Some n"
    obtain m where m: "X p = Some m" "mn_children m = mn_children n"
      using same [of p] n by (cases "X p") simp_all
    show "canonical_path p \<and> set (mn_children n) = getBaseNodeName ` {q. X q \<noteq> None \<and> q \<noteq> [slash] \<and> parentOf q = p}"
      using ex m(1) unfolding children_exact_def m(2) [symmetric] by simp
  qed
qed

lemma children_exact_create:
  assumes ex: "children_exact X" and p: "canonical_path p" "p \<noteq> [slash]" "X p = None"
    and par: "X (parentOf p) = Some par" and none: "\<And>q. X q \<noteq> None \<Longrightarrow> parentOf q \<noteq> p"
    and n: "mn_children n = []"
    and f: "\<And>x. Y x = (if x = p then Some n else if x = parentOf p
        then Some (addChild (getBaseNodeName p) par) else X x)"
  shows "children_exact Y"
proof -
  have neq: "parentOf p \<noteq> p" using p(3) par by auto
  have kids: "{q. Y q \<noteq> None \<and> q \<noteq> [slash] \<and> parentOf q = x}
      = {q. X q \<noteq> None \<and> q \<noteq> [slash] \<and> parentOf q = x} \<union> (if x = parentOf p then {p} else {})" for x
    using p par by (auto simp: f split: if_splits)
  have empty: "{q. X q \<noteq> None \<and> q \<noteq> [slash] \<and> parentOf q = p} = {}" using none by auto
  show ?thesis
    unfolding children_exact_def kids
  proof (intro allI impI)
    fix x m assume m: "Y x = Some m"
    consider "x = p" "m = n" | "x = parentOf p" "m = addChild (getBaseNodeName p) par"
      | "x \<noteq> p" "x \<noteq> parentOf p" "X x = Some m"
      using m by (auto simp: f split: if_splits)
    then show "canonical_path x \<and> set (mn_children m) = getBaseNodeName `
        ({q. X q \<noteq> None \<and> q \<noteq> [slash] \<and> parentOf q = x} \<union> (if x = parentOf p then {p} else {}))"
    proof cases
      case 1
      then show ?thesis using p(1) n empty neq by simp
    next
      case 2
      then show ?thesis using ex par by (simp add: children_exact_def addChild_def)
    next
      case 3
      then show ?thesis using ex by (simp add: children_exact_def)
    qed
  qed
qed

lemma children_exact_remove:
  assumes ex: "children_exact X" and p: "X p = Some n" "p \<noteq> [slash]"
    and par: "X (parentOf p) = Some par"
    and f: "\<And>x. Y x = (if x = p then None else if x = parentOf p
        then Some (removeChild (getBaseNodeName p) par) else X x)"
  shows "children_exact Y"
proof -
  let ?kids = "\<lambda>x. {q. X q \<noteq> None \<and> q \<noteq> [slash] \<and> parentOf q = x}"
  have can: "canonical_path q" if "X q \<noteq> None" for q using ex that by (auto simp: children_exact_def)
  have kids: "{q. Y q \<noteq> None \<and> q \<noteq> [slash] \<and> parentOf q = x} = ?kids x - {p}" for x
    using par by (auto simp: f)
  have inj: "inj_on getBaseNodeName (insert p (?kids (parentOf p)))"
    using can canonical_path_inj p by (auto simp: inj_on_def)
  have img: "getBaseNodeName ` (?kids (parentOf p) - {p}) = getBaseNodeName ` ?kids (parentOf p) - {getBaseNodeName p}"
    using inj_on_image_set_diff [OF inj, of "?kids (parentOf p)" "{p}"] by auto
  have self: "p \<notin> ?kids x" if "x \<noteq> parentOf p" for x using that by auto
  show ?thesis
    unfolding children_exact_def kids
  proof (intro allI impI)
    fix x m assume m: "Y x = Some m"
    consider "x = parentOf p" "m = removeChild (getBaseNodeName p) par" | "x \<noteq> parentOf p" "X x = Some m"
      using m by (auto simp: f split: if_splits)
    then show "canonical_path x \<and> set (mn_children m) = getBaseNodeName ` (?kids x - {p})"
    proof cases
      case 1
      then show ?thesis using ex par img by (simp add: children_exact_def removeChild_def)
    next
      case 2
      then show ?thesis using ex self [OF 2(1)] by (simp add: children_exact_def)
    qed
  qed
qed

lemma finite_acl_users [simp]: "finite (acl_users s k)"
  by (rule finite_subset [OF _ finite_dom_map_of [of "container s"]])
    (auto simp: acl_users_def find_node_def)

lemma acl_users_pos: "find_node s p = Some n \<Longrightarrow> 0 < card (acl_users s (mn_acl_id n))"
  using finite_acl_users [of s "mn_acl_id n"] by (auto simp: card_gt_0_iff acl_users_def)

lemma acls_resolve_counted: "acls_counted s \<Longrightarrow> acls_resolve s"
  unfolding acls_resolve_def acls_counted_def
  using am.counted_resolves acl_users_pos by blast

subsection \<open>Nodes up to their cached digest\<close>

definition same_node :: "mem_node \<Rightarrow> mem_node \<Rightarrow> bool" where
  "same_node m n \<longleftrightarrow> mn_stats m = mn_stats n \<and> mn_data m = mn_data n \<and> mn_acl_id m = mn_acl_id n
     \<and> mn_children m = mn_children n"

lemma same_node_refl [simp]: "same_node n n"
  by (simp add: same_node_def)

lemma same_node_trans [trans]: "same_node l m \<Longrightarrow> same_node m n \<Longrightarrow> same_node l n"
  by (simp add: same_node_def)

lemma same_node_digest [simp]: "same_node (snd (getDigest p n)) n" "same_node (invalidateDigestCache n) n"
  by (simp_all add: same_node_def)

lemma same_node_abs: "same_node m n \<Longrightarrow> abs_node a m = abs_node a n"
  by (simp add: same_node_def abs_node_def getData_def)

lemma same_node_wf: "same_node m n \<Longrightarrow> node_wf m = node_wf n"
  by (simp add: same_node_def node_wf_def)

lemma same_node_setData: "same_node m n \<Longrightarrow> same_node (setData d m) (setData d n)"
  by (simp add: same_node_def setData_def Let_def)

lemma same_node_stats: "same_node m n \<Longrightarrow> same_node (m\<lparr>mn_stats := st\<rparr>) (n\<lparr>mn_stats := st\<rparr>)"
  by (simp add: same_node_def)

subsection \<open>Updates in place\<close>

lemma cache_digest_spec:
  assumes "map_of (container s) p = Some n"
  obtains C where "cache_digest p s = s\<lparr>container := C\<rparr>" "map_of C = (map_of (container s))(p \<mapsto> snd (getDigest p n))"
  using assms by (simp add: cache_digest_def find_node_def map_of_alist_update)

text \<open>Computing the digest of a committed node only caches it.\<close>

lemma digest_change:
  assumes "map_of (container s) p = Some n"
  obtains C D n' where
    "(if b then cache_digest p (removeDigest n p s) else s) = s\<lparr>container := C, nodes_digest := D\<rparr>"
    "map_of C = (map_of (container s))(p \<mapsto> n')" "same_node n' n"
proof (cases b)
  case True
  obtain C where C: "cache_digest p (removeDigest n p s) = (removeDigest n p s)\<lparr>container := C\<rparr>"
    "map_of C = (map_of (container (removeDigest n p s)))(p \<mapsto> snd (getDigest p n))"
    by (rule cache_digest_spec [of "removeDigest n p s" p n]) (use assms in \<open>simp_all add: removeDigest_def\<close>)
  then show ?thesis
    using that [where C = C and D = "nodes_digest s - fst (getDigest p n)" and n' = "snd (getDigest p n)"] True
    by (simp add: removeDigest_def)
next
  case False
  then show ?thesis
    using that [where C = "container s" and D = "nodes_digest s" and n' = n] assms by (simp add: map_upd_triv)
qed

lemma digest_added:
  assumes "map_of (container s) p = Some n"
  obtains C D n' where
    "(if b then cache_digest p (addDigest n p s) else s) = s\<lparr>container := C, nodes_digest := D\<rparr>"
    "map_of C = (map_of (container s))(p \<mapsto> n')" "same_node n' n"
proof (cases b)
  case True
  obtain C where C: "cache_digest p (addDigest n p s) = (addDigest n p s)\<lparr>container := C\<rparr>"
    "map_of C = (map_of (container (addDigest n p s)))(p \<mapsto> snd (getDigest p n))"
    by (rule cache_digest_spec [of "addDigest n p s" p n]) (use assms in \<open>simp_all add: addDigest_def\<close>)
  then show ?thesis
    using that [where C = C and D = "nodes_digest s + fst (getDigest p n)" and n' = "snd (getDigest p n)"] True
    by (simp add: addDigest_def)
next
  case False
  then show ?thesis
    using that [where C = "container s" and D = "nodes_digest s" and n' = n] assms by (simp add: map_upd_triv)
qed

lemma commit_update_spec:
  assumes n: "find_node s p = Some n" and v: "version_ok version (ns_version (mn_stats n))"
    and change: "\<And>m. same_node m n \<Longrightarrow> same_node (change m) (change n)"
  obtains C D n' where
    "commit_update b p version change s = Inr (ZOK, s\<lparr>container := C, nodes_digest := D\<rparr>)"
    "map_of C = (map_of (container s))(p \<mapsto> n')" "same_node n' (change n)"
proof -
  obtain C1 D1 n1 where 1: "(if b then cache_digest p (removeDigest n p s) else s) = s\<lparr>container := C1, nodes_digest := D1\<rparr>"
    "map_of C1 = (map_of (container s))(p \<mapsto> n1)" "same_node n1 n"
    by (rule digest_change [of s p n b]) (use n in \<open>simp_all add: find_node_def\<close>)
  let ?n2 = "invalidateDigestCache (change n1)"
  define s2 where "s2 = s\<lparr>container := AList.update p ?n2 C1, nodes_digest := D1\<rparr>"
  have s2: "map_of (container s2) p = Some ?n2" "map_of (container s2) = (map_of (container s))(p \<mapsto> ?n2)"
    using 1(2) by (simp_all add: s2_def map_of_alist_update)
  obtain C3 D3 n3 where 3: "(if b then cache_digest p (addDigest ?n2 p s2) else s2) = s2\<lparr>container := C3, nodes_digest := D3\<rparr>"
    "map_of C3 = (map_of (container s2))(p \<mapsto> n3)" "same_node n3 ?n2"
    by (rule digest_added [of s2 p ?n2 b]) (use s2 in simp_all)
  have upd: "updateValue p (\<lambda>n. invalidateDigestCache (change n)) (s\<lparr>container := C1, nodes_digest := D1\<rparr>) = Inr s2"
    using 1(2) by (simp add: updateValue_def find_node_def s2_def)
  have "commit_update b p version change s = Inr (ZOK, s\<lparr>container := C3, nodes_digest := D3\<rparr>)"
    using n v 1(1) upd 3(1) s2(1)
    by (auto simp: commit_update_def version_ok_def Let_def find_node_def s2_def)
  moreover have "same_node n3 (change n)"
    using 3(3) change [OF 1(3)] same_node_trans same_node_digest(2) by blast
  ultimately show ?thesis
    using that 3(2) s2(2) by simp
qed

subsection \<open>Creating and removing nodes\<close>

text \<open>The result of every commit of a delta with a path, as one update of the storage.\<close>

abbreviation committed_to ::
  "storage \<Rightarrow> (path \<times> mem_node) list \<Rightarrow> 64 word \<Rightarrow> acl_map \<Rightarrow> nat \<Rightarrow> (int \<rightharpoonup> path list) \<Rightarrow> storage" where
  "committed_to s C D M N E \<equiv>
     s\<lparr>container := C, nodes_digest := D, acl_map_of := M, committed_ephemeral_nodes := N, committed_ephemerals := E\<rparr>"

definition create_ephemerals :: "storage \<Rightarrow> int \<Rightarrow> path \<Rightarrow> (int \<rightharpoonup> path list)" where
  "create_ephemerals s owner p =
     (if owner \<noteq> 0 then registerEphemeralPath (committed_ephemerals s) owner p else committed_ephemerals s)"

lemma createNode_run:
  assumes par: "find_node s (parentOf p) = Some par" "\<not> isEphemeral (mn_stats par)" and p: "find_node s p = None"
    and conv: "convertACLs (acl_map_of s) acls = (k, m1)"
  obtains C D N n where
    "createNode p data st acls b s = Inr (True, committed_to s C D (addUsage m1 k) N (create_ephemerals s (st_ephemeralOwner st) p))"
    "map_of C = (map_of (container s))(p \<mapsto> n, parentOf p \<mapsto> addChild (getBaseNodeName p) par)"
    "same_node n (copy_node (setData data (node_copyStats st (default_node\<lparr>mn_acl_id := k\<rparr>))))"
proof -
  let ?par = "parentOf p"
  let ?n = "copy_node (setData data (node_copyStats st (default_node\<lparr>mn_acl_id := k\<rparr>)))"
  have neq: "?par \<noteq> p" using par(1) p by auto
  define s3 where "s3 = s\<lparr>acl_map_of := addUsage m1 k,
     container := AList.update ?par (addChild (getBaseNodeName p) par) (AList.update p ?n (container s))\<rparr>"
  have s3: "map_of (container s3) = (map_of (container s))(p \<mapsto> ?n, ?par \<mapsto> addChild (getBaseNodeName p) par)"
    by (simp add: s3_def map_of_alist_update)
  then have n: "map_of (container s3) p = Some ?n" using neq by simp
  obtain C D n' where 4: "(if b then cache_digest p (addDigest ?n p s3) else s3) = s3\<lparr>container := C, nodes_digest := D\<rparr>"
    "map_of C = (map_of (container s3))(p \<mapsto> n')" "same_node n' ?n"
    by (rule digest_added [OF n])
  have run: "createNode p data st acls b s =
      (let s4 = (if b then cache_digest p (addDigest ?n p s3) else s3)
       in Inr (True, if st_ephemeralOwner st \<noteq> 0
            then s4\<lparr>committed_ephemeral_nodes := committed_ephemeral_nodes s4 + 1,
                    committed_ephemerals := registerEphemeralPath (committed_ephemerals s4) (st_ephemeralOwner st) p\<rparr>
            else s4))"
    using par p conv neq n
    by (simp add: createNode_def parentNodePath_neq [OF neq] insert_node_def updateValue_def find_node_def map_of_alist_update s3_def Let_def)
  show ?thesis
  proof (rule that)
    show "map_of C = (map_of (container s))(p \<mapsto> n', ?par \<mapsto> addChild (getBaseNodeName p) par)"
      using 4(2) s3 neq by (simp add: fun_upd_twist)
    show "createNode p data st acls b s = Inr (True, committed_to s C D (addUsage m1 k)
        (if st_ephemeralOwner st \<noteq> 0 then committed_ephemeral_nodes s + 1 else committed_ephemeral_nodes s)
        (create_ephemerals s (st_ephemeralOwner st) p))"
      by (simp add: run 4(1) Let_def create_ephemerals_def s3_def)
  qed (rule 4(3))
qed

lemma removeNode_run:
  assumes n: "find_node s p = Some n" and par: "find_node s (parentOf p) = Some par" and neq: "parentOf p \<noteq> p"
    and v: "version_ok version (ns_version (mn_stats n))"
    and eph: "ephemeralOwner (mn_stats n) \<noteq> 0 \<Longrightarrow> p \<in> set (bucket (committed_ephemerals s) (ephemeralOwner (mn_stats n)))"
  obtains C D N E where
    "removeNode p version b s = Inr (True, committed_to s C D (removeUsage (acl_map_of s) (mn_acl_id n)) N E)"
    "map_of C = ((map_of (container s))(parentOf p \<mapsto> removeChild (getBaseNodeName p) par))(p := None)"
    "\<forall>sid. set (bucket E sid) = set (bucket (committed_ephemerals s) sid)
        - (if sid = ephemeralOwner (mn_stats n) \<and> sid \<noteq> 0 then {p} else {})"
proof -
  let ?C = "AList.delete p (AList.update (parentOf p) (removeChild (getBaseNodeName p) par) (container s))"
  let ?D = "if b then nodes_digest s - fst (getDigest p (shallowCopy default_node n)) else nodes_digest s"
  let ?M = "removeUsage (acl_map_of s) (mn_acl_id n)" and ?o = "ephemeralOwner (mn_stats n)"
  have C: "map_of ?C = ((map_of (container s))(parentOf p \<mapsto> removeChild (getBaseNodeName p) par))(p := None)"
    by (simp add: map_of_alist_update map_of_alist_delete)
  have E: "\<exists>E. (if ?o \<noteq> 0 then unregisterEphemeralPath (committed_ephemerals s) ?o p True else Inr (committed_ephemerals s)) = Inr E
     \<and> (\<forall>sid. set (bucket E sid) = set (bucket (committed_ephemerals s) sid) - (if sid = ?o \<and> sid \<noteq> 0 then {p} else {}))"
  proof (cases "?o = 0")
    case False
    let ?e = "committed_ephemerals s"
    obtain ps where ps: "?e ?o = Some ps" "p \<in> set ps"
      using eph [OF False] by (cases "?e ?o") (auto simp: bucket_def)
    let ?E = "if uset_erase p ps = [] then ?e(?o := None) else ?e(?o \<mapsto> uset_erase p ps)"
    have "set (uset_erase p ps) = set ps - {p}" by simp
    then have "set (bucket ?E sid) = set (bucket ?e sid) - (if sid = ?o \<and> sid \<noteq> 0 then {p} else {})" for sid
      using ps False by (cases "sid = ?o"; cases "uset_erase p ps = []") (simp_all add: bucket_def)
    with ps False show ?thesis
      by (intro exI [of _ ?E]) (simp add: unregisterEphemeralPath_def Let_def)
  qed simp
  then obtain E where E0: "(if ?o \<noteq> 0 then unregisterEphemeralPath (committed_ephemerals s) ?o p True else Inr (committed_ephemerals s)) = Inr E"
    and E3: "\<forall>sid. set (bucket E sid) = set (bucket (committed_ephemerals s) sid) - (if sid = ?o \<and> sid \<noteq> 0 then {p} else {})"
    by blast
  have E: "?o \<noteq> 0 \<longrightarrow> unregisterEphemeralPath (committed_ephemerals s) ?o p True = Inr E"
    "?o = 0 \<longrightarrow> E = committed_ephemerals s"
    using E0 by (cases "?o = 0"; simp)+
  have "removeNode p version b s = Inr (True, committed_to s ?C ?D ?M
      (if ?o \<noteq> 0 then committed_ephemeral_nodes s - 1 else committed_ephemeral_nodes s) E)"
    using n par v E
    by (cases "?o = 0"; cases b)
      (auto simp: removeNode_def parentNodePath_neq [OF neq] version_ok_def updateValue_def find_node_def erase_node_def removeDigest_def Let_def)
  then show ?thesis using that C E3 by blast
qed

text \<open>
  Committed nodes keep their ACLs: every node outside \<open>P\<close> keeps its number, and the number keeps
  its meaning.
\<close>

definition acls_kept :: "path set \<Rightarrow> storage \<Rightarrow> storage \<Rightarrow> bool" where
  "acls_kept P s s' \<longleftrightarrow>
     (\<forall>q n. q \<notin> P \<longrightarrow> find_node s q = Some n \<longrightarrow>
        (\<exists>n'. find_node s' q = Some n' \<and> mn_acl_id n' = mn_acl_id n)
        \<and> acls_of (acl_map_of s') (mn_acl_id n) = acls_of (acl_map_of s) (mn_acl_id n))"

lemma create_ephemerals_bucket:
  "set (bucket (create_ephemerals s owner p) sid)
     = set (bucket (committed_ephemerals s) sid) \<union> (if sid = owner \<and> sid \<noteq> 0 then {p} else {})"
  by (auto simp: create_ephemerals_def registerEphemeralPath_def bucket_def)

lemma ephemeralOwner_size [simp]: "ephemeralOwner (s\<lparr>ns_data_size := n\<rparr>) = ephemeralOwner s"
  by (simp add: ephemeralOwner_def isEphemeral_def)

lemma ephemeralOwner_copyStats: "ephemeralOwner (copyStats st default_stats) = st_ephemeralOwner st"
  by (simp add: copyStats_def ephemeralOwner_def isEphemeral_def setEphemeralOwner_def setNumChildren_def setCtime_def
      default_stats_def Let_def)

lemma addChild_frame [simp]:
  "mn_stats (addChild c n) = mn_stats n" "mn_acl_id (addChild c n) = mn_acl_id n" "mn_data (addChild c n) = mn_data n"
  "mn_stats (removeChild c n) = mn_stats n" "mn_acl_id (removeChild c n) = mn_acl_id n" "mn_data (removeChild c n) = mn_data n"
  by (simp_all add: addChild_def removeChild_def)

lemma abs_node_child [simp]: "abs_node a (addChild c n) = abs_node a n" "abs_node a (removeChild c n) = abs_node a n"
  "node_wf (addChild c n) = node_wf n" "node_wf (removeChild c n) = node_wf n"
  by (simp_all add: abs_node_def getData_def node_wf_def)

subsection \<open>The committed tree after one delta\<close>

lemma commit_update_tree:
  assumes inv: "committed_inv s" and n: "find_node s p = Some n" and C: "map_of C = (map_of (container s))(p \<mapsto> n')"
    and n': "node_wf n'" "mn_acl_id n' = mn_acl_id n" "ephemeralOwner (mn_stats n') = ephemeralOwner (mn_stats n)"
      "mn_children n' = mn_children n"
    and s': "s' = s\<lparr>container := C, nodes_digest := D\<rparr>"
  shows "committed_inv s'" "cview s' = (cview s)(p \<mapsto> abs_node (acls_of (acl_map_of s) (mn_acl_id n)) n')" "acls_kept {} s s'"
proof -
  have f: "find_node s' q = (if q = p then Some n' else find_node s q)" for q
    using C by (simp add: find_node_def s')
  have fields: "acl_map_of s' = acl_map_of s" "committed_ephemerals s' = committed_ephemerals s"
    by (simp_all add: s')
  have "acl_users s' k = acl_users s k" for k
    using n n'(2) by (auto simp: acl_users_def f)
  then have "acls_counted s'"
    using inv by (simp add: committed_inv_def acls_counted_def fields)
  moreover have "ephemerals_exact s'"
    using inv n n'(3) unfolding committed_inv_def ephemerals_exact_def by (simp add: f fields)
  moreover have "container_wf s'"
    using inv n'(1) by (simp add: committed_inv_def container_wf_def f)
  moreover have "children_exact (find_node s')"
    by (rule children_exact_same [of "find_node s"]) (use inv n n'(4) in \<open>simp_all add: committed_inv_def f\<close>)
  ultimately show "committed_inv s'" by (simp add: committed_inv_def)
  show "cview s' = (cview s)(p \<mapsto> abs_node (acls_of (acl_map_of s) (mn_acl_id n)) n')"
    using n'(2) by (auto simp: cview_def f fields fun_eq_iff)
  show "acls_kept {} s s'"
    using n n'(2) by (auto simp: acls_kept_def f fields)
qed

lemma acls_of_Inr: "convertNumber m k = Inr a \<Longrightarrow> acls_of m k = a"
  by (simp add: acls_of_def)

lemma counted_node:
  assumes "committed_inv s" "find_node s q = Some n"
  obtains a where "convertNumber (acl_map_of s) (mn_acl_id n) = Inr a"
  using assms acls_resolve_counted [of s] by (auto simp: committed_inv_def acls_resolve_def)

lemma card_acl_users_insert:
  assumes "find_node s p = None" "acl_users s' = (\<lambda>j. if j = k then insert p (acl_users s j) else acl_users s j)"
  shows "(\<lambda>j. card (acl_users s' j)) = (\<lambda>j. card (acl_users s j))(k := card (acl_users s k) + 1)"
proof -
  have "p \<notin> acl_users s k" using assms(1) by (simp add: acl_users_def)
  then show ?thesis by (auto simp: assms(2))
qed

lemma commit_create_tree:
  assumes inv: "committed_inv s" and p: "find_node s p = None" and par: "find_node s q = Some par"
    and q: "q = parentOf p" "c = getBaseNodeName p" "canonical_path p" "p \<noteq> [slash]"
      "\<And>x. find_node s x \<noteq> None \<Longrightarrow> parentOf x \<noteq> p"
    and conv: "convertACLs (acl_map_of s) acls = (k, m1)"
    and C: "map_of C = (map_of (container s))(p \<mapsto> n, q \<mapsto> addChild c par)"
    and n: "node_wf n" "mn_acl_id n = k" "ephemeralOwner (mn_stats n) = owner" "mn_children n = []"
    and s': "s' = committed_to s C D (addUsage m1 k) N (create_ephemerals s owner p)"
  shows "committed_inv s'" "cview s' = (cview s)(p \<mapsto> abs_node acls n)" "acls_kept {} s s'"
proof -
  have neq: "p \<noteq> q" using p par by auto
  have f: "find_node s' x = (if x = p then Some n else if x = q then Some (addChild c par) else find_node s x)" for x
    using C neq by (simp add: find_node_def s')
  have fields: "acl_map_of s' = addUsage m1 k" "committed_ephemerals s' = create_ephemerals s owner p"
    by (simp_all add: s')
  have counted: "am.counted (acl_map_of s) (\<lambda>k. card (acl_users s k))"
    using inv by (simp add: committed_inv_def acls_counted_def)
  note intern = am.counted_intern [OF counted conv]
  have users: "acl_users s' = (\<lambda>j. if j = k then insert p (acl_users s j) else acl_users s j)"
    using n(2) p par by (auto simp: acl_users_def f fun_eq_iff)
  have "acls_counted s'"
    unfolding acls_counted_def fields card_acl_users_insert [OF p users] by (rule intern(1))
  moreover have "ephemerals_exact s'"
    using inv n(3) p par unfolding committed_inv_def ephemerals_exact_def
    by (auto simp: f fields create_ephemerals_bucket split: if_splits)
  moreover have "container_wf s'"
    using inv n(1) par by (auto simp: committed_inv_def container_wf_def f)
  moreover have "children_exact (find_node s')"
    by (rule children_exact_create [of "find_node s" p par n])
      (use inv p par q n(4) in \<open>simp_all add: committed_inv_def f\<close>)
  ultimately show "committed_inv s'" by (simp add: committed_inv_def)
  have keep: "acls_of (acl_map_of s') (mn_acl_id y) = acls_of (acl_map_of s) (mn_acl_id y)" if "find_node s x = Some y" for x y
  proof -
    note y = that
    obtain a where "convertNumber (acl_map_of s) (mn_acl_id y) = Inr a" by (rule counted_node [OF inv y])
    with intern(3) show ?thesis by (simp add: acls_of_def fields)
  qed
  show "cview s' = (cview s)(p \<mapsto> abs_node acls n)"
  proof
    fix x
    show "cview s' x = ((cview s)(p \<mapsto> abs_node acls n)) x"
      using keep [of x] par n(2) acls_of_Inr [OF intern(2)] neq
      by (cases "find_node s x") (auto simp: cview_def f fields)
  qed
  show "acls_kept {} s s'"
    using keep p par by (auto simp: acls_kept_def f)
qed

lemma card_acl_users_remove:
  assumes "find_node s p = Some n" "acl_users s' = (\<lambda>j. acl_users s j - (if j = mn_acl_id n then {p} else {}))"
  shows "(\<lambda>j. card (acl_users s' j)) = (\<lambda>j. card (acl_users s j))(mn_acl_id n := card (acl_users s (mn_acl_id n)) - 1)"
proof -
  have "p \<in> acl_users s (mn_acl_id n)" using assms(1) by (simp add: acl_users_def)
  then show ?thesis by (auto simp: assms(2))
qed

lemma commit_remove_tree:
  assumes inv: "committed_inv s" and n: "find_node s p = Some n" and par: "find_node s q = Some par" and neq: "q \<noteq> p"
    and q: "q = parentOf p" "c = getBaseNodeName p" "p \<noteq> [slash]"
    and C: "map_of C = ((map_of (container s))(q \<mapsto> removeChild c par))(p := None)"
    and E: "\<forall>sid. set (bucket E sid) = set (bucket (committed_ephemerals s) sid)
        - (if sid = ephemeralOwner (mn_stats n) \<and> sid \<noteq> 0 then {p} else {})"
    and s': "s' = committed_to s C D (removeUsage (acl_map_of s) (mn_acl_id n)) N E"
  shows "committed_inv s'" "cview s' = (cview s)(p := None)" "acls_kept {p} s s'"
proof -
  have f: "find_node s' x = (if x = p then None else if x = q then Some (removeChild c par) else find_node s x)" for x
    using C neq by (simp add: find_node_def s')
  have fields: "acl_map_of s' = removeUsage (acl_map_of s) (mn_acl_id n)" "committed_ephemerals s' = E"
    by (simp_all add: s')
  have counted: "am.counted (acl_map_of s) (\<lambda>k. card (acl_users s k))"
    using inv by (simp add: committed_inv_def acls_counted_def)
  note release = am.counted_release [OF counted disjI2 [OF acl_users_pos [OF n]]]
  have users: "acl_users s' = (\<lambda>j. acl_users s j - (if j = mn_acl_id n then {p} else {}))"
    using n par neq by (auto simp: acl_users_def f fun_eq_iff)
  note card = card_acl_users_remove [OF n users]
  have "acls_counted s'"
    unfolding acls_counted_def fields card by (rule release(1))
  moreover have "ephemerals_exact s'"
    using inv n par neq E unfolding committed_inv_def ephemerals_exact_def
    by (auto simp: f fields split: if_splits)
  moreover have "container_wf s'"
    using inv par by (auto simp: committed_inv_def container_wf_def f)
  moreover have "children_exact (find_node s')"
    by (rule children_exact_remove [of "find_node s" p n par])
      (use inv n par q in \<open>simp_all add: committed_inv_def f\<close>)
  ultimately show "committed_inv s'" by (simp add: committed_inv_def)
  have keep: "acls_of (acl_map_of s') (mn_acl_id y) = acls_of (acl_map_of s) (mn_acl_id y)" if "find_node s x = Some y" "x \<noteq> p" for x y
  proof -
    have "find_node s' x \<noteq> None" "map_option mn_acl_id (find_node s' x) = Some (mn_acl_id y)"
      using that par by (auto simp: f)
    then have "0 < card (acl_users s' (mn_acl_id y))"
      using acl_users_pos [of s' x] by auto
    then have "0 < ((\<lambda>j. card (acl_users s j))(mn_acl_id n := card (acl_users s (mn_acl_id n)) - 1)) (mn_acl_id y)"
      using card by metis
    with release(2) show ?thesis by (simp add: acls_of_def fields del: fun_upd_apply)
  qed
  show "cview s' = (cview s)(p := None)"
  proof
    fix x
    show "cview s' x = ((cview s)(p := None)) x"
      using keep [of x] par neq by (cases "find_node s x") (auto simp: cview_def f)
  qed
  show "acls_kept {p} s s'"
    using keep par by (auto simp: acls_kept_def f)
qed

lemma commit_set_acl_tree:
  assumes inv: "committed_inv s" and n: "find_node s p = Some n"
    and conv: "convertACLs (removeUsage (acl_map_of s) (mn_acl_id n)) acls = (k, m2)"
    and s': "s' = s\<lparr>acl_map_of := addUsage m2 k, container := AList.update p (n\<lparr>mn_acl_id := k\<rparr>) (container s)\<rparr>"
  shows "committed_inv s'" "cview s' = (cview s)(p \<mapsto> abs_node acls n)" "acls_kept {p} s s'"
proof -
  have f: "find_node s' x = (if x = p then Some (n\<lparr>mn_acl_id := k\<rparr>) else find_node s x)" for x
    by (simp add: find_node_def s' map_of_alist_update)
  have fields: "acl_map_of s' = addUsage m2 k" "committed_ephemerals s' = committed_ephemerals s"
    by (simp_all add: s')
  have counted: "am.counted (acl_map_of s) (\<lambda>k. card (acl_users s k))"
    using inv by (simp add: committed_inv_def acls_counted_def)
  note release = am.counted_release [OF counted disjI2 [OF acl_users_pos [OF n]]]
  note intern = am.counted_intern [OF release(1) conv]
  let ?s = "s\<lparr>container := AList.delete p (container s)\<rparr>"
  have f1: "find_node ?s x = (if x = p then None else find_node s x)" for x
    by (simp add: find_node_def map_of_alist_delete)
  have users1: "acl_users ?s = (\<lambda>j. acl_users s j - (if j = mn_acl_id n then {p} else {}))"
    using n by (auto simp: acl_users_def f1 fun_eq_iff)
  have users2: "acl_users s' = (\<lambda>j. if j = k then insert p (acl_users ?s j) else acl_users ?s j)"
    by (auto simp: acl_users_def f f1 fun_eq_iff)
  have card1: "(\<lambda>j. card (acl_users ?s j)) = (\<lambda>j. card (acl_users s j))(mn_acl_id n := card (acl_users s (mn_acl_id n)) - 1)"
    by (rule card_acl_users_remove [OF n users1])
  have card2: "(\<lambda>j. card (acl_users s' j)) = (\<lambda>j. card (acl_users ?s j))(k := card (acl_users ?s k) + 1)"
    by (rule card_acl_users_insert [OF _ users2]) (simp add: f1)
  have "acls_counted s'"
    using intern(1) unfolding acls_counted_def fields card2 card1 [symmetric] .
  moreover have "ephemerals_exact s'"
    using inv n unfolding committed_inv_def ephemerals_exact_def by (auto simp: f fields)
  moreover have "container_wf s'"
    using inv n by (auto simp: committed_inv_def container_wf_def f node_wf_def)
  moreover have "children_exact (find_node s')"
    by (rule children_exact_same [of "find_node s"]) (use inv n in \<open>simp_all add: committed_inv_def f\<close>)
  ultimately show "committed_inv s'" by (simp add: committed_inv_def)
  have keep: "acls_of (acl_map_of s') (mn_acl_id y) = acls_of (acl_map_of s) (mn_acl_id y)" if "find_node s x = Some y" "x \<noteq> p" for x y
  proof -
    have pos: "0 < ((\<lambda>j. card (acl_users s j))(mn_acl_id n := card (acl_users s (mn_acl_id n)) - 1)) (mn_acl_id y)"
      using acl_users_pos [of ?s x y] that f1 fun_cong [OF card1, of "mn_acl_id y"] by simp
    note y = that(1)
    obtain a where a: "convertNumber (acl_map_of s) (mn_acl_id y) = Inr a"
      by (rule counted_node [OF inv y])
    then have "convertNumber (removeUsage (acl_map_of s) (mn_acl_id n)) (mn_acl_id y) = Inr a"
      using release(2) [of "mn_acl_id y"] pos by simp
    with a intern(3) show ?thesis by (simp add: acls_of_def fields)
  qed
  show "cview s' = (cview s)(p \<mapsto> abs_node acls n)"
  proof
    fix x
    show "cview s' x = ((cview s)(p \<mapsto> abs_node acls n)) x"
      using keep [of x] acls_of_Inr [OF intern(2)]
      by (cases "find_node s x") (auto simp: cview_def f fields abs_node_def getData_def)
  qed
  show "acls_kept {p} s s'"
    using keep by (auto simp: acls_kept_def f)
qed

subsection \<open>Any delta\<close>

text \<open>What a commit leaves alone: the uncommitted state up to the contents of authentications.\<close>

definition commit_frame :: "storage \<Rightarrow> storage \<Rightarrow> bool" where
  "commit_frame s s' \<longleftrightarrow>
     (uncommitted s')\<lparr>us_session_and_auth := Map.empty\<rparr> = (uncommitted s)\<lparr>us_session_and_auth := Map.empty\<rparr>
     \<and> (\<forall>sid. auth_keys (uauths s' sid) = auth_keys (uauths s sid))
     \<and> committed_zxid s' = committed_zxid s \<and> uncommitted_transactions s' = uncommitted_transactions s
     \<and> initialized s' = initialized s \<and> session_expiry_queue_of s' = session_expiry_queue_of s
     \<and> watches s' = watches s \<and> list_watches s' = list_watches s \<and> sessions_and_watchers s' = sessions_and_watchers s"

lemma commit_frame_refl [simp]: "commit_frame s s"
  by (simp add: commit_frame_def)

lemma commit_frame_trans [trans]: "commit_frame s s' \<Longrightarrow> commit_frame s' s'' \<Longrightarrow> commit_frame s s''"
  by (simp add: commit_frame_def)

lemma commit_frameD:
  assumes "commit_frame s s'"
  shows "us_nodes (uncommitted s') = us_nodes (uncommitted s)"
    "us_zxid_to_nodes (uncommitted s') = us_zxid_to_nodes (uncommitted s)"
    "us_deltas (uncommitted s') = us_deltas (uncommitted s)"
    "us_ephemerals (uncommitted s') = us_ephemerals (uncommitted s)"
    "us_next_auth (uncommitted s') = us_next_auth (uncommitted s)"
    "us_closed_sessions (uncommitted s') = us_closed_sessions (uncommitted s)"
    "auth_keys (uauths s' sid) = auth_keys (uauths s sid)"
    "committed_zxid s' = committed_zxid s" "uncommitted_transactions s' = uncommitted_transactions s"
    "initialized s' = initialized s" "session_expiry_queue_of s' = session_expiry_queue_of s"
    "watches s' = watches s" "list_watches s' = list_watches s" "sessions_and_watchers s' = sessions_and_watchers s"
proof -
  let ?e = "\<lambda>s. (uncommitted s)\<lparr>us_session_and_auth := Map.empty\<rparr>"
  have e: "?e s' = ?e s" using assms by (simp add: commit_frame_def)
  show "us_nodes (uncommitted s') = us_nodes (uncommitted s)"
    "us_zxid_to_nodes (uncommitted s') = us_zxid_to_nodes (uncommitted s)"
    "us_deltas (uncommitted s') = us_deltas (uncommitted s)"
    "us_ephemerals (uncommitted s') = us_ephemerals (uncommitted s)"
    "us_next_auth (uncommitted s') = us_next_auth (uncommitted s)"
    "us_closed_sessions (uncommitted s') = us_closed_sessions (uncommitted s)"
    using arg_cong [OF e, of us_nodes] arg_cong [OF e, of us_zxid_to_nodes] arg_cong [OF e, of us_deltas]
      arg_cong [OF e, of us_ephemerals] arg_cong [OF e, of us_next_auth] arg_cong [OF e, of us_closed_sessions]
    by simp_all
qed (use assms in \<open>simp_all add: commit_frame_def\<close>)

fun error_of :: "operation \<Rightarrow> zk_error" where
  "error_of (ErrorDelta e) = e"
| "error_of _ = ZOK"

fun failed_multi_op :: "operation \<Rightarrow> bool" where
  "failed_multi_op (FailedMultiDelta _ _) = True"
| "failed_multi_op _ = False"

definition commits_to :: "delta \<Rightarrow> storage \<Rightarrow> storage \<Rightarrow> bool" where
  "commits_to d s s' \<longleftrightarrow> committed_inv s' \<and> cview s' = abs_delta d (cview s) \<and> commit_frame s s'
     \<and> acls_kept (if structural_op (delta_operation d) then {delta_path d} else {}) s s'"

lemma cview_node:
  assumes "cview s p = Some a"
  obtains n where "find_node s p = Some n" "a = abs_node (acls_of (acl_map_of s) (mn_acl_id n)) n"
  using assms by (auto simp: cview_def)

lemma commit_frame_committed_to [simp]:
  "commit_frame s (committed_to s C D M N E)" "commit_frame s (s\<lparr>container := C, nodes_digest := D\<rparr>)"
  "commit_frame s (s\<lparr>acl_map_of := M, container := C\<rparr>)"
  by (simp_all add: commit_frame_def)

lemma acls_kept_mono: "acls_kept P s s' \<Longrightarrow> P \<subseteq> Q \<Longrightarrow> acls_kept Q s s'"
  by (auto simp: acls_kept_def)

lemma acls_kept_refl [simp]: "acls_kept P s s"
  by (auto simp: acls_kept_def)

lemma commit_create:
  assumes inv: "committed_inv s" and ok: "ok_op p (CreateNodeDelta st acls data) (cview s)"
    and d: "d = Delta p z (CreateNodeDelta st acls data)"
  obtains s' where "commit_delta ctx d s = Inr (ZOK, s')" "commits_to d s s'"
proof -
  obtain k m1 where conv: "convertACLs (acl_map_of s) acls = (k, m1)" by fastforce
  from ok obtain a where a: "cview s (parentOf p) = Some a" "\<not> isEphemeral (an_stats a)" by auto
  obtain par where par: "find_node s (parentOf p) = Some par" "\<not> isEphemeral (mn_stats par)"
    using a by (auto simp: cview_def abs_node_def)
  have p: "find_node s p = None" using ok by (simp add: cview_def)
  obtain C D N n where n: "createNode p data st acls (kc_digest_enabled ctx \<and> kc_digest_enabled_on_commit ctx) s
      = Inr (True, committed_to s C D (addUsage m1 k) N (create_ephemerals s (st_ephemeralOwner st) p))"
    "map_of C = (map_of (container s))(p \<mapsto> n, parentOf p \<mapsto> addChild (getBaseNodeName p) par)"
    "same_node n (copy_node (setData data (node_copyStats st (default_node\<lparr>mn_acl_id := k\<rparr>))))"
    by (rule createNode_run [OF par p conv])
  have wf: "node_wf n" "mn_acl_id n = k" "ephemeralOwner (mn_stats n) = st_ephemeralOwner st" "mn_children n = []"
    using n(3) same_node_wf [OF n(3)]
    by (simp_all add: same_node_def node_copyStats_def default_node_def ephemeralOwner_copyStats)
  have path: "canonical_path p" "p \<noteq> [slash]" "find_node s x \<noteq> None \<Longrightarrow> parentOf x \<noteq> p" for x
    using ok by (simp_all add: cview_def)
  have abs: "abs_node acls n = create_anode st acls data"
    using same_node_abs [OF n(3)]
    by (simp add: abs_node_def create_anode_def data_anode_def node_copyStats_def default_node_def)
  note tree = commit_create_tree [OF inv p par(1) refl refl path conv n(2) wf refl, where D = D and N = N]
  show ?thesis
  proof (rule that)
    show "commit_delta ctx d s = Inr (ZOK, committed_to s C D (addUsage m1 k) N (create_ephemerals s (st_ephemeralOwner st) p))"
      using n(1) by (simp add: commit_delta_def d)
    show "commits_to d s (committed_to s C D (addUsage m1 k) N (create_ephemerals s (st_ephemeralOwner st) p))"
      using tree(1,2) acls_kept_mono [OF tree(3)] by (simp add: commits_to_def d abs_delta_def abs)
  qed
qed

lemma commit_remove:
  assumes inv: "committed_inv s" and ok: "ok_op p (RemoveNodeDelta version st acls data) (cview s)"
    and d: "d = Delta p z (RemoveNodeDelta version st acls data)"
  obtains s' where "commit_delta ctx d s = Inr (ZOK, s')" "commits_to d s s'"
proof -
  from ok obtain a where a: "cview s p = Some a" "version_ok version (ns_version (an_stats a))"
    "cview s (parentOf p) \<noteq> None" "parentOf p \<noteq> p" by auto
  obtain n where n: "find_node s p = Some n" "version_ok version (ns_version (mn_stats n))"
    using a(1,2) by (auto simp: cview_def abs_node_def)
  obtain par where par: "find_node s (parentOf p) = Some par"
    using a(3) by (auto simp: cview_def)
  have root: "p \<noteq> [slash]" using a(4) by auto
  have eph: "ephemeralOwner (mn_stats n) \<noteq> 0 \<Longrightarrow> p \<in> set (bucket (committed_ephemerals s) (ephemeralOwner (mn_stats n)))"
    using inv n(1) by (simp add: committed_inv_def ephemerals_exact_def)
  obtain C D N E where r: "removeNode p version (kc_digest_enabled ctx \<and> kc_digest_enabled_on_commit ctx) s
      = Inr (True, committed_to s C D (removeUsage (acl_map_of s) (mn_acl_id n)) N E)"
    "map_of C = ((map_of (container s))(parentOf p \<mapsto> removeChild (getBaseNodeName p) par))(p := None)"
    "\<forall>sid. set (bucket E sid) = set (bucket (committed_ephemerals s) sid)
        - (if sid = ephemeralOwner (mn_stats n) \<and> sid \<noteq> 0 then {p} else {})"
    by (rule removeNode_run [OF n(1) par a(4) n(2) eph])
  note tree = commit_remove_tree [OF inv n(1) par a(4) refl refl root r(2,3) refl, where D = D and N = N]
  show ?thesis
    by (rule that [of "committed_to s C D (removeUsage (acl_map_of s) (mn_acl_id n)) N E"])
      (use r(1) tree in \<open>simp_all add: commit_delta_def d commits_to_def abs_delta_def\<close>)
qed

lemma commit_stat:
  assumes inv: "committed_inv s" and ok: "ok_op p (UpdateNodeStatDelta old new version) (cview s)"
    and d: "d = Delta p z (UpdateNodeStatDelta old new version)"
  obtains s' where "commit_delta ctx d s = Inr (ZOK, s')" "commits_to d s s'"
proof -
  from ok obtain n where n: "find_node s p = Some n" "version_ok version (ns_version (mn_stats n))"
    "ns_data_size new \<le> length (getData n)" "ephemeralOwner new = ephemeralOwner (mn_stats n)"
    by (auto simp: cview_def abs_node_def)
  have wf: "node_wf n" using inv n(1) by (simp add: committed_inv_def container_wf_def)
  have size: "ns_data_size new \<le> ns_data_size (mn_stats n)" using n(3) length_getData [OF wf] by simp
  let ?change = "\<lambda>n. n\<lparr>mn_stats := new\<rparr>"
  obtain C D n' where r: "commit_update (kc_digest_enabled ctx \<and> kc_digest_enabled_on_commit ctx) p version ?change s
      = Inr (ZOK, s\<lparr>container := C, nodes_digest := D\<rparr>)"
    "map_of C = (map_of (container s))(p \<mapsto> n')" "same_node n' (?change n)"
    by (rule commit_update_spec [OF n(1,2) same_node_stats])
  have n': "node_wf n'" "mn_acl_id n' = mn_acl_id n" "ephemeralOwner (mn_stats n') = ephemeralOwner (mn_stats n)"
    "mn_children n' = mn_children n"
    using r(3) same_node_wf [OF r(3)] abs_node_stats(2) [OF wf size] n(4) by (simp_all add: same_node_def)
  have abs: "abs_node a n' = stat_anode new (abs_node a n)" for a
    using same_node_abs [OF r(3)] abs_node_stats(1) [OF wf size] by simp
  note tree = commit_update_tree [OF inv n(1) r(2) n' refl, where D = D]
  show ?thesis
    by (rule that [of "s\<lparr>container := C, nodes_digest := D\<rparr>"])
      (use r(1) tree n(1) abs in \<open>simp_all add: commit_delta_def d commits_to_def abs_delta_def cview_def\<close>)
qed

lemma commit_data:
  assumes inv: "committed_inv s" and ok: "ok_op p (UpdateNodeDataDelta old new version) (cview s)"
    and d: "d = Delta p z (UpdateNodeDataDelta old new version)"
  obtains s' where "commit_delta ctx d s = Inr (ZOK, s')" "commits_to d s s'"
proof -
  from ok obtain n where n: "find_node s p = Some n" "version_ok version (ns_version (mn_stats n))"
    by (auto simp: cview_def abs_node_def)
  obtain C D n' where r: "commit_update (kc_digest_enabled ctx \<and> kc_digest_enabled_on_commit ctx) p version (setData new) s
      = Inr (ZOK, s\<lparr>container := C, nodes_digest := D\<rparr>)"
    "map_of C = (map_of (container s))(p \<mapsto> n')" "same_node n' (setData new n)"
    by (rule commit_update_spec [OF n(1,2) same_node_setData])
  have n': "node_wf n'" "mn_acl_id n' = mn_acl_id n" "ephemeralOwner (mn_stats n') = ephemeralOwner (mn_stats n)"
    "mn_children n' = mn_children n"
    using r(3) same_node_wf [OF r(3)] by (simp_all add: same_node_def)
  have abs: "abs_node a n' = data_anode new (abs_node a n)" for a
    using same_node_abs [OF r(3)] by (simp add: abs_node_def data_anode_def)
  note tree = commit_update_tree [OF inv n(1) r(2) n' refl, where D = D]
  show ?thesis
    by (rule that [of "s\<lparr>container := C, nodes_digest := D\<rparr>"])
      (use r(1) tree n(1) abs in \<open>simp_all add: commit_delta_def d commits_to_def abs_delta_def cview_def\<close>)
qed

lemma commit_set_acl:
  assumes inv: "committed_inv s" and ok: "ok_op p (SetACLDelta old new version) (cview s)"
    and d: "d = Delta p z (SetACLDelta old new version)"
  obtains s' where "commit_delta ctx d s = Inr (ZOK, s')" "commits_to d s s'"
proof -
  from ok obtain n where n: "find_node s p = Some n" "version_ok version (ns_aversion (mn_stats n))"
    by (auto simp: cview_def abs_node_def)
  obtain k m2 where conv: "convertACLs (removeUsage (acl_map_of s) (mn_acl_id n)) new = (k, m2)" by fastforce
  let ?s = "s\<lparr>acl_map_of := addUsage m2 k, container := AList.update p (n\<lparr>mn_acl_id := k\<rparr>) (container s)\<rparr>"
  note tree = commit_set_acl_tree [OF inv n(1) conv refl]
  have "commit_delta ctx d s = Inr (ZOK, ?s)"
    using n conv by (auto simp: commit_delta_def d version_ok_def updateValue_def find_node_def Let_def)
  moreover have "commits_to d s ?s"
    using tree n(1) by (simp add: d commits_to_def abs_delta_def cview_def abs_node_def)
  ultimately show ?thesis by (rule that)
qed

lemma auth_keys_move_out: "auth_keys (uauths (move_out_auth ptr s) sid) = auth_keys (uauths s sid)"
  by (auto simp: move_out_auth_def bucket_def split: option.split)

lemma commit_no_path:
  assumes inv: "committed_inv s" and ok: "ok_delta d (cview s)" and p: "delta_path d = []"
    and multi: "\<not> failed_multi_op (delta_operation d)"
  obtains s' where "commit_delta ctx d s = Inr (error_of (delta_operation d), s')" "commits_to d s s'"
proof -
  have view: "abs_delta d (cview s) = cview s" by (rule abs_delta_no_path [OF ok p])
  show ?thesis
  proof (cases "delta_operation d")
    case (AddAuthDelta sid ptr auth)
    let ?s1 = "s\<lparr>committed_session_and_auth :=
      (committed_session_and_auth s)(sid \<mapsto> bucket (committed_session_and_auth s) sid @ [auth])\<rparr>"
    let ?s = "move_out_auth ptr ?s1"
    have f: "find_node ?s = find_node s" "acl_map_of ?s = acl_map_of s" "committed_ephemerals ?s = committed_ephemerals s"
      by (simp_all add: move_out_auth_def find_node_def fun_eq_iff)
    have "committed_inv ?s"
      using inv committed_inv_cong [OF f] by blast
    moreover have "cview ?s = cview s" unfolding cview_def f ..
    moreover have "commit_frame s ?s"
      using auth_keys_move_out [of ptr ?s1] by (simp add: commit_frame_def move_out_auth_def)
    ultimately show ?thesis
      using that [of ?s] AddAuthDelta view f by (simp add: commit_delta_def commits_to_def acls_kept_def)
  qed (use that [of s] inv ok p multi view in \<open>simp_all add: commit_delta_def commits_to_def ok_delta_def\<close>)
qed

lemma commit_delta_spec:
  assumes inv: "committed_inv s" and ok: "ok_delta d (cview s)" and multi: "\<not> failed_multi_op (delta_operation d)"
  obtains s' where "commit_delta ctx d s = Inr (error_of (delta_operation d), s')" "commits_to d s s'"
proof (cases "delta_path d = []")
  case True
  then show ?thesis using commit_no_path [OF inv ok _ multi] that by blast
next
  case False
  obtain p z op where d: "d = Delta p z op" by (cases d)
  show ?thesis
  proof (cases op)
    case (CreateNodeDelta st a data)
    note op = this
    have "ok_op p op (cview s)" using ok d by (simp add: ok_delta_def)
    with op obtain s' where "commit_delta ctx d s = Inr (ZOK, s')" "commits_to d s s'"
      using commit_create [OF inv _ d [unfolded op]] by metis
    with d op that show ?thesis by simp
  next
    case (RemoveNodeDelta v st a data)
    note op = this
    have "ok_op p op (cview s)" using ok d by (simp add: ok_delta_def)
    with op obtain s' where "commit_delta ctx d s = Inr (ZOK, s')" "commits_to d s s'"
      using commit_remove [OF inv _ d [unfolded op]] by metis
    with d op that show ?thesis by simp
  next
    case (UpdateNodeStatDelta old new v)
    note op = this
    have "ok_op p op (cview s)" using ok d by (simp add: ok_delta_def)
    with op obtain s' where "commit_delta ctx d s = Inr (ZOK, s')" "commits_to d s s'"
      using commit_stat [OF inv _ d [unfolded op]] by metis
    with d op that show ?thesis by simp
  next
    case (UpdateNodeDataDelta old new v)
    note op = this
    have "ok_op p op (cview s)" using ok d by (simp add: ok_delta_def)
    with op obtain s' where "commit_delta ctx d s = Inr (ZOK, s')" "commits_to d s s'"
      using commit_data [OF inv _ d [unfolded op]] by metis
    with d op that show ?thesis by simp
  next
    case (SetACLDelta old new v)
    note op = this
    have "ok_op p op (cview s)" using ok d by (simp add: ok_delta_def)
    with op obtain s' where "commit_delta ctx d s = Inr (ZOK, s')" "commits_to d s s'"
      using commit_set_acl [OF inv _ d [unfolded op]] by metis
    with d op that show ?thesis by simp
  qed (use ok False d in \<open>simp_all add: ok_delta_def\<close>)
qed

end
