(* ===== verification/Keeper_Sync.thy ===== *)
theory Keeper_Sync
  imports Keeper_Commit_Refine
begin

section \<open>The uncommitted tree is the committed tree plus the pending deltas\<close>

text \<open>
  The central invariant of the storage: what the request handlers see is the committed tree with
  the pending deltas applied, and the pending deltas fit the committed tree. Committing the oldest
  delta, rolling back the newest ones and dropping cache entries of committed transactions all
  keep it.
\<close>

definition sync :: "delta list \<Rightarrow> storage \<Rightarrow> bool" where
  "sync ds s \<longleftrightarrow> cache_inv s \<and> uview s = abs_deltas ds (cview s) \<and> ok_deltas ds (cview s)
     \<and> (\<forall>d\<in>set ds. delta_path d \<noteq> [] \<longrightarrow> delta_zxid d \<in> applied_to s (delta_path d))
     \<and> (\<forall>d\<in>set ds. structural_op (delta_operation d) \<longrightarrow> acl_loaded s (delta_path d))
     \<and> auths_end ds s"

lemma syncD:
  assumes "sync ds s"
  shows "cache_inv s" "uview s = abs_deltas ds (cview s)" "ok_deltas ds (cview s)" "auths_end ds s"
    "d \<in> set ds \<Longrightarrow> delta_path d \<noteq> [] \<Longrightarrow> delta_zxid d \<in> applied_to s (delta_path d)"
    "d \<in> set ds \<Longrightarrow> structural_op (delta_operation d) \<Longrightarrow> acl_loaded s (delta_path d)"
  using assms by (simp_all add: sync_def)

subsection \<open>Committing the oldest delta\<close>

lemma entry_view_kept:
  assumes kept: "acls_kept P s s'" and ok: "entry_ok s q e" and q: "q \<in> P \<Longrightarrow> un_acls e \<noteq> None"
  shows "entry_view (acl_map_of s') e = entry_view (acl_map_of s) e" "entry_ok s' q e"
proof -
  have none: "\<exists>c c'. find_node s q = Some c \<and> mn_acl_id c = mn_acl_id n \<and> find_node s' q = Some c' \<and> mn_acl_id c' = mn_acl_id n
      \<and> acls_of (acl_map_of s') (mn_acl_id n) = acls_of (acl_map_of s) (mn_acl_id n)"
    if "un_acls e = None" "un_node e = Some n" for n
  proof -
    note e = that
    obtain c where c: "find_node s q = Some c" "mn_acl_id c = mn_acl_id n"
      using ok e by (auto simp: entry_ok_def)
    with kept q e obtain c' where "find_node s' q = Some c'" "mn_acl_id c' = mn_acl_id c"
      "acls_of (acl_map_of s') (mn_acl_id c) = acls_of (acl_map_of s) (mn_acl_id c)"
      unfolding acls_kept_def by blast
    with c show ?thesis by auto
  qed
  show "entry_view (acl_map_of s') e = entry_view (acl_map_of s) e"
    using none by (cases "un_acls e"; cases "un_node e") (auto simp: entry_view_def)
  show "entry_ok s' q e"
    using none ok by (cases "un_acls e"; cases "un_node e") (auto simp: entry_ok_def)
qed

lemma sync_commit:
  assumes sync: "sync (d # ds) s" and com: "commits_to d s s'"
  shows "sync ds s'" "uview s' = uview s"
proof -
  have frame: "commit_frame s s'" and kept: "acls_kept (if structural_op (delta_operation d) then {delta_path d} else {}) s s'"
    and view: "cview s' = abs_delta d (cview s)"
    using com by (simp_all add: commits_to_def)
  have entry: "find_entry s' = find_entry s"
    using commit_frameD(1) [OF frame] by (simp add: find_entry_def fun_eq_iff)
  have keep: "entry_view (acl_map_of s') e = entry_view (acl_map_of s) e" "entry_ok s' q e"
    if "find_entry s q = Some e" for q e
  proof -
    have "un_acls e \<noteq> None" if "q \<in> (if structural_op (delta_operation d) then {delta_path d} else {})"
      using syncD(6) [OF sync, of d] that \<open>find_entry s q = Some e\<close> by (auto simp: acl_loaded_def split: if_splits)
    then show "entry_view (acl_map_of s') e = entry_view (acl_map_of s) e" "entry_ok s' q e"
      using entry_view_kept [OF kept cache_invD [OF syncD(1) [OF sync] that]] by auto
  qed
  show uview: "uview s' = uview s"
  proof
    fix q
    show "uview s' q = uview s q"
    proof (cases "find_entry s q")
      case (Some e)
      then show ?thesis using keep [OF Some] entry by (simp add: uview_present)
    next
      case None
      have "q \<noteq> delta_path d \<or> delta_path d = []"
        using syncD(5) [OF sync list.set_intros(1)] None applied_to_entry [of "delta_zxid d" s "delta_path d"] by blast
      then have "abs_delta d (cview s) q = cview s q"
        using abs_delta_other [of q d] abs_delta_no_path [of d "cview s"] syncD(3) [OF sync] by (cases "delta_path d = []") auto
      then show ?thesis using None entry view by (simp add: uview_absent)
    qed
  qed
  have "tracking_ok (uncommitted s') = tracking_ok (uncommitted s)"
    unfolding tracking_ok_def commit_frameD(1,2) [OF frame] ..
  then have "cache_inv s'"
    using syncD(1) [OF sync] keep(2) commit_frameD(1) [OF frame]
    by (simp add: cache_inv_def entry)
  moreover have "auths_end ds s'"
    unfolding auths_end_def
  proof
    fix sid
    obtain older where "auth_keys (uauths s sid) = older @ auth_keys (auths_of sid (d # ds))"
      using syncD(4) [OF sync] unfolding auths_end_def by blast
    then show "\<exists>older. auth_keys (uauths s' sid) = older @ auth_keys (auths_of sid ds)"
      using commit_frameD(7) [OF frame, of sid] by auto
  qed
  ultimately show "sync ds s'"
    using syncD [OF sync] view uview by (simp add: sync_def entry applied_to_def acl_loaded_def)
qed

text \<open>After a delta with an error nothing is left to commit.\<close>

fun stops :: "delta list \<Rightarrow> bool" where
  "stops [] = True"
| "stops (d # ds) = (if error_of (delta_operation d) \<noteq> ZOK
     then (\<forall>x\<in>set ds. delta_path x = [] \<and> delta_operation x = SubDeltaEnd) else stops ds)"

definition first_error :: "delta list \<Rightarrow> zk_error" where
  "first_error ds = (case find (\<lambda>d. error_of (delta_operation d) \<noteq> ZOK) ds of None \<Rightarrow> ZOK | Some d \<Rightarrow> error_of (delta_operation d))"

lemma first_error_simps [simp]:
  "first_error [] = ZOK"
  "first_error (d # ds) = (if error_of (delta_operation d) \<noteq> ZOK then error_of (delta_operation d) else first_error ds)"
  by (simp_all add: first_error_def)

lemma ends_trivial:
  assumes "\<forall>x\<in>set ds. delta_path x = [] \<and> delta_operation x = SubDeltaEnd"
  shows "abs_deltas ds t = t" "auths_of sid ds = []"
proof -
  show "abs_deltas ds t = t"
    using assms by (induction ds) (simp_all add: abs_delta_def)
  have "auth_of sid x = []" if "x \<in> set ds" for x
    using assms that by (cases x) auto
  then show "auths_of sid ds = []" by (auto simp: auths_of_def)
qed

lemma sync_drop_ends:
  assumes "sync (ds @ rest) s" "\<forall>x\<in>set ds. delta_path x = [] \<and> delta_operation x = SubDeltaEnd"
  shows "sync rest s"
  using assms(1) ends_trivial [OF assms(2)]
  by (auto simp: sync_def ok_deltas_append auths_end_def)

lemma commit_sync:
  assumes "sync (ds @ rest) s" "committed_inv s" "stops ds" "\<forall>d\<in>set ds. \<not> failed_multi_op (delta_operation d)"
  obtains s' where "commit ctx ds s = Inr (first_error ds, s')" "sync rest s'" "committed_inv s'" "uview s' = uview s"
    "cview s' = abs_deltas ds (cview s)" "commit_frame s s'"
  using assms
proof (induction ds arbitrary: s thesis)
  case Nil
  then show ?case by simp
next
  case (Cons d ds)
  have d: "ok_delta d (cview s)" "\<not> failed_multi_op (delta_operation d)"
    using syncD(3) [OF Cons.prems(2)] Cons.prems(5) by simp_all
  obtain s1 where s1: "commit_delta ctx d s = Inr (error_of (delta_operation d), s1)" "commits_to d s s1"
    by (rule commit_delta_spec [OF Cons.prems(3) d])
  have sync1: "sync (ds @ rest) s1" "uview s1 = uview s"
    using sync_commit [of d "ds @ rest" s s1] Cons.prems(2) s1(2) by simp_all
  have inv1: "committed_inv s1" "cview s1 = abs_delta d (cview s)" "commit_frame s s1"
    using s1(2) by (simp_all add: commits_to_def)
  show ?case
  proof (cases "error_of (delta_operation d) = ZOK")
    case True
    obtain s2 where s2: "commit ctx ds s1 = Inr (first_error ds, s2)" "sync rest s2" "committed_inv s2" "uview s2 = uview s1"
      "cview s2 = abs_deltas ds (cview s1)" "commit_frame s1 s2"
      by (rule Cons.IH [OF _ sync1(1) inv1(1)]) (use Cons.prems(4,5) True in simp_all)
    show ?thesis
      by (rule Cons.prems(1) [of s2]) (use True s1 s2 sync1 inv1 in \<open>auto intro: commit_frame_trans\<close>)
  next
    case False
    then have ends: "\<forall>x\<in>set ds. delta_path x = [] \<and> delta_operation x = SubDeltaEnd"
      using Cons.prems(4) by simp
    show ?thesis
      by (rule Cons.prems(1) [of s1])
        (use False s1 sync1 inv1 sync_drop_ends [OF sync1(1) ends] ends_trivial(1) [OF ends] in simp_all)
  qed
qed

subsection \<open>Dropping the entries of committed transactions\<close>

text \<open>How \<open>cleanup\<close> may change an entry of the cache.\<close>

definition cleaned :: "int \<Rightarrow> uncommitted_node option \<Rightarrow> uncommitted_node option \<Rightarrow> bool" where
  "cleaned c x x' \<longleftrightarrow>
     (case x' of
        None \<Rightarrow> (\<forall>e. x = Some e \<longrightarrow> (\<forall>z\<in>set (un_applied_zxids e). z \<le> c))
      | Some e' \<Rightarrow> (\<exists>e. x = Some e \<and> un_node e' = un_node e \<and> un_acls e' = un_acls e
           \<and> (\<forall>z\<in>set (un_applied_zxids e). c < z \<longrightarrow> z \<in> set (un_applied_zxids e'))
           \<and> set (un_applied_zxids e') \<subseteq> set (un_applied_zxids e)))"

lemma cleaned_refl [simp]: "cleaned c x x"
  by (auto simp: cleaned_def split: option.split)

lemma cleaned_trans: "cleaned c x y \<Longrightarrow> cleaned c y z \<Longrightarrow> cleaned c x z"
  by (cases x; cases y; cases z) (force simp: cleaned_def)+

text \<open>The iterators that are left point to entries of the cache.\<close>

definition tracks :: "(int \<times> path list) list \<Rightarrow> (path \<times> uncommitted_node) list \<Rightarrow> bool" where
  "tracks z2n nodes \<longleftrightarrow>
     omap_wf z2n \<and> list_all (\<lambda>b. 0 \<le> fst b \<and> distinct (snd b)) z2n
     \<and> (\<forall>z p. p \<in> set (bucket (map_of z2n) z) \<longrightarrow>
          (\<exists>e. map_of nodes p = Some e \<and> (z \<noteq> 0 \<longrightarrow> z \<in> set (un_applied_zxids e))))"

lemma tracking_ok_tracks: "tracking_ok u \<longleftrightarrow> tracks (us_zxid_to_nodes u) (us_nodes u)"
  unfolding tracking_ok_def tracks_def ..

lemma cleanup_nodes:
  assumes "distinct ps" "\<forall>p\<in>set ps. map_of nodes p \<noteq> None" "distinct (map fst nodes)"
  obtains nodes' where "res_fold (cleanup_node z) ps nodes = Inr nodes'" "distinct (map fst nodes')"
    "\<forall>q. q \<notin> set ps \<longrightarrow> map_of nodes' q = map_of nodes q"
    "\<forall>q\<in>set ps. \<exists>e. map_of nodes q = Some e \<and> map_of nodes' q =
       (if uset_erase z (un_applied_zxids e) = [] then None
        else Some (e\<lparr>un_applied_zxids := uset_erase z (un_applied_zxids e)\<rparr>))"
  using assms
proof (induction ps arbitrary: nodes thesis)
  case Nil
  then show ?case by simp
next
  case (Cons p ps)
  obtain e where e: "map_of nodes p = Some e" using Cons.prems(3) by auto
  let ?a = "uset_erase z (un_applied_zxids e)"
  define nodes1 where "nodes1 = (if ?a = [] then AList.delete p nodes else AList.update p (e\<lparr>un_applied_zxids := ?a\<rparr>) nodes)"
  have n1: "cleanup_node z p nodes = Inr nodes1" using e by (simp add: cleanup_node_def nodes1_def Let_def)
  have m1: "map_of nodes1 = (map_of nodes)(p := if ?a = [] then None else Some (e\<lparr>un_applied_zxids := ?a\<rparr>))"
    by (simp add: nodes1_def map_of_alist_delete map_of_alist_update)
  have d1: "distinct (map fst nodes1)"
    unfolding nodes1_def using Cons.prems(4) by (simp add: distinct_alist_update distinct_alist_delete)
  have p1: "\<forall>q\<in>set ps. map_of nodes1 q \<noteq> None"
    using Cons.prems(2,3) by (auto simp: m1)
  obtain nodes2 where n2: "res_fold (cleanup_node z) ps nodes1 = Inr nodes2" "distinct (map fst nodes2)"
    "\<forall>q. q \<notin> set ps \<longrightarrow> map_of nodes2 q = map_of nodes1 q"
    "\<forall>q\<in>set ps. \<exists>e. map_of nodes1 q = Some e \<and> map_of nodes2 q =
       (if uset_erase z (un_applied_zxids e) = [] then None
        else Some (e\<lparr>un_applied_zxids := uset_erase z (un_applied_zxids e)\<rparr>))"
    by (rule Cons.IH [OF _ _ p1 d1]) (use Cons.prems(2) in auto)
  have "res_fold (cleanup_node z) (p # ps) nodes = Inr nodes2"
    using n1 n2(1) by simp
  moreover have "map_of nodes1 q = map_of nodes q" if "q \<in> set ps" for q
    using that Cons.prems(2) by (auto simp: m1)
  ultimately show ?case
    using Cons.prems(1) [of nodes2] n2(2-4) e Cons.prems(2) by (simp add: m1)
qed

lemma cleanup_bucket:
  assumes tr: "tracks ((z, ps) # rest) nodes" and z: "z \<le> c" and d: "distinct (map fst nodes)"
  obtains nodes' where "res_fold (cleanup_node z) ps nodes = Inr nodes'" "tracks rest nodes'" "distinct (map fst nodes')"
    "\<forall>q. cleaned c (map_of nodes q) (map_of nodes' q)"
proof -
  have wf: "\<forall>b\<in>set rest. z < fst b" "omap_wf rest" "list_all (\<lambda>b. 0 \<le> fst b \<and> distinct (snd b)) rest" "distinct ps" "0 \<le> z"
    using tr by (auto simp: tracks_def omap_wf_Cons)
  have own: "\<exists>e. map_of nodes p = Some e" if "p \<in> set ps" for p
    using tr that unfolding tracks_def by (force simp: bucket_def dest: spec [of _ z])
  obtain nodes' where n': "res_fold (cleanup_node z) ps nodes = Inr nodes'" "distinct (map fst nodes')"
    "\<forall>q. q \<notin> set ps \<longrightarrow> map_of nodes' q = map_of nodes q"
    "\<forall>q\<in>set ps. \<exists>e. map_of nodes q = Some e \<and> map_of nodes' q =
       (if uset_erase z (un_applied_zxids e) = [] then None
        else Some (e\<lparr>un_applied_zxids := uset_erase z (un_applied_zxids e)\<rparr>))"
    by (rule cleanup_nodes [OF wf(4) _ d]) (use own in auto)
  have empty: "uset_erase z xs = [] \<longleftrightarrow> set xs \<subseteq> {z}" for xs :: "int list"
    using set_uset_erase [of z xs] by (metis Diff_eq_empty_iff set_empty)
  have cl: "cleaned c (map_of nodes q) (map_of nodes' q)" for q
  proof (cases "q \<in> set ps")
    case True
    then obtain e where "map_of nodes q = Some e" "map_of nodes' q =
       (if uset_erase z (un_applied_zxids e) = [] then None else Some (e\<lparr>un_applied_zxids := uset_erase z (un_applied_zxids e)\<rparr>))"
      using n'(4) by blast
    then show ?thesis using z by (auto simp: cleaned_def empty)
  qed (use n'(3) in simp)
  have "\<exists>e. map_of nodes' p = Some e \<and> (y \<noteq> 0 \<longrightarrow> y \<in> set (un_applied_zxids e))" if p: "p \<in> set (bucket (map_of rest) y)" for y p
  proof -
    have y: "z < y"
      using p wf(1) by (cases "map_of rest y") (force simp: bucket_def dest: map_of_SomeD)+
    then have "p \<in> set (bucket (map_of ((z, ps) # rest)) y)" using p by (simp add: bucket_def)
    then obtain e where e: "map_of nodes p = Some e" "y \<in> set (un_applied_zxids e)"
      using tr y wf(5) unfolding tracks_def by fastforce
    show ?thesis
    proof (cases "p \<in> set ps")
      case True
      then have "map_of nodes' p = (if uset_erase z (un_applied_zxids e) = [] then None
          else Some (e\<lparr>un_applied_zxids := uset_erase z (un_applied_zxids e)\<rparr>))"
        using n'(4) e(1) by force
      moreover have "uset_erase z (un_applied_zxids e) \<noteq> []" using e(2) y by (auto simp: empty)
      ultimately show ?thesis using e(2) y by simp
    qed (use n'(3) e in simp)
  qed
  then have "tracks rest nodes'"
    using wf by (simp add: tracks_def)
  then show ?thesis using that n'(1,2) cl by blast
qed

lemma cleanup_loop_spec:
  assumes "tracks z2n nodes" "distinct (map fst nodes)"
  obtains z2n' nodes' where "cleanup_loop c z2n nodes = Inr (z2n', nodes')" "tracks z2n' nodes'" "distinct (map fst nodes')"
    "\<forall>q. cleaned c (map_of nodes q) (map_of nodes' q)"
  using assms
proof (induction c z2n nodes arbitrary: thesis rule: cleanup_loop.induct)
  case (1 c nodes)
  then show ?case by simp
next
  case (2 c z ps rest nodes)
  show ?case
  proof (cases "z > c")
    case True
    then show ?thesis using 2 by simp
  next
    case False
    obtain n1 where n1: "res_fold (cleanup_node z) ps nodes = Inr n1" "tracks rest n1" "distinct (map fst n1)"
      "\<forall>q. cleaned c (map_of nodes q) (map_of n1 q)"
      by (rule cleanup_bucket [OF 2(3) _ 2(4), of c]) (use False in auto)
    obtain z2 n2 where n2: "cleanup_loop c rest n1 = Inr (z2, n2)" "tracks z2 n2" "distinct (map fst n2)"
      "\<forall>q. cleaned c (map_of n1 q) (map_of n2 q)"
      by (rule 2(1) [OF False _ n1(2,3)])
    have "\<forall>q. cleaned c (map_of nodes q) (map_of n2 q)"
      using n1(4) n2(4) cleaned_trans by blast
    with False n1 n2 show ?thesis
      by (intro 2(2) [of z2 n2]) simp_all
  qed
qed

lemma abs_deltas_untouched:
  assumes "ok_deltas ds t" "\<forall>d\<in>set ds. delta_path d \<noteq> [] \<longrightarrow> delta_path d \<noteq> q"
  shows "abs_deltas ds t q = t q"
  using assms
proof (induction ds arbitrary: t)
  case (Cons d ds)
  then have "abs_deltas ds (abs_delta d t) q = abs_delta d t q" by simp
  also have "abs_delta d t q = t q"
    using Cons.prems abs_delta_no_path [of d t] abs_delta_other [of q d t] by (cases "delta_path d = []") auto
  finally show ?case by simp
qed simp

lemma cleanup_auths:
  assumes "auths_end ds s" "\<forall>d\<in>set ds. c < delta_zxid d"
  shows "\<exists>older. auth_keys (bucket (cleanup_auth c (us_session_and_auth (uncommitted s))) sid) = older @ auth_keys (auths_of sid ds)"
proof -
  have bucket: "bucket (cleanup_auth c m) sid = filter (\<lambda>a. \<not> fst a \<le> c) (bucket m sid)" for m
    by (auto simp: cleanup_auth_def bucket_def Let_def split: option.split)
  have keys: "auth_keys (filter (\<lambda>a. \<not> fst a \<le> c) xs) = filter (\<lambda>k. \<not> fst k \<le> c) (auth_keys xs)" for xs :: "(int \<times> nat \<times> auth_id) list"
    by (induction xs) auto
  have "\<forall>k\<in>set (auth_keys (auths_of sid ds)). \<not> fst k \<le> c"
    using assms(2)
  proof (induction ds)
    case (Cons d ds)
    have "\<forall>k\<in>set (auth_keys (auth_of sid d)). fst k = delta_zxid d"
      by (cases d; cases "delta_operation d") auto
    with Cons show ?case by auto
  qed simp
  then have "filter (\<lambda>k. \<not> fst k \<le> c) (auth_keys (auths_of sid ds)) = auth_keys (auths_of sid ds)"
    by (simp add: filter_id_conv)
  moreover obtain older where "auth_keys (uauths s sid) = older @ auth_keys (auths_of sid ds)"
    using assms(1) unfolding auths_end_def by blast
  ultimately show ?thesis
    by (auto simp: bucket keys)
qed

text \<open>\<open>cleanup\<close> never fails and keeps the invariant as long as it leaves the pending transactions alone.\<close>

lemma cleanup_sync:
  assumes sync: "sync ds s" and later: "\<forall>d\<in>set ds. c < delta_zxid d"
  obtains s' where "cleanup c s = Inr s'" "sync ds s'" "same_base s s'"
proof -
  let ?u = "uncommitted s"
  obtain Z N where run: "cleanup_loop c (us_zxid_to_nodes ?u) (us_nodes ?u) = Inr (Z, N)" "tracks Z N" "distinct (map fst N)"
    "\<forall>q. cleaned c (map_of (us_nodes ?u) q) (map_of N q)"
    by (rule cleanup_loop_spec [of "us_zxid_to_nodes ?u" "us_nodes ?u" c])
      (use syncD(1) [OF sync] in \<open>auto simp: cache_inv_def tracking_ok_tracks\<close>)
  define s' where "s' = s\<lparr>uncommitted := ?u\<lparr>us_zxid_to_nodes := Z, us_nodes := N,
     us_session_and_auth := cleanup_auth c (us_session_and_auth ?u)\<rparr>\<rparr>"
  have f: "find_entry s' q = map_of N q" "find_node s' q = find_node s q" "acl_map_of s' = acl_map_of s" "cview s' = cview s" for q
    by (simp_all add: s'_def find_entry_def find_node_def cview_def fun_eq_iff)
  have cl: "cleaned c (find_entry s q) (find_entry s' q)" for q
    using run(4) by (simp add: f(1)) (simp add: find_entry_def)
  have gone: "\<forall>d\<in>set ds. delta_path d \<noteq> [] \<longrightarrow> delta_path d \<noteq> q" if "find_entry s' q = None" for q
    using cl [of q] that syncD(5) [OF sync] later
    by (fastforce simp: cleaned_def applied_to_def split: option.splits)
  have view: "uview s' q = uview s q" for q
  proof (cases "find_entry s' q")
    case None
    then show ?thesis
      using abs_deltas_untouched [OF syncD(3) [OF sync] gone [OF None]] syncD(2) [OF sync] f(4) by (simp add: uview_absent)
  next
    case (Some e')
    then obtain e where "find_entry s q = Some e" "un_node e' = un_node e" "un_acls e' = un_acls e"
      using cl [of q] by (auto simp: cleaned_def)
    with Some show ?thesis using f(3) by (simp add: uview_present entry_view_def)
  qed
  have "entry_ok s' q e'" if "find_entry s' q = Some e'" for q e'
    using cl [of q] that cache_invD [OF syncD(1) [OF sync], of q] by (auto simp: cleaned_def entry_ok_def f(2) split: option.splits)
  then have "cache_inv s'"
    using run(2,3) by (simp add: cache_inv_def tracking_ok_tracks s'_def)
  moreover have "delta_zxid d \<in> applied_to s' (delta_path d)" if "d \<in> set ds" "delta_path d \<noteq> []" for d
    using syncD(5) [OF sync that] later that(1) cl [of "delta_path d"]
    by (fastforce simp: cleaned_def applied_to_def split: option.splits)
  moreover have "acl_loaded s' (delta_path d)" if "d \<in> set ds" "structural_op (delta_operation d)" for d
    using syncD(6) [OF sync that] gone [of "delta_path d"] that cl [of "delta_path d"] ok_deltas_member [OF syncD(3) [OF sync] that(1)]
    by (cases "find_entry s' (delta_path d)"; cases "delta_operation d") (auto simp: acl_loaded_def cleaned_def ok_delta_def)
  moreover have "auths_end ds s'"
    using cleanup_auths [OF syncD(4) [OF sync] later] by (simp add: auths_end_def s'_def)
  moreover have "uview s' = abs_deltas ds (cview s')" "ok_deltas ds (cview s')"
    unfolding f(4) using syncD(2,3) [OF sync] view by auto
  ultimately have "sync ds s'"
    by (simp add: sync_def)
  moreover have "cleanup c s = Inr s'"
    using run(1) by (simp add: cleanup_def s'_def)
  moreover have "same_base s s'"
    by (simp add: s'_def same_base_def base_def core_def)
  ultimately show ?thesis using that by blast
qed

subsection \<open>Loading, applying and rolling back\<close>

lemma tree_sized_cview: "committed_inv s \<Longrightarrow> tree_sized (cview s)"
  by (auto simp: committed_inv_def tree_sized_def cview_def container_wf_def)

lemma sync_sized: "sync ds s \<Longrightarrow> committed_inv s \<Longrightarrow> tree_sized (uview s)"
  using tree_sized_abs_deltas [OF tree_sized_cview] by (simp add: sync_def)

lemma auths_end_same: "uauths s' = uauths s \<Longrightarrow> auths_end ds s' = auths_end ds s"
  by (simp add: auths_end_def)

lemma sync_loads:
  assumes "sync ds s" "loads s s'"
  shows "sync ds s'"
  using assms loadsD [OF assms(2)] same_core_views(2) [OF loadsD(1) [OF assms(2)]]
    auths_end_same [OF same_core_uauths [OF loadsD(1) [OF assms(2)]]]
  by (simp add: sync_def)

lemma sync_applied:
  assumes "sync ds s" "applied new s s'" "ok_deltas new (uview s)"
  shows "sync (ds @ new) s'"
proof -
  note a = appliedD [OF assms(2)]
  have cv: "cview s' = cview s" by (rule same_base_views(2) [OF a(1)])
  have "auths_end (ds @ new) s'"
    unfolding auths_end_def
  proof
    fix sid
    obtain older where "auth_keys (uauths s sid) = older @ auth_keys (auths_of sid ds)"
      using syncD(4) [OF assms(1)] unfolding auths_end_def by blast
    then show "\<exists>older. auth_keys (uauths s' sid) = older @ auth_keys (auths_of sid (ds @ new))"
      using a(7) [of sid] by simp
  qed
  moreover have "delta_zxid d \<in> applied_to s' (delta_path d)" if "d \<in> set (ds @ new)" "delta_path d \<noteq> []" for d
    using that syncD(5) [OF assms(1), of d] a(5) [of d] keeps_cacheD(3) [OF a(3)] by auto
  moreover have "acl_loaded s' (delta_path d)" if "d \<in> set (ds @ new)" "structural_op (delta_operation d)" for d
    using that syncD(6) [OF assms(1), of d] a(6) [of d] keeps_cacheD(2) [OF a(3)] by auto
  moreover have "uview s' = abs_deltas (ds @ new) (cview s')" "ok_deltas (ds @ new) (cview s')"
    unfolding cv using a(2) syncD(2,3) [OF assms(1)] assms(3) by (simp_all add: ok_deltas_append)
  ultimately show ?thesis
    using a(4) by (simp add: sync_def)
qed

text \<open>The deltas at the end of the pending list can be rolled back.\<close>

lemma rollbackable_sync:
  assumes "sync (ds @ undo) s"
  shows "rollbackable ds undo s (uview s)"
  unfolding rollbackable_def
proof (intro conjI ballI impI)
  show "undoable (rev undo) (uview s)"
    using undoable_applied [of undo "abs_deltas ds (cview s)"] syncD(2,3) [OF assms] by (simp add: ok_deltas_append)
  show "auths_end (ds @ undo) s" by (rule syncD(4) [OF assms])
  fix d assume d: "d \<in> set undo"
  show "find_entry s (delta_path d) \<noteq> None" if "delta_path d \<noteq> []"
    using syncD(5) [OF assms, of d] d that applied_to_entry by auto
  show "undo_delta d = id" if "delta_path d = []"
    using ok_deltas_member [OF syncD(3) [OF assms], of d] d that undo_delta_no_path by auto
  show "acl_loaded s (delta_path d)" if "create_op (delta_operation d)"
    using syncD(6) [OF assms, of d] d create_structural [OF that] by simp
qed (rule syncD(1) [OF assms], rule shows_tree_uview)

lemma rollback_sync:
  assumes sync: "sync (ds @ undo) s" and inv: "committed_inv s" and rev: "reverts undo (abs_deltas ds (cview s))"
    and other: "\<forall>d\<in>set ds. delta_zxid d \<notin> delta_zxid ` set undo"
  obtains s' where "rollback_deltas undo s = Inr s'" "sync ds s'" "same_committed s s'"
proof -
  obtain s' where s': "rollback_deltas undo s = Inr s'" "same_committed s s'" "rolled s s'"
    "shows_tree s' (undo_deltas (rev undo) (uview s))" "\<forall>q. applied_to s q - delta_zxid ` set undo \<subseteq> applied_to s' q"
    "auths_end ds s'"
    by (rule rollback_deltas_spec [OF rollbackable_sync [OF sync]])
  have ok: "ok_deltas ds (cview s)" using syncD(3) [OF sync] by (simp add: ok_deltas_append)
  have t: "undo_deltas (rev undo) (uview s) = abs_deltas ds (cview s)"
    using rev syncD(2) [OF sync] by (simp add: reverts_def)
  have view: "uview s' = abs_deltas ds (cview s)"
    using uview_shows_tree [OF s'(4)] tree_sized_abs_deltas [OF tree_sized_cview [OF inv] ok] unfolding t by blast
  have cv: "cview s' = cview s"
    using same_committedD(1,2) [OF s'(2)] by (simp add: cview_def find_node_def fun_eq_iff)
  have "delta_zxid d \<in> applied_to s' (delta_path d)" if "d \<in> set ds" "delta_path d \<noteq> []" for d
  proof -
    have "delta_zxid d \<in> applied_to s (delta_path d) - delta_zxid ` set undo"
      using syncD(5) [OF sync, of d] that other by simp
    then show ?thesis using s'(5) by blast
  qed
  moreover have "acl_loaded s' (delta_path d)" if "d \<in> set ds" "structural_op (delta_operation d)" for d
    using syncD(6) [OF sync, of d] that rolledD(3) [OF s'(3)] by simp
  ultimately have "sync ds s'"
    using s'(6) rolledD(1) [OF s'(3)] view ok by (simp add: sync_def cv)
  then show ?thesis using that s'(1,2) by blast
qed

end
