(* ===== verification/Keeper_Tree.thy ===== *)
theory Keeper_Tree
  imports Keeper_Sync
begin

section \<open>The tree invariant\<close>

text \<open>
  The invariant of the tree that the request handlers keep: the root and the system node exist,
  every other node has a parent that is not ephemeral, and outside the system node the recorded
  number of children is exact. The lemmas say when the abstract updates keep it.
\<close>

abbreviation root :: path where "root \<equiv> [slash]"

definition sys :: "path \<Rightarrow> bool" where
  "sys p \<longleftrightarrow> matchPath p keeper_system_path \<noteq> NOT_MATCH"

definition kids :: "tree \<Rightarrow> path \<Rightarrow> path set" where
  "kids t p = {q. t q \<noteq> None \<and> q \<noteq> root \<and> parentOf q = p}"

definition anode_ok :: "tree \<Rightarrow> path \<Rightarrow> anode \<Rightarrow> bool" where
  "anode_ok t p a \<longleftrightarrow> canonical_path p \<and> anode_wf a \<and> length (an_data a) < 2 ^ 32
     \<and> (p \<noteq> root \<longrightarrow> (\<exists>b. t (parentOf p) = Some b \<and> \<not> isEphemeral (an_stats b)))
     \<and> (\<not> sys p \<longrightarrow> numChildren (an_stats a) = int (card (kids t p))) \<and> (sys p \<longrightarrow> \<not> isEphemeral (an_stats a))"

definition tree_inv :: "tree \<Rightarrow> bool" where
  "tree_inv t \<longleftrightarrow> finite (dom t) \<and> t keeper_system_path \<noteq> None
     \<and> (\<exists>r. t root = Some r \<and> \<not> isEphemeral (an_stats r) \<and> an_data r = [])
     \<and> (\<forall>p a. t p = Some a \<longrightarrow> anode_ok t p a)"

subsection \<open>System paths\<close>

lemma canonical_last: "canonical_path p \<Longrightarrow> p \<noteq> root \<Longrightarrow> p \<noteq> [] \<and> last p \<noteq> slash"
proof -
  have "canonical_rest p \<Longrightarrow> last p \<noteq> slash" for p
    by (induction p rule: canonical_rest.induct) auto
  then show "canonical_path p \<Longrightarrow> p \<noteq> root \<Longrightarrow> p \<noteq> [] \<and> last p \<noteq> slash"
    by (auto simp: canonical_path_def)
qed

lemma keeper_path_canonical: "canonical_path keeper_system_path" "keeper_system_path \<noteq> root"
  by (simp_all add: canonical_path_def keeper_system_path_def slash_def)

lemma remove_suffix_canonical: "canonical_path p \<Longrightarrow> p \<noteq> root \<Longrightarrow> remove_slash_suffix p = p"
  using canonical_last by (simp add: remove_slash_suffix_def)

lemma sys_iff:
  assumes "canonical_path p" "p \<noteq> root"
  shows "sys p \<longleftrightarrow> p = keeper_system_path \<or> (\<exists>r. p = keeper_system_path @ slash # r)"
  using matchPath_EXACT_iff [of p keeper_system_path] matchPath_IS_CHILD_iff [of p keeper_system_path]
  by (cases "matchPath p keeper_system_path")
    (simp_all add: sys_def remove_suffix_canonical [OF assms] remove_suffix_canonical [OF keeper_path_canonical])

lemma sys_keeper: "sys keeper_system_path"
  by (simp add: sys_iff keeper_path_canonical)

lemma not_sys_root: "\<not> sys root"
  by (simp add: sys_def matchPath_def remove_slash_suffix_def keeper_system_path_def slash_def)

lemma sys_child:
  assumes "canonical_path p" "p \<noteq> root" "sys (parentOf p)"
  shows "sys p"
proof -
  obtain q b where q: "p = q @ slash # b" "slash \<notin> set b" "b \<noteq> []" "q = [] \<or> (canonical_path q \<and> q \<noteq> root)"
    by (rule canonical_split [OF assms(1,2)])
  have par: "parentOf p = (if q = [] then root else q)"
    unfolding q(1) by (rule parentOf_split [OF q(2)])
  have "q \<noteq> []" using assms(3) not_sys_root par by (cases "q = []") simp_all
  then have "sys q" "canonical_path q" "q \<noteq> root"
    using assms(3) par q(4) by simp_all
  then have "\<exists>r. p = keeper_system_path @ slash # r"
    using q(1) by (auto simp: sys_iff)
  then show ?thesis by (simp add: sys_iff [OF assms(1,2)])
qed

lemma keeper_parent: "parentOf keeper_system_path = root"
  using parentOf_split [of "''keeper''" "[]"] by (simp add: keeper_system_path_def slash_def)

subsection \<open>Facts about trees\<close>

lemma tree_invD:
  assumes "tree_inv t"
  shows "finite (dom t)" "t keeper_system_path \<noteq> None" "t root \<noteq> None"
    "t root = Some r \<Longrightarrow> \<not> isEphemeral (an_stats r)" "t root = Some r \<Longrightarrow> an_data r = []"
    "t p = Some a \<Longrightarrow> anode_ok t p a"
  using assms by (auto simp: tree_inv_def)

lemma tree_inv_node:
  assumes "tree_inv t" "t p = Some a"
  shows "canonical_path p" "anode_wf a" "length (an_data a) < 2 ^ 32" "p \<noteq> []"
    "p \<noteq> root \<Longrightarrow> \<exists>b. t (parentOf p) = Some b \<and> \<not> isEphemeral (an_stats b)"
    "\<not> sys p \<Longrightarrow> numChildren (an_stats a) = int (card (kids t p))" "sys p \<Longrightarrow> \<not> isEphemeral (an_stats a)"
  using tree_invD(6) [OF assms] by (auto simp: anode_ok_def canonical_path_def)

lemma tree_inv_sized: "tree_inv t \<Longrightarrow> tree_sized t"
  using tree_inv_node(2) by (auto simp: tree_sized_def)

lemma finite_kids: "finite (dom t) \<Longrightarrow> finite (kids t p)"
  by (rule finite_subset [of _ "dom t"]) (auto simp: kids_def)

lemma kids_parent:
  assumes "tree_inv t" "q \<in> kids t p"
  shows "\<exists>b. t p = Some b \<and> \<not> isEphemeral (an_stats b)"
proof -
  obtain c where "t q = Some c" "q \<noteq> root" "parentOf q = p" using assms(2) by (auto simp: kids_def)
  then show ?thesis using tree_inv_node(5) [OF assms(1), of q c] by simp
qed

lemma no_kids_missing: "tree_inv t \<Longrightarrow> t p = None \<Longrightarrow> kids t p = {}"
  using kids_parent [of t _ p] by auto

lemma no_kids_ephemeral: "tree_inv t \<Longrightarrow> t p = Some a \<Longrightarrow> isEphemeral (an_stats a) \<Longrightarrow> kids t p = {}"
  using kids_parent [of t _ p] by auto

lemma root_has_kids: "tree_inv t \<Longrightarrow> kids t root \<noteq> {}"
  using tree_invD(2) [of t] keeper_parent keeper_path_canonical(2) by (auto simp: kids_def)

lemma kids_upd:
  "kids (t(p \<mapsto> a)) q = (if p \<noteq> root \<and> parentOf p = q then insert p (kids t q) else kids t q)"
  "kids (t(p := None)) q = kids t q - {p}"
  by (auto simp: kids_def)

lemma kids_same_dom: "dom t = dom t' \<Longrightarrow> kids t p = kids t' p"
  unfolding kids_def by (metis domIff)

subsection \<open>Updates that keep the shape\<close>

lemma tree_inv_update:
  assumes inv: "tree_inv t" and p: "t p = Some a" and a': "anode_wf a'" "length (an_data a') < 2 ^ 32"
    "isEphemeral (an_stats a') = isEphemeral (an_stats a)" "numChildren (an_stats a') = numChildren (an_stats a)"
    "p = root \<Longrightarrow> an_data a' = []"
  shows "tree_inv (t(p \<mapsto> a'))"
proof -
  have kids: "kids (t(p \<mapsto> a')) q = kids t q" for q
    by (rule kids_same_dom) (use p in auto)
  have "anode_ok (t(p \<mapsto> a')) q b" if "(t(p \<mapsto> a')) q = Some b" for q b
    using that tree_invD(6) [OF inv, of q] p a' by (auto simp: anode_ok_def kids split: if_splits)
  then show ?thesis
    using inv p a' by (auto simp: tree_inv_def)
qed

subsection \<open>Creating and removing a node\<close>

lemma tree_inv_create:
  assumes inv: "tree_inv t" and p: "t p = None" "canonical_path p" "\<not> sys p"
    and par: "t (parentOf p) = Some b" "\<not> isEphemeral (an_stats b)"
    and b': "anode_wf b'" "length (an_data b') < 2 ^ 32" "\<not> isEphemeral (an_stats b')"
      "numChildren (an_stats b') = numChildren (an_stats b) + 1" "parentOf p = root \<Longrightarrow> an_data b' = []"
    and n: "anode_wf n" "length (an_data n) < 2 ^ 32" "numChildren (an_stats n) = 0"
  shows "tree_inv (t(parentOf p \<mapsto> b', p \<mapsto> n))" (is "tree_inv ?t")
proof -
  let ?q = "parentOf p"
  have root: "p \<noteq> root" using p(1) tree_invD(3) [OF inv] by auto
  have q: "?q \<noteq> p" using par(1) p(1) by auto
  have nsq: "\<not> sys ?q" using sys_child [OF p(2) root] p(3) by blast
  have fin: "finite (kids t x)" for x by (rule finite_kids [OF tree_invD(1) [OF inv]])
  have "kids (t(?q \<mapsto> b')) x = kids t x" for x
    by (rule kids_same_dom) (use par(1) in auto)
  then have kids: "kids ?t x = (if x = ?q then insert p (kids t x) else kids t x)" for x
    using root by (auto simp: kids_upd)
  have new: "p \<notin> kids t ?q" using p(1) by (simp add: kids_def)
  have "anode_ok ?t x c" if x: "?t x = Some c" for x c
  proof -
    consider (node) "x = p" "c = n" | (parent) "x = ?q" "x \<noteq> p" "c = b'" | (other) "x \<noteq> p" "x \<noteq> ?q" "t x = Some c"
      using x by (auto split: if_splits)
    then show ?thesis
    proof cases
      case node
      then show ?thesis
        using p n b' q no_kids_missing [OF inv p(1)] by (simp add: anode_ok_def kids)
    next
      case parent
      then show ?thesis
        using tree_invD(6) [OF inv par(1)] b' nsq fin new q p(1) by (auto simp: anode_ok_def kids)
    next
      case other
      then show ?thesis
        using tree_invD(6) [OF inv other(3)] b' p(1) q by (auto simp: anode_ok_def kids)
    qed
  qed
  then show ?thesis
    using inv b' p(1) q root by (auto simp: tree_inv_def)
qed

lemma tree_inv_remove:
  assumes inv: "tree_inv t" and p: "t p = Some a" "\<not> sys p" "numChildren (an_stats a) = 0"
    and b: "t (parentOf p) = Some b"
    and b': "anode_wf b'" "length (an_data b') < 2 ^ 32" "isEphemeral (an_stats b') = isEphemeral (an_stats b)"
      "numChildren (an_stats b') = numChildren (an_stats b) - 1" "parentOf p = root \<Longrightarrow> an_data b' = []"
  shows "tree_inv ((t(parentOf p \<mapsto> b'))(p := None))" (is "tree_inv ?t") and "p \<noteq> root"
proof -
  let ?q = "parentOf p"
  have fin: "finite (kids t x)" for x by (rule finite_kids [OF tree_invD(1) [OF inv]])
  have empty: "kids t p = {}"
    using tree_inv_node(6) [OF inv p(1,2)] p(3) fin by simp
  then show root: "p \<noteq> root" using root_has_kids [OF inv] by auto
  have can: "canonical_path p" by (rule tree_inv_node(1) [OF inv p(1)])
  have q: "?q \<noteq> p" using parent_neq_self(1) [OF can root] by simp
  have nsq: "\<not> sys ?q" using sys_child [OF can root] p(2) by blast
  have ne: "\<not> isEphemeral (an_stats b)" using tree_inv_node(5) [OF inv p(1) root] b by auto
  have "kids (t(?q \<mapsto> b')) x = kids t x" for x
    by (rule kids_same_dom) (use b in auto)
  then have kids: "kids ?t x = kids t x - {p}" for x
    by (simp add: kids_upd)
  have mem: "p \<in> kids t ?q" using p(1) root by (simp add: kids_def)
  have card: "int (card (kids t ?q - {p})) = int (card (kids t ?q)) - 1"
    using card.remove [OF fin mem] by linarith
  have up: "parentOf x \<noteq> p" if "t x = Some c" "x \<noteq> root" for x c
  proof -
    have "x \<notin> kids t p" using empty by simp
    with that show ?thesis by (simp add: kids_def)
  qed
  have other: "kids t x - {p} = kids t x" if "x \<noteq> ?q" for x using that by (auto simp: kids_def)
  have "anode_ok ?t x c" if x: "?t x = Some c" for x c
  proof -
    have xp: "x \<noteq> p" using x by auto
    consider (parent) "x = ?q" "c = b'" | (other) "x \<noteq> ?q" "t x = Some c"
      using x xp by (auto split: if_splits)
    then show ?thesis
    proof cases
      case parent
      have "numChildren (an_stats b) = int (card (kids t ?q))" by (rule tree_inv_node(6) [OF inv b nsq])
      then have "numChildren (an_stats b') = int (card (kids ?t ?q))"
        unfolding kids using card b'(4) by linarith
      then show ?thesis
        using parent tree_inv_node(1,5) [OF inv b] b'(1,2,3) ne q up [OF b] by (auto simp: anode_ok_def)
    next
      case oth: other
      have "kids ?t x = kids t x" using other [OF oth(1)] by (simp add: kids)
      then show ?thesis
        using up [OF oth(2)] tree_invD(6) [OF inv oth(2)] b b'(3) by (auto simp: anode_ok_def)
    qed
  qed
  then have nodes: "\<forall>x c. ?t x = Some c \<longrightarrow> anode_ok ?t x c" by blast
  have "keeper_system_path \<noteq> p" using p(2) sys_keeper by auto
  then have keeper: "?t keeper_system_path \<noteq> None" using tree_invD(2) [OF inv] by simp
  have "\<exists>r. ?t root = Some r \<and> \<not> isEphemeral (an_stats r) \<and> an_data r = []"
    using inv root ne b'(3,5) by (cases "?q = root") (auto simp: tree_inv_def)
  then show "tree_inv ?t"
    unfolding tree_inv_def using nodes keeper tree_invD(1) [OF inv] by simp
qed

end
