(* ===== verification/Keeper_Handlers.thy ===== *)
theory Keeper_Handlers
  imports Keeper_Tree
begin

section \<open>The request handlers\<close>

text \<open>
  What the \<open>preprocess\<close> functions of the single requests promise: they do not fail, leave the
  visible tree alone, and return deltas that fit the tree, keep its invariant and can be undone.
\<close>

subsection \<open>Reading\<close>

text \<open>The handlers load nodes and change the uncommitted map of ephemeral nodes and the supply of
  authentication objects, which the visible tree does not depend on.\<close>

definition plain :: "storage \<Rightarrow> storage" where
  "plain s = s\<lparr>uncommitted := (uncommitted s)\<lparr>us_ephemerals := Map.empty, us_next_auth := 0\<rparr>\<rparr>"

lemma plain_frame [simp]:
  "find_entry (plain s) = find_entry s" "find_node (plain s) = find_node s"
  "container (plain s) = container s" "acl_map_of (plain s) = acl_map_of s"
  "committed_zxid (plain s) = committed_zxid s" "committed_ephemerals (plain s) = committed_ephemerals s"
  "uncommitted_transactions (plain s) = uncommitted_transactions s" "nodes_digest (plain s) = nodes_digest s"
  "committed_ephemeral_nodes (plain s) = committed_ephemeral_nodes s"
  "us_deltas (uncommitted (plain s)) = us_deltas (uncommitted s)"
  "us_nodes (uncommitted (plain s)) = us_nodes (uncommitted s)"
  "us_zxid_to_nodes (uncommitted (plain s)) = us_zxid_to_nodes (uncommitted s)"
  "us_session_and_auth (uncommitted (plain s)) = us_session_and_auth (uncommitted s)"
  "us_closed_sessions (uncommitted (plain s)) = us_closed_sessions (uncommitted s)"
  "committed_session_and_auth (plain s) = committed_session_and_auth s"
  "initialized (plain s) = initialized s" "superdigest (plain s) = superdigest s"
  by (simp_all add: plain_def find_entry_def find_node_def fun_eq_iff)

lemma plain_views [simp]:
  "cview (plain s) = cview s" "uview (plain s) = uview s" "acl_loaded (plain s) = acl_loaded s"
  "applied_to (plain s) = applied_to s" "cache_inv (plain s) = cache_inv s" "acls_resolve (plain s) = acls_resolve s"
  by (simp_all add: cview_def uview_def acl_loaded_def applied_to_def cache_inv_def tracking_ok_def entry_ok_def
        acls_resolve_def fun_eq_iff cong: option.case_cong)

lemma plain_sync [simp]: "sync ds (plain s) = sync ds s"
  by (simp add: sync_def auths_end_def)

lemma plain_plain [simp]: "plain (plain s) = plain s"
  by (simp add: plain_def)

definition reads :: "storage \<Rightarrow> storage \<Rightarrow> bool" where
  "reads s s' \<longleftrightarrow> loads (plain s) (plain s')"

lemma reads_refl: "cache_inv s \<Longrightarrow> reads s s"
  by (simp add: reads_def loads_refl)

lemma reads_trans [trans]: "reads s s' \<Longrightarrow> reads s' s'' \<Longrightarrow> reads s s''"
  unfolding reads_def by (rule loads_trans)

lemma loads_reads:
  assumes "loads s s'"
  shows "reads s s'"
proof -
  have "core (plain x) = plain (core x)" for x by (simp add: core_def plain_def)
  then have "same_core (plain s) (plain s')"
    using loadsD(1) [OF assms] by (simp add: same_core_def)
  then show ?thesis
    using loadsD(2-) [OF assms] by (simp add: reads_def loads_def)
qed

lemma reads_plain: "cache_inv s \<Longrightarrow> plain s' = plain s \<Longrightarrow> reads s s'"
  by (simp add: reads_def loads_refl)

lemma reads_ephemerals: "cache_inv s \<Longrightarrow> reads s (s\<lparr>uncommitted := (uncommitted s)\<lparr>us_ephemerals := e\<rparr>\<rparr>)"
  by (rule reads_plain) (simp_all add: plain_def)

lemma reads_next_auth: "cache_inv s \<Longrightarrow> reads s (s\<lparr>uncommitted := (uncommitted s)\<lparr>us_next_auth := k\<rparr>\<rparr>)"
  by (rule reads_plain) (simp_all add: plain_def)

lemma readsD:
  assumes "reads s s'"
  shows "uview s' = uview s" "cview s' = cview s" "cache_inv s'" "acl_loaded s q \<Longrightarrow> acl_loaded s' q"
    "applied_to s' q = applied_to s q"
    "container s' = container s" "acl_map_of s' = acl_map_of s" "committed_zxid s' = committed_zxid s"
    "committed_ephemerals s' = committed_ephemerals s" "committed_ephemeral_nodes s' = committed_ephemeral_nodes s"
    "uncommitted_transactions s' = uncommitted_transactions s"
    "nodes_digest s' = nodes_digest s" "us_deltas (uncommitted s') = us_deltas (uncommitted s)"
    "us_session_and_auth (uncommitted s') = us_session_and_auth (uncommitted s)"
    "us_closed_sessions (uncommitted s') = us_closed_sessions (uncommitted s)"
    "bucket (committed_session_and_auth s') = bucket (committed_session_and_auth s)" "initialized s' = initialized s"
  using loadsD [of "plain s" "plain s'"] same_coreD [of "plain s" "plain s'"] same_core_views [of "plain s" "plain s'"]
    assms [unfolded reads_def] by simp_all

lemma reads_resolve: "reads s s' \<Longrightarrow> acls_resolve s \<Longrightarrow> acls_resolve s'"
  using acls_resolve_same_core [OF loadsD(1), of "plain s" "plain s'"] by (simp add: reads_def)

lemma sync_reads: "sync ds s \<Longrightarrow> reads s s' \<Longrightarrow> sync ds s'"
  using sync_loads [of ds "plain s" "plain s'"] by (simp add: reads_def)

subsection \<open>Prepared requests\<close>

text \<open>Deltas of a request that goes through, and the single error of one that does not.\<close>

fun plain_op :: "operation \<Rightarrow> bool" where
  "plain_op (ErrorDelta _) = False"
| "plain_op SubDeltaEnd = False"
| "plain_op (FailedMultiDelta _ _) = False"
| "plain_op _ = True"

definition clean :: "delta list \<Rightarrow> bool" where
  "clean ds \<longleftrightarrow> (\<forall>d\<in>set ds. plain_op (delta_operation d))"

text \<open>
  What the deltas of a transaction do to the nodes: no system node changes; a node that is modified carries the
  number of the transaction; and the union of the statistics holds the member that \<open>is_ephemeral\<close> names.
\<close>

fun union_holds :: "bool \<Rightarrow> ephemeral_or_children \<Rightarrow> bool" where
  "union_holds eph (EphemeralOwner owner) \<longleftrightarrow> eph \<and> owner \<noteq> 0"
| "union_holds eph (ChildrenInfo seq num) \<longleftrightarrow> \<not> eph"

definition stamped :: "int \<Rightarrow> anode option \<Rightarrow> anode \<Rightarrow> bool" where
  "stamped z old a' \<longleftrightarrow>
     (ns_mzxid (an_stats a') = z \<or> (\<exists>a. old = Some a \<and> ns_mzxid (an_stats a') = ns_mzxid (an_stats a)))
     \<and> (union_holds (ns_is_ephemeral (an_stats a')) (ns_data (an_stats a'))
        \<or> (\<exists>a. old = Some a \<and> ns_is_ephemeral (an_stats a') = ns_is_ephemeral (an_stats a) \<and> ns_data (an_stats a') = ns_data (an_stats a)))"

definition moves :: "int \<Rightarrow> tree \<Rightarrow> tree \<Rightarrow> bool" where
  "moves z t t' \<longleftrightarrow> (\<forall>p. sys p \<longrightarrow> t' p = t p) \<and> (\<forall>p a'. t' p = Some a' \<longrightarrow> stamped z (t p) a')"

lemma stamped_same [simp]: "stamped z (Some a) a"
  by (simp add: stamped_def)

lemma moves_refl [simp]: "moves z t t"
  by (simp add: moves_def)

lemma moves_trans [trans]:
  assumes "moves z t t'" "moves z t' t''"
  shows "moves z t t''"
proof -
  have "stamped z (t p) a" if a: "t'' p = Some a" for p a
  proof -
    have "stamped z (t' p) a" using assms(2) a by (simp add: moves_def)
    moreover have "stamped z (t p) b" if "t' p = Some b" for b using assms(1) that by (simp add: moves_def)
    ultimately show ?thesis by (cases "t' p") (auto simp: stamped_def)
  qed
  then show ?thesis using assms by (simp add: moves_def)
qed

lemma moves_update: "\<not> sys p \<Longrightarrow> stamped z (t p) a \<Longrightarrow> moves z t (t(p \<mapsto> a))"
  by (auto simp: moves_def)

lemma moves_remove: "\<not> sys p \<Longrightarrow> moves z t (t(p := None))"
  by (auto simp: moves_def)

text \<open>No node is newer than the transaction.\<close>

definition dated :: "int \<Rightarrow> tree \<Rightarrow> bool" where
  "dated z t \<longleftrightarrow> (\<forall>p a. t p = Some a \<longrightarrow> ns_mzxid (an_stats a) \<le> z \<and> union_holds (ns_is_ephemeral (an_stats a)) (ns_data (an_stats a)))"

lemma dated_moves:
  assumes "dated y t" "y \<le> z" "moves z t t'"
  shows "dated z t'"
  unfolding dated_def
proof (intro allI impI)
  fix p a assume "t' p = Some a"
  then have "stamped z (t p) a" using assms(3) by (simp add: moves_def)
  then show "ns_mzxid (an_stats a) \<le> z \<and> union_holds (ns_is_ephemeral (an_stats a)) (ns_data (an_stats a))"
  proof (cases "t p")
    case None
    then show ?thesis using \<open>stamped z (t p) a\<close> by (simp add: stamped_def)
  next
    case (Some b)
    then have "ns_mzxid (an_stats b) \<le> y" "union_holds (ns_is_ephemeral (an_stats b)) (ns_data (an_stats b))"
      using assms(1) unfolding dated_def by blast+
    then show ?thesis using \<open>stamped z (t p) a\<close> assms(2) Some by (auto simp: stamped_def)
  qed
qed

lemma not_sys_parent: "canonical_path p \<Longrightarrow> p \<noteq> root \<Longrightarrow> \<not> sys p \<Longrightarrow> \<not> sys (parentOf p)"
  using sys_child by blast

definition prepared :: "int \<Rightarrow> delta list \<Rightarrow> storage \<Rightarrow> storage \<Rightarrow> bool" where
  "prepared z ds s s' \<longleftrightarrow> reads s s' \<and> (clean ds \<or> (\<exists>e. e \<noteq> ZOK \<and> ds = [error_delta z e]))
     \<and> (\<forall>d\<in>set ds. delta_zxid d = z \<and> (remove_op (delta_operation d) \<longrightarrow> acl_loaded s' (delta_path d)))
     \<and> ok_deltas ds (uview s) \<and> reverts ds (uview s) \<and> tree_inv (abs_deltas ds (uview s))
     \<and> moves z (uview s) (abs_deltas ds (uview s))"

lemma preparedD:
  assumes "prepared z ds s s'"
  shows "reads s s'" "clean ds \<or> (\<exists>e. e \<noteq> ZOK \<and> ds = [error_delta z e])" "d \<in> set ds \<Longrightarrow> delta_zxid d = z"
    "d \<in> set ds \<Longrightarrow> remove_op (delta_operation d) \<Longrightarrow> acl_loaded s' (delta_path d)"
    "ok_deltas ds (uview s)" "reverts ds (uview s)" "tree_inv (abs_deltas ds (uview s))"
    "moves z (uview s) (abs_deltas ds (uview s))"
  using assms by (simp_all add: prepared_def)

lemma prepared_Nil: "reads s s' \<Longrightarrow> tree_inv (uview s) \<Longrightarrow> prepared z [] s s'"
  by (simp add: prepared_def clean_def)

lemma abs_error [simp]: "abs_delta (error_delta z e) t = t" "ok_delta (error_delta z e) t" "undo_delta (error_delta z e) t = t"
  by (simp_all add: abs_delta_def undo_delta_def ok_delta_def error_delta_def)

lemma prepared_error: "reads s s' \<Longrightarrow> tree_inv (uview s) \<Longrightarrow> e \<noteq> ZOK \<Longrightarrow> prepared z [error_delta z e] s s'"
  by (simp add: prepared_def reverts_def) (simp add: error_delta_def)

lemma prepared_no_path:
  assumes "reads s s'" "tree_inv (uview s)" "plain_op op" "ok_op [] op (uview s)"
  shows "prepared z [Delta [] z op] s s'"
proof -
  have "abs_delta (Delta [] z op) (uview s) = uview s" "undo_delta (Delta [] z op) (uview s) = uview s"
    using assms(4) by (cases op; simp add: abs_delta_def undo_delta_def)+
  then show ?thesis
    using assms by (cases op) (simp_all add: prepared_def clean_def reverts_def ok_delta_def)
qed

lemma prepared_applicable:
  assumes "prepared z ds s s'" "tree_sized (uview s)" "0 < z"
  shows "applicable ds s'"
  using preparedD [OF assms(1)] readsD(1,3) [OF preparedD(1) [OF assms(1)]] assms(2,3)
  by (auto simp: applicable_def)

subsection \<open>Lookups\<close>

lemma getNode_reads: "cache_inv s \<Longrightarrow> getNode p s = (node, s') \<Longrightarrow> reads s s'"
  by (rule loads_reads) (rule getNode_spec(1))

text \<open>What \<open>getNode\<close> returns on a state that shows the tree \<open>t\<close>.\<close>

lemma getNode_tree:
  assumes "reads s s1" "getNode p s1 = (node, s2)"
  obtains (missing) "node = None" "uview s p = None" "reads s s2"
    | (present) n a where "node = Some n" "uview s p = Some a" "an_stats a = mn_stats n" "an_data a = getData n" "reads s s2"
proof -
  have inv: "cache_inv s1" by (rule readsD(3) [OF assms(1)])
  have r: "reads s s2" using reads_trans [OF assms(1) getNode_reads [OF inv assms(2)]] .
  show ?thesis
    using getNode_cases [OF inv assms(2)] readsD(1) [OF assms(1)] r missing present by metis
qed

lemma require_node_prepared:
  assumes inv: "cache_inv s" and tree: "tree_inv (uview s)"
  obtains ds s' where "require_node p z s = Inr (ds, s')" "prepared z ds s s'"
proof -
  obtain node s1 where g: "getNode p s = (node, s1)" by fastforce
  have r: "reads s s1" by (rule getNode_reads [OF inv g])
  show ?thesis
    by (rule that [of "if node = None then [error_delta z ZNONODE] else []" s1])
      (use g r tree in \<open>simp_all add: require_node_def prepared_Nil prepared_error\<close>)
qed

lemma preprocess_get_prepared:
  assumes inv: "cache_inv s" and tree: "tree_inv (uview s)"
  obtains ds s' where "preprocess_get p z s = Inr (ds, s')" "prepared z ds s s'"
proof (cases "p = keeper_api_feature_flags_path \<or> p = keeper_config_path \<or> p = keeper_availability_zone_path")
  case True
  then show ?thesis
    using that [of "[]" s] prepared_Nil [OF reads_refl [OF inv] tree] by (simp add: preprocess_get_def)
next
  case False
  then have "preprocess_get p z s = require_node p z s" by (simp add: preprocess_get_def)
  then show ?thesis using require_node_prepared [OF assms, of p z] that by metis
qed

lemma preprocess_check_prepared:
  assumes inv: "cache_inv s" and tree: "tree_inv (uview s)"
  obtains ds s' where "preprocess_check p v ne z s = Inr (ds, s')" "prepared z ds s s'"
proof -
  obtain node s1 where g: "getNode p s = (node, s1)" by fastforce
  have r: "reads s s1" by (rule getNode_reads [OF inv g])
  have "\<exists>ds. preprocess_check p v ne z s = Inr (ds, s1) \<and> (ds = [] \<or> (\<exists>e. e \<noteq> ZOK \<and> ds = [error_delta z e]))"
    by (cases node) (auto simp: preprocess_check_def g)
  then show ?thesis
    using that prepared_Nil [OF r tree] prepared_error [OF r tree] by metis
qed

subsection \<open>Statistics\<close>

lemmas stats_defs = isEphemeral_def ephemeralOwner_def numChildren_def seqNum_def increaseSeqNum_def
  increaseNumChildren_def decreaseNumChildren_def setSeqNum_def setNumChildren_def setEphemeralOwner_def

lemma create_parent_stats_frame [simp]:
  "ns_data_size (create_parent_stats cv z st) = ns_data_size st"
  "isEphemeral (create_parent_stats cv z st) = isEphemeral st"
  "\<not> isEphemeral st \<Longrightarrow> ephemeralOwner (create_parent_stats cv z st) = ephemeralOwner st"
  "\<not> isEphemeral st \<Longrightarrow> numChildren (create_parent_stats cv z st) = numChildren st + 1"
  "ns_version (create_parent_stats cv z st) = ns_version st"
  by (auto simp: create_parent_stats_def Let_def stats_defs)

lemma remove_parent_stats_frame [simp]:
  "ns_data_size (remove_parent_stats r z st) = ns_data_size st"
  "isEphemeral (remove_parent_stats r z st) = isEphemeral st"
  "\<not> isEphemeral st \<Longrightarrow> ephemeralOwner (remove_parent_stats r z st) = ephemeralOwner st"
  "\<not> isEphemeral st \<Longrightarrow> numChildren (remove_parent_stats r z st) = numChildren st - 1"
  by (auto simp: remove_parent_stats_def Let_def stats_defs)

lemma set_stats_frame [simp]:
  "ns_data_size (set_stats d z time st) = length d mod 2 ^ 32"
  "isEphemeral (set_stats d z time st) = isEphemeral st"
  "ephemeralOwner (set_stats d z time st) = ephemeralOwner st"
  "numChildren (set_stats d z time st) = numChildren st"
  by (auto simp: set_stats_def Let_def stats_defs)

lemma stats_update_frame [simp]:
  "isEphemeral (st\<lparr>ns_cversion := c\<rparr>) = isEphemeral st" "ephemeralOwner (st\<lparr>ns_cversion := c\<rparr>) = ephemeralOwner st"
  "numChildren (st\<lparr>ns_cversion := c\<rparr>) = numChildren st"
  "isEphemeral (st\<lparr>ns_aversion := c\<rparr>) = isEphemeral st" "ephemeralOwner (st\<lparr>ns_aversion := c\<rparr>) = ephemeralOwner st"
  "numChildren (st\<lparr>ns_aversion := c\<rparr>) = numChildren st"
  "isEphemeral (st\<lparr>ns_data_size := k\<rparr>) = isEphemeral st" "ephemeralOwner (st\<lparr>ns_data_size := k\<rparr>) = ephemeralOwner st"
  "numChildren (st\<lparr>ns_data_size := k\<rparr>) = numChildren st"
  by (auto simp: stats_defs)

lemma created_stats:
  "numChildren (copyStats (created_stat z time owner) default_stats) = 0"
  "isEphemeral (copyStats (created_stat z time owner) default_stats) \<longleftrightarrow> owner \<noteq> 0"
  by (auto simp: copyStats_def created_stat_def Let_def stats_defs setCtime_def default_stats_def)

lemma parent_stats_stamp:
  "ns_mzxid (create_parent_stats cv z st) = ns_mzxid st" "ns_mzxid (remove_parent_stats restored z st) = ns_mzxid st"
  "union_holds (ns_is_ephemeral (create_parent_stats cv z st)) (ns_data (create_parent_stats cv z st)) \<longleftrightarrow> \<not> isEphemeral st"
  "union_holds (ns_is_ephemeral (remove_parent_stats restored z st)) (ns_data (remove_parent_stats restored z st)) \<longleftrightarrow> \<not> isEphemeral st"
  by (simp_all add: create_parent_stats_def remove_parent_stats_def increaseSeqNum_def increaseNumChildren_def decreaseNumChildren_def
    isEphemeral_def Let_def)

lemma created_stats_stamp:
  "ns_mzxid (copyStats (created_stat z time owner) default_stats) = z"
  "union_holds (ns_is_ephemeral (copyStats (created_stat z time owner) default_stats)) (ns_data (copyStats (created_stat z time owner) default_stats))"
  by (simp_all add: copyStats_def created_stat_def Let_def setNumChildren_def setEphemeralOwner_def setCtime_def default_stats_def default_stat_def)

text \<open>A change of statistics that keeps the data size changes nothing else and is undone exactly.\<close>

lemma stat_anode_sized:
  assumes "anode_wf a" "ns_data_size st = ns_data_size (an_stats a)"
  shows "stat_anode st a = a\<lparr>an_stats := st\<rparr>" "stat_anode (an_stats a) (a\<lparr>an_stats := st\<rparr>) = a"
    "anode_wf (a\<lparr>an_stats := st\<rparr>)"
  using assms by (simp_all add: stat_anode_def anode_wf_def)

lemma data_anode_old:
  assumes "anode_wf a" "length (an_data a) < 2 ^ 32"
  shows "data_anode (an_data a) \<lparr>an_stats = an_stats a, an_data = d, an_acls = an_acls a\<rparr> = a"
  using assms by (simp add: data_anode_def anode_wf_def)

lemma create_anode_frame [simp]:
  "anode_wf (create_anode st acls d)" "length (an_data (create_anode st acls d)) < 4294967296"
  "numChildren (an_stats (create_anode st acls d)) = numChildren (copyStats st default_stats)"
  by (simp_all add: create_anode_def data_anode_def anode_wf_def)

subsection \<open>Create\<close>

lemma nat_decimal_no_slash: "slash \<notin> set (nat_decimal n)" "nat_decimal n \<noteq> []"
proof (induction n rule: nat_decimal.induct)
  case (1 n)
  have digit: "char_of (k + 48) \<noteq> slash" if "k < 10" for k :: nat
  proof
    assume "char_of (k + 48) = slash"
    then have "of_char (char_of (k + 48) :: char) = (of_char slash :: nat)" by simp
    then show False using that by (simp add: slash_def of_char_of)
  qed
  {
    case 1
    show ?case using "1.IH" digit by (subst nat_decimal.simps) (auto simp: eq_commute [of slash])
  next
    case 2
    show ?case by (subst nat_decimal.simps) simp
  }
qed

lemma seq_num_str_no_slash: "slash \<notin> set (seq_num_str k)" "seq_num_str k \<noteq> []"
  using nat_decimal_no_slash by (auto simp: seq_num_str_def int_decimal_def slash_def)

text \<open>The paths of \<open>Create\<close> requests that keep the tree canonical.\<close>

definition create_path_ok :: "create_request \<Rightarrow> bool" where
  "create_path_ok c \<longleftrightarrow> canonical_path (if cr_is_sequential c then cr_path c @ ''0'' else cr_path c)"

lemma canonical_rest_extend:
  "canonical_rest (p @ [c]) \<Longrightarrow> c \<noteq> slash \<Longrightarrow> slash \<notin> set b \<Longrightarrow> b \<noteq> [] \<Longrightarrow> canonical_rest (p @ b)"
proof (induction p rule: canonical_rest.induct)
  case 1
  then show ?case
    by (induction b rule: canonical_rest.induct) auto
next
  case (2 d)
  then have "canonical_rest b" by (induction b rule: canonical_rest.induct) auto
  with 2 show ?case by (cases b) auto
qed auto

lemma sequential_path:
  assumes "canonical_path (p @ ''0'')" "slash \<notin> set b" "b \<noteq> []"
  shows "canonical_path (p @ b)" "parentOf (p @ b) = parentOf p"
proof -
  have p: "p \<noteq> []" "hd p = slash" "canonical_rest (p @ ''0'')"
    using assms(1) by (cases p; auto simp: canonical_path_def slash_def)+
  have "canonical_rest (p @ b)"
    by (rule canonical_rest_extend [OF p(3) _ assms(2,3)]) (simp add: slash_def)
  with p show "canonical_path (p @ b)" by (simp add: canonical_path_def)
  have "slash \<in> set p" using p(1,2) by (metis hd_in_set)
  then obtain q c where q: "p = q @ slash # c" "slash \<notin> set c" by (rule path_split_last_slash)
  then show "parentOf (p @ b) = parentOf p"
    using parentOf_split [of "c @ b" q] parentOf_split [of c q] assms(2) by simp
qed

text \<open>The two deltas of \<open>Create\<close> on the abstract tree.\<close>

lemma create_deltas_tree:
  assumes inv: "tree_inv t" and p: "t p = None" "canonical_path p" "\<not> sys p"
    and b: "t (parentOf p) = Some b" "\<not> isEphemeral (an_stats b)"
    and ds: "ds = [Delta (parentOf p) z (UpdateNodeStatDelta (an_stats b) (create_parent_stats cv z (an_stats b)) (-1)),
       Delta p z (CreateNodeDelta (created_stat z time owner) acls data)]"
  shows "ok_deltas ds t" "reverts ds t" "tree_inv (abs_deltas ds t)" "clean ds" "moves z t (abs_deltas ds t)"
    "abs_deltas ds t = t(parentOf p \<mapsto> b\<lparr>an_stats := create_parent_stats cv z (an_stats b)\<rparr>,
       p \<mapsto> create_anode (created_stat z time owner) acls data)"
proof -
  let ?st = "create_parent_stats cv z (an_stats b)"
  have root: "p \<noteq> root" using tree_invD(3) [OF inv] p(1) by auto
  have q: "parentOf p \<noteq> p" "p \<noteq> []" using parent_neq_self(1) [OF p(2) root] p(2) by (auto simp: canonical_path_def)
  have bw: "anode_wf b" "length (an_data b) < 2 ^ 32" "parentOf p \<noteq> []" using tree_inv_node [OF inv b(1)] by auto
  have none: "parentOf x \<noteq> p" if x: "t x \<noteq> None" for x
  proof
    assume par: "parentOf x = p"
    then have "x \<noteq> root" using root by auto
    then have "x \<in> kids t p" using x par by (auto simp: kids_def)
    with no_kids_missing [OF inv p(1)] show False by simp
  qed
  note sized = stat_anode_sized [OF bw(1), of ?st, simplified]
  show abs: "abs_deltas ds t = t(parentOf p \<mapsto> b\<lparr>an_stats := ?st\<rparr>,
       p \<mapsto> create_anode (created_stat z time owner) acls data)"
    using b q by (simp add: ds abs_delta_def sized)
  show "tree_inv (abs_deltas ds t)"
    unfolding abs
    by (rule tree_inv_create [OF inv p b])
      (use bw b(1) b(2) sized created_stats tree_invD(5) [OF inv] in \<open>auto simp del: fun_upd_apply\<close>)
  show "ok_deltas ds t"
    using p b q bw root none by (simp add: ds ok_delta_def abs_delta_def version_ok_def sized) (auto simp: anode_wf_def)
  have "stamped z (t (parentOf p)) (b\<lparr>an_stats := ?st\<rparr>)" "stamped z None (create_anode (created_stat z time owner) acls data)"
    using b by (simp_all add: stamped_def parent_stats_stamp created_stats_stamp create_anode_def data_anode_def)
  then show "moves z t (abs_deltas ds t)"
    unfolding abs using not_sys_parent [OF p(2) root p(3)] p(1,3) q
    by (intro moves_trans [OF moves_update moves_update]) simp_all
  show "reverts ds t"
    unfolding reverts_def abs using p b q sized by (auto simp: ds undo_delta_def fun_eq_iff)
  show "clean ds" by (simp add: ds clean_def)
qed

text \<open>The path and the parent of the node that a \<open>Create\<close> request makes.\<close>

lemma created_path:
  assumes "create_path_ok c"
  shows "canonical_path (if cr_is_sequential c then cr_path c @ seq_num_str k else cr_path c)"
    "parentOf (if cr_is_sequential c then cr_path c @ seq_num_str k else cr_path c) = parentOf (cr_path c)"
  using assms sequential_path [OF _ seq_num_str_no_slash] by (auto simp: create_path_ok_def)

lemma create_path_slash: "create_path_ok c \<Longrightarrow> slash \<in> set (cr_path c)"
  using canonical_path_slash [of "if cr_is_sequential c then cr_path c @ ''0'' else cr_path c"]
  by (auto simp: create_path_ok_def slash_def split: if_splits)

lemmas create_path_parent = parentNodePath_slash [OF create_path_slash]

text \<open>The server runs, or it may touch the system paths while it starts.\<close>

definition system_paths_open :: "keeper_context \<Rightarrow> bool" where
  "system_paths_open ctx \<longleftrightarrow> kc_server_state ctx \<noteq> INIT \<or> kc_ignore_system_path_on_startup ctx"

lemma handleSystemNodeModification_ok: "system_paths_open ctx \<Longrightarrow> handleSystemNodeModification ctx = Inr ()"
  by (auto simp: system_paths_open_def handleSystemNodeModification_def)

text \<open>The last part of \<open>preprocess_create\<close>, after the checks of the parent and of the path.\<close>

lemma create_go:
  assumes tree: "tree_inv (uview s)" and c: "create_path_ok c" and path: "canonical_path p" "parentOf p = parentOf (cr_path c)"
    and par: "uview s (parentOf (cr_path c)) = Some b" "an_stats b = mn_stats parent" "an_data b = getData parent" "reads s s1"
    and g: "getNode (parentOf (cr_path c)) s = (Some parent, s1)" "getNode p s1 = (node, s2)"
    and ok: "\<not> isEphemeral (mn_stats parent)" "\<not> (cr_is_sequential c \<and> cr_not_exists c)" "\<not> sys p"
    and p: "p = (if cr_is_sequential c then cr_path c @ seq_num_str (seqNum (mn_stats parent)) else cr_path c)"
  obtains ds s' where "preprocess_create ctx c z sid time s = Inr (ds, s')" "prepared z ds s s'"
proof -
  define st where "st = created_stat z time (if cr_is_ephemeral c then sid else 0)"
  define reg where "reg = (if cr_is_ephemeral c then upd_uncommitted (\<lambda>u. u\<lparr>us_ephemerals :=
        registerEphemeralPath (us_ephemerals u) sid p\<rparr>) s2 else s2)"
  have nm: "matchPath p keeper_system_path = NOT_MATCH" using ok(3) by (simp add: sys_def)
  have run: "preprocess_create ctx c z sid time s =
      (if node \<noteq> None then (if cr_not_exists c then Inr ([], s2) else Inr ([error_delta z ZNODEEXISTS], s2))
       else if getBaseNodeName p = [] then Inr ([error_delta z ZBADARGUMENTS], s2)
       else case fixupACL (cr_acls c) sid s2 of
              None \<Rightarrow> Inr ([error_delta z ZINVALIDACL], s2)
            | Some acls \<Rightarrow> Inr ([Delta (parentOf (cr_path c)) z (new_stat_delta parent (create_parent_stats (cr_parent_cversion c) z) (-1)),
                                 Delta p z (CreateNodeDelta st acls (cr_data c))], reg))"
    by (simp add: preprocess_create_def create_path_parent [OF c] ok(1,2) nm g p [symmetric] reg_def st_def Let_def cong: option.case_cong)
  note nil = prepared_Nil [OF _ tree] and err = prepared_error [OF _ tree]
  from par(4) g(2) show ?thesis
  proof (cases rule: getNode_tree)
    case present
    then show ?thesis
      using run nil [of s2] err [of s2] that by (cases "cr_not_exists c") auto
  next
    case missing
    have reg: "reads s reg"
      unfolding reg_def using missing(3) reads_trans [OF missing(3) reads_ephemerals [OF readsD(3) [OF missing(3)]]] by simp
    consider "getBaseNodeName p = []" | "getBaseNodeName p \<noteq> []" "fixupACL (cr_acls c) sid s2 = None"
      | acls where "getBaseNodeName p \<noteq> []" "fixupACL (cr_acls c) sid s2 = Some acls" by fastforce
    then show ?thesis
    proof cases
      case (3 acls)
      define ds where "ds = [Delta (parentOf p) z (UpdateNodeStatDelta (an_stats b) (create_parent_stats (cr_parent_cversion c) z (an_stats b)) (-1)),
         Delta p z (CreateNodeDelta st acls (cr_data c))]"
      have t: "ok_deltas ds (uview s)" "reverts ds (uview s)" "tree_inv (abs_deltas ds (uview s))" "clean ds"
        "moves z (uview s) (abs_deltas ds (uview s))"
        by (rule create_deltas_tree [OF tree missing(2) path(1) ok(3) _ _ ds_def [unfolded st_def]]; use par path ok in simp)+
      then have "prepared z ds s reg"
        using reg by (simp add: prepared_def) (simp add: ds_def)
      moreover have "preprocess_create ctx c z sid time s = Inr (ds, reg)"
        using run missing(1) 3 by (simp add: ds_def new_stat_delta_def par path)
      ultimately show ?thesis using that by blast
    qed (use run missing that err [OF missing(3)] in auto)
  qed
qed

lemma preprocess_create_prepared:
  assumes inv: "cache_inv s" and tree: "tree_inv (uview s)" and c: "create_path_ok c" and ctx: "system_paths_open ctx"
  obtains ds s' where "preprocess_create ctx c z sid time s = Inr (ds, s')" "prepared z ds s s'"
proof -
  let ?q = "parentOf (cr_path c)"
  obtain pnode s1 where g1: "getNode ?q s = (pnode, s1)" by fastforce
  note err = prepared_error [OF _ tree] and sys = handleSystemNodeModification_ok [OF ctx]
  from reads_refl [OF inv] g1 show ?thesis
  proof (cases rule: getNode_tree)
    case missing
    then show ?thesis
      using that [of "[error_delta z ZNONODE]" s1] err [of s1] g1 by (simp add: preprocess_create_def create_path_parent [OF c])
  next
    case (present parent b)
    let ?p = "if cr_is_sequential c then cr_path c @ seq_num_str (seqNum (mn_stats parent)) else cr_path c"
    note path = created_path [OF c, of "seqNum (mn_stats parent)"]
    obtain node s2 where g2: "getNode ?p s1 = (node, s2)" by fastforce
    note run = preprocess_create_def create_path_parent [OF c] res_bind_simps(2) g1 g2 present(1)
    consider (eph) "isEphemeral (mn_stats parent)" | (bad) "\<not> isEphemeral (mn_stats parent)" "cr_is_sequential c \<and> cr_not_exists c"
      | (system) "\<not> isEphemeral (mn_stats parent)" "\<not> (cr_is_sequential c \<and> cr_not_exists c)" "sys ?p"
      | (go) "\<not> isEphemeral (mn_stats parent)" "\<not> (cr_is_sequential c \<and> cr_not_exists c)" "\<not> sys ?p"
      by blast
    then show ?thesis
    proof cases
      case eph
      then show ?thesis
        using that [of "[error_delta z ZNOCHILDRENFOREPHEMERALS]" s1] err [OF present(5)] by (simp add: run)
    next
      case bad
      then show ?thesis
        using that [of "[error_delta z ZBADARGUMENTS]" s1] err [OF present(5)] by (simp add: run)
    next
      case system
      then have "preprocess_create ctx c z sid time s = Inr ([error_delta z ZBADARGUMENTS], s1)"
        unfolding run sys_def Let_def by (simp add: sys)
      then show ?thesis
        using that err [OF present(5)] by simp
    next
      case go
      show ?thesis
        by (rule create_go [OF tree c path present(2-5) g1 [unfolded present(1)] g2 go refl]) (rule that)
    qed
  qed
qed

subsection \<open>Remove\<close>

lemma childless_not_root:
  assumes inv: "tree_inv t" and p: "t p = Some a" "\<not> sys p" "numChildren (an_stats a) = 0"
  shows "p \<noteq> root"
proof -
  have "kids t p = {}"
    using tree_inv_node(6) [OF inv p(1,2)] p(3) finite_kids [OF tree_invD(1) [OF inv], of p] by simp
  then show ?thesis using root_has_kids [OF inv] by auto
qed

lemma remove_deltas_tree:
  assumes inv: "tree_inv t" and p: "t p = Some a" "\<not> sys p" "numChildren (an_stats a) = 0"
    and v: "version_ok version (ns_version (an_stats a))" and b: "t (parentOf p) = Some b"
    and ds: "ds = [Delta (parentOf p) z (UpdateNodeStatDelta (an_stats b) (remove_parent_stats restored z (an_stats b)) (-1)),
       Delta p z (RemoveNodeDelta version (an_stats a) (an_acls a) (an_data a))]"
  shows "ok_deltas ds t" "reverts ds t" "tree_inv (abs_deltas ds t)" "clean ds" "moves z t (abs_deltas ds t)"
    "abs_deltas ds t = (t(parentOf p \<mapsto> b\<lparr>an_stats := remove_parent_stats restored z (an_stats b)\<rparr>))(p := None)"
proof -
  let ?st = "remove_parent_stats restored z (an_stats b)" and ?q = "parentOf p"
  have bw: "anode_wf b" "length (an_data b) < 2 ^ 32" "?q \<noteq> []" using tree_inv_node [OF inv b] by auto
  have aw: "anode_wf a" "length (an_data a) < 2 ^ 32" "canonical_path p" "p \<noteq> []" using tree_inv_node [OF inv p(1)] by auto
  note sized = stat_anode_sized [OF bw(1), of ?st, simplified]
  have root: "p \<noteq> root" by (rule childless_not_root [OF inv p])
  have q: "?q \<noteq> p" using parent_neq_self(1) [OF aw(3) root] by simp
  have ne: "\<not> isEphemeral (an_stats b)" using tree_inv_node(5) [OF inv p(1) root] b by auto
  show abs: "abs_deltas ds t = (t(?q \<mapsto> b\<lparr>an_stats := ?st\<rparr>))(p := None)"
    using b q by (simp add: ds abs_delta_def sized)
  show "tree_inv (abs_deltas ds t)"
    unfolding abs
    by (rule tree_inv_remove(1) [OF inv p b])
      (use bw ne sized tree_invD(5) [OF inv] b in \<open>auto simp del: fun_upd_apply\<close>)
  show "ok_deltas ds t"
    using p b q bw aw ne v by (simp add: ds ok_delta_def abs_delta_def version_ok_def sized) (simp add: anode_wf_def)
  have "stamped z (t ?q) (b\<lparr>an_stats := ?st\<rparr>)" using b ne by (simp add: stamped_def parent_stats_stamp)
  then show "moves z t (abs_deltas ds t)"
    unfolding abs using not_sys_parent [OF aw(3) root p(2)] p(2) by (intro moves_trans [OF moves_update moves_remove])
  show "reverts ds t"
    unfolding reverts_def abs using p b q sized data_anode_old [OF aw(1,2)] by (auto simp: ds undo_delta_def fun_eq_iff)
  show "clean ds" by (simp add: ds clean_def)
qed

lemma unregister_uncommitted_reads:
  assumes "cache_inv s"
  obtains s' where "unregister_uncommitted owner p s = Inr s'" "reads s s'"
proof -
  obtain e where "unregisterEphemeralPath (us_ephemerals (uncommitted s)) owner p False = Inr e"
    by (cases "us_ephemerals (uncommitted s) owner") (simp_all add: unregisterEphemeralPath_def Let_def)
  then show ?thesis
    using that reads_ephemerals [OF assms, of e] by (simp add: unregister_uncommitted_def)
qed

lemma getACLs_reads:
  assumes "reads s s1" "acls_resolve s" "uview s p = Some a"
  obtains s2 where "getACLs p s1 = Inr (an_acls a, s2)" "reads s s2" "acl_loaded s2 p"
proof -
  obtain x s2 where x: "getACLs p s1 = Inr (x, s2)" "loads s1 s2"
    "\<And>y. uview s1 p = Some y \<Longrightarrow> x = an_acls y \<and> acl_loaded s2 p"
    using getACLs_spec [OF readsD(3) [OF assms(1)] reads_resolve [OF assms(1,2)], of p] by blast
  have "x = an_acls a \<and> acl_loaded s2 p" using x(3) [of a] assms(3) readsD(1) [OF assms(1)] by simp
  then show ?thesis
    using that x(1) reads_trans [OF assms(1) loads_reads [OF x(2)]] by simp
qed

lemma preprocess_remove_prepared:
  assumes inv: "cache_inv s" and res: "acls_resolve s" and tree: "tree_inv (uview s)" and ctx: "system_paths_open ctx"
    and path: "slash \<in> set p"
  obtains ds s' where "preprocess_remove ctx p version restored z s = Inr (ds, s')" "prepared z ds s s'"
proof -
  note err = prepared_error [OF _ tree] and sys = handleSystemNodeModification_ok [OF ctx]
  obtain pnode s1 where g1: "getNode (parentOf p) s = (pnode, s1)" by fastforce
  obtain node s2 where g2: "getNode p s1 = (node, s2)" by fastforce
  note run = preprocess_remove_def parentNodePath_slash [OF path] g1 g2 sys_def
  have r1: "reads s s1" by (rule getNode_reads [OF inv g1])
  show ?thesis
  proof (cases "sys p")
    case True
    then show ?thesis
      using that [of "[error_delta z ZBADARGUMENTS]" s] err [OF reads_refl [OF inv]] by (simp add: run sys)
  next
    case nsys: False
    from r1 g2 show ?thesis
    proof (cases rule: getNode_tree)
      case missing
      then show ?thesis
        using that [of "[error_delta z ZNONODE]" s2] err [OF missing(3)] nsys by (simp add: run)
    next
      case (present n a)
      note err2 = err [OF present(5)]
      consider "\<not> version_ok version (ns_version (an_stats a))" | "version_ok version (ns_version (an_stats a))" "numChildren (an_stats a) \<noteq> 0"
        | (go) "version_ok version (ns_version (an_stats a))" "numChildren (an_stats a) = 0" by blast
      then show ?thesis
      proof cases
        case go
        have "\<exists>b. uview s (parentOf p) = Some b"
          using tree_inv_node(5) [OF tree present(2) childless_not_root [OF tree present(2) nsys go(2)]] by blast
        with reads_refl [OF inv] g1 obtain parent b where b: "pnode = Some parent" "uview s (parentOf p) = Some b" "an_stats b = mn_stats parent"
          by (cases rule: getNode_tree) auto
        define ds where "ds = [Delta (parentOf p) z (UpdateNodeStatDelta (an_stats b) (remove_parent_stats restored z (an_stats b)) (-1)),
           Delta p z (RemoveNodeDelta version (an_stats a) (an_acls a) (an_data a))]"
        note t = remove_deltas_tree [OF tree present(2) nsys go(2,1) b(2) ds_def]
        obtain s3 where s3: "getACLs p s2 = Inr (an_acls a, s3)" "reads s s3" "acl_loaded s3 p"
          by (rule getACLs_reads [OF present(5) res present(2)])
        obtain s4 where s4: "unregister_uncommitted (ephemeralOwner (mn_stats n)) p s3 = Inr s4" "reads s3 s4"
          by (rule unregister_uncommitted_reads [OF readsD(3) [OF s3(2)]])
        define s' where "s' = (if isEphemeral (mn_stats n) then s4 else s3)"
        have "prepared z ds s s'"
          using t s3 s4(2) reads_trans [OF s3(2) s4(2)] readsD(4) [OF s4(2), of p] by (simp add: prepared_def s'_def) (simp add: ds_def)
        moreover have "preprocess_remove ctx p version restored z s = Inr (ds, s')"
          using nsys go present b s3 s4 by (simp add: run version_ok_def s'_def ds_def new_stat_delta_def)
        ultimately show ?thesis using that by blast
      qed (use present nsys that err2 in \<open>auto simp: run version_ok_def\<close>)
    qed
  qed
qed

subsection \<open>Set\<close>

lemma parent_exists:
  assumes "tree_inv t" "t p = Some a"
  obtains b where "t (parentOf p) = Some b"
  using tree_inv_node(5) [OF assms] tree_invD(3) [OF assms(1)] parent_root by (cases "p = root") auto

text \<open>The node after a \<open>Set\<close>. Its parent changes, too; the root is its own parent.\<close>

definition set_anode :: "string \<Rightarrow> int \<Rightarrow> int \<Rightarrow> anode \<Rightarrow> anode" where
  "set_anode data z time a =
     a\<lparr>an_stats := set_stats data z time (an_stats a), an_data := take (length data mod 2 ^ 32) data\<rparr>"

definition bump_cversion :: "anode \<Rightarrow> anode" where
  "bump_cversion a = a\<lparr>an_stats := (an_stats a)\<lparr>ns_cversion := ns_cversion (an_stats a) + 1\<rparr>\<rparr>"

definition set_tree :: "path \<Rightarrow> string \<Rightarrow> int \<Rightarrow> int \<Rightarrow> anode \<Rightarrow> anode \<Rightarrow> tree \<Rightarrow> tree" where
  "set_tree p data z time a b t =
     (if p = root then t(root \<mapsto> bump_cversion a)
      else t(p \<mapsto> set_anode data z time a, parentOf p \<mapsto> bump_cversion b))"

lemma data_anode_frame:
  "an_stats (data_anode data a) = (an_stats a)\<lparr>ns_data_size := length data mod 2 ^ 32\<rparr>"
  "an_data (data_anode data a) = take (length data mod 2 ^ 32) data"
  by (simp_all add: data_anode_def)

lemma set_anode_eq: "stat_anode (set_stats data z time (an_stats a)) (data_anode data a) = set_anode data z time a"
  by (simp add: stat_anode_def data_anode_def set_anode_def)

lemma set_anode_frame [simp]:
  "anode_wf (set_anode data z time a)" "length (an_data (set_anode data z time a)) < 4294967296"
  "isEphemeral (an_stats (set_anode data z time a)) = isEphemeral (an_stats a)"
  "numChildren (an_stats (set_anode data z time a)) = numChildren (an_stats a)"
  by (simp_all add: set_anode_def anode_wf_def)

lemma bump_cversion_frame [simp]:
  "anode_wf (bump_cversion a) = anode_wf a" "an_data (bump_cversion a) = an_data a"
  "isEphemeral (an_stats (bump_cversion a)) = isEphemeral (an_stats a)"
  "numChildren (an_stats (bump_cversion a)) = numChildren (an_stats a)"
  by (simp_all add: bump_cversion_def anode_wf_def)

lemma set_undo:
  assumes "anode_wf a" "length (an_data a) < 2 ^ 32"
  shows "data_anode (an_data a) (stat_anode (an_stats a) (set_anode data z time a)) = a"
    "data_anode (an_data a) (stat_anode (an_stats a) (bump_cversion a)) = a"
    "stat_anode (an_stats a) (bump_cversion a) = a" "stat_anode (an_stats a) a = a"
  using assms by (simp_all add: data_anode_def stat_anode_def set_anode_def bump_cversion_def anode_wf_def)

lemma set_deltas_tree:
  assumes inv: "tree_inv t" and p: "t p = Some a" and nsys: "\<not> sys p" and v: "version_ok version (ns_version (an_stats a))"
    and b: "t (parentOf p) = Some b"
    and ds: "ds = [Delta p z (UpdateNodeDataDelta (an_data a) data version),
       Delta p z (UpdateNodeStatDelta (an_stats a) (set_stats data z time (an_stats a)) version),
       Delta (parentOf p) z (UpdateNodeStatDelta (an_stats b) ((an_stats b)\<lparr>ns_cversion := ns_cversion (an_stats b) + 1\<rparr>) (-1))]"
  shows "abs_deltas ds t = set_tree p data z time a b t" "ok_deltas ds t" "reverts ds t"
    "tree_inv (abs_deltas ds t)" "clean ds" "moves z t (abs_deltas ds t)"
proof -
  let ?q = "parentOf p" and ?cv = "(an_stats b)\<lparr>ns_cversion := ns_cversion (an_stats b) + 1\<rparr>"
  note aw = tree_inv_node [OF inv p] and bw = tree_inv_node [OF inv b]
  have b': "stat_anode ?cv b = bump_cversion b"
    using stat_anode_sized(1) [OF bw(2), of ?cv] by (simp add: bump_cversion_def)
  have self: "?q \<noteq> p" if "p \<noteq> root" using parent_neq_self(1) [OF aw(1) that] by simp
  have root: "?q = root \<and> b = a \<and> an_data a = [] \<and> ns_data_size (an_stats a) = 0" if "p = root"
    using that p b tree_invD(5) [OF inv, of a] aw(2) by (simp add: parent_root anode_wf_def)
  have set_root: "stat_anode ?cv (set_anode data z time a) = bump_cversion a" if "p = root"
    using root [OF that] by (simp add: stat_anode_def set_anode_def bump_cversion_def)
  show abs: "abs_deltas ds t = set_tree p data z time a b t"
    using p b self root set_root by (cases "p = root") (auto simp: ds abs_delta_def set_anode_eq set_tree_def b')
  show "ok_deltas ds t"
    using p b self root v aw bw
    by (cases "p = root") (auto simp: ds ok_delta_def abs_delta_def set_anode_eq version_ok_def anode_wf_def set_anode_def data_anode_frame)
  show "reverts ds t"
    unfolding reverts_def abs
    using p b self root set_undo [OF aw(2,3)] set_undo [OF bw(2,3)]
    by (cases "p = root") (auto simp: ds undo_delta_def set_tree_def fun_eq_iff)
  have "tree_inv (t(p \<mapsto> set_anode data z time a))" if "p \<noteq> root"
    by (rule tree_inv_update [OF inv p]) (use that in auto)
  then have "tree_inv (t(p \<mapsto> set_anode data z time a, ?q \<mapsto> bump_cversion b))" if "p \<noteq> root"
    by (rule tree_inv_update [where a = b]) (use that b self bw tree_invD(5) [OF inv] in auto)
  moreover have "tree_inv (t(root \<mapsto> bump_cversion a))" if "p = root"
    by (rule tree_inv_update [OF inv]) (use that p aw tree_invD(5) [OF inv] in auto)
  ultimately show "tree_inv (abs_deltas ds t)" unfolding abs by (simp add: set_tree_def)
  have "stamped z (t p) (set_anode data z time a)" "stamped z (t ?q) (bump_cversion b)" "stamped z (t p) (bump_cversion a)"
    using p b by (simp_all add: stamped_def set_anode_def set_stats_def bump_cversion_def)
  then show "moves z t (abs_deltas ds t)"
    unfolding abs using nsys not_sys_parent [OF aw(1) _ nsys] self
    by (cases "p = root") (auto simp: set_tree_def intro!: moves_update moves_trans [OF moves_update moves_update])
  show "clean ds" by (simp add: ds clean_def)
qed

lemma preprocess_set_prepared:
  assumes inv: "cache_inv s" and tree: "tree_inv (uview s)" and ctx: "system_paths_open ctx"
  obtains ds s' where "preprocess_set ctx p data version z time s = Inr (ds, s')" "prepared z ds s s'"
proof -
  note err = prepared_error [OF _ tree] and sys = handleSystemNodeModification_ok [OF ctx]
  obtain node s1 where g1: "getNode p s = (node, s1)" by fastforce
  note run = preprocess_set_def g1 sys_def
  consider (sys) "sys p" | (go) "\<not> sys p" by blast
  then show ?thesis
  proof cases
    case sys
    then show ?thesis
      using that [of "[error_delta z ZBADARGUMENTS]" s] err [OF reads_refl [OF inv]] by (simp add: run handleSystemNodeModification_ok [OF ctx])
  next
    case go
    from reads_refl [OF inv] g1 show ?thesis
    proof (cases rule: getNode_tree)
      case missing
      then show ?thesis
        using that [of "[error_delta z ZNONODE]" s1] err [OF missing(3)] go by (simp add: run)
    next
      case (present n a)
      show ?thesis
      proof (cases "version_ok version (ns_version (an_stats a))")
        case False
        then show ?thesis
          using that [of "[error_delta z ZBADVERSION]" s1] err [OF present(5)] go present by (simp add: run version_ok_def)
      next
        case True
        obtain pnode s2 where g2: "getNode (parentOf p) s1 = (pnode, s2)" by fastforce
        obtain b0 where b0: "uview s (parentOf p) = Some b0" by (rule parent_exists [OF tree present(2)])
        with present(5) g2 obtain parent b where b: "pnode = Some parent" "uview s (parentOf p) = Some b" "an_stats b = mn_stats parent" "reads s s2"
          by (cases rule: getNode_tree) auto
        define ds where "ds = [Delta p z (UpdateNodeDataDelta (an_data a) data version),
          Delta p z (UpdateNodeStatDelta (an_stats a) (set_stats data z time (an_stats a)) version),
          Delta (parentOf p) z (UpdateNodeStatDelta (an_stats b) ((an_stats b)\<lparr>ns_cversion := ns_cversion (an_stats b) + 1\<rparr>) (-1))]"
        have "prepared z ds s s2"
          using set_deltas_tree [OF tree present(2) go True b(2) ds_def] b(4) by (simp add: prepared_def) (simp add: ds_def)
        moreover have "preprocess_set ctx p data version z time s = Inr (ds, s2)"
          using go True present b g2 parentNodePath_canonical [OF tree_inv_node(1) [OF tree present(2)]]
          by (simp add: run version_ok_def ds_def new_stat_delta_def)
        ultimately show ?thesis using that by blast
      qed
    qed
  qed
qed

subsection \<open>SetACL\<close>

lemma set_acl_deltas_tree:
  assumes inv: "tree_inv t" and p: "t p = Some a" and nsys: "\<not> sys p" and v: "version_ok version (ns_aversion (an_stats a))"
    and st: "st = (an_stats a)\<lparr>ns_aversion := ns_aversion (an_stats a) + 1\<rparr>"
    and ds: "ds = [Delta p z (SetACLDelta (an_acls a) acls version), Delta p z (UpdateNodeStatDelta (an_stats a) st (-1))]"
  shows "abs_deltas ds t = t(p \<mapsto> a\<lparr>an_stats := st, an_acls := acls\<rparr>)" "ok_deltas ds t" "reverts ds t"
    "tree_inv (abs_deltas ds t)" "clean ds" "moves z t (abs_deltas ds t)"
proof -
  note aw = tree_inv_node [OF inv p]
  have [simp]: "stat_anode st (a\<lparr>an_acls := acls\<rparr>) = a\<lparr>an_stats := st, an_acls := acls\<rparr>"
    "stat_anode (an_stats a) (a\<lparr>an_stats := st, an_acls := acls\<rparr>) = a\<lparr>an_acls := acls\<rparr>"
    using aw(2) by (simp_all add: stat_anode_def st anode_wf_def)
  show abs: "abs_deltas ds t = t(p \<mapsto> a\<lparr>an_stats := st, an_acls := acls\<rparr>)"
    using p by (simp add: ds abs_delta_def)
  show "ok_deltas ds t"
    using p v aw by (simp add: ds ok_delta_def abs_delta_def version_ok_def st anode_wf_def)
  show "moves z t (abs_deltas ds t)" unfolding abs by (rule moves_update [OF nsys]) (simp add: stamped_def p st)
  show "reverts ds t"
    unfolding reverts_def abs using p by (auto simp: ds undo_delta_def fun_eq_iff)
  show "tree_inv (abs_deltas ds t)"
    unfolding abs by (rule tree_inv_update [OF inv p]) (use aw tree_invD(5) [OF inv] p in \<open>auto simp: st anode_wf_def\<close>)
  show "clean ds" by (simp add: ds clean_def)
qed

lemma preprocess_set_acl_prepared:
  assumes inv: "cache_inv s" and res: "acls_resolve s" and tree: "tree_inv (uview s)" and ctx: "system_paths_open ctx"
  obtains ds s' where "preprocess_set_acl ctx p acls version z sid s = Inr (ds, s')" "prepared z ds s s'"
proof -
  note err = prepared_error [OF _ tree]
  obtain node s1 where g1: "getNode p s = (node, s1)" by fastforce
  note run = preprocess_set_acl_def g1 sys_def
  consider (sys) "sys p" | (go) "\<not> sys p" by blast
  then show ?thesis
  proof cases
    case sys
    then show ?thesis
      using that [of "[error_delta z ZBADARGUMENTS]" s] err [OF reads_refl [OF inv]] by (simp add: run handleSystemNodeModification_ok [OF ctx])
  next
    case go
    from reads_refl [OF inv] g1 show ?thesis
    proof (cases rule: getNode_tree)
      case missing
      then show ?thesis
        using that [of "[error_delta z ZNONODE]" s1] err [OF missing(3)] go by (simp add: run)
    next
      case (present n a)
      note err1 = err [OF present(5)]
      consider "\<not> version_ok version (ns_aversion (an_stats a))"
        | "version_ok version (ns_aversion (an_stats a))" "fixupACL acls sid s1 = None"
        | (ok) new where "version_ok version (ns_aversion (an_stats a))" "fixupACL acls sid s1 = Some new" by fastforce
      then show ?thesis
      proof cases
        case ok
        obtain s2 where s2: "getACLs p s1 = Inr (an_acls a, s2)" "reads s s2"
          by (rule getACLs_reads [OF present(5) res present(2)])
        define ds where "ds = [Delta p z (SetACLDelta (an_acls a) new version),
          Delta p z (UpdateNodeStatDelta (an_stats a) ((an_stats a)\<lparr>ns_aversion := ns_aversion (an_stats a) + 1\<rparr>) (-1))]"
        have "prepared z ds s s2"
          using set_acl_deltas_tree [OF tree present(2) go ok(1) refl ds_def] s2(2) by (simp add: prepared_def) (simp add: ds_def)
        moreover have "preprocess_set_acl ctx p acls version z sid s = Inr (ds, s2)"
          using go ok present s2 by (simp add: run version_ok_def ds_def new_stat_delta_def)
        ultimately show ?thesis using that by blast
      qed (use go present that err1 in \<open>auto simp: run version_ok_def\<close>)
    qed
  qed
qed

subsection \<open>Auth and the access checks\<close>

lemma preprocess_auth_prepared:
  assumes inv: "cache_inv s" and tree: "tree_inv (uview s)"
  obtains ds s' where "preprocess_auth ctx scheme data z sid s = Inr (ds, s')" "prepared z ds s s'"
proof -
  note r0 = reads_refl [OF inv]
  have add: "\<exists>ds s'. add_auth_delta z sid auth s1 = (ds, s') \<and> prepared z ds s s'" if r1: "reads s s1" for auth s1
    unfolding add_auth_delta_def
    using reads_trans [OF r1 reads_next_auth [OF readsD(3) [OF r1]]] tree by (simp add: prepared_no_path)
  let ?new = "\<lparr>au_scheme = scheme, au_ident = generateDigest ctx data\<rparr>"
  obtain known s1 where h: "hasACL sid False (\<lambda>a. ?new = a) s = (known, s1)" by fastforce
  have r1: "reads s s1" by (rule loads_reads [OF hasACL_loads [OF inv h]])
  consider (bad) "scheme \<noteq> ''digest'' \<or> count_colons data \<noteq> 1"
    | (super) "scheme = ''digest''" "count_colons data = 1" "generateDigest ctx data = superdigest s"
    | (known) "scheme = ''digest''" "count_colons data = 1" "generateDigest ctx data \<noteq> superdigest s" known
    | (new) "scheme = ''digest''" "count_colons data = 1" "generateDigest ctx data \<noteq> superdigest s" "\<not> known" by blast
  then show ?thesis
  proof cases
    case bad
    then show ?thesis using that [of "[error_delta z ZAUTHFAILED]" s] prepared_error [OF r0 tree] by (simp add: preprocess_auth_def)
  next
    case super
    then show ?thesis using add [OF r0, of "\<lparr>au_scheme = ''super'', au_ident = []\<rparr>"] that by (auto simp: preprocess_auth_def)
  next
    case known
    then show ?thesis using that [of "[]" s1] prepared_Nil [OF r1 tree] h by (simp add: preprocess_auth_def)
  next
    case new
    then show ?thesis using add [OF r1, of ?new] that h by (auto simp: preprocess_auth_def)
  qed
qed

text \<open>The requests whose \<open>preprocess\<close> is treated here.\<close>

fun simple_request :: "zk_request \<Rightarrow> bool" where
  "simple_request (CreateRequest c) = create_path_ok c"
| "simple_request (RemoveRequest p _ _) = (slash \<in> set p)"
| "simple_request (CheckRequest p _ not_exists) = (not_exists \<longrightarrow> slash \<in> set p)"
| "simple_request (RemoveRecursiveRequest _ _ _) = False"
| "simple_request CloseRequest = False"
| "simple_request (MultiRequest _ _) = False"
| "simple_request (ReconfigRequest _ _ _ _) = False"
| "simple_request (SessionIDRequest _ _ _) = False"
| "simple_request _ = True"

lemma checkAuth_simple:
  assumes "cache_inv s" "acls_resolve s" "simple_request r"
  obtains b s' where "checkAuth r sid False s = Inr (b, s')" "reads s s'"
proof -
  have acl: "\<exists>b s'. checkACL p perm sid False s = Inr (b, s') \<and> reads s s'" for p perm
    using checkACL_spec [OF assms(1,2), of p perm sid] loads_reads by metis
  have "\<exists>b s'. checkAuth r sid False s = Inr (b, s') \<and> reads s s'"
    using assms(3) acl reads_refl [OF assms(1)] by (cases r) (simp_all add: create_path_parent parentNodePath_slash, blast+)
  then show ?thesis using that by blast
qed

text \<open>The outcome of a handler.\<close>

definition handled :: "(delta list \<times> storage) result \<Rightarrow> int \<Rightarrow> storage \<Rightarrow> bool" where
  "handled r z s \<longleftrightarrow> (\<exists>ds s'. r = Inr (ds, s') \<and> prepared z ds s s')"

lemma with_digest_handled: "handled r z s \<Longrightarrow> \<exists>ds s'. with_digest g r = Inr (ds, g, s') \<and> prepared z ds s s'"
  by (auto simp: handled_def with_digest_def)

lemma handlers:
  assumes "cache_inv s" "acls_resolve s" "tree_inv (uview s)" "system_paths_open ctx"
  shows "create_path_ok c \<Longrightarrow> handled (preprocess_create ctx c z sid time s) z s"
    "slash \<in> set p \<Longrightarrow> handled (preprocess_remove ctx p v restored z s) z s"
    "handled (preprocess_set ctx p data v z time s) z s"
    "handled (preprocess_set_acl ctx p acls v z sid s) z s"
    "handled (preprocess_auth ctx scheme data z sid s) z s"
    "handled (preprocess_get p z s) z s" "handled (preprocess_check p v ne z s) z s" "handled (require_node p z s) z s"
  unfolding handled_def
  using preprocess_create_prepared [OF assms(1,3) _ assms(4), of c z sid time] preprocess_remove_prepared [OF assms, of p v restored z]
    preprocess_set_prepared [OF assms(1,3,4), of p data v z time] preprocess_set_acl_prepared [OF assms, of p acls v z sid]
    preprocess_auth_prepared [OF assms(1,3), of ctx scheme data z sid] preprocess_get_prepared [OF assms(1,3), of p z]
    preprocess_check_prepared [OF assms(1,3), of p v ne z] require_node_prepared [OF assms(1,3), of p z]
  by metis+

lemma preprocess_simple:
  assumes "cache_inv s" "acls_resolve s" "tree_inv (uview s)" "system_paths_open ctx" "simple_request r"
  obtains ds s' where "preprocess ctx z sid time r g s = Inr (ds, g, s')" "prepared z ds s s'"
proof -
  note ex = handlers [OF assms(1-4), THEN with_digest_handled]
  have "\<exists>ds s'. preprocess ctx z sid time r g s = Inr (ds, g, s') \<and> prepared z ds s s'"
    using assms(5) ex prepared_Nil [OF reads_refl [OF assms(1)] assms(3)] by (cases r) simp_all
  then show ?thesis using that by blast
qed

end
