(* ===== verification/Keeper_Transactions.thy ===== *)
theory Keeper_Transactions
  imports Keeper_Handlers
begin

section \<open>Transactions\<close>

text \<open>
  Preprocessing, committing and rolling back whole transactions: the digest of a transaction, the
  subrequests of \<open>Multi\<close>, and \<open>preprocessRequest\<close>, \<open>processRequest\<close> and \<open>rollbackRequest\<close> on
  states whose pending deltas fit the committed tree.
\<close>

subsection \<open>Frames\<close>

text \<open>Only the uncommitted state changes, without its list of deltas.\<close>

definition outer :: "storage \<Rightarrow> storage" where
  "outer s = s\<lparr>uncommitted := empty_uncommitted, committed_session_and_auth := Map.empty\<rparr>"

definition frame :: "storage \<Rightarrow> storage \<Rightarrow> bool" where
  "frame s s' \<longleftrightarrow> outer s' = outer s \<and> us_deltas (uncommitted s') = us_deltas (uncommitted s)
     \<and> bucket (committed_session_and_auth s') = bucket (committed_session_and_auth s)"

lemma frame_refl [simp]: "frame s s"
  by (simp add: frame_def)

lemma frame_trans [trans]: "frame s s' \<Longrightarrow> frame s' s'' \<Longrightarrow> frame s s''"
  by (simp add: frame_def)

lemma outer_fields:
  "container (outer s) = container s" "acl_map_of (outer s) = acl_map_of s" "committed_zxid (outer s) = committed_zxid s"
  "committed_ephemerals (outer s) = committed_ephemerals s" "committed_ephemeral_nodes (outer s) = committed_ephemeral_nodes s"
  "uncommitted_transactions (outer s) = uncommitted_transactions s" "nodes_digest (outer s) = nodes_digest s"
  "initialized (outer s) = initialized s" "session_expiry_queue_of (outer s) = session_expiry_queue_of s"
  "session_and_timeout (outer s) = session_and_timeout s" "watches (outer s) = watches s"
  "list_watches (outer s) = list_watches s" "sessions_and_watchers (outer s) = sessions_and_watchers s"
  "old_snapshot_zxid (outer s) = old_snapshot_zxid s"
  by (simp_all add: outer_def)

lemma frameD:
  assumes "frame s s'"
  shows "container s' = container s" "acl_map_of s' = acl_map_of s" "committed_zxid s' = committed_zxid s"
    "committed_ephemerals s' = committed_ephemerals s" "committed_ephemeral_nodes s' = committed_ephemeral_nodes s"
    "uncommitted_transactions s' = uncommitted_transactions s" "nodes_digest s' = nodes_digest s"
    "us_deltas (uncommitted s') = us_deltas (uncommitted s)" "initialized s' = initialized s"
    "session_expiry_queue_of s' = session_expiry_queue_of s" "session_and_timeout s' = session_and_timeout s"
    "watches s' = watches s" "list_watches s' = list_watches s" "sessions_and_watchers s' = sessions_and_watchers s"
    "old_snapshot_zxid s' = old_snapshot_zxid s"
  using outer_fields [of s] outer_fields [of s'] assms by (simp_all add: frame_def)

lemma same_base_frame: "same_base s s' \<Longrightarrow> us_deltas (uncommitted s') = us_deltas (uncommitted s) \<Longrightarrow> frame s s'"
  by (cases s; cases s') (simp add: same_base_def base_def core_def frame_def outer_def)

lemma reads_frame: "reads s s' \<Longrightarrow> frame s s'"
  using readsD(13) [of s s'] loadsD(1) [of "plain s" "plain s'"]
  by (cases s; cases s') (simp add: reads_def same_core_def core_def frame_def outer_def plain_def)

lemma applied_frame: "applied ds s s' \<Longrightarrow> frame s s'"
  using same_base_frame [OF appliedD(1)] same_baseD(9) [OF appliedD(1)] by blast

lemma same_committed_frame: "same_committed s s' \<Longrightarrow> frame s s'"
  by (cases s; cases s') (simp add: same_committed_def frame_def outer_def)

lemma frame_views: "frame s s' \<Longrightarrow> cview s' = cview s" "frame s s' \<Longrightarrow> find_node s' = find_node s"
  using frameD(1,2) [of s s'] by (simp_all add: cview_def find_node_def fun_eq_iff)

lemma frame_committed_inv: "frame s s' \<Longrightarrow> committed_inv s' = committed_inv s"
  using frameD(1,2,4,5) [of s s'] frame_views(2) [of s s']
  by (intro committed_inv_cong) simp_all

subsection \<open>The digest of a transaction\<close>

lemma digest_step_loads:
  assumes inv: "cache_inv s" and p: "find_entry s p \<noteq> None"
  obtains g' s' where "digest_step p (g, s) = Inr (g', s')" "loads s s'"
proof -
  obtain e where e: "find_entry s p = Some e" using p by blast
  show ?thesis
  proof (cases "un_node e")
    case None
    then show ?thesis using that [of g s] e loads_refl [OF inv] by (simp add: digest_step_def)
  next
    case (Some n)
    let ?n = "snd (getDigest p (invalidateDigestCache n))"
    have "loads s (set_entry p (e\<lparr>un_node := Some ?n\<rparr>) s)"
      by (rule loads_set_entry [OF inv e])
        (use Some cache_invD [OF inv e] in \<open>simp_all add: entry_ok_def entry_view_def\<close>)
    then show ?thesis
      using that e Some by (simp add: digest_step_def split_beta)
  qed
qed

lemma digest_steps_loads:
  assumes "cache_inv s" "\<forall>p\<in>set ps. find_entry s p \<noteq> None"
  obtains g' s' where "res_fold digest_step ps (g, s) = Inr (g', s')" "loads s s'"
  using assms
proof (induction ps arbitrary: g s thesis)
  case Nil
  then show ?case using loads_refl by simp
next
  case (Cons p ps)
  obtain g1 s1 where d: "digest_step p (g, s) = Inr (g1, s1)" "loads s s1"
    by (rule digest_step_loads [of s p g]) (use Cons.prems in auto)
  obtain g2 s2 where r: "res_fold digest_step ps (g1, s1) = Inr (g2, s2)" "loads s1 s2"
    by (rule Cons.IH [of g1 s1]) (use Cons.prems loadsD(3,6) [OF d(2)] in auto)
  show ?case
    by (rule Cons.prems(1) [of g2 s2]) (use d r loads_trans in auto)
qed

lemma updateNodesDigest_loads:
  assumes inv: "cache_inv s"
  obtains g' s' where "updateNodesDigest ctx g z s = Inr (g', s')" "loads s s'"
proof (cases "kc_digest_enabled ctx \<and> map_of (us_zxid_to_nodes (uncommitted s)) z \<noteq> None")
  case False
  then have "updateNodesDigest ctx g z s = Inr (g, s)" by (auto simp: updateNodesDigest_def)
  then show ?thesis using that loads_refl [OF inv] by simp
next
  case True
  then obtain ps where ps: "map_of (us_zxid_to_nodes (uncommitted s)) z = Some ps" by auto
  have "\<forall>p\<in>set ps. find_entry s p \<noteq> None"
  proof
    fix p assume "p \<in> set ps"
    then have "p \<in> set (bucket (map_of (us_zxid_to_nodes (uncommitted s))) z)" using ps by (simp add: bucket_def)
    then show "find_entry s p \<noteq> None"
      using inv unfolding cache_inv_def tracking_ok_def find_entry_def by blast
  qed
  then obtain g' s' where "res_fold digest_step ps (g, s) = Inr (g', s')" "loads s s'"
    by (rule digest_steps_loads [OF inv])
  then show ?thesis
    using that True ps by (simp add: updateNodesDigest_def)
qed

subsection \<open>What a request finds in the tree\<close>

text \<open>The tree in which the answer to a request can be computed.\<close>

fun answerable :: "zk_request \<Rightarrow> tree \<Rightarrow> bool" where
  "answerable (GetRequest p w) t \<longleftrightarrow> p = keeper_config_path \<or> t p \<noteq> None"
| "answerable (ExistsRequest p w) t \<longleftrightarrow> t p \<noteq> None"
| "answerable (ListRequest k p w) t \<longleftrightarrow> t p \<noteq> None"
| "answerable (GetACLRequest p) t \<longleftrightarrow> t p \<noteq> None"
| "answerable (SetRequest p d v) t \<longleftrightarrow> t p \<noteq> None"
| "answerable (SetACLRequest p a v) t \<longleftrightarrow> t p \<noteq> None"
| "answerable (CheckRequest p v ne) t \<longleftrightarrow>
     (case t p of None \<Rightarrow> ne | Some a \<Rightarrow> version_ok v (ns_version (an_stats a)) \<noteq> ne)"
| "answerable _ t \<longleftrightarrow> True"

text \<open>
  The system nodes that \<open>Get\<close> expects without looking: the feature flags, which every server has, and the
  availability zone, which only a server with a configured zone has.
\<close>

definition has_system :: "tree \<Rightarrow> bool" where
  "has_system t \<longleftrightarrow> t keeper_api_feature_flags_path \<noteq> None"

fun zone_read :: "zk_request \<Rightarrow> bool" where
  "zone_read (GetRequest p w) \<longleftrightarrow> p = keeper_availability_zone_path"
| "zone_read (MultiRequest ty rs) \<longleftrightarrow> (\<exists>r\<in>set rs. zone_read r)"
| "zone_read r \<longleftrightarrow> False"

definition zone_known :: "zk_request \<Rightarrow> tree \<Rightarrow> bool" where
  "zone_known r t \<longleftrightarrow> (zone_read r \<longrightarrow> t keeper_availability_zone_path \<noteq> None)"

lemma sys_system_paths: "sys keeper_api_feature_flags_path" "sys keeper_availability_zone_path"
  by (simp_all add: sys_def matchPath_def keeper_api_feature_flags_path_def keeper_availability_zone_path_def
        keeper_system_path_def remove_slash_suffix_def slash_def)

lemma has_system_kept: "moves z t t' \<Longrightarrow> has_system t \<Longrightarrow> has_system t'"
  using sys_system_paths by (simp add: has_system_def moves_def)

lemma zone_known_kept: "moves z t t' \<Longrightarrow> zone_known r t \<Longrightarrow> zone_known r t'"
  using sys_system_paths by (simp add: zone_known_def moves_def)

lemma zone_known_multi: "zone_known (MultiRequest ty rs) t \<longleftrightarrow> (\<forall>r\<in>set rs. zone_known r t)"
  by (auto simp: zone_known_def)

lemma abs_deltas_keep:
  "\<forall>d\<in>set ds. \<not> remove_op (delta_operation d) \<Longrightarrow> t p \<noteq> None \<Longrightarrow> abs_deltas ds t p \<noteq> None"
proof (induction ds arbitrary: t)
  case (Cons d ds)
  have "abs_delta d t p \<noteq> None"
    using Cons.prems by (cases "delta_operation d") (auto simp: abs_delta_def)
  with Cons show ?case by simp
qed simp

lemma clean_error [simp]: "e \<noteq> ZOK \<Longrightarrow> \<not> clean [error_delta z e]"
  by (simp add: clean_def error_delta_def)

lemma clean_Nil [simp]: "clean []"
  by (simp add: clean_def)

lemma require_node_found:
  assumes "cache_inv s" "require_node p z s = Inr (ds, s')" "clean ds"
  shows "ds = [] \<and> uview s p \<noteq> None"
proof -
  obtain node s1 where g: "getNode p s = (node, s1)" by fastforce
  from assms(1) g show ?thesis
    by (cases rule: getNode_cases) (use assms g in \<open>auto simp: require_node_def\<close>)
qed

lemma set_found:
  assumes inv: "cache_inv s" and ok: "clean ds"
  shows "preprocess_set ctx p data v z time s = Inr (ds, s') \<Longrightarrow> uview s p \<noteq> None \<and> (\<forall>d\<in>set ds. \<not> remove_op (delta_operation d))"
    "preprocess_set_acl ctx p acls v z sid s = Inr (ds, s') \<Longrightarrow> uview s p \<noteq> None \<and> (\<forall>d\<in>set ds. \<not> remove_op (delta_operation d))"
proof -
  obtain node s1 where g: "getNode p s = (node, s1)" by fastforce
  note d = preprocess_set_def preprocess_set_acl_def new_stat_delta_def g
  from inv g have found: "uview s p \<noteq> None" if "node \<noteq> None"
    by (cases rule: getNode_cases) (use that in simp_all)
  show "uview s p \<noteq> None \<and> (\<forall>d\<in>set ds. \<not> remove_op (delta_operation d))" if "preprocess_set ctx p data v z time s = Inr (ds, s')"
    using that ok found
    by (cases node; cases "parentNodePath p"; cases "getNode (projr (parentNodePath p)) s1") (auto simp: d res_bind_Inr_iff split: if_splits option.splits)
  show "uview s p \<noteq> None \<and> (\<forall>d\<in>set ds. \<not> remove_op (delta_operation d))" if "preprocess_set_acl ctx p acls v z sid s = Inr (ds, s')"
    using that ok found
    by (cases node; cases "fixupACL acls sid s1") (auto simp: d res_bind_Inr_iff split: if_splits)
qed

lemma check_found:
  assumes "cache_inv s" "preprocess_check p v ne z s = Inr (ds, s')" "clean ds"
  shows "ds = [] \<and> answerable (CheckRequest p v ne) (uview s)"
proof -
  obtain node s1 where g: "getNode p s = (node, s1)" by fastforce
  from assms(1) g show ?thesis
    by (cases rule: getNode_cases)
      (use assms(2,3) g in \<open>auto simp: preprocess_check_def version_ok_def split: if_splits\<close>)
qed

lemma preprocess_answerable:
  assumes inv: "cache_inv s" and sys: "has_system (uview s)" "zone_known r (uview s)" and run: "preprocess ctx z sid time r g s = Inr (ds, g', s')"
    and r: "simple_request r" and ok: "clean ds"
  shows "answerable r (abs_deltas ds (uview s))"
proof -
  have found: "ds = []" "uview s p \<noteq> None" if "require_node p z s = Inr (ds, s')" for p
    using require_node_found [OF inv that ok] by simp_all
  show ?thesis
  proof (cases r)
    case (GetRequest p w)
    have get: "preprocess_get p z s = Inr (ds, s')"
      using run GetRequest by (auto simp: with_digest_def res_bind_Inr_iff)
    show ?thesis
    proof (cases "p = keeper_api_feature_flags_path \<or> p = keeper_config_path \<or> p = keeper_availability_zone_path")
      case True
      then show ?thesis using get sys unfolding GetRequest by (auto simp: preprocess_get_def has_system_def zone_known_def)
    next
      case False
      then have "require_node p z s = Inr (ds, s')" using get by (simp add: preprocess_get_def)
      from found [OF this] show ?thesis unfolding GetRequest by simp
    qed
  next
    case (SetRequest p d v)
    have "preprocess_set ctx p d v z time s = Inr (ds, s')"
      using run SetRequest by (auto simp: with_digest_def res_bind_Inr_iff)
    note f = set_found(1) [OF inv ok this]
    have "abs_deltas ds (uview s) p \<noteq> None" by (rule abs_deltas_keep [OF conjunct2 [OF f], of "uview s" p, OF conjunct1 [OF f]])
    then show ?thesis unfolding SetRequest by simp
  next
    case (SetACLRequest p a v)
    have "preprocess_set_acl ctx p a v z sid s = Inr (ds, s')"
      using run SetACLRequest by (auto simp: with_digest_def res_bind_Inr_iff)
    note f = set_found(2) [OF inv ok this]
    have "abs_deltas ds (uview s) p \<noteq> None" by (rule abs_deltas_keep [OF conjunct2 [OF f], of "uview s" p, OF conjunct1 [OF f]])
    then show ?thesis unfolding SetACLRequest by simp
  next
    case (CheckRequest p v ne)
    have "preprocess_check p v ne z s = Inr (ds, s')"
      using run CheckRequest by (auto simp: with_digest_def res_bind_Inr_iff)
    from check_found [OF inv this ok] show ?thesis unfolding CheckRequest by simp
  next
    case (ExistsRequest p w)
    then have "require_node p z s = Inr (ds, s')" using run by (auto simp: with_digest_def res_bind_Inr_iff)
    from found [OF this] show ?thesis unfolding ExistsRequest by simp
  next
    case (ListRequest k p w)
    then have "require_node p z s = Inr (ds, s')" using run by (auto simp: with_digest_def res_bind_Inr_iff)
    from found [OF this] show ?thesis unfolding ListRequest by simp
  next
    case (GetACLRequest p)
    then have "require_node p z s = Inr (ds, s')" using run by (auto simp: with_digest_def res_bind_Inr_iff)
    from found [OF this] show ?thesis unfolding GetACLRequest by simp
  qed simp_all
qed

subsection \<open>Groups of deltas\<close>

text \<open>The deltas of one transaction on the tree that it starts from.\<close>

definition step_ok :: "int \<Rightarrow> delta list \<Rightarrow> tree \<Rightarrow> bool" where
  "step_ok z ds t \<longleftrightarrow> (\<forall>d\<in>set ds. delta_zxid d = z) \<and> ok_deltas ds t \<and> reverts ds t
     \<and> tree_inv (abs_deltas ds t) \<and> moves z t (abs_deltas ds t)"

lemma step_okD:
  assumes "step_ok z ds t"
  shows "d \<in> set ds \<Longrightarrow> delta_zxid d = z" "ok_deltas ds t" "reverts ds t" "tree_inv (abs_deltas ds t)"
    "moves z t (abs_deltas ds t)"
  using assms by (simp_all add: step_ok_def)

lemma step_ok_append: "step_ok z xs t \<Longrightarrow> step_ok z ys (abs_deltas xs t) \<Longrightarrow> step_ok z (xs @ ys) t"
  using moves_trans by (auto simp: step_ok_def ok_deltas_append reverts_append)

lemma prepared_step_ok: "prepared z ds s s' \<Longrightarrow> step_ok z ds (uview s)"
  by (simp add: prepared_def step_ok_def)

text \<open>A subrequest that is served, and the subrequests of a successful \<open>Multi\<close>.\<close>

definition served :: "int \<Rightarrow> zk_request \<Rightarrow> delta list \<Rightarrow> tree \<Rightarrow> bool" where
  "served z r ds t \<longleftrightarrow> ((clean ds \<and> answerable r (abs_deltas ds t)) \<or> (\<exists>e. e \<noteq> ZOK \<and> ds = [error_delta z e]))
     \<and> (\<forall>p. r = SyncRequest p \<longrightarrow> ds = [])"

abbreviation sub_end :: "int \<Rightarrow> delta" where "sub_end z \<equiv> Delta [] z SubDeltaEnd"

fun served_all :: "int \<Rightarrow> zk_request list \<Rightarrow> delta list \<Rightarrow> tree \<Rightarrow> bool" where
  "served_all z [] ds t \<longleftrightarrow> ds = []"
| "served_all z (r # rs) ds t \<longleftrightarrow>
     (\<exists>sub rest. ds = sub @ sub_end z # rest \<and> served z r sub t \<and> tree_inv (abs_deltas sub t)
        \<and> served_all z rs rest (abs_deltas sub t))"

lemma abs_sub_end [simp]: "abs_delta (sub_end z) t = t" "undo_delta (sub_end z) t = t" "ok_delta (sub_end z) t"
  by (simp_all add: abs_delta_def undo_delta_def ok_delta_def)

lemma step_ok_end: "step_ok z ds t \<Longrightarrow> step_ok z (ds @ [sub_end z]) t"
  by (simp add: step_ok_def ok_deltas_append reverts_def)

lemma applicable_end: "applicable ds s \<Longrightarrow> 0 < z \<Longrightarrow> applicable (ds @ [sub_end z]) s"
  by (auto simp: applicable_def ok_deltas_append)

lemma last_error_clean:
  assumes "clean ds"
  shows "last_error ds = None"
proof (cases "ds = []")
  case False
  then have "plain_op (delta_operation (last ds))" using assms last_in_set [of ds] by (simp add: clean_def)
  then show ?thesis by (cases "delta_operation (last ds)") (simp_all add: last_error_def is_error_delta_def)
qed (simp add: last_error_def)

lemma last_error_error [simp]: "last_error [error_delta z e] = Some e"
  by (simp add: last_error_def is_error_delta_def error_delta_def)

lemma preprocess_served:
  assumes "cache_inv s" "acls_resolve s" "tree_inv (uview s)" "has_system (uview s)" "system_paths_open ctx" "simple_request r"
    "zone_known r (uview s)"
  obtains ds s' where "preprocess ctx z sid time r g s = Inr (ds, g, s')" "prepared z ds s s'" "served z r ds (uview s)"
proof -
  obtain ds s' where run: "preprocess ctx z sid time r g s = Inr (ds, g, s')" "prepared z ds s s'"
    by (rule preprocess_simple [OF assms(1-3,5,6)])
  have "served z r ds (uview s)"
    using preparedD(2) [OF run(2)] preprocess_answerable [OF assms(1,4,7) run(1) assms(6)] run(1) by (auto simp: served_def)
  with run that show ?thesis by blast
qed

subsection \<open>The subrequests of Multi\<close>

lemma subrequest_applied:
  assumes sync: "sync pend s" and inv: "committed_inv s" and sub: "prepared z sub s s1" and z: "0 < z"
  obtains g' s2 where "applyDeltas (sub @ [sub_end z]) (g, s1) = Inr (g', s2)" "sync (pend @ sub @ [sub_end z]) s2"
    "frame s s2" "uview s2 = abs_deltas sub (uview s)"
proof -
  have view: "uview s1 = uview s" by (rule readsD(1) [OF preparedD(1) [OF sub]])
  have app: "applicable (sub @ [sub_end z]) s1"
    by (rule applicable_end [OF prepared_applicable [OF sub sync_sized [OF sync inv] z] z])
  obtain g' s2 where run: "applyDeltas (sub @ [sub_end z]) (g, s1) = Inr (g', s2)" "g' = None \<longleftrightarrow> g = None"
    "applied (sub @ [sub_end z]) s1 s2"
    by (rule applyDeltas_spec [OF app])
  have "sync (pend @ sub @ [sub_end z]) s2"
    by (rule sync_applied [OF sync_reads [OF sync preparedD(1) [OF sub]] run(3)])
      (use preparedD(5) [OF sub] in \<open>simp add: view ok_deltas_append\<close>)
  moreover have "frame s s2"
    using frame_trans [OF reads_frame [OF preparedD(1) [OF sub]] applied_frame [OF run(3)]] .
  moreover have "uview s2 = abs_deltas sub (uview s)"
    using appliedD(2) [OF run(3)] view by simp
  ultimately show ?thesis using that run(1) by blast
qed

text \<open>
  The handlers of the subrequests run in turn, each on the tree that the ones before it leave; no subrequest of a
  write fails. When one of them fails, it is reported after those that ran, and the rest as not tried.
\<close>

fun multi_run :: "keeper_context \<Rightarrow> int \<Rightarrow> int \<Rightarrow> int \<Rightarrow> bool \<Rightarrow> zk_request list \<Rightarrow> delta list \<Rightarrow> tree \<Rightarrow> bool" where
  "multi_run ctx z sid time is_write [] ds t \<longleftrightarrow> ds = []"
| "multi_run ctx z sid time is_write (r # rs) ds t \<longleftrightarrow>
     (\<exists>sub rest s s'. ds = sub @ sub_end z # rest \<and> uview s = t \<and> preprocess ctx z sid time r None s = Inr (sub, None, s')
        \<and> (is_write \<longrightarrow> clean sub) \<and> multi_run ctx z sid time is_write rs rest (abs_deltas sub t))"

definition multi_fails ::
  "keeper_context \<Rightarrow> int \<Rightarrow> int \<Rightarrow> int \<Rightarrow> zk_request list \<Rightarrow> zk_error list \<Rightarrow> tree \<Rightarrow> bool" where
  "multi_fails ctx z sid time rs es t \<longleftrightarrow>
     (\<exists>before r after ds e s s'. rs = before @ r # after \<and> multi_run ctx z sid time True before ds t
        \<and> uview s = abs_deltas ds t \<and> preprocess ctx z sid time r None s = Inr ([error_delta z e], None, s') \<and> e \<noteq> ZOK
        \<and> es = replicate (length before) ZOK @ e # replicate (length after) ZRUNTIMEINCONSISTENCY)"

lemma multi_fails_Cons:
  assumes "multi_fails ctx z sid time rs es (abs_deltas sub t)" "uview s = t" "preprocess ctx z sid time r None s = Inr (sub, None, s')" "clean sub"
  shows "multi_fails ctx z sid time (r # rs) (ZOK # es) t"
proof -
  from assms(1) obtain before q after ds e s1 s2 where f: "rs = before @ q # after" "multi_run ctx z sid time True before ds (abs_deltas sub t)"
    "uview s1 = abs_deltas ds (abs_deltas sub t)" "preprocess ctx z sid time q None s1 = Inr ([error_delta z e], None, s2)" "e \<noteq> ZOK"
    "es = replicate (length before) ZOK @ e # replicate (length after) ZRUNTIMEINCONSISTENCY"
    unfolding multi_fails_def by blast
  have "multi_run ctx z sid time True (r # before) (sub @ sub_end z # ds) t" using f(2) assms(2-4) by auto
  with f show ?thesis unfolding multi_fails_def
    by (intro exI [of _ "r # before"] exI [of _ q] exI [of _ after] exI [of _ "sub @ sub_end z # ds"] exI [of _ e] exI [of _ s1] exI [of _ s2]) simp
qed

lemma preprocess_subrequests_spec:
  assumes "sync (pend @ new) s" "committed_inv s" "tree_inv (uview s)" "has_system (uview s)"
    "\<forall>r\<in>set rs. simple_request r \<and> zone_known r (uview s)" "system_paths_open ctx" "0 < z"
    "\<forall>d\<in>set pend. delta_zxid d \<noteq> z" "\<forall>d\<in>set new. delta_zxid d = z" "reverts new (abs_deltas pend (cview s))"
  shows "(\<exists>more g' s'. preprocess_subrequests ctx z sid time m rs errs new g s = Inr (Inr (new @ more, g', s'))
             \<and> sync (pend @ new @ more) s' \<and> frame s s' \<and> uview s' = abs_deltas more (uview s)
             \<and> step_ok z more (uview s) \<and> served_all z rs more (uview s) \<and> multi_run ctx z sid time m rs more (uview s))
       \<or> (\<exists>es s'. preprocess_subrequests ctx z sid time m rs errs new g s = Inr (Inl (errs @ es, s')) \<and> m
             \<and> length es = length rs \<and> sync pend s' \<and> frame s s' \<and> multi_fails ctx z sid time rs es (uview s))"
  using assms
proof (induction rs arbitrary: s errs new g)
  case Nil
  then show ?case by (simp add: step_ok_def)
next
  case (Cons r rs)
  have inv: "cache_inv s" "acls_resolve s"
    using syncD(1) [OF Cons.prems(1)] Cons.prems(2) acls_resolve_counted by (auto simp: committed_inv_def)
  obtain sub s1 where sub: "preprocess ctx z sid time r None s = Inr (sub, None, s1)" "prepared z sub s s1" "served z r sub (uview s)"
    by (rule preprocess_served [OF inv Cons.prems(3,4,6)]) (use Cons.prems(5) in auto)
  note p = preparedD [OF sub(2)] and st = prepared_step_ok [OF sub(2)]
  have view: "uview s = abs_deltas new (abs_deltas pend (cview s))" using syncD(2) [OF Cons.prems(1)] by simp
  show ?case
  proof (cases "if m then last_error sub else None")
    case (Some e)
    have f1: "frame s s1" by (rule reads_frame [OF p(1)])
    have "committed_inv s1" using frame_committed_inv [OF f1] Cons.prems(2) by simp
    then obtain s2 where s2: "rollback_deltas new s1 = Inr s2" "sync pend s2" "same_committed s1 s2"
      by (rule rollback_sync [OF sync_reads [OF Cons.prems(1) p(1)]])
        (use Cons.prems(8-10) frame_views(1) [OF f1] in auto)
    have "frame s s2" using frame_trans [OF f1 same_committed_frame [OF s2(3)]] .
    moreover have "preprocess_subrequests ctx z sid time m (r # rs) errs new g s
        = Inr (Inl (errs @ [e] @ replicate (length rs) ZRUNTIMEINCONSISTENCY, s2))"
      using sub(1) Some s2(1) by simp
    moreover have m: m using Some by (simp split: if_splits)
    moreover have "sub = [error_delta z e] \<and> e \<noteq> ZOK" using Some m sub(3) last_error_clean by (auto simp: served_def)
    then have "multi_fails ctx z sid time (r # rs) ([e] @ replicate (length rs) ZRUNTIMEINCONSISTENCY) (uview s)"
      unfolding multi_fails_def using sub(1)
      by (intro exI [of _ "[]"] exI [of _ r] exI [of _ rs] exI [of _ "[]"] exI [of _ e] exI [of _ s] exI [of _ s1]) simp
    ultimately show ?thesis using s2(2)
      by (intro disjI2 exI [of _ "[e] @ replicate (length rs) ZRUNTIMEINCONSISTENCY"] exI [of _ s2]) simp
  next
    case None
    obtain g2 s2 where s2: "applyDeltas (sub @ [sub_end z]) (g, s1) = Inr (g2, s2)"
      "sync ((pend @ new) @ sub @ [sub_end z]) s2" "frame s s2" "uview s2 = abs_deltas sub (uview s)"
      by (rule subrequest_applied [OF Cons.prems(1,2) sub(2) Cons.prems(7)])
    let ?new = "new @ sub @ [sub_end z]"
    have run: "preprocess_subrequests ctx z sid time m (r # rs) errs new g s
        = preprocess_subrequests ctx z sid time m rs (errs @ [ZOK]) ?new g2 s2"
      using sub(1) None s2(1) by simp
    have rev: "reverts ?new (abs_deltas pend (cview s2))"
      unfolding frame_views(1) [OF s2(3)]
      by (rule reverts_append [OF Cons.prems(10)]) (use step_okD(3) [OF step_ok_end [OF st]] view in simp)
    have tree: "tree_inv (uview s2)" "has_system (uview s2)"
      unfolding s2(4) using step_okD(4) [OF st] has_system_kept [OF step_okD(5) [OF st] Cons.prems(4)] by simp_all
    have zx: "\<forall>d\<in>set ?new. delta_zxid d = z" using Cons.prems(9) step_okD(1) [OF st] by auto
    have com: "committed_inv s2" using frame_committed_inv [OF s2(3)] Cons.prems(2) by simp
    have rs: "\<forall>r\<in>set rs. simple_request r \<and> zone_known r (uview s2)"
      unfolding s2(4) using Cons.prems(5) zone_known_kept [OF step_okD(5) [OF st]] by simp
    have ok: "m \<longrightarrow> clean sub" using None sub(3) by (auto simp: served_def)
    have "sync (pend @ ?new) s2" using s2(2) by simp
    from Cons.IH [OF this com tree rs Cons.prems(6-8) zx rev, of "errs @ [ZOK]" g2]
    show ?thesis
      unfolding run
    proof (elim disjE exE conjE, goal_cases)
      case (1 more g' s')
      have "step_ok z ((sub @ [sub_end z]) @ more) (uview s)"
        by (rule step_ok_append [OF step_ok_end [OF st]]) (use 1(5) s2(4) in simp)
      moreover have "served_all z (r # rs) (sub @ sub_end z # more) (uview s)"
        using sub(3) 1(6) s2(4) step_okD(4) [OF st] by auto
      moreover have "multi_run ctx z sid time m (r # rs) (sub @ sub_end z # more) (uview s)"
        using sub(1) ok 1(7) s2(4) by auto
      ultimately show ?case
        using 1(1-4) frame_trans [OF s2(3)] s2(4)
        by (intro disjI1 exI [of _ "sub @ sub_end z # more"] exI [of _ g'] exI [of _ s']) simp
    next
      case (2 es s')
      then show ?case using frame_trans [OF s2(3)] multi_fails_Cons [OF _ refl sub(1), of rs es] ok s2(4)
        by (intro disjI2 exI [of _ "ZOK # es"] exI [of _ s']) simp
    qed
  qed
qed

subsection \<open>Leaving preprocessRequest\<close>

text \<open>Fields that the visible trees do not depend on.\<close>

lemma sync_other_fields [simp]:
  "sync ds (s\<lparr>uncommitted_transactions := x\<rparr>) = sync ds s"
  "sync ds (s\<lparr>uncommitted := (uncommitted s)\<lparr>us_deltas := y\<rparr>\<rparr>) = sync ds s"
proof -
  have "uview (s\<lparr>uncommitted_transactions := x\<rparr>) = uview s" "cview (s\<lparr>uncommitted_transactions := x\<rparr>) = cview s"
    "uview (s\<lparr>uncommitted := (uncommitted s)\<lparr>us_deltas := y\<rparr>\<rparr>) = uview s"
    "cview (s\<lparr>uncommitted := (uncommitted s)\<lparr>us_deltas := y\<rparr>\<rparr>) = cview s"
    by (simp_all add: uview_def cview_def find_entry_def find_node_def fun_eq_iff split: option.split)
  then show "sync ds (s\<lparr>uncommitted_transactions := x\<rparr>) = sync ds s"
    "sync ds (s\<lparr>uncommitted := (uncommitted s)\<lparr>us_deltas := y\<rparr>\<rparr>) = sync ds s"
    by (simp_all add: sync_def auths_end_def cache_inv_def tracking_ok_def entry_ok_def find_entry_def find_node_def
          applied_to_def acl_loaded_def cong: option.case_cong)
qed

lemma frame_addDeltas: "frame s s' \<Longrightarrow> frame (addDeltas ds s) (addDeltas ds s')"
  by (simp add: frame_def addDeltas_def outer_def)

lemma loads_frame: "loads s s' \<Longrightarrow> frame s s'"
  by (rule reads_frame [OF loads_reads])

lemma frame_transactions:
  "frame s s' \<Longrightarrow> frame (s\<lparr>uncommitted_transactions := x\<rparr>) (s'\<lparr>uncommitted_transactions := x\<rparr>)"
  by (cases s; cases s') (simp add: frame_def outer_def)

lemma addDeltas_transactions:
  "addDeltas ds (s\<lparr>uncommitted_transactions := x\<rparr>) = (addDeltas ds s)\<lparr>uncommitted_transactions := x\<rparr>"
  by (cases s) (simp add: addDeltas_def)

lemma digest_stage:
  assumes "cache_inv s"
  obtains d s' where "(if kc_digest_enabled ctx
      then res_bind (updateNodesDigest ctx g z s) (\<lambda>(digest, s3). Inr (\<lparr>kd_version = KEEPER_CURRENT_DIGEST_VERSION, kd_value = digest\<rparr>, s3))
      else Inr (\<lparr>kd_version = NO_DIGEST, kd_value = 0\<rparr>, s)) = Inr (d, s')" "loads s s'"
proof -
  obtain g' s' where "updateNodesDigest ctx g z s = Inr (g', s')" "loads s s'"
    by (rule updateNodesDigest_loads [OF assms])
  then show ?thesis
    using that loads_refl [OF assms] by (cases "kc_digest_enabled ctx") auto
qed

lemma finish_preprocess_spec:
  assumes sync: "sync pend s" and app: "applicable ds s" and later: "\<forall>d\<in>set (pend @ ds). committed_zxid s < delta_zxid d"
  obtains d s' where "finish_preprocess ctx z ds g s = Inr s'" "sync (pend @ ds) s'"
    "frame (addDeltas ds (s\<lparr>uncommitted_transactions := butlast (uncommitted_transactions s)
        @ [(last (uncommitted_transactions s))\<lparr>ti_nodes_digest := d\<rparr>]\<rparr>)) s'"
proof -
  obtain g1 s1 where s1: "applyDeltas ds (if kc_digest_enabled ctx then Some g else None, s) = Inr (g1, s1)" "applied ds s s1"
    by (rule applyDeltas_spec [OF app])
  have sync1: "sync (pend @ ds) s1"
    by (rule sync_applied [OF sync s1(2)]) (use app in \<open>simp add: applicable_def\<close>)
  then have sync2: "sync (pend @ ds) (addDeltas ds s1)" by (simp add: addDeltas_def)
  obtain d s3 where s3: "(if kc_digest_enabled ctx
      then res_bind (updateNodesDigest ctx (the g1) z (addDeltas ds s1)) (\<lambda>(digest, s3). Inr (\<lparr>kd_version = KEEPER_CURRENT_DIGEST_VERSION, kd_value = digest\<rparr>, s3))
      else Inr (\<lparr>kd_version = NO_DIGEST, kd_value = 0\<rparr>, addDeltas ds s1)) = Inr (d, s3)" "loads (addDeltas ds s1) s3"
    by (rule digest_stage [OF syncD(1) [OF sync2]])
  let ?ts = "butlast (uncommitted_transactions s) @ [(last (uncommitted_transactions s))\<lparr>ti_nodes_digest := d\<rparr>]"
  have f3: "frame (addDeltas ds s) s3"
    using frame_trans [OF frame_addDeltas [OF applied_frame [OF s1(2)]] loads_frame [OF s3(2)]] .
  have f4: "frame (addDeltas ds (s\<lparr>uncommitted_transactions := ?ts\<rparr>)) (s3\<lparr>uncommitted_transactions := ?ts\<rparr>)"
    using frame_transactions [OF f3, of ?ts] by (simp only: addDeltas_transactions)
  have fields: "uncommitted_transactions s3 = uncommitted_transactions s" "committed_zxid s3 = committed_zxid s"
    using frameD(6,3) [OF f3] by (simp_all add: addDeltas_def)
  have "sync (pend @ ds) (s3\<lparr>uncommitted_transactions := ?ts\<rparr>)" using sync_loads [OF sync2 s3(2)] by simp
  from cleanup_sync [OF this, of "committed_zxid s"] later
  obtain s' where s': "cleanup (committed_zxid s) (s3\<lparr>uncommitted_transactions := ?ts\<rparr>) = Inr s'" "sync (pend @ ds) s'"
    "same_base (s3\<lparr>uncommitted_transactions := ?ts\<rparr>) s'" by blast
  have "finish_preprocess ctx z ds g s = Inr s'"
    unfolding finish_preprocess_def s1(1) res_bind_simps prod.case Let_def s3(1) fields by (rule s'(1))
  moreover have "frame (addDeltas ds (s\<lparr>uncommitted_transactions := ?ts\<rparr>)) s'"
    using frame_trans [OF f4 same_base_frame [OF s'(3) same_baseD(9) [OF s'(3)]]] .
  ultimately show ?thesis using that s'(2) by blast
qed

end
