(* ===== verification/Keeper_Close.thy ===== *)
theory Keeper_Close
  imports Keeper_Transactions
begin

section \<open>Closing a session\<close>

text \<open>
  The deltas of \<open>Close\<close>: the ephemeral nodes of the session are removed one after the other, the statistics of
  their parents are collected and written at the end. The deltas fit the tree, keep its invariant and can be undone;
  the nodes that they remove are exactly the nodes of the session among those that the two maps of ephemeral nodes name.
\<close>

subsection \<open>Removals and updates of statistics\<close>

definition removal_of :: "int \<Rightarrow> path \<Rightarrow> anode \<Rightarrow> delta" where
  "removal_of z p a = Delta p z (RemoveNodeDelta (-1) (an_stats a) (an_acls a) (an_data a))"

lemma removal_of_fields [simp]: "delta_path (removal_of z p a) = p" "delta_zxid (removal_of z p a) = z"
  by (simp_all add: removal_of_def)

definition removable :: "tree \<Rightarrow> path \<Rightarrow> anode \<Rightarrow> bool" where
  "removable t p a \<longleftrightarrow> t p = Some a \<and> anode_wf a \<and> length (an_data a) < 2 ^ 32 \<and> p \<noteq> [] \<and> parentOf p \<noteq> p
     \<and> t (parentOf p) \<noteq> None"

lemma removals_tree:
  assumes "distinct (map fst ps)" "\<forall>(p, a)\<in>set ps. removable t p a \<and> parentOf p \<notin> fst ` set ps"
  shows "ok_deltas (map (\<lambda>(p, a). removal_of z p a) ps) t \<and> reverts (map (\<lambda>(p, a). removal_of z p a) ps) t
    \<and> abs_deltas (map (\<lambda>(p, a). removal_of z p a) ps) t = (\<lambda>q. if q \<in> fst ` set ps then None else t q)"
  using assms
proof (induction ps arbitrary: t)
  case (Cons pa ps)
  obtain p a where pa: "pa = (p, a)" by fastforce
  let ?d = "removal_of z p a" and ?t = "t(p := None)"
  have rm: "removable t p a" using Cons.prems(2) pa by simp
  have d: "abs_delta ?d t = ?t" using rm by (simp add: removal_of_def abs_delta_def)
  have IH: "\<forall>(q, b)\<in>set ps. removable ?t q b \<and> parentOf q \<notin> fst ` set ps"
  proof
    fix x assume x: "x \<in> set ps"
    obtain q b where qb: "x = (q, b)" by fastforce
    have "q \<noteq> p" using Cons.prems(1) x pa qb by force
    moreover have "removable t q b" "parentOf q \<noteq> p" "parentOf q \<notin> fst ` set ps" using Cons.prems(2) x pa qb by auto
    ultimately show "case x of (q, b) \<Rightarrow> removable ?t q b \<and> parentOf q \<notin> fst ` set ps" by (simp add: qb removable_def)
  qed
  note ih = Cons.IH [OF _ IH]
  have "ok_delta ?d t" using rm by (auto simp: removal_of_def ok_delta_def removable_def version_ok_def)
  moreover have "undo_delta ?d ?t = t"
    using rm data_anode_old [of a] by (auto simp: removal_of_def undo_delta_def removable_def fun_eq_iff)
  then have "reverts [?d] t" by (simp add: reverts_def d)
  moreover have "distinct (map fst ps)" using Cons.prems(1) pa by simp
  note rest = ih [OF this]
  moreover have "(\<lambda>q. if q \<in> fst ` set ps then None else ?t q) = (\<lambda>q. if q \<in> fst ` set (pa # ps) then None else t q)"
    by (auto simp: pa)
  ultimately show ?case
    using reverts_append [of "[?d]" t "map (\<lambda>(p, a). removal_of z p a) ps"]
    by (simp only: pa list.map prod.case ok_deltas.simps abs_deltas_simps d append_Cons append_Nil simp_thms)
qed simp

definition stat_update :: "int \<Rightarrow> path \<times> node_stats \<times> node_stats \<Rightarrow> delta" where
  "stat_update z u = (case u of (p, old, new) \<Rightarrow> Delta p z (UpdateNodeStatDelta old new (-1)))"

text \<open>An update of the counters of a node that is not ephemeral.\<close>

definition counts :: "tree \<Rightarrow> path \<Rightarrow> node_stats \<Rightarrow> node_stats \<Rightarrow> bool" where
  "counts t p old new \<longleftrightarrow> (\<exists>b. t p = Some b \<and> old = an_stats b \<and> anode_wf b) \<and> p \<noteq> [] \<and> \<not> isEphemeral old
     \<and> \<not> isEphemeral new \<and> ns_data_size new = ns_data_size old"

definition updated :: "(path \<times> node_stats \<times> node_stats) list \<Rightarrow> tree \<Rightarrow> tree" where
  "updated us t = (\<lambda>q. map_option (\<lambda>b. case map_of us q of None \<Rightarrow> b | Some (old, new) \<Rightarrow> b\<lparr>an_stats := new\<rparr>) (t q))"

lemma updates_tree:
  assumes "distinct (map fst us)" "\<forall>(p, old, new)\<in>set us. counts t p old new"
  shows "ok_deltas (map (stat_update z) us) t \<and> reverts (map (stat_update z) us) t
    \<and> abs_deltas (map (stat_update z) us) t = updated us t"
  using assms
proof (induction us arbitrary: t)
  case (Cons u us)
  obtain p old new where u: "u = (p, old, new)" by (cases u) auto
  obtain b where b: "t p = Some b" "old = an_stats b" "anode_wf b" "p \<noteq> []" "\<not> isEphemeral old" "\<not> isEphemeral new"
    "ns_data_size new = ns_data_size old" using Cons.prems(2) u by (auto simp: counts_def)
  let ?d = "stat_update z u" and ?t = "t(p \<mapsto> b\<lparr>an_stats := new\<rparr>)"
  note sized = stat_anode_sized [OF b(3), of new]
  have d: "abs_delta ?d t = ?t" using b sized by (simp add: stat_update_def u abs_delta_def)
  have fresh: "p \<notin> fst ` set us" "distinct (map fst us)" using Cons.prems(1) u by auto
  have IH: "\<forall>(q, old', new')\<in>set us. counts ?t q old' new'"
  proof
    fix x assume x: "x \<in> set us"
    obtain q old' new' where q: "x = (q, old', new')" by (cases x) auto
    have "q \<noteq> p" using fresh(1) x q by force
    then show "case x of (q, old', new') \<Rightarrow> counts ?t q old' new'" using Cons.prems(2) x q by (auto simp: counts_def)
  qed
  have owner: "ephemeralOwner st = 0" if "\<not> isEphemeral st" for st using that by (simp add: ephemeralOwner_def)
  have "ok_delta ?d t"
    using b owner [OF b(5)] owner [OF b(6)] by (simp add: stat_update_def u ok_delta_def version_ok_def anode_wf_def)
  moreover have "undo_delta ?d ?t = t" using b sized by (auto simp: stat_update_def u undo_delta_def fun_eq_iff)
  then have "reverts [?d] t" by (simp add: reverts_def d)
  moreover have "updated us ?t = updated (u # us) t"
  proof -
    have none: "map_of us p = None" using fresh(1) by (simp add: map_of_eq_None_iff)
    show ?thesis using b(1) by (auto simp: updated_def u fun_eq_iff none)
  qed
  ultimately show ?case
    using Cons.IH [OF fresh(2) IH] reverts_append [of "[?d]" t "map (stat_update z) us"]
    by (simp only: list.map ok_deltas.simps abs_deltas_simps d append_Cons append_Nil simp_thms)
qed (simp add: updated_def option.map_ident)

subsection \<open>The loop over the ephemeral nodes\<close>

lemma close_stats_frame:
  assumes "\<not> isEphemeral st"
  defines "st' \<equiv> decreaseNumChildren (st\<lparr>ns_cversion := ns_cversion st + 1\<rparr>)"
  shows "ns_data_size st' = ns_data_size st" "\<not> isEphemeral st'" "numChildren st' = numChildren st - 1" "ns_mzxid st' = ns_mzxid st"
    "union_holds (ns_is_ephemeral st') (ns_data st')"
  using assms(1) by (auto simp: st'_def stats_defs)

definition owned :: "tree \<Rightarrow> int \<Rightarrow> path set \<Rightarrow> path set" where
  "owned t sid P = {p \<in> P. \<exists>a. t p = Some a \<and> ephemeralOwner (an_stats a) = sid}"

text \<open>
  The state of the loop after the paths \<open>P\<close>: the nodes \<open>ps\<close> are to be removed, and \<open>V\<close> is the tree without them and with
  the new statistics of their parents.
\<close>

definition closing :: "storage \<Rightarrow> int \<Rightarrow> int \<Rightarrow> path set \<Rightarrow> (path \<times> anode) list \<Rightarrow> close_state \<Rightarrow> tree \<Rightarrow> bool" where
  "closing s sid z P ps c V \<longleftrightarrow> reads s (cs_storage c) \<and> tree_inv V \<and> moves z (uview s) V
     \<and> cs_deltas c = map (\<lambda>(p, a). removal_of z p a) ps \<and> distinct (map fst ps) \<and> fst ` set ps = owned (uview s) sid P
     \<and> (\<forall>(p, a)\<in>set ps. uview s p = Some a \<and> isEphemeral (an_stats a) \<and> acl_loaded (cs_storage c) p)
     \<and> distinct (map fst (cs_parent_updates c))
     \<and> (\<forall>(p, old, new)\<in>set (cs_parent_updates c). counts (uview s) p old new)
     \<and> V = (\<lambda>q. if q \<in> owned (uview s) sid P then None else updated (cs_parent_updates c) (uview s) q)"

lemma closingD:
  assumes "closing s sid z P ps c V"
  shows "reads s (cs_storage c)" "tree_inv V" "moves z (uview s) V" "cs_deltas c = map (\<lambda>(p, a). removal_of z p a) ps"
    "distinct (map fst ps)" "fst ` set ps = owned (uview s) sid P"
    "(p, a) \<in> set ps \<Longrightarrow> uview s p = Some a \<and> isEphemeral (an_stats a) \<and> acl_loaded (cs_storage c) p"
    "distinct (map fst (cs_parent_updates c))"
    "(p, old, new) \<in> set (cs_parent_updates c) \<Longrightarrow> counts (uview s) p old new"
    "V q = (if q \<in> owned (uview s) sid P then None else updated (cs_parent_updates c) (uview s) q)"
  using assms unfolding closing_def by blast+

lemma closing_start: "cache_inv s \<Longrightarrow> tree_inv (uview s) \<Longrightarrow>
    closing s sid z {} [] \<lparr>cs_parent_updates = [], cs_processed = [], cs_deltas = [], cs_storage = s\<rparr> (uview s)"
  by (simp add: closing_def reads_refl owned_def updated_def option.map_ident)

lemma ephemeral_owner: "ephemeralOwner st \<noteq> 0 \<Longrightarrow> isEphemeral st"
  by (simp add: ephemeralOwner_def split: if_splits)

text \<open>The parent as the loop sees it.\<close>

lemma close_parent_spec:
  assumes c: "closing s sid z P ps c V" and b: "uview s q = Some b" "\<not> isEphemeral (an_stats b)" "anode_wf b" "q \<noteq> []"
    "q \<notin> owned (uview s) sid P"
  obtains new s2 where "close_parent q c = Inr ((an_stats b, new), s2)" "reads s s2" "reads (cs_storage c) s2" "counts (uview s) q (an_stats b) new"
    "V q = Some (b\<lparr>an_stats := new\<rparr>)"
proof (cases "map_of (cs_parent_updates c) q")
  case None
  obtain node s2 where g: "getNode q (cs_storage c) = (node, s2)" by fastforce
  from closingD(1) [OF c] g show ?thesis
  proof (cases rule: getNode_tree)
    case (present n b')
    then have "b' = b" using b by simp
    have "reads (cs_storage c) s2" by (rule getNode_reads [OF readsD(3) [OF closingD(1) [OF c]] g])
    moreover have "V q = Some (b\<lparr>an_stats := an_stats b\<rparr>)" using closingD(10) [OF c, of q] b None by (simp add: updated_def)
    ultimately show ?thesis
      using that [of "an_stats b" s2] present b None \<open>b' = b\<close> by (simp add: close_parent_def g counts_def)
  qed (use b in simp)
next
  case (Some u)
  obtain old new where u: "u = (old, new)" by fastforce
  have "(q, old, new) \<in> set (cs_parent_updates c)" using Some u by (simp add: map_of_SomeD)
  then have k: "counts (uview s) q old new" by (rule closingD(9) [OF c])
  then have old: "old = an_stats b" using b by (simp add: counts_def)
  have "V q = Some (b\<lparr>an_stats := new\<rparr>)" using closingD(10) [OF c, of q] b Some u by (simp add: updated_def)
  then show ?thesis
    using that [of new "cs_storage c"] Some u k old closingD(1) [OF c] reads_refl [OF readsD(3) [OF closingD(1) [OF c]]]
    by (simp add: close_parent_def)
qed

lemma getACLs_keeps:
  assumes "reads s s1" "acls_resolve s" "uview s p = Some a"
  obtains s2 where "getACLs p s1 = Inr (an_acls a, s2)" "reads s s2" "acl_loaded s2 p" "\<And>q. acl_loaded s1 q \<Longrightarrow> acl_loaded s2 q"
proof -
  have refl: "reads s1 s1" by (rule reads_refl [OF readsD(3) [OF assms(1)]])
  obtain s2 where s2: "getACLs p s1 = Inr (an_acls a, s2)" "reads s1 s2" "acl_loaded s2 p"
    by (rule getACLs_reads [OF refl reads_resolve [OF assms(1,2)], of p a]) (use assms(3) readsD(1) [OF assms(1)] in simp_all)
  then show ?thesis using that reads_trans [OF assms(1) s2(2)] readsD(4) [OF s2(2)] by blast
qed

text \<open>A path that does not name a node of the session is skipped.\<close>

lemma closing_skip:
  assumes c: "closing s sid z P ps c V" and r: "reads s s'" "\<And>q. acl_loaded (cs_storage c) q \<Longrightarrow> acl_loaded s' q"
    and p: "p \<notin> owned (uview s) sid (insert p P)"
  shows "closing s sid z (insert p P) ps (c\<lparr>cs_storage := s'\<rparr>) V"
proof -
  have "owned (uview s) sid (insert p P) = owned (uview s) sid P" using p by (auto simp: owned_def)
  then show ?thesis using c r unfolding closing_def by auto
qed

text \<open>A node of the session is removed, and its parent counts one child less.\<close>

lemma closing_remove:
  assumes c: "closing s sid z P ps c V" and tree: "tree_inv (uview s)" and sid: "sid \<noteq> 0" and p: "p \<notin> P" "uview s p = Some a"
    "ephemeralOwner (an_stats a) = sid" and b: "uview s (parentOf p) = Some b" "\<not> isEphemeral (an_stats b)"
    and new: "counts (uview s) (parentOf p) (an_stats b) new" "V (parentOf p) = Some (b\<lparr>an_stats := new\<rparr>)"
    and s3: "reads s s3" "acl_loaded s3 p" "\<And>q. acl_loaded (cs_storage c) q \<Longrightarrow> acl_loaded s3 q"
  defines "new' \<equiv> decreaseNumChildren (new\<lparr>ns_cversion := ns_cversion new + 1\<rparr>)"
  shows "closing s sid z (insert p P) (ps @ [(p, a)])
    (c\<lparr>cs_parent_updates := AList.update (parentOf p) (an_stats b, new') (cs_parent_updates c),
       cs_deltas := cs_deltas c @ [removal_of z p a], cs_storage := s3\<rparr>)
    ((V(parentOf p \<mapsto> b\<lparr>an_stats := new'\<rparr>))(p := None))"
proof -
  let ?q = "parentOf p" and ?O = "owned (uview s) sid P" and ?us = "cs_parent_updates c"
  let ?us' = "AList.update ?q (an_stats b, new') ?us" and ?b = "b\<lparr>an_stats := new\<rparr>" and ?b' = "b\<lparr>an_stats := new'\<rparr>"
  have eph: "isEphemeral (an_stats a)" using p(3) sid ephemeral_owner by auto
  have nsys: "\<not> sys p" using tree_inv_node(7) [OF tree p(2)] eph by blast
  have nroot: "p \<noteq> root" using tree_invD(4) [OF tree] p(2) eph by auto
  have can: "canonical_path p" by (rule tree_inv_node(1) [OF tree p(2)])
  have qp: "?q \<noteq> p" using parent_neq_self(1) [OF can nroot] by simp
  have pO: "p \<notin> ?O" using p(1) by (simp add: owned_def)
  have O: "owned (uview s) sid (insert p P) = insert p ?O" using p by (auto simp: owned_def)
  have qO: "?q \<notin> insert p ?O" using b qp sid ephemeral_owner by (auto simp: owned_def)
  have nokey: "map_of ?us p = None"
  proof (cases "map_of ?us p")
    case (Some u)
    then have "counts (uview s) p (fst u) (snd u)" by (intro closingD(9) [OF c]) (simp add: map_of_SomeD)
    then show ?thesis using p(2) eph by (auto simp: counts_def)
  qed simp
  have Vp: "V p = Some a" using closingD(10) [OF c, of p] pO nokey p(2) by (simp add: updated_def)
  have st: "\<not> isEphemeral new" "ns_data_size new = ns_data_size (an_stats b)" using new(1) by (simp_all add: counts_def)
  note st' = close_stats_frame [OF st(1), folded new'_def]
  have tV: "tree_inv V" by (rule closingD(2) [OF c])
  have bw: "anode_wf ?b" "length (an_data b) < 2 ^ 32" using tree_inv_node(2,3) [OF tV new(2)] by simp_all
  have zero: "numChildren (an_stats a) = 0" using tree_inv_node(6) [OF tV Vp nsys] no_kids_ephemeral [OF tV Vp eph] by simp
  have inv: "tree_inv ((V(?q \<mapsto> ?b'))(p := None))"
    by (rule tree_inv_remove(1) [OF tV Vp nsys zero new(2)])
      (use bw st st' tree_invD(5) [OF tV] new(2) in \<open>auto simp: anode_wf_def\<close>)
  have "stamped z (V ?q) ?b'" using new(2) st' by (simp add: stamped_def)
  then have mv: "moves z (uview s) ((V(?q \<mapsto> ?b'))(p := None))"
    using closingD(3) [OF c] not_sys_parent [OF can nroot nsys] nsys by (intro moves_trans [OF _ moves_trans [OF moves_update moves_remove]])
  have ups: "counts (uview s) x old new1" if "(x, old, new1) \<in> set ?us'" for x old new1
  proof -
    have "map_of ?us' x = Some (old, new1)"
      using that closingD(8) [OF c] by (intro map_of_is_SomeI) (simp_all add: distinct_update)
    then have "(x, old, new1) = (?q, an_stats b, new') \<or> (x, old, new1) \<in> set ?us"
      by (auto simp: map_of_alist_update dest: map_of_SomeD split: if_splits)
    moreover have "counts (uview s) ?q (an_stats b) new'" using new(1) st' by (simp add: counts_def)
    ultimately show ?thesis using closingD(9) [OF c] by auto
  qed
  have V': "((V(?q \<mapsto> ?b'))(p := None)) x = (if x \<in> insert p ?O then None else updated ?us' (uview s) x)" for x
    using closingD(10) [OF c, of x] qO b(1) qp by (auto simp: updated_def map_of_alist_update)
  have old: "(y, e) \<in> set ps \<Longrightarrow> uview s y = Some e \<and> isEphemeral (an_stats e) \<and> acl_loaded s3 y" for y e
    using closingD(7) [OF c] s3(3) by blast
  have pps: "p \<notin> fst ` set ps" using closingD(6) [OF c] pO by simp
  show ?thesis
    unfolding closing_def O
    using s3 inv mv closingD(4-6,8) [OF c] old p(2) eph ups V' pps by (auto simp: distinct_update fun_eq_iff simp del: fun_upd_apply)
qed

lemma close_node_spec:
  assumes c: "closing s sid z P ps c V" and tree: "tree_inv (uview s)" and res: "acls_resolve s" and sid: "sid \<noteq> 0" and p: "p \<notin> P"
  obtains c' ps' V' where "close_node sid z p c = Inr c'" "closing s sid z (insert p P) ps' c' V'" "cs_processed c' = cs_processed c"
proof -
  note ok = that
  obtain node s1 where g: "getNode p (cs_storage c) = (node, s1)" by fastforce
  have r1: "reads (cs_storage c) s1" by (rule getNode_reads [OF readsD(3) [OF closingD(1) [OF c]] g])
  have skip: thesis if "p \<notin> owned (uview s) sid (insert p P)" "close_node sid z p c = Inr (c\<lparr>cs_storage := s1\<rparr>)"
    by (rule ok [OF that(2)])
      (use closing_skip [OF c reads_trans [OF closingD(1) [OF c] r1] readsD(4) [OF r1] that(1)] in simp_all)
  from closingD(1) [OF c] g show ?thesis
  proof (cases rule: getNode_tree)
    case missing
    then show ?thesis by (intro skip) (simp_all add: owned_def close_node_def g)
  next
    case (present n a)
    show ?thesis
    proof (cases "ephemeralOwner (an_stats a) = sid")
      case False
      then show ?thesis using present by (intro skip) (simp_all add: owned_def close_node_def g)
    next
      case True
      have eph: "isEphemeral (an_stats a)" using True sid ephemeral_owner by auto
      have "p \<noteq> root" using tree_invD(4) [OF tree] present(2) eph by auto
      then obtain b where b: "uview s (parentOf p) = Some b" "\<not> isEphemeral (an_stats b)"
        using tree_inv_node(5) [OF tree present(2)] by blast
      have bn: "anode_wf b" "parentOf p \<noteq> []" using tree_inv_node(2,4) [OF tree b(1)] by simp_all
      have bO: "parentOf p \<notin> owned (uview s) sid P" using b sid ephemeral_owner by (auto simp: owned_def)
      have c1: "closing s sid z P ps (c\<lparr>cs_storage := s1\<rparr>) V"
        using c present(5) readsD(4) [OF r1] unfolding closing_def by auto
      obtain new s2 where s2: "close_parent (parentOf p) (c\<lparr>cs_storage := s1\<rparr>) = Inr ((an_stats b, new), s2)" "reads s s2"
        "reads (cs_storage (c\<lparr>cs_storage := s1\<rparr>)) s2" "counts (uview s) (parentOf p) (an_stats b) new" "V (parentOf p) = Some (b\<lparr>an_stats := new\<rparr>)"
        by (rule close_parent_spec [OF c1 b bn bO])
      obtain s3 where s3: "getACLs p s2 = Inr (an_acls a, s3)" "reads s s3" "acl_loaded s3 p" "\<And>q. acl_loaded s2 q \<Longrightarrow> acl_loaded s3 q"
        by (rule getACLs_keeps [OF s2(2) res present(2)]) (rule that)
      have up: "acl_loaded s3 q" if "acl_loaded (cs_storage c) q" for q
        using readsD(4) [OF r1 that] readsD(4) [OF s2(3), of q] s3(4) by simp
      let ?c' = "c\<lparr>cs_parent_updates := AList.update (parentOf p)
            (an_stats b, decreaseNumChildren (new\<lparr>ns_cversion := ns_cversion new + 1\<rparr>)) (cs_parent_updates c),
          cs_deltas := cs_deltas c @ [removal_of z p a], cs_storage := s3\<rparr>"
      have "close_node sid z p c = Inr ?c'"
        using present True s2(1) s3(1) parentNodePath_canonical [OF tree_inv_node(1) [OF tree present(2)]]
        by (simp add: close_node_def g Let_def removal_of_def)
      from ok [OF this closing_remove [OF c tree sid p present(2) True b s2(4,5) s3(2,3) up]] show ?thesis by simp
    qed
  qed
qed

lemma closing_processed [simp]: "closing s sid z P ps (c\<lparr>cs_processed := x\<rparr>) V = closing s sid z P ps c V"
  by (simp add: closing_def cong: if_cong)

lemma close_uncommitted_fold:
  assumes "closing s sid z P ps c V" "tree_inv (uview s)" "acls_resolve s" "sid \<noteq> 0" "distinct qs" "set qs \<inter> P = {}"
  obtains c' ps' V' where "res_fold (close_uncommitted sid z) qs c = Inr c'" "closing s sid z (set qs \<union> P) ps' c' V'"
    "set (cs_processed c') = set qs \<union> set (cs_processed c)"
  using assms(1,5,6)
proof (induction qs arbitrary: c P ps V thesis)
  case (Cons p qs)
  let ?c = "c\<lparr>cs_processed := uset_insert p (cs_processed c)\<rparr>"
  obtain c1 ps1 V1 where c1: "close_node sid z p ?c = Inr c1" "closing s sid z (insert p P) ps1 c1 V1" "cs_processed c1 = cs_processed ?c"
    by (rule close_node_spec [of s sid z P ps ?c V p, OF _ assms(2,3,4)]) (use Cons.prems in auto)
  obtain c2 ps2 V2 where c2: "res_fold (close_uncommitted sid z) qs c1 = Inr c2" "closing s sid z (set qs \<union> insert p P) ps2 c2 V2"
    "set (cs_processed c2) = set qs \<union> set (cs_processed c1)"
    by (rule Cons.IH [OF _ c1(2)]) (use Cons.prems in auto)
  show ?case
    by (rule Cons.prems(1) [of c2 ps2 V2]) (use c1 c2 in \<open>simp_all add: close_uncommitted_def [of sid z p c]\<close>)
qed simp

lemma close_committed_fold:
  assumes "closing s sid z P ps c V" "tree_inv (uview s)" "acls_resolve s" "sid \<noteq> 0" "distinct qs"
    "set qs \<inter> P \<subseteq> set (cs_processed c)" "set (cs_processed c) \<subseteq> P"
  obtains c' ps' V' where "res_fold (close_committed sid z) qs c = Inr c'" "closing s sid z (set qs \<union> P) ps' c' V'"
  using assms(1,5-7)
proof (induction qs arbitrary: c P ps V thesis)
  case (Cons p qs)
  obtain c1 ps1 V1 where c1: "close_committed sid z p c = Inr c1" "closing s sid z (insert p P) ps1 c1 V1" "cs_processed c1 = cs_processed c"
  proof (cases "p \<in> set (cs_processed c)")
    case True
    then have "insert p P = P" using Cons.prems(5) by auto
    with True show ?thesis using that [of c ps V] Cons.prems(2) by (simp add: close_committed_def)
  next
    case False
    then have "p \<notin> P" using Cons.prems(4) by auto
    with False show ?thesis
      using that close_node_spec [OF Cons.prems(2) assms(2-4), of p] by (auto simp: close_committed_def)
  qed
  obtain c2 ps2 V2 where c2: "res_fold (close_committed sid z) qs c1 = Inr c2" "closing s sid z (set qs \<union> insert p P) ps2 c2 V2"
    by (rule Cons.IH [OF _ c1(2)]) (use Cons.prems c1(3) in auto)
  show ?case
    by (rule Cons.prems(1) [of c2 ps2 V2]) (use c1 c2 in simp_all)
qed simp

subsection \<open>The deltas of Close\<close>

lemma closing_deltas:
  assumes c: "closing s sid z P ps c V" and tree: "tree_inv (uview s)" and sid: "sid \<noteq> 0"
  defines "ds \<equiv> cs_deltas c @ map (stat_update z) (cs_parent_updates c) @ [Delta [] z (CloseSessionDelta sid)]"
  shows "prepared z ds s (cs_storage c)" "abs_deltas ds (uview s) = V"
proof -
  let ?t = "uview s" and ?rm = "map (\<lambda>(p, a). removal_of z p a) ps" and ?us = "cs_parent_updates c"
  let ?t1 = "\<lambda>q. if q \<in> fst ` set ps then None else ?t q" and ?close = "Delta [] z (CloseSessionDelta sid)"
  have node: "?t p = Some a" "isEphemeral (an_stats a)" "acl_loaded (cs_storage c) p" if "(p, a) \<in> set ps" for p a
    using closingD(7) [OF c that] by simp_all
  have "\<forall>(p, a)\<in>set ps. removable ?t p a \<and> parentOf p \<notin> fst ` set ps"
  proof clarify
    fix p a assume pa: "(p, a) \<in> set ps"
    note n = node [OF pa]
    have nroot: "p \<noteq> root" using tree_invD(4) [OF tree] n by auto
    obtain b where b: "?t (parentOf p) = Some b" "\<not> isEphemeral (an_stats b)" using tree_inv_node(5) [OF tree n(1) nroot] by blast
    have "parentOf p \<notin> fst ` set ps" using node b by fastforce
    then show "removable ?t p a \<and> parentOf p \<notin> fst ` set ps"
      using n b tree_inv_node [OF tree n(1)] parent_neq_self(1) [of p] nroot by (simp add: removable_def)
  qed
  note rm = removals_tree [OF closingD(5) [OF c] this, of z]
  have "counts ?t1 p old new" if "(p, old, new) \<in> set ?us" for p old new
  proof -
    have k: "counts ?t p old new" by (rule closingD(9) [OF c that])
    then have "p \<notin> fst ` set ps" using node by (fastforce simp: counts_def)
    with k show ?thesis by (simp add: counts_def)
  qed
  then have "\<forall>(p, old, new)\<in>set ?us. counts ?t1 p old new" by blast
  note up = updates_tree [OF closingD(8) [OF c] this, of z]
  have V: "updated ?us ?t1 = V"
    using closingD(6,10) [OF c] by (auto simp: updated_def fun_eq_iff)
  have fin: "abs_delta ?close V = V" "ok_delta ?close V" "undo_delta ?close V = V"
    by (simp_all add: abs_delta_def ok_delta_def undo_delta_def)
  have ds: "ds = ?rm @ map (stat_update z) ?us @ [?close]" by (simp add: ds_def closingD(4) [OF c])
  show abs: "abs_deltas ds ?t = V" using rm up V fin by (simp add: ds)
  have "ok_deltas ds ?t" using rm up V fin by (simp add: ds ok_deltas_append)
  moreover have "reverts ds ?t"
  proof -
    have "reverts [?close] V" using fin by (simp add: reverts_def)
    then show ?thesis unfolding ds by (intro reverts_append) (use rm up V in simp_all)
  qed
  moreover have "clean ds" by (auto simp: ds clean_def removal_of_def stat_update_def split: prod.splits)
  moreover have "\<forall>d\<in>set ds. delta_zxid d = z \<and> (remove_op (delta_operation d) \<longrightarrow> acl_loaded (cs_storage c) (delta_path d))"
    using node by (auto simp: ds stat_update_def split: prod.splits)
  ultimately show "prepared z ds s (cs_storage c)"
    using closingD(1-3) [OF c] by (simp add: prepared_def abs)
qed

text \<open>The nodes that disappear are those of the session that one of the two maps of ephemeral nodes names.\<close>

definition closes :: "int \<Rightarrow> storage \<Rightarrow> delta list \<Rightarrow> bool" where
  "closes sid s ds \<longleftrightarrow> (\<forall>p. abs_deltas ds (uview s) p = None \<longleftrightarrow> uview s p = None
     \<or> p \<in> owned (uview s) sid (set (bucket (us_ephemerals (uncommitted s)) sid) \<union> set (bucket (committed_ephemerals s) sid)))"

lemma preprocess_close_prepared:
  assumes inv: "cache_inv s" and res: "acls_resolve s" and tree: "tree_inv (uview s)" and sid: "sid \<noteq> 0"
  obtains ds s' where "preprocess_close sid z s = Inr (ds, s')" "prepared z ds s s'" "clean ds" "closes sid s ds"
proof -
  let ?U = "bucket (us_ephemerals (uncommitted s)) sid" and ?C = "bucket (committed_ephemerals s) sid"
  let ?c0 = "\<lparr>cs_parent_updates = [], cs_processed = [], cs_deltas = [], cs_storage = s\<rparr>"
  obtain c1 ps1 V1 where c1: "res_fold (close_uncommitted sid z) (remdups ?U) ?c0 = Inr c1" "closing s sid z (set ?U) ps1 c1 V1"
    "set (cs_processed c1) = set ?U"
    by (rule close_uncommitted_fold [OF closing_start [OF inv tree] tree res sid, of "remdups ?U"]) auto
  obtain c2 ps2 V2 where c2: "res_fold (close_committed sid z) (remdups ?C) c1 = Inr c2" "closing s sid z (set ?C \<union> set ?U) ps2 c2 V2"
    by (rule close_committed_fold [OF c1(2) tree res sid, of "remdups ?C"]) (use c1(3) in auto)
  define ds where "ds = cs_deltas c2 @ map (stat_update z) (cs_parent_updates c2) @ [Delta [] z (CloseSessionDelta sid)]"
  define s' where "s' = upd_uncommitted (\<lambda>u. u\<lparr>us_ephemerals := (us_ephemerals u)(sid := None)\<rparr>) (cs_storage c2)"
  note d = closing_deltas [OF c2(2) tree sid, folded ds_def]
  have run: "preprocess_close sid z s = Inr (ds, s')"
    using c1(1) c2(1) by (simp add: preprocess_close_def ds_def s'_def stat_update_def [abs_def] case_prod_unfold)
  have r: "reads (cs_storage c2) s'"
    using reads_ephemerals [OF readsD(3) [OF closingD(1) [OF c2(2)]]] by (simp add: s'_def)
  have p: "prepared z ds s s'"
    using d(1) reads_trans [OF closingD(1) [OF c2(2)] r] readsD(4) [OF r] by (auto simp: prepared_def)
  have "clean ds"
    using closingD(4) [OF c2(2)] by (auto simp: ds_def clean_def removal_of_def stat_update_def split: prod.splits)
  then show ?thesis
    by (rule that [OF run p]) (simp add: closes_def d(2) closingD(10) [OF c2(2)] updated_def Un_commute)
qed

end
