(* ===== verification/Keeper_Watches.thy ===== *)
theory Keeper_Watches
  imports Keeper_Process
begin

section \<open>The watch tables\<close>

text \<open>
  Watches are stored twice: by path, for nodes and for lists of children, and by session. The two agree whatever
  watches are registered, fired and cleared, so that \<open>clearDeadWatches\<close> finds every watch of a session.
\<close>

definition watch_table :: "bool \<Rightarrow> watch_tables \<Rightarrow> path \<rightharpoonup> int list" where
  "watch_table is_list_watch t = (if is_list_watch then wt_list_watches t else wt_watches t)"

definition tables_agree :: "watch_tables \<Rightarrow> bool" where
  "tables_agree t \<longleftrightarrow> (\<forall>sid p l. sid \<in> set (bucket (watch_table l t) p) \<longleftrightarrow> (p, l) \<in> set (bucket (wt_sessions t) sid))
     \<and> (\<forall>sid. distinct (bucket (wt_sessions t) sid))"

abbreviation watches_ok :: "storage \<Rightarrow> bool" where
  "watches_ok s \<equiv> tables_agree (watch_tables_of s)"

lemma tables_agreeD:
  assumes "tables_agree t"
  shows "sid \<in> set (bucket (watch_table l t) p) \<longleftrightarrow> (p, l) \<in> set (bucket (wt_sessions t) sid)" "distinct (bucket (wt_sessions t) sid)"
  using assms by (simp_all add: tables_agree_def)

lemma bucket_upd [simp]: "bucket (m(k \<mapsto> v)) k' = (if k' = k then v else bucket m k')"
  "bucket (m(k := None)) k' = (if k' = k then [] else bucket m k')"
  by (simp_all add: bucket_def)

lemma watches_ok_empty: "watches s = Map.empty \<Longrightarrow> list_watches s = Map.empty \<Longrightarrow> sessions_and_watchers s = Map.empty \<Longrightarrow> watches_ok s"
  by (simp add: tables_agree_def watch_tables_of_def watch_table_def bucket_def)

lemma watches_ok_cong:
  "watches s' = watches s \<Longrightarrow> list_watches s' = list_watches s \<Longrightarrow> sessions_and_watchers s' = sessions_and_watchers s
    \<Longrightarrow> watches_ok s' = watches_ok s"
  by (simp add: watch_tables_of_def)

subsection \<open>Firing\<close>

lemma bucket_erase_watchers:
  "bucket (fold (erase_watcher info) sids m) sid = (if sid \<in> set sids then uset_erase info (bucket m sid) else bucket m sid)"
  by (induction sids arbitrary: m) (auto simp: erase_watcher_def uset_erase_def)

definition drop_watches :: "bool \<Rightarrow> path \<Rightarrow> watch_tables \<Rightarrow> watch_tables" where
  "drop_watches l p t = (let m = fold (erase_watcher (p, l)) (bucket (watch_table l t) p) (wt_sessions t) in
     if l then t\<lparr>wt_list_watches := (wt_list_watches t)(p := None), wt_sessions := m\<rparr>
     else t\<lparr>wt_watches := (wt_watches t)(p := None), wt_sessions := m\<rparr>)"

lemma drop_watches_agree:
  assumes "tables_agree t"
  shows "tables_agree (drop_watches l p t)"
proof -
  have "bucket (watch_table k (drop_watches l p t)) q = (if k = l \<and> q = p then [] else bucket (watch_table k t) q)" for k q
    by (simp add: drop_watches_def watch_table_def Let_def)
  moreover have "bucket (wt_sessions (drop_watches l p t)) sid
      = (if sid \<in> set (bucket (watch_table l t) p) then uset_erase (p, l) (bucket (wt_sessions t) sid) else bucket (wt_sessions t) sid)" for sid
    by (simp add: drop_watches_def Let_def bucket_erase_watchers)
  ultimately show ?thesis
    using tables_agreeD [OF assms] by (auto simp: tables_agree_def uset_erase_def distinct_removeAll)
qed

lemma fire_watches_agree: "tables_agree t \<Longrightarrow> tables_agree (snd (fire_watches p ev t))"
  using drop_watches_agree [of t False p]
  by (cases "wt_watches t p") (simp_all add: fire_watches_def drop_watches_def watch_table_def bucket_def)

lemma fire_list_watches_agree: "tables_agree t \<Longrightarrow> tables_agree (snd (fire_list_watches p ev t))"
  using drop_watches_agree [of t True p]
  by (cases "wt_list_watches t p") (simp_all add: fire_list_watches_def drop_watches_def watch_table_def bucket_def)

lemma fire_lists_agree: "tables_agree (snd x) \<Longrightarrow> tables_agree (snd (fire_lists q ps x))"
  unfolding fire_lists_def
proof (induction ps arbitrary: x)
  case (Cons p ps)
  let ?f = "\<lambda>p (result, t). let (new, t') = fire_list_watches p (if p = q then EvChild else EvDeleted) t in (result @ new, t')"
  have "tables_agree (snd (?f p x))"
    using fire_list_watches_agree [OF Cons.prems] by (simp add: case_prod_unfold Let_def)
  with Cons.IH [of "?f p x"] show ?case by simp
qed simp

text \<open>Firing needs the parent of a created or removed node, and so a slash in its path.\<close>

definition fires :: "(response_for_session list \<times> watch_tables) result \<Rightarrow> bool" where
  "fires r \<longleftrightarrow> (\<exists>new t. r = Inr (new, t) \<and> tables_agree t)"

lemma firesE:
  assumes "fires r"
  obtains new t where "r = Inr (new, t)" "tables_agree t"
  using assms by (auto simp: fires_def)

lemma processWatchesImpl_agree:
  assumes "tables_agree t" "ev = EvCreated \<or> ev = EvDeleted \<Longrightarrow> slash \<in> set p"
  shows "fires (processWatchesImpl p ev t)"
  using assms(2) fire_lists_agree [OF fire_watches_agree [OF assms(1), of p ev]] fire_watches_agree [OF assms(1), of p ev]
  by (auto simp: fires_def processWatchesImpl_def parentNodePath_slash) (metis prod.collapse)+

lemma removed_watches_agree:
  assumes "tables_agree t" "\<forall>d\<in>set ds. is_remove_delta d \<longrightarrow> slash \<in> set (delta_path d)"
  shows "fires (removed_watches ds t)"
proof -
  let ?f = "\<lambda>d (result, t). if is_remove_delta d
    then res_bind (processWatchesImpl (delta_path d) EvDeleted t) (\<lambda>(new, t'). Inr (result @ new, t')) else Inr (result, t)"
  have "fires (res_fold ?f ds (res, t))" for res
    using assms
  proof (induction ds arbitrary: res t)
    case (Cons d ds)
    show ?case
    proof (cases "is_remove_delta d")
      case True
      then obtain new t1 where "processWatchesImpl (delta_path d) EvDeleted t = Inr (new, t1)" "tables_agree t1"
        using processWatchesImpl_agree [OF Cons.prems(1), of EvDeleted "delta_path d"] Cons.prems(2) by (auto simp: fires_def)
      with True Cons.IH [of t1 "res @ new"] Cons.prems(2) show ?thesis by simp
    next
      case False
      with Cons.IH [OF Cons.prems(1)] Cons.prems(2) show ?thesis by simp
    qed
  qed (simp add: fires_def)
  then show ?thesis by (simp add: removed_watches_def)
qed

text \<open>
  Of the requests that look at the parent of their path, those whose path has one. The paths that a recursive removal
  visits are not known from the request, and a \<open>Multi\<close> is treated by its parts.
\<close>

fun parent_known :: "zk_request \<Rightarrow> bool" where
  "parent_known (CreateRequest c) \<longleftrightarrow> slash \<in> set (cr_path c)"
| "parent_known (RemoveRequest p v r) \<longleftrightarrow> slash \<in> set p"
| "parent_known (CheckRequest p v not_exists) \<longleftrightarrow> (not_exists \<longrightarrow> slash \<in> set p)"
| "parent_known (RemoveRecursiveRequest p l r) \<longleftrightarrow> False"
| "parent_known (MultiRequest ty rs) \<longleftrightarrow> False"
| "parent_known r \<longleftrightarrow> True"

lemma processWatches_agree:
  assumes "tables_agree t" "parent_known r"
  shows "fires (processWatches r ds t)"
proof -
  have "fires (processWatchesImpl p EvChanged t)" for p by (rule processWatchesImpl_agree [OF assms(1)]) simp_all
  then show ?thesis using assms processWatchesImpl_agree [OF assms(1)] by (cases r) (simp_all, simp_all add: fires_def)
qed

lemma processWatches_all_agree:
  "tables_agree t \<Longrightarrow> \<forall>r\<in>set rs. parent_known r \<Longrightarrow> fires (processWatches_all rs ds t)"
proof (induction rs arbitrary: ds t)
  case (Cons r rs)
  obtain sub rest where e: "extractSubdeltas ds = (sub, rest)" by fastforce
  obtain new t1 where w: "processWatches r sub t = Inr (new, t1)" "tables_agree t1"
    using processWatches_agree [OF Cons.prems(1), of r sub] Cons.prems(2) by (auto simp: fires_def)
  with Cons.IH [OF w(2), of rest] Cons.prems(2) show ?case by (auto simp: fires_def e)
qed (simp add: fires_def)

lemma processWatches_multi_agree:
  assumes "tables_agree t" "\<forall>r\<in>set rs. parent_known r"
  shows "fires (processWatches (MultiRequest ty rs) ds t)"
  using processWatches_all_agree [OF assms] assms(1) by (simp add: fires_def)

subsection \<open>Registering and clearing\<close>

lemma add_watch_ok:
  assumes "watches_ok s"
  shows "watches_ok (add_watch p l sid s)"
proof -
  let ?t = "watch_tables_of s" and ?t' = "watch_tables_of (add_watch p l sid s)"
  have table: "set (bucket (watch_table k ?t') q) = (if k = l \<and> q = p then insert sid (set (bucket (watch_table l ?t) p)) else set (bucket (watch_table k ?t) q))" for k q
    by (auto simp: add_watch_def Let_def watch_tables_of_def watch_table_def)
  have sess: "set (bucket (wt_sessions ?t') x) = (if x = sid then insert (p, l) (set (bucket (wt_sessions ?t) sid)) else set (bucket (wt_sessions ?t) x))"
    "distinct (bucket (wt_sessions ?t') x)" for x
    using tables_agreeD(1) [OF assms, of sid l p] tables_agreeD(2) [OF assms, of x]
    by (auto simp: add_watch_def Let_def watch_tables_of_def watch_table_def uset_insert_def)
  show ?thesis
    unfolding tables_agree_def table sess(1) using tables_agreeD(1) [OF assms] sess(2) by auto
qed

lemma register_watch_ok: "watches_ok s \<Longrightarrow> watches_ok (register_watch r e sid s)"
  by (simp add: register_watch_def add_watch_ok)

lemma set_watch_tables_ok: "watches_ok (set_watch_tables t s) = tables_agree t"
  by (cases t) (simp add: watch_tables_of_def set_watch_tables_def)

text \<open>The loop of \<open>clearDeadWatches\<close> over the watches of a session that are left.\<close>

lemma clear_dead_watches_fold:
  assumes "distinct infos" "\<forall>(p, l)\<in>set infos. sid \<in> set (bucket (watch_table l (watch_tables_of s)) p)"
  obtains s' where "res_fold (clear_dead_watch sid) infos s = Inr s'" "s' = s\<lparr>watches := watches s', list_watches := list_watches s'\<rparr>"
    "\<And>l p. bucket (watch_table l (watch_tables_of s')) p
       = (if (p, l) \<in> set infos then uset_erase sid (bucket (watch_table l (watch_tables_of s)) p) else bucket (watch_table l (watch_tables_of s)) p)"
  using assms
proof (induction infos arbitrary: s thesis)
  case Nil
  show ?case by (rule Nil.prems(1) [of s]) simp_all
next
  case (Cons info infos)
  obtain p l where info: "info = (p, l)" by fastforce
  let ?T = "\<lambda>l s. watch_table l (watch_tables_of s)"
  have mem: "sid \<in> set (bucket (?T l s) p)" using Cons.prems(3) info by simp
  then obtain ss where ss: "?T l s p = Some ss" by (cases "?T l s p") (auto simp: bucket_def)
  define m where "m = (if uset_erase sid ss = [] then (?T l s)(p := None) else (?T l s)(p \<mapsto> uset_erase sid ss))"
  define s1 where "s1 = (if l then s\<lparr>list_watches := m\<rparr> else s\<lparr>watches := m\<rparr>)"
  have run: "clear_dead_watch sid info s = Inr s1"
    using ss by (cases l) (simp_all add: clear_dead_watch_def info Let_def s1_def m_def watch_table_def watch_tables_of_def)
  have t1: "bucket (?T k s1) q = (if q = p \<and> k = l then uset_erase sid (bucket (?T l s) p) else bucket (?T k s) q)" for k q
    using ss by (cases l; cases k) (auto simp: s1_def m_def watch_table_def watch_tables_of_def bucket_def)
  have fresh: "(p, l) \<notin> set infos" "distinct infos" using Cons.prems(2) info by auto
  obtain s2 where s2: "res_fold (clear_dead_watch sid) infos s1 = Inr s2" "s2 = s1\<lparr>watches := watches s2, list_watches := list_watches s2\<rparr>"
    "\<And>l p. bucket (?T l s2) p = (if (p, l) \<in> set infos then uset_erase sid (bucket (?T l s1) p) else bucket (?T l s1) p)"
  proof (rule Cons.IH [OF _ fresh(2), of s1])
    show "\<forall>(q, k)\<in>set infos. sid \<in> set (bucket (?T k s1) q)"
    proof clarify
      fix q k assume q: "(q, k) \<in> set infos"
      have "\<not> (q = p \<and> k = l)" using q fresh(1) by (cases k; cases l) auto
      moreover have "sid \<in> set (bucket (?T k s) q)" using Cons.prems(3) q by auto
      ultimately show "sid \<in> set (bucket (?T k s1) q)" by (simp only: t1 if_False)
    qed
  qed (rule that)
  show ?case
  proof (rule Cons.prems(1) [of s2])
    show "res_fold (clear_dead_watch sid) (info # infos) s = Inr s2" using run s2(1) by simp
    have "s1\<lparr>watches := w, list_watches := v\<rparr> = s\<lparr>watches := w, list_watches := v\<rparr>" for w v by (simp add: s1_def)
    then show "s2 = s\<lparr>watches := watches s2, list_watches := list_watches s2\<rparr>" using s2(2) by simp
    show "bucket (?T k s2) q = (if (q, k) \<in> set (info # infos) then uset_erase sid (bucket (?T k s) q) else bucket (?T k s) q)" for k q
      using fresh(1) by (auto simp: s2(3) t1 info)
  qed
qed

lemma clearDeadWatches_ok:
  assumes ok: "watches_ok s"
  obtains w l m k where "clearDeadWatches sid s
      = Inr (s\<lparr>watches := w, list_watches := l, sessions_and_watchers := m, total_watches_count := k\<rparr>)"
    "watches_ok (s\<lparr>watches := w, list_watches := l, sessions_and_watchers := m, total_watches_count := k\<rparr>)"
    "m sid = None" "\<And>p. sid \<notin> set (bucket w p) \<and> sid \<notin> set (bucket l p)"
proof (cases "sessions_and_watchers s sid")
  case None
  have "sid \<notin> set (bucket (watch_table l (watch_tables_of s)) p)" for l p
    using tables_agreeD(1) [OF ok, of sid l p] None by (simp add: watch_tables_of_def bucket_def)
  from this [of False] this [of True] show ?thesis
    using that [where w = "watches s" and l = "list_watches s" and m = "sessions_and_watchers s" and k = "total_watches_count s"] ok None
    by (simp add: clearDeadWatches_def watch_table_def watch_tables_of_def)
next
  case (Some infos)
  let ?T = "\<lambda>l s. watch_table l (watch_tables_of s)"
  have infos: "bucket (wt_sessions (watch_tables_of s)) sid = infos" using Some by (simp add: bucket_def watch_tables_of_def)
  have "distinct infos" "\<forall>(p, l)\<in>set infos. sid \<in> set (bucket (?T l s) p)"
    using tables_agreeD [OF ok, of sid] infos by auto
  then obtain s1 where s1: "res_fold (clear_dead_watch sid) infos s = Inr s1" "s1 = s\<lparr>watches := watches s1, list_watches := list_watches s1\<rparr>"
    "\<And>l p. bucket (?T l s1) p = (if (p, l) \<in> set infos then uset_erase sid (bucket (?T l s) p) else bucket (?T l s) p)"
    by (rule clear_dead_watches_fold) (rule that)
  define w l where "w = watches s1" and "l = list_watches s1"
  have s1': "s1 = s\<lparr>watches := w, list_watches := l\<rparr>" using s1(2) by (simp add: w_def l_def)
  let ?s = "s\<lparr>watches := w, list_watches := l, sessions_and_watchers := (sessions_and_watchers s)(sid := None),
    total_watches_count := total_watches_count s - of_nat (length infos)\<rparr>"
  have run: "clearDeadWatches sid s = Inr ?s" using Some s1(1) by (simp add: clearDeadWatches_def s1')
  have gone: "sid \<notin> set (bucket (?T k s1) p)" for k p
    using tables_agreeD(1) [OF ok, of sid k p] infos by (simp add: s1(3) uset_erase_def)
  have T: "?T k ?s = ?T k s1" for k by (simp add: watch_table_def watch_tables_of_def s1')
  have sess: "bucket (wt_sessions (watch_tables_of ?s)) x = (if x = sid then [] else bucket (wt_sessions (watch_tables_of s)) x)" for x
    by (simp add: watch_tables_of_def)
  have "x \<in> set (bucket (?T k s1) p) \<longleftrightarrow> x \<noteq> sid \<and> (p, k) \<in> set (bucket (wt_sessions (watch_tables_of s)) x)" for x k p
    using tables_agreeD(1) [OF ok, of x k p] gone [of k p] by (auto simp: s1(3) uset_erase_def)
  then have "watches_ok ?s"
    unfolding tables_agree_def T sess using tables_agreeD(2) [OF ok] by auto
  moreover have "sid \<notin> set (bucket w p) \<and> sid \<notin> set (bucket l p)" for p
    using gone [of False p] gone [of True p] by (simp add: watch_table_def watch_tables_of_def s1')
  ultimately show ?thesis by (intro that [OF run]) simp_all
qed

end
