(* ===== verification/Keeper_Machine.thy ===== *)
theory Keeper_Machine
  imports Keeper_Close Keeper_Watches
begin

section \<open>The state machine\<close>

text \<open>
  The invariant of the storage with the requests that are preprocessed but not yet committed, and
  the proof that \<open>preprocessRequest\<close>, \<open>processRequest\<close> and \<open>rollbackRequest\<close> keep it and never
  fail on the requests of a correct log.
\<close>

subsection \<open>The invariant\<close>

definition answered :: "int \<Rightarrow> zk_request \<Rightarrow> delta list \<Rightarrow> tree \<Rightarrow> bool" where
  "answered z r ds t \<longleftrightarrow>
     (case r of
        MultiRequest ty rs \<Rightarrow> (\<exists>es e. ds = [Delta [] z (FailedMultiDelta es e)] \<and> length es = length rs) \<or> served_all z rs ds t
      | _ \<Rightarrow> served z r ds t)"

fun request_ok :: "zk_request \<Rightarrow> bool" where
  "request_ok (MultiRequest ty rs) \<longleftrightarrow> rs \<noteq> [] \<and> (\<forall>r\<in>set rs. simple_request r)"
| "request_ok r \<longleftrightarrow> simple_request r"

text \<open>The requests of the log: these, and \<open>Close\<close> of a session. Sessions are numbered from 1.\<close>

definition request_logged :: "zk_request \<Rightarrow> bool" where
  "request_logged r \<longleftrightarrow> request_ok r \<or> r = CloseRequest"

definition request_from :: "int \<Rightarrow> zk_request \<Rightarrow> bool" where
  "request_from sid r \<longleftrightarrow> request_ok r \<or> (r = CloseRequest \<and> sid \<noteq> 0)"

lemma request_from_ok: "request_ok r \<Longrightarrow> request_from sid r" "request_from sid r \<Longrightarrow> request_logged r"
  by (auto simp: request_from_def request_logged_def)

text \<open>One group of deltas for every pending transaction.\<close>

fun groups :: "transaction_info list \<Rightarrow> zk_request list \<Rightarrow> delta list list \<Rightarrow> tree \<Rightarrow> bool" where
  "groups [] [] [] t \<longleftrightarrow> tree_inv t \<and> has_system t"
| "groups (tx # txs) (r # rs) (ds # dss) t \<longleftrightarrow> tree_inv t \<and> has_system t \<and> step_ok (ti_zxid tx) ds t
     \<and> answered (ti_zxid tx) r ds t \<and> groups txs rs dss (abs_deltas ds t)"
| "groups _ _ _ t \<longleftrightarrow> False"

definition keeper_inv :: "zk_request list \<Rightarrow> storage \<Rightarrow> bool" where
  "keeper_inv rs s \<longleftrightarrow> initialized s \<and> sync (us_deltas (uncommitted s)) s \<and> committed_inv s
     \<and> queue_wf (session_expiry_queue_of s)
     \<and> (\<exists>dss. us_deltas (uncommitted s) = concat dss \<and> groups (uncommitted_transactions s) rs dss (cview s))
     \<and> sorted_wrt (<) (committed_zxid s # map ti_zxid (uncommitted_transactions s)) \<and> 0 \<le> committed_zxid s
     \<and> dated (committed_zxid s) (cview s) \<and> watches_ok s"

lemma groups_Cons:
  assumes "groups (tx # txs) rs dss t"
  obtains r rs' ds dss' where "rs = r # rs'" "dss = ds # dss'" "tree_inv t" "has_system t" "step_ok (ti_zxid tx) ds t"
    "answered (ti_zxid tx) r ds t" "groups txs rs' dss' (abs_deltas ds t)"
  using assms by (cases rs; cases dss) auto

lemma groups_Nil [simp]: "groups [] rs dss t \<longleftrightarrow> rs = [] \<and> dss = [] \<and> tree_inv t \<and> has_system t"
  by (cases rs; cases dss) auto

lemma groups_tree: "groups txs rs dss t \<Longrightarrow> tree_inv t \<and> has_system t"
  by (cases txs) (auto elim: groups_Cons)

lemma groups_final: "groups txs rs dss t \<Longrightarrow> tree_inv (abs_deltas (concat dss) t) \<and> has_system (abs_deltas (concat dss) t)"
proof (induction txs arbitrary: rs dss t)
  case (Cons tx txs)
  from Cons.prems show ?case by (rule groups_Cons) (use Cons.IH in simp)
qed simp

lemma groups_zxids: "groups txs rs dss t \<Longrightarrow> \<forall>d\<in>set (concat dss). delta_zxid d \<in> ti_zxid ` set txs"
proof (induction txs arbitrary: rs dss t)
  case (Cons tx txs)
  from Cons.prems obtain r rs' ds dss' where g: "dss = ds # dss'" "step_ok (ti_zxid tx) ds t" "groups txs rs' dss' (abs_deltas ds t)"
    by (rule groups_Cons)
  show ?case
  proof
    fix d assume "d \<in> set (concat dss)"
    then consider "d \<in> set ds" | "d \<in> set (concat dss')" using g(1) by auto
    then show "delta_zxid d \<in> ti_zxid ` set (tx # txs)"
      using step_okD(1) [OF g(2), of d] Cons.IH [OF g(3)] by cases auto
  qed
qed simp

lemma groups_append:
  assumes "groups txs rs dss t" "step_ok (ti_zxid tx) ds (abs_deltas (concat dss) t)" "answered (ti_zxid tx) r ds (abs_deltas (concat dss) t)"
  shows "groups (txs @ [tx]) (rs @ [r]) (dss @ [ds]) t"
  using assms
proof (induction txs arbitrary: rs dss t)
  case Nil
  then have "step_ok (ti_zxid tx) ds t" by simp
  from step_okD(4) [OF this] has_system_kept [OF step_okD(5) [OF this]] show ?case using Nil by simp
next
  case (Cons tx' txs)
  from Cons.prems(1) show ?case by (rule groups_Cons) (use Cons.IH Cons.prems(2,3) in simp)
qed

lemma groups_same_zxids:
  "map ti_zxid txs' = map ti_zxid txs \<Longrightarrow> groups txs rs dss t \<Longrightarrow> groups txs' rs dss t"
proof (induction txs arbitrary: txs' rs dss t)
  case (Cons tx txs)
  then obtain x xs where x: "txs' = x # xs" "ti_zxid x = ti_zxid tx" "map ti_zxid xs = map ti_zxid txs" by auto
  from Cons.prems(2) show ?case by (rule groups_Cons) (use Cons.IH [OF x(3)] x in simp)
qed simp

subsection \<open>Preprocessing\<close>

text \<open>The outcome of a request before its own deltas are applied: \<open>Multi\<close> has already applied and
  appended the deltas \<open>multi\<close> of its subrequests.\<close>

definition preprocessed :: "int \<Rightarrow> zk_request \<Rightarrow> delta list \<Rightarrow> delta list \<Rightarrow> delta list \<Rightarrow> storage \<Rightarrow> storage \<Rightarrow> bool" where
  "preprocessed z r pend multi ds s s' \<longleftrightarrow> sync (pend @ multi) s' \<and> frame (addDeltas multi s) s' \<and> applicable ds s'
     \<and> step_ok z (multi @ ds) (uview s) \<and> answered z r (multi @ ds) (uview s)"

lemma addDeltas_Nil [simp]: "addDeltas [] s = s"
  by (simp add: addDeltas_def)

lemma answered_simple: "simple_request r \<Longrightarrow> answered z r ds t = served z r ds t"
  by (cases r) (simp_all add: answered_def)

lemma preprocessed_simple:
  assumes sync: "sync pend s" and inv: "committed_inv s" and p: "prepared z ds s s'" and z: "0 < z"
    and a: "answered z r ds (uview s)"
  shows "preprocessed z r pend [] ds s s'"
  using sync_reads [OF sync preparedD(1) [OF p]] reads_frame [OF preparedD(1) [OF p]]
    prepared_applicable [OF p sync_sized [OF sync inv] z] prepared_step_ok [OF p] a
  by (simp add: preprocessed_def)

lemma preprocessed_failed:
  assumes sync: "sync pend s'" and f: "frame s s'" and inv: "committed_inv s" and tree: "tree_inv (uview s)" and z: "0 < z"
    and len: "length es = length rs" and u: "uview s = abs_deltas pend (cview s)"
  shows "preprocessed z (MultiRequest ty rs) pend [] [Delta [] z (FailedMultiDelta es e)] s s'"
proof -
  have abs: "abs_delta (Delta [] z (FailedMultiDelta es e)) t = t" "undo_delta (Delta [] z (FailedMultiDelta es e)) t = t" for t
    by (simp_all add: abs_delta_def undo_delta_def)
  have inv': "committed_inv s'" using frame_committed_inv [OF f] inv by simp
  have "applicable [Delta [] z (FailedMultiDelta es e)] s'"
    using syncD(1) [OF sync] sync_sized [OF sync inv'] z by (simp add: applicable_def ok_delta_def)
  then show ?thesis
    using sync f tree len by (simp add: preprocessed_def step_ok_def answered_def reverts_def ok_delta_def abs)
qed

text \<open>
  What becomes of a request: it is denied, or its deltas are those of its handler. A \<open>Multi\<close> is denied, it fails at a
  subrequest, or all subrequests take effect.
\<close>

definition multi_outcome ::
  "keeper_context \<Rightarrow> int \<Rightarrow> int \<Rightarrow> int \<Rightarrow> bool \<Rightarrow> zk_request list \<Rightarrow> delta list \<Rightarrow> tree \<Rightarrow> bool" where
  "multi_outcome ctx z sid time is_write rs ds t \<longleftrightarrow> multi_run ctx z sid time is_write rs ds t
     \<or> (\<exists>es. is_write \<and> ds = [Delta [] z (FailedMultiDelta es ZOK)] \<and> multi_fails ctx z sid time rs es t)"

definition multi_denied :: "int \<Rightarrow> int \<Rightarrow> bool \<Rightarrow> zk_request list \<Rightarrow> delta list \<Rightarrow> tree \<Rightarrow> bool" where
  "multi_denied z sid check_acl rs ds t \<longleftrightarrow> check_acl \<and> ds = [Delta [] z (FailedMultiDelta (replicate (length rs) ZOK) ZNOAUTH)]
     \<and> (\<exists>s s'. uview s = t \<and> checkAuth_all rs sid False s = Inr (False, s'))"

fun multi_result :: "keeper_context \<Rightarrow> int \<Rightarrow> int \<Rightarrow> int \<Rightarrow> bool \<Rightarrow> zk_request \<Rightarrow> delta list \<Rightarrow> tree \<Rightarrow> bool" where
  "multi_result ctx z sid time check_acl (MultiRequest ty rs) ds t \<longleftrightarrow> multi_denied z sid check_acl rs ds t
     \<or> multi_outcome ctx z sid time (getOpNum (MultiRequest ty rs) = OpMulti) rs ds t"
| "multi_result ctx z sid time check_acl r ds t \<longleftrightarrow> r = CloseRequest \<or> check_acl \<and> ds = [error_delta z ZNOAUTH]
     \<or> (\<exists>s g g' s'. uview s = t \<and> preprocess ctx z sid time r g s = Inr (ds, g', s'))"

lemma preprocess_multi:
  assumes sync: "sync pend s" and inv: "committed_inv s" and tree: "tree_inv (uview s)" "has_system (uview s)"
    and rs: "\<forall>r\<in>set rs. simple_request r \<and> zone_known r (uview s)" and ctx: "system_paths_open ctx" and z: "0 < z" "\<forall>d\<in>set pend. delta_zxid d \<noteq> z"
  obtains multi ds g' s' where "preprocess ctx z sid time (MultiRequest ty rs) g s = Inr (ds, g', s')"
    "preprocessed z (MultiRequest ty rs) pend multi ds s s'"
    "multi_outcome ctx z sid time (getOpNum (MultiRequest ty rs) = OpMulti) rs (multi @ ds) (uview s)"
proof -
  let ?m = "getOpNum (MultiRequest ty rs) = OpMulti"
  have "sync (pend @ []) s" using sync by simp
  note * = preprocess_subrequests_spec [OF this inv tree rs ctx z, of sid time ?m "[]" g]
  then consider (ok) more g' s' where "preprocess_subrequests ctx z sid time ?m rs [] [] g s = Inr (Inr (more, g', s'))"
      "sync (pend @ more) s'" "frame s s'" "uview s' = abs_deltas more (uview s)" "step_ok z more (uview s)" "served_all z rs more (uview s)"
      "multi_run ctx z sid time ?m rs more (uview s)"
    | (failed) es s' where "preprocess_subrequests ctx z sid time ?m rs [] [] g s = Inr (Inl (es, s'))"
      "length es = length rs" "sync pend s'" "frame s s'" ?m "multi_fails ctx z sid time rs es (uview s)"
    by auto
  then show ?thesis
  proof cases
    case ok
    have inv': "committed_inv s'" using frame_committed_inv [OF ok(3)] inv by simp
    have sync': "sync (pend @ more) (addDeltas more s')" using ok(2) by (simp add: addDeltas_def)
    moreover have "committed_inv (addDeltas more s')"
      using inv' by (subst committed_inv_cong [of _ s']) (simp_all add: addDeltas_def find_node_def fun_eq_iff)
    ultimately have "applicable [] (addDeltas more s')"
      using syncD(1) [OF sync'] sync_sized by (auto simp: applicable_def)
    then have "preprocessed z (MultiRequest ty rs) pend more [] s (addDeltas more s')"
      using sync' frame_addDeltas [OF ok(3)] ok(5,6) by (simp add: preprocessed_def answered_def)
    then show ?thesis by (rule that [rotated]) (use ok(1,7) in \<open>simp_all add: multi_outcome_def\<close>)
  next
    case failed
    have "preprocessed z (MultiRequest ty rs) pend [] [Delta [] z (FailedMultiDelta es ZOK)] s s'"
      by (rule preprocessed_failed [OF failed(3,4) inv tree(1) z(1) failed(2) syncD(2) [OF sync]])
    then show ?thesis by (rule that [rotated]) (use failed(1,5,6) in \<open>auto simp: multi_outcome_def\<close>)
  qed
qed

lemma checkAuth_all_reads:
  assumes "cache_inv s" "acls_resolve s" "\<forall>r\<in>set rs. simple_request r"
  obtains b s' where "checkAuth_all rs sid False s = Inr (b, s')" "reads s s'"
  using assms
proof (induction rs arbitrary: s thesis)
  case Nil
  then show ?case using reads_refl by simp
next
  case (Cons r rs)
  obtain b s1 where b: "checkAuth r sid False s = Inr (b, s1)" "reads s s1"
    by (rule checkAuth_simple [OF Cons.prems(2,3)]) (use Cons.prems(4) in auto)
  have inv: "cache_inv s1" "acls_resolve s1" using readsD(3) [OF b(2)] reads_resolve [OF b(2) Cons.prems(3)] .
  obtain b' s2 where b': "checkAuth_all rs sid False s1 = Inr (b', s2)" "reads s1 s2"
    by (rule Cons.IH [OF _ inv]) (use Cons.prems(4) in simp_all)
  show ?case
  proof (cases b)
    case True
    show ?thesis by (rule Cons.prems(1) [of b' s2]) (use b b' True reads_trans [OF b(2) b'(2)] in simp_all)
  next
    case False
    show ?thesis by (rule Cons.prems(1) [of False s1]) (use b False in simp_all)
  qed
qed

lemma checkAuth_reads:
  assumes "cache_inv s" "acls_resolve s" "request_ok r"
  obtains b s' where "(if check_acl then checkAuth r sid False s else Inr (True, s)) = Inr (b, s')" "reads s s'"
proof (cases check_acl)
  case True
  show ?thesis
  proof (cases "\<exists>ty rs. r = MultiRequest ty rs")
    case multi: True
    then obtain ty rs where rs: "r = MultiRequest ty rs" by blast
    have "\<forall>r\<in>set rs. simple_request r" using assms(3) rs by simp
    then obtain b s' where "checkAuth_all rs sid False s = Inr (b, s')" "reads s s'"
      by (rule checkAuth_all_reads [OF assms(1,2)])
    then show ?thesis using True rs that by simp
  next
    case False
    then have "simple_request r" using assms(3) by (cases r) auto
    then obtain b s' where "checkAuth r sid False s = Inr (b, s')" "reads s s'"
      using checkAuth_simple [OF assms(1,2), of r sid] by blast
    then show ?thesis using True that by simp
  qed
next
  case False
  then show ?thesis using that reads_refl [OF assms(1)] by simp
qed

lemma prepared_reads: "reads s s1 \<Longrightarrow> prepared z ds s1 s' \<Longrightarrow> prepared z ds s s'"
  using readsD(1) [of s s1] reads_trans [of s s1 s'] by (simp add: prepared_def)

lemma preprocess_checked_spec:
  assumes sync: "sync pend s" and inv: "committed_inv s" and tree: "tree_inv (uview s)" "has_system (uview s)"
    and r: "request_ok r" "zone_known r (uview s)" and ctx: "system_paths_open ctx" and z: "0 < z" "\<forall>d\<in>set pend. delta_zxid d \<noteq> z"
  obtains multi ds g' s' where "preprocess_checked ctx r sid time z check_acl g s = Inr (ds, g', s')"
    "preprocessed z r pend multi ds s s'" "multi_result ctx z sid time check_acl r (multi @ ds) (uview s)"
proof -
  have res: "cache_inv s" "acls_resolve s"
    using syncD(1) [OF sync] inv acls_resolve_counted by (auto simp: committed_inv_def)
  obtain b s1 where b: "(if check_acl then checkAuth r sid False s else Inr (True, s)) = Inr (b, s1)" "reads s s1"
    by (rule checkAuth_reads [OF res r(1)])
  have f1: "frame s s1" by (rule reads_frame [OF b(2)])
  have v1: "uview s1 = uview s" by (rule readsD(1) [OF b(2)])
  have sync1: "sync pend s1" by (rule sync_reads [OF sync b(2)])
  have inv1: "committed_inv s1" using frame_committed_inv [OF f1] inv by simp
  have res1: "cache_inv s1" "acls_resolve s1" using readsD(3) [OF b(2)] reads_resolve [OF b(2) res(2)] .
  have tree1: "tree_inv (uview s1)" "has_system (uview s1)" using tree v1 by simp_all
  let ?g = "if kc_digest_enabled ctx then Some g else None"
  have widen: "preprocessed z r pend multi ds s s'" if "preprocessed z r pend multi ds s1 s'" for multi ds s'
    using that frame_trans [OF frame_addDeltas [OF f1]] v1 by (simp add: preprocessed_def)
  have denied: "preprocess_checked ctx r sid time z check_acl g s
      = Inr ((case r of MultiRequest ty rs \<Rightarrow> [Delta [] z (FailedMultiDelta (replicate (length rs) ZOK) ZNOAUTH)]
              | _ \<Rightarrow> [error_delta z ZNOAUTH]), g, s1)" if "\<not> b"
    unfolding preprocess_checked_def b(1) using that by simp
  have no_sync: "r \<noteq> SyncRequest p" if "\<not> b" for p
    using that b(1) by (auto split: if_splits)
  have simple_case: "(case r of MultiRequest ty rs \<Rightarrow> X ty rs | _ \<Rightarrow> y) = y" if "simple_request r" for X and y :: "delta list"
    using that by (cases r) simp_all
  consider (multi) ty rs where "r = MultiRequest ty rs" "\<forall>r\<in>set rs. simple_request r" | (simple) "simple_request r"
    using r(1) by (cases r) auto
  then show ?thesis
  proof cases
    case multi
    have zone: "\<forall>r\<in>set rs. simple_request r \<and> zone_known r (uview s1)"
      using multi(2) r(2) [unfolded multi(1) zone_known_multi] v1 by simp
    show ?thesis
    proof (cases b)
      case True
      obtain m ds g' s' where run: "preprocess ctx z sid time r ?g s1 = Inr (ds, g', s')" "preprocessed z r pend m ds s1 s'"
        "multi_outcome ctx z sid time (getOpNum r = OpMulti) rs (m @ ds) (uview s)"
        unfolding multi(1) v1 [symmetric] by (rule preprocess_multi [OF sync1 inv1 tree1 zone ctx z])
      show ?thesis
      proof (rule that [OF _ widen [OF run(2)]])
        show "preprocess_checked ctx r sid time z check_acl g s = Inr (ds, case g' of Some d \<Rightarrow> d | None \<Rightarrow> g, s')"
          using b(1) True run(1) by (simp add: preprocess_checked_def)
        show "multi_result ctx z sid time check_acl r (m @ ds) (uview s)" using run(3) multi(1) by simp
      qed
    next
      case False
      have "preprocessed z r pend [] [Delta [] z (FailedMultiDelta (replicate (length rs) ZOK) ZNOAUTH)] s1 s1"
        unfolding multi(1) by (rule preprocessed_failed [OF sync1 frame_refl inv1 tree1(1) z(1) _ syncD(2) [OF sync1]]) simp
      from widen [OF this] show ?thesis
        by (rule that [rotated]) (use denied [OF False] multi(1) b(1) False in \<open>auto simp: multi_denied_def split: if_splits\<close>)
    qed
  next
    case simple
    have single: "multi_result ctx z sid time check_acl r ds (uview s)"
      if "check_acl \<and> ds = [error_delta z ZNOAUTH] \<or> (\<exists>s' g g' s''. uview s' = uview s \<and> preprocess ctx z sid time r g s' = Inr (ds, g', s''))" for ds
      using simple that by (cases r) (simp_all del: preprocess.simps)
    have zone: "zone_known r (uview s1)" using r(2) v1 by simp
    show ?thesis
    proof (cases b)
      case True
      obtain ds s' where run: "preprocess ctx z sid time r ?g s1 = Inr (ds, ?g, s')" "prepared z ds s1 s'" "served z r ds (uview s1)"
        by (rule preprocess_served [OF res1 tree1 ctx simple zone])
      have "preprocessed z r pend [] ds s1 s'"
        by (rule preprocessed_simple [OF sync1 inv1 run(2) z(1)]) (use run(3) answered_simple [OF simple] in simp)
      from widen [OF this] show ?thesis
        by (rule that [rotated]) (use b(1) True run(1) v1 single [of ds] in \<open>auto simp: preprocess_checked_def\<close>)
    next
      case False
      have "preprocessed z r pend [] [error_delta z ZNOAUTH] s1 s1"
        by (rule preprocessed_simple [OF sync1 inv1 prepared_error [OF reads_refl [OF res1(1)] tree1(1)] z(1)])
          (use no_sync [OF False] in \<open>auto simp: answered_simple [OF simple] served_def\<close>)
      from widen [OF this] show ?thesis
        by (rule that [rotated]) (use denied [OF False] simple_case [OF simple] single [of "[error_delta z ZNOAUTH]"] b(1) False in \<open>auto split: if_splits\<close>)
    qed
  qed
qed

text \<open>\<open>Close\<close> is not checked against the ACLs.\<close>

lemma preprocess_close_spec:
  assumes sync: "sync pend s" and inv: "committed_inv s" and tree: "tree_inv (uview s)" and sid: "sid \<noteq> 0" and z: "0 < z"
  obtains ds s' where "preprocess_close sid z s = Inr (ds, s')" "preprocessed z CloseRequest pend [] ds s s'" "closes sid s ds"
proof -
  have res: "cache_inv s" "acls_resolve s"
    using syncD(1) [OF sync] inv acls_resolve_counted by (auto simp: committed_inv_def)
  obtain ds s' where run: "preprocess_close sid z s = Inr (ds, s')" "prepared z ds s s'" "clean ds" "closes sid s ds"
    by (rule preprocess_close_prepared [OF res tree sid])
  have "preprocessed z CloseRequest pend [] ds s s'"
    by (rule preprocessed_simple [OF sync inv run(2) z]) (use run(3) in \<open>simp add: answered_def served_def\<close>)
  with run(1) show ?thesis using run(4) by (rule that)
qed

lemma bookkeeping_views [simp]:
  "cview (s\<lparr>uncommitted_transactions := x\<rparr>) = cview s" "cview (addDeltas ds s) = cview s"
  "uview (s\<lparr>uncommitted_transactions := x\<rparr>) = uview s"
  "committed_inv (s\<lparr>uncommitted_transactions := x\<rparr>) = committed_inv s" "committed_inv (addDeltas ds s) = committed_inv s"
proof -
  show "committed_inv (s\<lparr>uncommitted_transactions := x\<rparr>) = committed_inv s" "committed_inv (addDeltas ds s) = committed_inv s"
    by (rule committed_inv_cong; simp add: addDeltas_def find_node_def fun_eq_iff)+
qed (simp_all add: addDeltas_def cview_def uview_def find_entry_def find_node_def fun_eq_iff cong: option.case_cong)

lemma addDeltas_fields [simp]:
  "us_deltas (uncommitted (addDeltas ds s)) = us_deltas (uncommitted s) @ ds"
  "uncommitted_transactions (addDeltas ds s) = uncommitted_transactions s" "committed_zxid (addDeltas ds s) = committed_zxid s"
  "initialized (addDeltas ds s) = initialized s" "watch_tables_of (addDeltas ds s) = watch_tables_of s" "session_expiry_queue_of (addDeltas ds s) = session_expiry_queue_of s"
  by (simp_all add: addDeltas_def watch_tables_of_def)

lemma frame_watches: "frame s s' \<Longrightarrow> watch_tables_of s' = watch_tables_of s"
  by (simp add: watch_tables_of_def frameD)

lemma watch_tables_other [simp]: "watch_tables_of (s\<lparr>uncommitted_transactions := x\<rparr>) = watch_tables_of s"
  "watch_tables_of (s\<lparr>uncommitted := u\<rparr>) = watch_tables_of s" "watch_tables_of (s\<lparr>container := c\<rparr>) = watch_tables_of s"
  "watch_tables_of (s\<lparr>nodes_digest := d\<rparr>) = watch_tables_of s" "watch_tables_of (s\<lparr>initialized := b\<rparr>) = watch_tables_of s"
  "watch_tables_of (s\<lparr>acl_map_of := am\<rparr>) = watch_tables_of s" "watch_tables_of (s\<lparr>committed_ephemerals := e\<rparr>) = watch_tables_of s"
  "watch_tables_of (s\<lparr>committed_ephemeral_nodes := n\<rparr>) = watch_tables_of s" "watch_tables_of (s\<lparr>session_id_counter := i\<rparr>) = watch_tables_of s"
  "watch_tables_of (s\<lparr>committed_zxid := i\<rparr>) = watch_tables_of s" "watch_tables_of (s\<lparr>old_snapshot_zxid := i\<rparr>) = watch_tables_of s"
  "watch_tables_of (s\<lparr>session_and_timeout := st\<rparr>) = watch_tables_of s" "watch_tables_of (s\<lparr>session_expiry_queue_of := q\<rparr>) = watch_tables_of s"
  "watch_tables_of (s\<lparr>committed_session_and_auth := sa\<rparr>) = watch_tables_of s"
  by (simp_all add: watch_tables_of_def)

lemma keeper_invD:
  assumes "keeper_inv rs s"
  shows "initialized s" "sync (us_deltas (uncommitted s)) s" "committed_inv s" "queue_wf (session_expiry_queue_of s)"
    "sorted_wrt (<) (committed_zxid s # map ti_zxid (uncommitted_transactions s))" "0 \<le> committed_zxid s"
    "dated (committed_zxid s) (cview s)" "watches_ok s"
  using assms by (simp_all add: keeper_inv_def)

lemma keeper_inv_tree: "keeper_inv rs s \<Longrightarrow> tree_inv (cview s)"
  using groups_tree by (auto simp: keeper_inv_def)

text \<open>The transaction numbers that are still free.\<close>

lemma next_zxid:
  assumes "keeper_inv rs s" "getNextZXID s \<le> z"
  shows "committed_zxid s < z" "\<forall>tx\<in>set (uncommitted_transactions s). ti_zxid tx < z"
proof -
  let ?ts = "uncommitted_transactions s"
  have sorted: "sorted_wrt (<) (map ti_zxid ?ts)" "\<forall>tx\<in>set ?ts. committed_zxid s < ti_zxid tx"
    using keeper_invD(5) [OF assms(1)] by simp_all
  have last: "ti_zxid tx \<le> ti_zxid (last ?ts)" if "tx \<in> set ?ts" for tx
  proof -
    have "?ts = butlast ?ts @ [last ?ts]" using that by (metis append_butlast_last_id empty_iff empty_set)
    then have "sorted_wrt (<) (map ti_zxid (butlast ?ts) @ [ti_zxid (last ?ts)])" "tx \<in> set (butlast ?ts @ [last ?ts])"
      using sorted(1) that by (metis list.simps(8,9) map_append)+
    then show ?thesis by (auto simp: sorted_wrt_append less_imp_le)
  qed
  show "\<forall>tx\<in>set ?ts. ti_zxid tx < z"
  proof
    fix tx assume tx: "tx \<in> set ?ts"
    then have "?ts \<noteq> []" by auto
    with last [OF tx] assms(2) show "ti_zxid tx < z" by (simp add: getNextZXID_def)
  qed
  show "committed_zxid s < z"
    using assms(2) sorted(2) last_in_set [of ?ts] by (fastforce simp: getNextZXID_def split: if_splits)
qed

lemma finish_keeps:
  assumes inv: "keeper_inv rs s" and dss: "us_deltas (uncommitted s) = concat dss"
    "groups (uncommitted_transactions s) rs dss (cview s)" and z: "getNextZXID s \<le> z"
    and tx: "ti_zxid tx = z" and s1: "s1 = s\<lparr>uncommitted_transactions := uncommitted_transactions s @ [tx]\<rparr>"
    and pre: "preprocessed z r (us_deltas (uncommitted s)) multi ds s1 s2"
  obtains s' where "finish_preprocess ctx z ds g s2 = Inr s'" "keeper_inv (rs @ [r]) s'" "cview s' = cview s"
    "uncommitted_transactions s' \<noteq> []" "ti_zxid (last (uncommitted_transactions s')) = z"
    "us_deltas (uncommitted s') = us_deltas (uncommitted s) @ multi @ ds" "step_ok z (multi @ ds) (uview s)" "answered z r (multi @ ds) (uview s)"
proof -
  let ?pend = "us_deltas (uncommitted s)"
  have p: "sync (?pend @ multi) s2" "frame (addDeltas multi s1) s2" "applicable ds s2" "step_ok z (multi @ ds) (uview s)"
    "answered z r (multi @ ds) (uview s)"
    using pre by (simp_all add: preprocessed_def s1)
  note f2 = frameD [OF p(2)]
  note nz = next_zxid [OF inv z]
  have old: "\<forall>d\<in>set ?pend. delta_zxid d \<in> ti_zxid ` set (uncommitted_transactions s)"
    using groups_zxids [OF dss(2)] dss(1) by simp
  have "\<forall>d\<in>set ((?pend @ multi) @ ds). committed_zxid s2 < delta_zxid d"
    using old step_okD(1) [OF p(4)] nz(1) keeper_invD(5) [OF inv] f2(3) by (auto simp: s1)
  from finish_preprocess_spec [OF p(1,3) this, of ctx z g]
  obtain d s' where s': "finish_preprocess ctx z ds g s2 = Inr s'" "sync ((?pend @ multi) @ ds) s'"
    "frame (addDeltas ds (s2\<lparr>uncommitted_transactions := butlast (uncommitted_transactions s2)
        @ [(last (uncommitted_transactions s2))\<lparr>ti_nodes_digest := d\<rparr>]\<rparr>)) s'" by blast
  note f' = frameD [OF s'(3), simplified]
  have ts: "uncommitted_transactions s' = uncommitted_transactions s @ [tx\<lparr>ti_nodes_digest := d\<rparr>]"
    using f'(6) f2(6) by (simp add: s1)
  have cv: "cview s' = cview s" using frame_views(1) [OF s'(3)] frame_views(1) [OF p(2)] by (simp add: s1)
  have view: "uview s = abs_deltas (concat dss) (cview s)" using syncD(2) [OF keeper_invD(2) [OF inv]] dss(1) by simp
  have gr: "groups (uncommitted_transactions s') (rs @ [r]) (dss @ [multi @ ds]) (cview s')"
    unfolding ts cv by (rule groups_append [OF dss(2)]) (use p(4,5) view tx in simp_all)
  have us: "us_deltas (uncommitted s') = concat (dss @ [multi @ ds])"
    using f'(8) f2(8) dss(1) by (simp add: s1)
  have "\<exists>dss. us_deltas (uncommitted s') = concat dss \<and> groups (uncommitted_transactions s') (rs @ [r]) dss (cview s')"
    using us gr by blast
  moreover have "sync (us_deltas (uncommitted s')) s'" using s'(2) us dss(1) by simp
  moreover have "sorted_wrt (<) (committed_zxid s' # map ti_zxid (uncommitted_transactions s'))"
    using keeper_invD(5) [OF inv] nz f'(3) f2(3) tx by (auto simp: ts s1 sorted_wrt_append)
  moreover have "committed_inv s'"
    using frame_committed_inv [OF s'(3)] frame_committed_inv [OF p(2)] keeper_invD(3) [OF inv] by (simp add: s1)
  ultimately have "keeper_inv (rs @ [r]) s'"
    unfolding keeper_inv_def using f'(3,9,10) f2(3,9,10) keeper_invD(1,4,6,7,8) [OF inv] cv
      frame_watches [OF s'(3)] frame_watches [OF p(2)] by (simp add: s1)
  moreover have "us_deltas (uncommitted s') = ?pend @ multi @ ds" using us dss(1) by simp
  moreover have "uncommitted_transactions s' \<noteq> []" "ti_zxid (last (uncommitted_transactions s')) = z" using ts tx by simp_all
  ultimately show ?thesis using that s'(1) cv p(4,5) by blast
qed

text \<open>\<open>preprocessRequest\<close> on the next transaction number never fails and appends the request.\<close>

lemma preprocessRequest_keeps:
  assumes inv: "keeper_inv rs s" and r: "request_from sid r" "zone_known r (uview s)" and ctx: "system_paths_open ctx" and z: "getNextZXID s \<le> z"
  obtains ds s' where "preprocessRequest ctx r sid time z check_acl digest log_idx s = Inr s'" "keeper_inv (rs @ [r]) s'" "cview s' = cview s"
    "uncommitted_transactions s' \<noteq> []" "ti_zxid (last (uncommitted_transactions s')) = z"
    "us_deltas (uncommitted s') = us_deltas (uncommitted s) @ ds" "step_ok z ds (uview s)" "answered z r ds (uview s)"
    "\<forall>d\<in>set (us_deltas (uncommitted s)). delta_zxid d \<noteq> z" "r = CloseRequest \<longrightarrow> closes sid s ds"
    "multi_result ctx z sid time check_acl r ds (uview s)"
proof -
  define tx where "tx = \<lparr>ti_zxid = z, ti_nodes_digest = \<lparr>kd_version = NO_DIGEST, kd_value = 0\<rparr>, ti_log_idx = log_idx\<rparr>"
  define s1 where "s1 = s\<lparr>uncommitted_transactions := uncommitted_transactions s @ [tx]\<rparr>"
  let ?pend = "us_deltas (uncommitted s)" and ?g = "kd_value (getNodesDigest ctx False s)"
  obtain dss where dss: "?pend = concat dss" "groups (uncommitted_transactions s) rs dss (cview s)"
    using inv unfolding keeper_inv_def by blast
  note nz = next_zxid [OF inv z]
  have view: "uview s = abs_deltas (concat dss) (cview s)" using syncD(2) [OF keeper_invD(2) [OF inv]] dss(1) by simp
  have tree: "tree_inv (uview s1)" "has_system (uview s1)" using groups_final [OF dss(2)] view by (simp_all add: s1_def)
  have sync: "sync ?pend s1" and com: "committed_inv s1" using keeper_invD(2,3) [OF inv] by (simp_all add: s1_def)
  have pend: "\<forall>d\<in>set ?pend. delta_zxid d \<noteq> z" using groups_zxids [OF dss(2)] dss(1) nz(2) by fastforce
  have z0: "0 < z" using nz(1) keeper_invD(6) [OF inv] by simp
  obtain multi ds g s2 where s2: "(if r = CloseRequest then res_bind (preprocess_close sid z s1) (\<lambda>(ds, s2). finish_preprocess ctx z ds ?g s2)
      else res_bind (preprocess_checked ctx r sid time z check_acl ?g s1) (\<lambda>(ds, g, s2). finish_preprocess ctx z ds g s2))
      = finish_preprocess ctx z ds g s2" "preprocessed z r ?pend multi ds s1 s2" "r = CloseRequest \<longrightarrow> closes sid s (multi @ ds)"
      "multi_result ctx z sid time check_acl r (multi @ ds) (uview s)"
  proof (cases "r = CloseRequest")
    case True
    then have sid: "sid \<noteq> 0" using r(1) by (auto simp: request_from_def)
    obtain ds s2 where "preprocess_close sid z s1 = Inr (ds, s2)" "preprocessed z CloseRequest ?pend [] ds s1 s2" "closes sid s1 ds"
      by (rule preprocess_close_spec [OF sync com tree(1) sid z0])
    then show ?thesis using that [of ds ?g s2 "[]"] True by (simp add: closes_def s1_def)
  next
    case False
    then have ok: "request_ok r" using r(1) by (auto simp: request_from_def)
    have zone: "zone_known r (uview s1)" using r(2) by (simp add: s1_def)
    obtain multi ds g s2 where "preprocess_checked ctx r sid time z check_acl ?g s1 = Inr (ds, g, s2)" "preprocessed z r ?pend multi ds s1 s2"
      "multi_result ctx z sid time check_acl r (multi @ ds) (uview s1)"
      by (rule preprocess_checked_spec [OF sync com tree ok zone ctx z0 pend])
    then show ?thesis using that [of ds g s2 multi] False by (simp add: s1_def)
  qed
  obtain s' where s': "finish_preprocess ctx z ds g s2 = Inr s'" "keeper_inv (rs @ [r]) s'" "cview s' = cview s"
    "uncommitted_transactions s' \<noteq> []" "ti_zxid (last (uncommitted_transactions s')) = z"
    "us_deltas (uncommitted s') = ?pend @ multi @ ds" "step_ok z (multi @ ds) (uview s)" "answered z r (multi @ ds) (uview s)"
    by (rule finish_keeps [OF inv dss z _ s1_def s2(2)]) (simp add: tx_def)
  have "preprocessRequest ctx r sid time z check_acl digest log_idx s = Inr s'"
    using z keeper_invD(1) [OF inv] s2(1) s'(1)
    by (cases "r = CloseRequest") (simp_all add: preprocessRequest_def tx_def [symmetric] s1_def [symmetric] Let_def split: option.split)
  then show ?thesis by (rule that) (fact s' pend s2(3,4))+
qed

subsection \<open>Rolling back\<close>

lemma groups_snoc:
  assumes "groups txs (rs @ [r]) dss t"
  obtains txs' tx dss' ds where "txs = txs' @ [tx]" "dss = dss' @ [ds]" "groups txs' rs dss' t"
    "step_ok (ti_zxid tx) ds (abs_deltas (concat dss') t)"
  using assms
proof (induction rs arbitrary: txs dss t thesis)
  case Nil
  obtain tx txs1 where txs: "txs = tx # txs1" using Nil.prems(2) by (cases txs) auto
  from Nil.prems(2) [unfolded txs] obtain ds dss1 where g: "dss = ds # dss1" "tree_inv t" "has_system t" "step_ok (ti_zxid tx) ds t"
    "groups txs1 [] dss1 (abs_deltas ds t)"
    by (rule groups_Cons) auto
  then have "txs1 = []" "dss1 = []" by (cases txs1; cases dss1; simp)+
  with g txs show ?case using Nil.prems(1) [of "[]" tx "[]" ds] by simp
next
  case (Cons r0 rs)
  obtain tx0 txs1 where txs: "txs = tx0 # txs1" using Cons.prems(2) by (cases txs) auto
  from Cons.prems(2) [unfolded txs] obtain ds0 dss1 where g: "dss = ds0 # dss1" "tree_inv t" "has_system t" "step_ok (ti_zxid tx0) ds0 t"
    "answered (ti_zxid tx0) r0 ds0 t" "groups txs1 (rs @ [r]) dss1 (abs_deltas ds0 t)"
    by (rule groups_Cons) auto
  from g(6) obtain txs' tx dss' ds where h: "txs1 = txs' @ [tx]" "dss1 = dss' @ [ds]" "groups txs' rs dss' (abs_deltas ds0 t)"
    "step_ok (ti_zxid tx) ds (abs_deltas (concat dss') (abs_deltas ds0 t))"
    by (rule Cons.IH [rotated])
  show ?case
    by (rule Cons.prems(1) [of "tx0 # txs'" tx "ds0 # dss'" ds]) (use txs g h in simp_all)
qed

lemma rev_takeWhile_suffix:
  assumes "\<forall>x\<in>set ys. P x" "\<forall>x\<in>set xs. \<not> P x"
  shows "rev (takeWhile P (rev (xs @ ys))) = ys" "rev (dropWhile P (rev (xs @ ys))) = xs"
proof -
  have "takeWhile P (rev xs) = []" "dropWhile P (rev xs) = rev xs"
    using assms(2) by (cases xs rule: rev_cases; simp)+
  with assms(1) show "rev (takeWhile P (rev (xs @ ys))) = ys" "rev (dropWhile P (rev (xs @ ys))) = xs"
    by (simp_all add: takeWhile_append dropWhile_append)
qed

lemma rollbackRequest_keeps:
  assumes inv: "keeper_inv (rs @ [r]) s" and z: "z = ti_zxid (last (uncommitted_transactions s))"
  obtains s' where "rollbackRequest z allow_missing s = Inr s'" "keeper_inv rs s'" "cview s' = cview s"
    "us_deltas (uncommitted s') = filter (\<lambda>d. delta_zxid d \<noteq> z) (us_deltas (uncommitted s))"
proof -
  let ?pend = "us_deltas (uncommitted s)"
  obtain dss0 where dss0: "?pend = concat dss0" "groups (uncommitted_transactions s) (rs @ [r]) dss0 (cview s)"
    using inv unfolding keeper_inv_def by blast
  obtain txs tx dss ds where g: "uncommitted_transactions s = txs @ [tx]" "dss0 = dss @ [ds]" "groups txs rs dss (cview s)"
    "step_ok (ti_zxid tx) ds (abs_deltas (concat dss) (cview s))"
    by (rule groups_snoc [OF dss0(2)])
  have zt: "z = ti_zxid tx" using z g(1) by simp
  have sorted: "sorted_wrt (<) (committed_zxid s # map ti_zxid txs)" "\<forall>t\<in>set txs. ti_zxid t < z"
    using keeper_invD(5) [OF inv] g(1) zt by (auto simp: sorted_wrt_append)
  have new: "\<forall>d\<in>set ds. delta_zxid d = z" using step_okD(1) [OF g(4)] zt by simp
  have old: "\<forall>d\<in>set (concat dss). delta_zxid d < z" using groups_zxids [OF g(3)] sorted(2) by fastforce
  have split: "rev (takeWhile (\<lambda>d. delta_zxid d = z) (rev ?pend)) = ds" "rev (dropWhile (\<lambda>d. delta_zxid d = z) (rev ?pend)) = concat dss"
    using rev_takeWhile_suffix [of ds "\<lambda>d. delta_zxid d = z" "concat dss"] new old dss0(1) g(2) by auto
  define s1 where "s1 = s\<lparr>uncommitted_transactions := txs\<rparr>"
  define s2 where "s2 = s1\<lparr>uncommitted := (uncommitted s1)\<lparr>us_deltas := concat dss\<rparr>\<rparr>"
  have sync2: "sync (concat dss @ ds) s2"
    unfolding s2_def sync_other_fields unfolding s1_def sync_other_fields using keeper_invD(2) [OF inv] dss0(1) g(2) by simp
  have cv2: "cview s2 = cview s" by (simp add: s2_def s1_def cview_def find_node_def fun_eq_iff)
  have com2: "committed_inv s2"
    using keeper_invD(3) [OF inv] by (subst committed_inv_cong [of _ s]) (simp_all add: s2_def s1_def find_node_def fun_eq_iff)
  obtain s' where s': "rollback_deltas ds s2 = Inr s'" "sync (concat dss) s'" "same_committed s2 s'"
    by (rule rollback_sync [OF sync2 com2]) (use step_okD(3) [OF g(4)] cv2 old new in auto)
  note f = frameD [OF same_committed_frame [OF s'(3)]]
  have cv: "cview s' = cview s" using frame_views(1) [OF same_committed_frame [OF s'(3)]] cv2 by simp
  have last: "\<not> (?pend \<noteq> [] \<and> delta_zxid (last ?pend) > z)"
    using old new dss0(1) g(2) last_in_set [of ?pend] by fastforce
  have us1: "us_deltas (uncommitted s1) = ?pend" by (simp add: s1_def)
  have "rollback_zxid z s1 = Inr s'"
    unfolding rollback_zxid_def us1 Let_def split if_not_P [OF last] s2_def [symmetric] by (rule s'(1))
  then have "rollbackRequest z allow_missing s = Inr s'"
    using g(1) zt by (simp add: rollbackRequest_def Let_def s1_def)
  moreover have "groups (uncommitted_transactions s') rs dss (cview s')" using g(3) f(6) cv by (simp add: s2_def s1_def)
  moreover have "committed_inv s'" using frame_committed_inv [OF same_committed_frame [OF s'(3)]] com2 by simp
  ultimately have "keeper_inv rs s'"
    unfolding keeper_inv_def using s'(2) f(3,6,8,9,10) sorted(1) cv keeper_invD(1,4,6,7,8) [OF inv]
      frame_watches [OF same_committed_frame [OF s'(3)]]
    by (intro conjI exI [of _ dss]) (simp_all add: s2_def s1_def)
  moreover have "us_deltas (uncommitted s') = filter (\<lambda>d. delta_zxid d \<noteq> z) ?pend"
  proof -
    have "filter (\<lambda>d. delta_zxid d \<noteq> z) ds = []" using new by simp
    moreover have "filter (\<lambda>d. delta_zxid d \<noteq> z) (concat dss) = concat dss" using old by (intro filter_True) auto
    ultimately show ?thesis using f(8) dss0(1) g(2) by (simp add: s2_def s1_def)
  qed
  ultimately show ?thesis using that \<open>rollbackRequest z allow_missing s = Inr s'\<close> cv by blast
qed

end
