(* ===== verification/Keeper_Init.thy ===== *)
theory Keeper_Init
  imports Keeper_Machine
begin

section \<open>The initial state\<close>

text \<open>
  The constructor of the storage establishes the invariant of the state machine, for every set of
  system nodes below the system path that has the two nodes that \<open>Get\<close> expects.
\<close>

definition system_child :: "path \<Rightarrow> bool" where
  "system_child p \<longleftrightarrow> (\<exists>b. p = keeper_system_path @ slash # b \<and> b \<noteq> [] \<and> slash \<notin> set b)"

definition system_nodes_ok :: "(path \<times> string) list \<Rightarrow> bool" where
  "system_nodes_ok nodes \<longleftrightarrow> (\<forall>(p, d)\<in>set nodes. system_child p \<and> length d < 2 ^ 32)
     \<and> keeper_api_feature_flags_path \<in> fst ` set nodes
     \<and> distinct (map fst nodes)"

text \<open>The nodes that the constructor makes.\<close>

definition initial_node :: "path \<Rightarrow> mem_node \<Rightarrow> bool" where
  "initial_node p n \<longleftrightarrow> (p = root \<or> p = keeper_system_path \<or> system_child p)
     \<and> mn_acl_id n = 0 \<and> \<not> isEphemeral (mn_stats n) \<and> node_wf n \<and> length (getData n) < 2 ^ 32
     \<and> (p = root \<longrightarrow> getData n = [] \<and> numChildren (mn_stats n) = 1)
     \<and> ns_mzxid (mn_stats n) = 0 \<and> union_holds (ns_is_ephemeral (mn_stats n)) (ns_data (mn_stats n))"

definition constructing :: "storage \<Rightarrow> bool" where
  "constructing s \<longleftrightarrow> uncommitted s = empty_uncommitted \<and> acl_map_of s = empty_acl_map
     \<and> committed_ephemerals s = Map.empty \<and> uncommitted_transactions s = [] \<and> committed_zxid s = 0
     \<and> queue_wf (session_expiry_queue_of s) \<and> watches_ok s
     \<and> (\<forall>p n. find_node s p = Some n \<longrightarrow> initial_node p n)
     \<and> find_node s root \<noteq> None \<and> find_node s keeper_system_path \<noteq> None \<and> children_exact (find_node s)"

lemma system_child_facts:
  assumes "system_child p"
  shows "parentOf p = keeper_system_path" "sys p" "p \<noteq> root" "canonical_path p"
proof -
  obtain b where b: "p = keeper_system_path @ slash # b" "b \<noteq> []" "slash \<notin> set b"
    using assms by (auto simp: system_child_def)
  show "parentOf p = keeper_system_path"
    unfolding b(1) using parentOf_split [OF b(3), of keeper_system_path] by (simp add: keeper_system_path_def)
  have rest: "canonical_rest (keeper_system_path @ slash # b)"
    using canonical_rest_extend [of "keeper_system_path @ [slash]" "CHR ''0''" b] b(2,3)
    by (simp add: keeper_system_path_def slash_def)
  show root: "p \<noteq> root" by (simp add: b(1) keeper_system_path_def)
  show can: "canonical_path p" using rest by (simp add: b(1) canonical_path_def keeper_system_path_def slash_def)
  show "sys p" using sys_iff [OF can root] b(1) by blast
qed

lemma cview_initial:
  assumes "constructing s" "cview s p = Some a"
  obtains n where "find_node s p = Some n" "initial_node p n" "a = abs_node [] n"
  using assms by (auto simp: constructing_def cview_def acls_of_def convertNumber_def initial_node_def)

lemma constructing_tree:
  assumes c: "constructing s"
  shows "tree_inv (cview s)"
proof -
  have dom: "p = root \<or> p = keeper_system_path \<or> system_child p" if "cview s p = Some a" for p a
    by (rule cview_initial [OF c that]) (simp add: initial_node_def)
  have root: "cview s root \<noteq> None" and keeper: "cview s keeper_system_path \<noteq> None"
    using c by (simp_all add: constructing_def cview_def)
  have kids: "kids (cview s) root = {keeper_system_path}"
  proof (intro equalityI subsetI)
    fix q assume "q \<in> kids (cview s) root"
    then obtain b where q: "cview s q = Some b" "q \<noteq> root" "parentOf q = root" by (auto simp: kids_def)
    with dom [OF q(1)] show "q \<in> {keeper_system_path}"
      using system_child_facts(1) [of q] keeper_path_canonical(2) by auto
  qed (use keeper keeper_parent keeper_path_canonical(2) in \<open>auto simp: kids_def\<close>)
  have finite: "finite (dom (cview s))"
    by (rule finite_subset [OF _ finite_dom_map_of [of "container s"]]) (auto simp: cview_def find_node_def)
  have "anode_ok (cview s) p a" if a: "cview s p = Some a" for p a
  proof -
    obtain n where n: "find_node s p = Some n" "initial_node p n" "a = abs_node [] n" by (rule cview_initial [OF c a])
    have par: "p \<noteq> root \<longrightarrow> parentOf p = root \<or> parentOf p = keeper_system_path"
      using dom [OF a] keeper_parent system_child_facts(1) by auto
    have eph: "\<not> isEphemeral (an_stats b)" if "cview s q = Some b" for q b
      by (rule cview_initial [OF c that]) (simp add: initial_node_def abs_node_def)
    have "canonical_path p"
      using dom [OF a] keeper_path_canonical(1) system_child_facts(4) by (auto simp: canonical_path_def)
    moreover have "\<not> sys p \<longrightarrow> p = root" using dom [OF a] sys_keeper system_child_facts(2) by auto
    moreover have "p \<noteq> root \<longrightarrow> (\<exists>b. cview s (parentOf p) = Some b \<and> \<not> isEphemeral (an_stats b))"
    proof
      assume "p \<noteq> root"
      then have "cview s (parentOf p) \<noteq> None" using par root keeper by auto
      then obtain b where "cview s (parentOf p) = Some b" by blast
      with eph [OF this] show "\<exists>b. cview s (parentOf p) = Some b \<and> \<not> isEphemeral (an_stats b)" by blast
    qed
    moreover have "anode_wf a" "length (an_data a) < 2 ^ 32" "p = root \<longrightarrow> numChildren (an_stats a) = 1"
      using n(2,3) length_getData [of n] by (simp_all add: initial_node_def abs_node_def anode_wf_def)
    moreover have "card (kids (cview s) root) = 1" by (simp add: kids)
    moreover have "\<not> isEphemeral (an_stats a)" using n(2,3) by (simp add: initial_node_def abs_node_def)
    ultimately show ?thesis
      unfolding anode_ok_def by auto
  qed
  moreover have "\<exists>r. cview s root = Some r \<and> \<not> isEphemeral (an_stats r) \<and> an_data r = []"
  proof -
    obtain r where r: "cview s root = Some r" using root by auto
    then show ?thesis
      by (rule cview_initial [OF c]) (use r in \<open>simp add: initial_node_def abs_node_def\<close>)
  qed
  ultimately show ?thesis using finite keeper by (auto simp: tree_inv_def)
qed

text \<open>A storage without pending requests shows its committed tree.\<close>

lemma constructing_keeper_inv:
  assumes c: "constructing s" and sys: "has_system (cview s)"
  shows "keeper_inv [] (s\<lparr>initialized := True\<rparr>)"
proof -
  let ?s = "s\<lparr>initialized := True\<rparr>"
  have f: "find_node ?s = find_node s" "cview ?s = cview s" "uview ?s = cview s" "find_entry ?s = (\<lambda>p. None)"
    using c by (simp_all add: find_node_def cview_def uview_def find_entry_def constructing_def empty_uncommitted_def fun_eq_iff)
  have "sync [] ?s"
    using c by (simp add: sync_def f cache_inv_def tracking_ok_def auths_end_def constructing_def empty_uncommitted_def
      auths_of_def bucket_def omap_wf_def)
  moreover have "acls_counted ?s"
  proof -
    have "acl_users ?s k = {}" if "k \<noteq> 0" for k
      using c that by (auto simp: acl_users_def f constructing_def initial_node_def)
    moreover have "acl_map_of ?s = empty_acl_map" using c by (simp add: constructing_def)
    moreover have "usage_of empty_acl_map k = 0" for k by (simp add: usage_of_def empty_acl_map_def)
    ultimately show ?thesis
      using acl_map_wf_empty by (simp add: acls_counted_def am.counted_def)
  qed
  moreover have "ephemerals_exact ?s" "container_wf ?s"
    using c by (auto simp: ephemerals_exact_def container_wf_def f constructing_def initial_node_def bucket_def ephemeralOwner_def)
  moreover have "dated 0 (cview s)"
    unfolding dated_def
  proof (intro allI impI)
    fix p a assume "cview s p = Some a"
    then show "ns_mzxid (an_stats a) \<le> 0 \<and> union_holds (ns_is_ephemeral (an_stats a)) (ns_data (an_stats a))"
      by (rule cview_initial [OF c]) (simp add: initial_node_def abs_node_def)
  qed
  ultimately show ?thesis
    using c sys constructing_tree [OF c]
    by (simp add: keeper_inv_def committed_inv_def constructing_def empty_uncommitted_def f)
qed

subsection \<open>The constructor\<close>

text \<open>A storage under construction with the given nodes.\<close>

definition built :: "(path \<rightharpoonup> mem_node) \<Rightarrow> storage \<Rightarrow> bool" where
  "built X s \<longleftrightarrow> uncommitted s = empty_uncommitted \<and> acl_map_of s = empty_acl_map
     \<and> committed_ephemerals s = Map.empty \<and> uncommitted_transactions s = [] \<and> committed_zxid s = 0
     \<and> queue_wf (session_expiry_queue_of s) \<and> watches_ok s \<and> \<not> initialized s \<and> find_node s = X"

lemma built_node: "built X s \<Longrightarrow> find_node s p = X p"
  by (simp add: built_def)

lemma built_steps:
  assumes "built X s"
  shows "built X (addDigest n p s)" "built X (removeDigest n p s)"
    "X p = None \<Longrightarrow> built (X(p \<mapsto> copy_node n)) (insert_node p n s)"
    "X p = Some m \<Longrightarrow> built X (insert_node p n s)"
    "X p = Some m \<Longrightarrow> built (X(p \<mapsto> snd (getDigest p m))) (cache_digest p s)"
  using assms
  by (auto simp: built_def addDigest_def removeDigest_def insert_node_def cache_digest_def find_node_def map_of_alist_update fun_eq_iff)

lemma built_updateValue:
  assumes "built X s" "X p = Some m"
  obtains s' where "updateValue p h s = Inr s'" "built (X(p \<mapsto> h m)) s'"
proof -
  have "find_node s p = Some m" using assms by (simp add: built_def)
  then show ?thesis
    using that [of "s\<lparr>container := AList.update p (h m) (container s)\<rparr>"] assms
    by (auto simp: updateValue_def built_def find_node_def map_of_alist_update fun_eq_iff)
qed

lemma built_base: "tick \<noteq> 0 \<Longrightarrow> built Map.empty (base_storage tick super)"
  using watches_ok_empty [of "base_storage tick super"]
  by (auto simp: built_def base_storage_def find_node_def fun_eq_iff intro: queue_wf_new)

lemma root_literal: "''/'' = root"
  by (simp add: slash_def)

text \<open>The nodes of a storage that only has initial nodes.\<close>

definition initial_nodes :: "(path \<rightharpoonup> mem_node) \<Rightarrow> bool" where
  "initial_nodes X \<longleftrightarrow> (\<forall>p n. X p = Some n \<longrightarrow> initial_node p n) \<and> X root \<noteq> None \<and> X keeper_system_path \<noteq> None
     \<and> children_exact X"

lemma built_constructing: "built X s \<Longrightarrow> initial_nodes X \<Longrightarrow> constructing s"
  by (simp add: built_def constructing_def initial_nodes_def)

text \<open>A system node holds its data and default statistics.\<close>

definition system_node :: "string \<Rightarrow> mem_node" where
  "system_node d = copy_node (setData d default_node)"

lemma system_node_fields [simp]:
  "mn_acl_id (system_node d) = 0" "mn_children (system_node d) = []" "ephemeralOwner (mn_stats (system_node d)) = 0"
  "node_wf (system_node d)"
  by (simp_all add: system_node_def copy_node_def assign_node_def setData_def default_node_def default_stats_def Let_def ephemeralOwner_def
     isEphemeral_def node_wf_def getData_def)

lemma initial_node_child:
  assumes "initial_node p n"
  shows "initial_node p (addChild c n)"
proof -
  have "getData (addChild c n) = getData n" by (simp add: getData_def)
  with assms show ?thesis by (simp add: initial_node_def)
qed

lemma system_child_exact:
  assumes X: "initial_nodes X" and p: "system_child p" and n: "mn_children n = []"
    and Y: "Y = (if X p = None then X(p \<mapsto> n) else X)" and k: "Y keeper_system_path = Some k"
  shows "children_exact (Y(keeper_system_path \<mapsto> addChild (getBaseNodeName p) k))"
proof -
  note c = system_child_facts [OF p]
  have ex: "children_exact X" using X by (simp add: initial_nodes_def)
  have neq: "p \<noteq> keeper_system_path" using c(1,4) parent_neq_self(1) [OF c(4,3)] by auto
  have k': "X keeper_system_path = Some k" using k neq by (simp add: Y split: if_splits)
  show ?thesis
  proof (cases "X p")
    case None
    have "parentOf q \<noteq> p" if "X q \<noteq> None" for q
    proof -
      have "q = root \<or> q = keeper_system_path \<or> system_child q"
        using X that by (auto simp: initial_nodes_def initial_node_def)
      then show ?thesis using c(3) neq system_child_facts(1) [of q] keeper_parent by auto
    qed
    then show ?thesis
      by (intro children_exact_create [OF ex c(4,3) None, of k n]) (use k' c(1) n None Y neq in auto)
  next
    case (Some m)
    then have "getBaseNodeName p \<in> set (mn_children k)"
      using ex k' c(1,3) by (auto simp: children_exact_def)
    then have "addChild (getBaseNodeName p) k = k" by (simp add: addChild_def uset_insert_def)
    then have "Y(keeper_system_path \<mapsto> addChild (getBaseNodeName p) k) = X"
      using Some k' by (simp add: Y fun_upd_idem)
    with ex show ?thesis by simp
  qed
qed

lemma insert_system_node_built:
  assumes X: "built X s" "initial_nodes X" and p: "system_child p" "length d < 2 ^ 32"
  obtains s' Y where "insert_system_node (p, d) s = Inr s'" "built Y s'" "initial_nodes Y" "dom Y = insert p (dom X)"
    "\<And>q. q \<noteq> keeper_system_path \<Longrightarrow> Y q = (if q = p \<and> X p = None then Some (system_node d) else X q)"
    "map_option mn_stats (Y keeper_system_path) = map_option mn_stats (X keeper_system_path)"
proof -
  let ?n = "copy_node (setData d default_node)"
  have new: "initial_node p ?n"
    using p system_child_facts(3) [OF p(1)]
    by (simp add: initial_node_def default_node_def default_stats_def isEphemeral_def setData_def getData_def copy_node_def assign_node_def node_wf_def Let_def)
  define Y where "Y = (if X p = None then X(p \<mapsto> ?n) else X)"
  have Y: "built Y (insert_node p (setData d default_node) s)"
    using built_steps(3,4) [OF X(1), of p] by (auto simp: Y_def)
  have keeper: "parentOf p = keeper_system_path" "p \<noteq> root" using system_child_facts [OF p(1)] by simp_all
  obtain k where k: "Y keeper_system_path = Some k" using X(2) by (fastforce simp: Y_def initial_nodes_def)
  obtain s' where s': "updateValue keeper_system_path (addChild (getBaseNodeName p)) (insert_node p (setData d default_node) s) = Inr s'"
    "built (Y(keeper_system_path \<mapsto> addChild (getBaseNodeName p) k)) s'"
    by (rule built_updateValue [OF Y k])
  have Y': "initial_node q m" if "Y q = Some m" for q m
    using X(2) new that by (auto simp: Y_def initial_nodes_def split: if_splits)
  have "children_exact (Y(keeper_system_path \<mapsto> addChild (getBaseNodeName p) k))"
    by (rule system_child_exact [OF X(2) p(1) _ Y_def k])
      (simp add: setData_def copy_node_def assign_node_def default_node_def Let_def)
  then have "initial_nodes (Y(keeper_system_path \<mapsto> addChild (getBaseNodeName p) k))"
    using k X(2) initial_node_child [OF Y'] Y' by (auto simp: initial_nodes_def Y_def split: if_splits)
  moreover have "dom (Y(keeper_system_path \<mapsto> addChild (getBaseNodeName p) k)) = insert p (dom X)"
    using X(2) by (auto simp: Y_def initial_nodes_def split: if_splits)
  moreover have "(Y(keeper_system_path \<mapsto> addChild (getBaseNodeName p) k)) q = (if q = p \<and> X p = None then Some (system_node d) else X q)"
    if "q \<noteq> keeper_system_path" for q
    using that by (simp add: Y_def system_node_def)
  moreover have "map_option mn_stats ((Y(keeper_system_path \<mapsto> addChild (getBaseNodeName p) k)) keeper_system_path)
      = map_option mn_stats (X keeper_system_path)"
    using k X(2) by (auto simp: Y_def initial_nodes_def split: if_splits)
  moreover have "parentNodePath p = Inr keeper_system_path"
    using parentNodePath_canonical [OF system_child_facts(4) [OF p(1)]] keeper by simp
  ultimately show ?thesis using that s' keeper by (simp add: insert_system_node_def)
qed

lemma insert_system_nodes_built:
  assumes "built X s" "initial_nodes X" "\<forall>(p, d)\<in>set nodes. system_child p \<and> length d < 2 ^ 32"
  obtains s' Y where "res_fold insert_system_node nodes s = Inr s'" "built Y s'" "initial_nodes Y" "dom Y = fst ` set nodes \<union> dom X"
    "\<And>q. q \<noteq> keeper_system_path \<Longrightarrow> distinct (map fst nodes) \<Longrightarrow> Y q = (if X q = None then map_option system_node (map_of nodes q) else X q)"
    "map_option mn_stats (Y keeper_system_path) = map_option mn_stats (X keeper_system_path)"
  using assms
proof (induction nodes arbitrary: s X thesis)
  case Nil
  then show ?case by simp
next
  case (Cons pd nodes)
  obtain p d where pd: "pd = (p, d)" by fastforce
  obtain s1 Y where s1: "insert_system_node (p, d) s = Inr s1" "built Y s1" "initial_nodes Y" "dom Y = insert p (dom X)"
    "\<And>q. q \<noteq> keeper_system_path \<Longrightarrow> Y q = (if q = p \<and> X p = None then Some (system_node d) else X q)"
    "map_option mn_stats (Y keeper_system_path) = map_option mn_stats (X keeper_system_path)"
    by (rule insert_system_node_built [OF Cons.prems(2,3), of p d]) (use Cons.prems(4) pd in auto)
  obtain s2 Z where s2: "res_fold insert_system_node nodes s1 = Inr s2" "built Z s2" "initial_nodes Z" "dom Z = fst ` set nodes \<union> dom Y"
    "\<And>q. q \<noteq> keeper_system_path \<Longrightarrow> distinct (map fst nodes) \<Longrightarrow> Z q = (if Y q = None then map_option system_node (map_of nodes q) else Y q)"
    "map_option mn_stats (Z keeper_system_path) = map_option mn_stats (Y keeper_system_path)"
    by (rule Cons.IH [OF _ s1(2,3)]) (use Cons.prems(4) in auto)
  have "Z q = (if X q = None then map_option system_node (map_of (pd # nodes) q) else X q)"
    if "q \<noteq> keeper_system_path" "distinct (map fst (pd # nodes))" for q
    using s2(5) [of q] s1(5) [of q] that by (auto simp: pd)
  then show ?case
    by (intro Cons.prems(1) [of s2 Z]) (use s1(1-4,6) s2(1-4,6) pd in auto)
qed

lemma first_children_exact:
  assumes "mn_children k = []" "set (mn_children r) = {getBaseNodeName keeper_system_path}"
  shows "children_exact [keeper_system_path \<mapsto> k, root \<mapsto> r]"
proof -
  have "{q. [keeper_system_path \<mapsto> k, root \<mapsto> r] q \<noteq> None \<and> q \<noteq> root \<and> parentOf q = p}
      = (if p = root then {keeper_system_path} else {})" for p
    using keeper_parent keeper_path_canonical(2) by auto
  then show ?thesis
    using assms keeper_path_canonical by (auto simp: children_exact_def canonical_path_def)
qed

lemma new_storage_keeper_inv:
  assumes ok: "system_nodes_ok (kc_system_nodes_with_data ctx)" and tick: "tick \<noteq> 0"
  obtains s where "new_storage ctx tick super True = Inr s" "keeper_inv [] s"
    "\<And>p. sys p \<Longrightarrow> p \<noteq> keeper_system_path \<Longrightarrow>
       cview s p = map_option (\<lambda>d. abs_node [] (system_node d)) (map_of (kc_system_nodes_with_data ctx) p)"
    "map_option an_stats (cview s keeper_system_path) = Some default_stats"
proof -
  let ?r = "copy_node default_node" and ?k = "copy_node default_node"
  define s0 where "s0 = addDigest default_node root (insert_node root default_node (base_storage tick super))"
  have s0: "built [root \<mapsto> ?r] s0"
    unfolding s0_def using built_steps(1,3) [OF built_steps(3) [OF built_base [OF tick]]] by simp
  define s1 where "s1 = addDigest default_node keeper_system_path (insert_node keeper_system_path default_node s0)"
  have s1: "built [root \<mapsto> ?r, keeper_system_path \<mapsto> ?k] s1"
    unfolding s1_def by (rule built_steps(1)) (rule built_steps(3) [OF s0], use keeper_path_canonical(2) in simp)
  let ?X2 = "[root \<mapsto> ?r, keeper_system_path \<mapsto> ?k, root \<mapsto> snd (getDigest root ?r)]"
  have s2: "built ?X2 (cache_digest root (removeDigest ?r root s1))"
    by (rule built_steps(5) [OF built_steps(2) [OF s1]]) (use keeper_path_canonical(2) in simp)
  let ?h = "\<lambda>n. invalidateDigestCache (addChild (getBaseNodeName keeper_system_path) (n\<lparr>mn_stats := increaseNumChildren (mn_stats n)\<rparr>))"
  obtain s3 where s3: "updateValue root ?h (cache_digest root (removeDigest ?r root s1)) = Inr s3"
    "built (?X2(root \<mapsto> ?h (snd (getDigest root ?r)))) s3"
    by (rule built_updateValue [OF s2, of root "snd (getDigest root ?r)" ?h]) (simp, rule that)
  let ?r3 = "?h (snd (getDigest root ?r))"
  define s4 where "s4 = cache_digest root (addDigest ?r3 root s3)"
  have s4: "built ((?X2(root \<mapsto> ?r3))(root \<mapsto> snd (getDigest root ?r3))) s4" (is "built ?X4 _")
    unfolding s4_def by (rule built_steps(5) [OF built_steps(1) [OF s3(2)]]) simp
  have "children_exact [keeper_system_path \<mapsto> ?k, root \<mapsto> snd (getDigest root ?r3)]"
    by (rule first_children_exact)
      (simp_all add: default_node_def addChild_def copy_node_def assign_node_def invalidateDigestCache_def getDigest_def Let_def)
  moreover have "?X4 = [keeper_system_path \<mapsto> ?k, root \<mapsto> snd (getDigest root ?r3)]"
    using keeper_path_canonical(2) by (auto simp: fun_eq_iff)
  ultimately have init: "initial_nodes ?X4"
    using keeper_path_canonical(2)
    by (auto simp: initial_nodes_def initial_node_def default_node_def default_stats_def isEphemeral_def numChildren_def
      increaseNumChildren_def addChild_def getData_def copy_node_def assign_node_def node_wf_def invalidateDigestCache_def getDigest_def Let_def)
  obtain s5 Y where s5: "res_fold insert_system_node (kc_system_nodes_with_data ctx) s4 = Inr s5" "built Y s5" "initial_nodes Y"
    "dom Y = fst ` set (kc_system_nodes_with_data ctx) \<union> dom ?X4"
    "\<And>q. q \<noteq> keeper_system_path \<Longrightarrow> distinct (map fst (kc_system_nodes_with_data ctx)) \<Longrightarrow>
       Y q = (if ?X4 q = None then map_option system_node (map_of (kc_system_nodes_with_data ctx) q) else ?X4 q)"
    "map_option mn_stats (Y keeper_system_path) = map_option mn_stats (?X4 keeper_system_path)"
    by (rule insert_system_nodes_built [OF s4 init conjunct1 [OF ok [unfolded system_nodes_ok_def]]]) (rule that)
  have dist: "distinct (map fst (kc_system_nodes_with_data ctx))" using ok by (simp add: system_nodes_ok_def)
  have none: "find_node s0 keeper_system_path = None" "\<not> initialized s0"
    using s0 keeper_path_canonical(2) by (auto simp: built_def)
  have found: "find_node s1 root = Some ?r" "find_node s3 root = Some ?r3"
    using built_node [OF s1, of root] built_node [OF s3(2), of root] keeper_path_canonical(2) by auto
  have "initializeSystemNodes ctx s0 = Inr (s5\<lparr>initialized := True\<rparr>)"
    using none found s3(1) s5(1) [unfolded s4_def]
    by (simp add: initializeSystemNodes_def root_literal s1_def [symmetric])
  then have "new_storage ctx tick super True = Inr (s5\<lparr>initialized := True\<rparr>)"
    by (simp add: new_storage_def root_literal s0_def [symmetric])
  moreover have "has_system (cview s5)"
    using ok s5(4) built_node [OF s5(2)] by (auto simp: system_nodes_ok_def has_system_def cview_def)
  moreover have "cview (s5\<lparr>initialized := True\<rparr>) p = map_option (\<lambda>d. abs_node [] (system_node d)) (map_of (kc_system_nodes_with_data ctx) p)"
    if "sys p" "p \<noteq> keeper_system_path" for p
  proof -
    have "p \<noteq> root" using that(1) not_sys_root by auto
    then have "?X4 p = None" using that(2) by simp
    then have "Y p = map_option system_node (map_of (kc_system_nodes_with_data ctx) p)"
      using s5(5) [OF that(2) dist] by (simp only: if_True simp_thms)
    then show ?thesis
      using built_node [OF s5(2), of p] by (simp add: cview_def find_node_def option.map_comp comp_def acls_of_def convertNumber_def)
  qed
  moreover have "map_option an_stats (cview (s5\<lparr>initialized := True\<rparr>) keeper_system_path) = Some default_stats"
  proof -
    have "?X4 keeper_system_path = Some ?k" using keeper_path_canonical(2) by simp
    then have "map_option mn_stats (Y keeper_system_path) = Some default_stats"
      using s5(6) by (simp only: option.map) (simp add: default_node_def)
    then show ?thesis
      using built_node [OF s5(2), of keeper_system_path] by (simp add: cview_def find_node_def option.map_comp comp_def abs_node_def)
  qed
  ultimately show ?thesis
    using that constructing_keeper_inv [OF built_constructing [OF s5(2,3)]] by blast
qed

end
