(* ===== verification/Keeper_Answers.thy ===== *)
theory Keeper_Answers
  imports Keeper_Init
begin

section \<open>Answers\<close>

text \<open>
  \<open>process\<close> on the deltas that \<open>preprocess\<close> left for a request: it commits them, finds every node
  that it needs, and reports the error that preprocessing found.
\<close>

subsection \<open>One request\<close>

text \<open>The state after the deltas of a request are committed; \<open>rest\<close> are the pending deltas behind them.\<close>

definition commits :: "delta list \<Rightarrow> delta list \<Rightarrow> storage \<Rightarrow> storage \<Rightarrow> bool" where
  "commits ds rest s s' \<longleftrightarrow> sync rest s' \<and> committed_inv s' \<and> cview s' = abs_deltas ds (cview s)
     \<and> commit_frame s s' \<and> uview s' = uview s"

lemma commitsD:
  assumes "commits ds rest s s'"
  shows "sync rest s'" "committed_inv s'" "cview s' = abs_deltas ds (cview s)" "commit_frame s s'" "uview s' = uview s"
  using assms by (simp_all add: commits_def)

lemma commits_Nil: "sync rest s \<Longrightarrow> committed_inv s \<Longrightarrow> commits [] rest s s"
  by (simp add: commits_def)

lemma commits_append: "commits xs (ys @ rest) s s' \<Longrightarrow> commits ys rest s' s'' \<Longrightarrow> commits (xs @ ys) rest s s''"
  using commit_frame_trans by (auto simp: commits_def)

lemma plain_op_error: "plain_op op \<Longrightarrow> error_of op = ZOK \<and> \<not> failed_multi_op op"
  by (cases op) simp_all

lemma clean_commit:
  assumes "clean ds" "\<forall>x\<in>set tail. x = sub_end z"
  shows "stops (ds @ tail)" "first_error (ds @ tail) = ZOK" "\<forall>d\<in>set (ds @ tail). \<not> failed_multi_op (delta_operation d)"
proof -
  have tail: "stops tail \<and> first_error tail = ZOK" using assms(2) by (induction tail) auto
  show "stops (ds @ tail)" "first_error (ds @ tail) = ZOK"
    using assms(1) tail plain_op_error by (induction ds) (auto simp: clean_def)
  show "\<forall>d\<in>set (ds @ tail). \<not> failed_multi_op (delta_operation d)"
    using assms plain_op_error by (auto simp: clean_def)
qed

text \<open>The outcome of the commit: no error on clean deltas, otherwise the error of the request.\<close>

lemma served_commit:
  assumes srv: "served z r ds t" and tail: "\<forall>x\<in>set tail. x = sub_end z" and sync: "sync ((ds @ tail) @ rest) s" and inv: "committed_inv s"
  obtains s' where "commit ctx (ds @ tail) s = Inr (first_error ds, s')" "commits (ds @ tail) rest s s'"
    "first_error ds = ZOK \<longleftrightarrow> clean ds"
proof -
  have ends: "\<forall>x\<in>set tail. delta_path x = [] \<and> delta_operation x = SubDeltaEnd" using tail by auto
  have ok: "stops (ds @ tail)" "first_error (ds @ tail) = first_error ds" "\<forall>d\<in>set (ds @ tail). \<not> failed_multi_op (delta_operation d)"
    "first_error ds = ZOK \<longleftrightarrow> clean ds"
    using srv clean_commit [OF _ tail, of ds] clean_commit [of ds "[]" z] ends tail
    by (auto simp: served_def error_delta_def clean_def)
  obtain s' where "commit ctx (ds @ tail) s = Inr (first_error (ds @ tail), s')" "sync rest s'" "committed_inv s'" "uview s' = uview s"
    "cview s' = abs_deltas (ds @ tail) (cview s)" "commit_frame s s'"
    by (rule commit_sync [OF sync inv ok(1,3)])
  then show ?thesis using that ok(2,4) by (simp add: commits_def)
qed

lemma find_node_cview: "cview s p \<noteq> None \<longleftrightarrow> find_node s p \<noteq> None"
  by (simp add: cview_def)

subsection \<open>Reading the committed tree\<close>

definition answers :: "(zk_response \<times> storage) result \<Rightarrow> zk_error \<Rightarrow> storage \<Rightarrow> bool" where
  "answers R e s \<longleftrightarrow> (\<exists>resp. R = Inr (resp, s) \<and> resp_error resp = e)"

lemma resp_error_response_of [simp]: "resp_error (response_of e b) = e"
  by (simp add: response_of_def)

lemma list_children_total:
  assumes "\<forall>c\<in>set names. find_node s (fs_join p c) \<noteq> None"
  shows "\<exists>out. list_children ty p s names = Inr out"
  using assms by (induction names) (auto simp: Let_def)

lemma children_found:
  assumes inv: "committed_inv s" and n: "find_node s p = Some n" and c: "c \<in> set (mn_children n)"
  shows "find_node s (fs_join p c) \<noteq> None"
proof -
  have ex: "children_exact (find_node s)" using inv by (simp add: committed_inv_def)
  with n c obtain q where q: "c = getBaseNodeName q" "find_node s q \<noteq> None" "q \<noteq> [slash]" "parentOf q = p"
    unfolding children_exact_def by blast
  then have "canonical_path q" using ex by (auto simp: children_exact_def)
  then show ?thesis using fs_join_parent_base [of q] q by simp
qed

lemma bodies_answer:
  assumes inv: "committed_inv s"
  shows "answerable (GetRequest p w) (cview s) \<Longrightarrow> answers (get_body ctx False p s) ZOK s"
    "answerable (ExistsRequest p w) (cview s) \<Longrightarrow> answers (exists_body False p s) ZOK s"
    "answerable (ListRequest k p w) (cview s) \<Longrightarrow> p \<noteq> [] \<Longrightarrow> answers (list_body False k p s) ZOK s"
    "answerable (GetACLRequest p) (cview s) \<Longrightarrow> answers (get_acl_body False p s) ZOK s"
    "answerable (CheckRequest p v ne) (cview s) \<Longrightarrow> answers (check_body False p v ne s) ZOK s"
proof -
  have acls: "\<exists>a. convertNumber (acl_map_of s) (mn_acl_id n) = Inr a" if "find_node s p = Some n" for n
    using inv acls_resolve_counted that by (auto simp: committed_inv_def acls_resolve_def)
  show "answerable (GetRequest p w) (cview s) \<Longrightarrow> answers (get_body ctx False p s) ZOK s"
    by (auto simp: get_body_def answers_def read_node_def cview_def)
  show "answerable (ExistsRequest p w) (cview s) \<Longrightarrow> answers (exists_body False p s) ZOK s"
    by (auto simp: exists_body_def answers_def read_node_def cview_def)
  have names: "\<exists>out. list_children (list_type k) p s (mn_children n) = Inr out" if "find_node s p = Some n" for n
    by (rule list_children_total) (use children_found [OF inv that] in blast)
  show "answerable (ListRequest k p w) (cview s) \<Longrightarrow> p \<noteq> [] \<Longrightarrow> answers (list_body False k p s) ZOK s"
    using names by (fastforce simp: list_body_def answers_def read_node_def cview_def Let_def)
  show "answerable (GetACLRequest p) (cview s) \<Longrightarrow> answers (get_acl_body False p s) ZOK s"
    using acls by (fastforce simp: get_acl_body_def answers_def read_node_def cview_def)
  show "answerable (CheckRequest p v ne) (cview s) \<Longrightarrow> answers (check_body False p v ne s) ZOK s"
    by (auto simp: check_body_def answers_def cview_def abs_node_def version_ok_def Let_def split: option.splits if_splits)
qed

lemma stat_body_answers:
  assumes "cview s p \<noteq> None"
  shows "answers (read_node False p b msg (\<lambda>n. Inr (response_of ZOK (h n))) s) ZOK s"
  using assms by (auto simp: answers_def read_node_def cview_def)

lemma after_commit_answers:
  assumes "commit ctx ds s = Inr (e, s')" "e = ZOK \<Longrightarrow> answers (k s') ZOK s'"
  shows "answers (after_commit ctx ds b k s) e s'"
  using assms by (cases "e = ZOK") (simp_all add: after_commit_def, simp add: answers_def)

lemma commit_answers:
  assumes "commit ctx ds s = Inr (e, s')"
  shows "answers (res_bind (commit ctx ds s) (\<lambda>(e, s1). Inr (response_of e b, s1))) e s'"
  using assms by (simp add: answers_def)

lemma abs_deltas_ends: "\<forall>x\<in>set tail. x = sub_end z \<Longrightarrow> abs_deltas tail t = t"
  by (induction tail) auto

text \<open>\<open>process\<close> commits the deltas of a served request and answers with the error found before.\<close>

lemma process_served:
  assumes srv: "served z r ds (cview s)" and r: "simple_request r" and tail: "\<forall>x\<in>set tail. x = sub_end z"
    and sync: "sync ((ds @ tail) @ rest) s" and inv: "committed_inv s" and tree: "tree_inv (abs_deltas ds (cview s))"
  obtains s' where "answers (process ctx r (ds @ tail) s) (first_error ds) s'" "commits (ds @ tail) rest s s'"
proof -
  obtain s' where s': "commit ctx (ds @ tail) s = Inr (first_error ds, s')" "commits (ds @ tail) rest s s'"
    "first_error ds = ZOK \<longleftrightarrow> clean ds"
    by (rule served_commit [OF srv tail sync inv])
  note inv' = commitsD(2) [OF s'(2)]
  have cv: "cview s' = abs_deltas ds (cview s)" using commitsD(3) [OF s'(2)] abs_deltas_ends [OF tail] by simp
  have ans: "answerable r (cview s')" if "first_error ds = ZOK"
    using srv that s'(3) unfolding cv served_def by (auto simp: error_delta_def)
  have path: "p \<noteq> []" if "cview s' p \<noteq> None" for p
    using that tree_inv_node(4) [OF tree] unfolding cv by auto
  note after = after_commit_answers [OF s'(1)] and com = commit_answers [OF s'(1)] and body = bodies_answer [OF inv']
  have stat: "answers (stat_after_commit ctx p (ds @ tail) b msg s) (first_error ds) s'" if "first_error ds = ZOK \<Longrightarrow> cview s' p \<noteq> None" for p b msg
    unfolding stat_after_commit_def by (rule after) (rule stat_body_answers [OF that])
  show ?thesis
  proof (cases r)
    case (SyncRequest p)
    then have ds: "ds = []" using srv by (simp add: served_def)
    have "\<forall>x\<in>set tail. delta_path x = [] \<and> delta_operation x = SubDeltaEnd" using tail by auto
    then have "sync rest s" using sync_drop_ends [of tail rest s] sync ds by simp
    then have "commits (ds @ tail) rest s s" using inv ds abs_deltas_ends [OF tail] by (simp add: commits_def)
    then show ?thesis using that [of s] ds by (simp add: SyncRequest answers_def)
  next
    case (CreateRequest c)
    show ?thesis
    proof (cases "ds @ tail = []")
      case True
      then have "commits (ds @ tail) rest s s" using commits_Nil [of rest s] sync inv by simp
      then show ?thesis using that [of s] True by (simp add: CreateRequest process_create_def Let_def answers_def)
    next
      case False
      have "answers (process ctx r (ds @ tail) s) (first_error ds) s'"
        unfolding CreateRequest process.simps process_create_def Let_def if_not_P [OF False]
        by (rule after) (simp add: answers_def)
      then show ?thesis using that s'(2) by blast
    qed
  next
    case (GetRequest p w)
    have "answers (process ctx r (ds @ tail) s) (first_error ds) s'"
      unfolding GetRequest process.simps by (rule after) (rule body(1), use ans GetRequest in blast)
    then show ?thesis using that s'(2) by blast
  next
    case (ExistsRequest p w)
    have "answers (process ctx r (ds @ tail) s) (first_error ds) s'"
      unfolding ExistsRequest process.simps by (rule after) (rule body(2), use ans ExistsRequest in blast)
    then show ?thesis using that s'(2) by blast
  next
    case (ListRequest k p w)
    have "answers (process ctx r (ds @ tail) s) (first_error ds) s'"
      unfolding ListRequest process.simps
      by (rule after) (rule body(3), use ans ListRequest r path [of p] in auto)
    then show ?thesis using that s'(2) by blast
  next
    case (GetACLRequest p)
    have "answers (process ctx r (ds @ tail) s) (first_error ds) s'"
      unfolding GetACLRequest process.simps by (rule after) (rule body(4), use ans GetACLRequest in blast)
    then show ?thesis using that s'(2) by blast
  next
    case (CheckRequest p v ne)
    have "answers (process ctx r (ds @ tail) s) (first_error ds) s'"
      unfolding CheckRequest process.simps by (rule after) (rule body(5), use ans CheckRequest in blast)
    then show ?thesis using that s'(2) by blast
  next
    case (SetRequest p d v)
    have "answers (process ctx r (ds @ tail) s) (first_error ds) s'"
      unfolding SetRequest process.simps by (rule stat) (use ans SetRequest in simp)
    then show ?thesis using that s'(2) by blast
  next
    case (SetACLRequest p a v)
    have "answers (process ctx r (ds @ tail) s) (first_error ds) s'"
      unfolding SetACLRequest process.simps by (rule stat) (use ans SetACLRequest in simp)
    then show ?thesis using that s'(2) by blast
  qed (use r com that s'(2) in auto)
qed

subsection \<open>Multi\<close>

lemma served_no_end: "served z r ds t \<Longrightarrow> \<forall>d\<in>set ds. delta_operation d \<noteq> SubDeltaEnd"
  by (auto simp: served_def clean_def error_delta_def)

lemma extractSubdeltas_served:
  "\<forall>d\<in>set sub. delta_operation d \<noteq> SubDeltaEnd \<Longrightarrow> extractSubdeltas (sub @ sub_end z # rest) = (sub @ [sub_end z], rest)"
  by (induction sub) auto

lemma process_all_served:
  assumes "served_all z rs ds (cview s)" "\<forall>r\<in>set rs. simple_request r" "sync (ds @ rest) s" "committed_inv s"
  obtains resps s' where "process_all ctx rs ds s = Inr (resps, s')" "length resps = length rs" "commits ds rest s s'"
  using assms
proof (induction rs arbitrary: ds s thesis)
  case Nil
  then show ?case using commits_Nil by simp
next
  case (Cons r rs)
  from Cons.prems(2) obtain sub more where ds: "ds = sub @ sub_end z # more" "served z r sub (cview s)" "served_all z rs more (abs_deltas sub (cview s))"
    and tr: "tree_inv (abs_deltas sub (cview s))"
    by auto
  have ext: "extractSubdeltas ds = (sub @ [sub_end z], more)"
    unfolding ds(1) by (rule extractSubdeltas_served [OF served_no_end [OF ds(2)]])
  have sync: "sync ((sub @ [sub_end z]) @ more @ rest) s" using Cons.prems(4) ds(1) by simp
  have r: "simple_request r" "\<forall>r\<in>set rs. simple_request r" using Cons.prems(3) by simp_all
  obtain s1 where s1: "answers (process ctx r (sub @ [sub_end z]) s) (first_error sub) s1" "commits (sub @ [sub_end z]) (more @ rest) s s1"
    by (rule process_served [OF ds(2) r(1) _ sync Cons.prems(5) tr]) simp
  have cv: "cview s1 = abs_deltas sub (cview s)" using commitsD(3) [OF s1(2)] by simp
  obtain resps s2 where s2: "process_all ctx rs more s1 = Inr (resps, s2)" "length resps = length rs" "commits more rest s1 s2"
    by (rule Cons.IH [OF _ _ r(2) commitsD(1,2) [OF s1(2)]]) (use ds(3) cv in simp_all)
  from s1(1) obtain resp where resp: "process ctx r (sub @ [sub_end z]) s = Inr (resp, s1)" by (auto simp: answers_def)
  show ?case
    by (rule Cons.prems(1) [of "resp # resps" s2])
      (use ext resp s2 commits_append [OF s1(2) s2(3)] ds(1) in simp_all)
qed

lemma sync_drop_failed:
  assumes "sync (Delta [] z (FailedMultiDelta es e) # rest) s"
  shows "sync rest s"
proof -
  have "abs_delta (Delta [] z (FailedMultiDelta es e)) t = t" for t by (simp add: abs_delta_def)
  with assms show ?thesis by (simp add: sync_def auths_end_def)
qed

text \<open>\<open>process\<close> on the deltas of a whole transaction.\<close>

lemma process_answered:
  assumes ans: "answered z r ds (cview s)" and r: "request_ok r" and sync: "sync (ds @ rest) s" and inv: "committed_inv s"
    and tree: "tree_inv (abs_deltas ds (cview s))"
  obtains resp s' where "process ctx r ds s = Inr (resp, s')" "commits ds rest s s'"
proof -
  consider (simple) "simple_request r" "served z r ds (cview s)"
    | (failed) ty rs es e where "r = MultiRequest ty rs" "ds = [Delta [] z (FailedMultiDelta es e)]" "length es = length rs"
    | (multi) ty rs where "r = MultiRequest ty rs" "rs \<noteq> []" "\<forall>r\<in>set rs. simple_request r" "served_all z rs ds (cview s)"
    using ans r by (cases r) (auto simp: answered_def)
  then show ?thesis
  proof cases
    case simple
    have "\<forall>x\<in>set []. x = sub_end z" "sync ((ds @ []) @ rest) s" using sync by simp_all
    then obtain s' where "answers (process ctx r (ds @ []) s) (first_error ds) s'" "commits (ds @ []) rest s s'"
      by (rule process_served [OF simple(2,1) _ _ inv tree])
    then show ?thesis using that by (auto simp: answers_def)
  next
    case failed
    have "commits ds rest s s"
      using sync_drop_failed [of z es e rest s] sync inv failed(2) by (simp add: commits_def abs_delta_def)
    then show ?thesis
      using that failed by (simp add: is_failed_multi_def failed_responses_def Let_def)
  next
    case multi
    obtain sub more r0 where ds: "ds = sub @ sub_end z # more" "served z r0 sub (cview s)"
      using multi(2,4) by (cases rs) auto
    then have "ds \<noteq> []" "is_failed_multi (hd ds) = None"
      by (cases sub; auto simp: is_failed_multi_def served_def clean_def error_delta_def split: operation.splits)+
    moreover obtain resps s' where "process_all ctx rs ds s = Inr (resps, s')" "commits ds rest s s'"
      by (rule process_all_served [OF multi(4,3) sync inv])
    ultimately show ?thesis using that multi(1) by (simp add: Let_def)
  qed
qed

subsection \<open>Committing a transaction\<close>

text \<open>Changes of the watches, the digest and the sessions, which no tree depends on.\<close>

definition same_trees :: "storage \<Rightarrow> storage \<Rightarrow> bool" where
  "same_trees s s' \<longleftrightarrow> uncommitted s' = uncommitted s \<and> container s' = container s \<and> acl_map_of s' = acl_map_of s
     \<and> committed_ephemerals s' = committed_ephemerals s"

definition aside :: "storage \<Rightarrow> storage \<Rightarrow> bool" where
  "aside s s' \<longleftrightarrow> same_trees s s' \<and> committed_zxid s' = committed_zxid s
     \<and> uncommitted_transactions s' = uncommitted_transactions s \<and> initialized s' = initialized s"

lemma aside_trans [trans]: "aside s s' \<Longrightarrow> aside s' s'' \<Longrightarrow> aside s s''"
  by (simp add: aside_def same_trees_def)

lemma same_trees_views:
  assumes "same_trees s s'"
  shows "cview s' = cview s" "uview s' = uview s" "sync ds s' = sync ds s" "committed_inv s' = committed_inv s"
proof -
  have f: "find_node s' = find_node s" "find_entry s' = find_entry s"
    using assms by (simp_all add: same_trees_def find_node_def find_entry_def fun_eq_iff)
  show v: "cview s' = cview s" "uview s' = uview s"
    using assms f by (simp_all add: same_trees_def cview_def uview_def fun_eq_iff cong: option.case_cong)
  show "sync ds s' = sync ds s"
    using assms f v by (simp add: sync_def auths_end_def cache_inv_def tracking_ok_def entry_ok_def applied_to_def acl_loaded_def same_trees_def cong: option.case_cong)
  show "committed_inv s' = committed_inv s"
    by (rule committed_inv_cong) (use assms f in \<open>simp_all add: same_trees_def\<close>)
qed

lemmas aside_views = same_trees_views [OF conjunct1 [OF aside_def [THEN iffD1]]]

lemma touch_session_aside:
  assumes "queue_wf (session_expiry_queue_of s)"
  obtains s' where "touch_session now sid s = Inr s'" "aside s s'" "queue_wf (session_expiry_queue_of s')"
    "watch_tables_of s' = watch_tables_of s"
proof -
  obtain q where "addNewSessionOrUpdate (session_expiry_queue_of s) now sid
      (case session_and_timeout s sid of Some t \<Rightarrow> t | None \<Rightarrow> 0) = Inr q" "queue_wf q"
    by (rule addNewSessionOrUpdate_spec [OF assms])
  then show ?thesis using that by (simp add: touch_session_def Let_def aside_def same_trees_def watch_tables_of_def)
qed

lemma watches_aside:
  "aside s (register_watch r e sid s)" "session_expiry_queue_of (register_watch r e sid s) = session_expiry_queue_of s"
  "aside s (set_watch_tables t s)" "session_expiry_queue_of (set_watch_tables t s) = session_expiry_queue_of s"
  by (simp_all add: aside_def same_trees_def register_watch_def add_watch_def set_watch_tables_def Let_def)

text \<open>The part of \<open>process_normal\<close> after the request has been processed.\<close>

lemma request_ok_fires:
  assumes "request_ok r" "tables_agree t"
  shows "fires (processWatches r ds t)"
proof (cases "\<exists>ty rs. r = MultiRequest ty rs")
  case True
  have "parent_known q" if "simple_request q" for q using that by (cases q) (simp_all add: create_path_slash)
  with True assms show ?thesis using processWatches_multi_agree [OF assms(2)] by auto
next
  case False
  then have "parent_known r" using assms(1) by (cases r) (simp_all add: create_path_slash)
  then show ?thesis by (rule processWatches_agree [OF assms(2)])
qed

lemma process_normal_spec:
  assumes "process ctx r ds s = Inr (resp, s1)" and r: "request_ok r" and ok: "watches_ok s1"
  obtains fired s' where "process_normal ctx r xid sid z g check_acl False ds s
      = Inr (fired @ [\<lparr>rfs_session_id = sid, rfs_response = set_ids xid z resp\<rparr>], s')" "aside s1 s'"
    "session_expiry_queue_of s' = session_expiry_queue_of s1" "watches_ok s'"
proof -
  define s2 where "s2 = (if kc_digest_enabled_on_commit ctx then s1 else s1\<lparr>nodes_digest := g\<rparr>)"
  define s3 where "s3 = register_watch r (resp_error resp) sid s2"
  have ok3: "watches_ok s3"
    unfolding s3_def by (rule register_watch_ok) (use ok in \<open>simp add: s2_def watch_tables_of_def\<close>)
  obtain fired t where w: "processWatches r ds (watch_tables_of s3) = Inr (fired, t)" "tables_agree t"
    by (rule firesE [OF request_ok_fires [OF r ok3]])
  define s4 where "s4 = (set_watch_tables t s3)\<lparr>total_watches_count := total_watches_count (set_watch_tables t s3) - of_nat (length fired)\<rparr>"
  have 2: "aside s1 s2" "session_expiry_queue_of s2 = session_expiry_queue_of s1" by (simp_all add: s2_def aside_def same_trees_def)
  have 3: "aside s1 s3" "session_expiry_queue_of s3 = session_expiry_queue_of s1"
    unfolding s3_def using aside_trans [OF 2(1) watches_aside(1)] watches_aside(2) 2(2) by simp_all
  have "aside (set_watch_tables t s3) s4" by (simp add: s4_def aside_def same_trees_def)
  then have 4: "aside s1 s4" "session_expiry_queue_of s4 = session_expiry_queue_of s1"
    using aside_trans [OF aside_trans [OF 3(1) watches_aside(3)]] watches_aside(4) [of t s3] 3(2) by (simp_all add: s4_def)
  have run: "process_normal ctx r xid sid z g check_acl False ds s
      = Inr ((if resp_error resp = ZOK then fired else []) @ [\<lparr>rfs_session_id = sid, rfs_response = set_ids xid z resp\<rparr>],
          if resp_error resp = ZOK then s4 else s3)"
    using assms(1) w(1) [unfolded s3_def]
    by (cases "resp_error resp = ZOK") (simp_all add: process_normal_def Let_def s2_def [symmetric] s3_def s4_def)
  have "watch_tables_of s4 = watch_tables_of (set_watch_tables t s3)" by (simp add: s4_def watch_tables_of_def)
  then have ok4: "watches_ok s4" using w(2) by (simp add: set_watch_tables_ok)
  show ?thesis
    by (rule that [OF run]) (use 3 4 ok3 ok4 in simp_all)
qed

lemma takeWhile_prefix:
  assumes "\<forall>x\<in>set xs. P x" "\<forall>x\<in>set ys. \<not> P x"
  shows "takeWhile P (xs @ ys) = xs" "dropWhile P (xs @ ys) = ys"
  using assms by (cases ys; simp add: takeWhile_append dropWhile_append)+

lemma process_transaction:
  assumes ans: "answered z r ds (cview s)" "request_ok r" "sync (ds @ rest) s" "committed_inv s" "tree_inv (abs_deltas ds (cview s))"
    and watch: "watches_ok s"
  obtains results s' resp where "(if r = CloseRequest then process_close ctx xid sid z g ds s
      else if r = HeartbeatRequest
      then res_bind (process ctx r ds s) (\<lambda>(response, s3). Inr ([\<lparr>rfs_session_id = sid, rfs_response = set_ids xid z response\<rparr>], s3))
      else process_normal ctx r xid sid z g check_acl False ds s) = Inr (results @ [\<lparr>rfs_session_id = sid, rfs_response = set_ids xid z resp\<rparr>], s')"
    "sync rest s'" "committed_inv s'" "cview s' = abs_deltas ds (cview s)" "uview s' = uview s"
    "us_deltas (uncommitted s') = us_deltas (uncommitted s)" "committed_zxid s' = committed_zxid s"
    "uncommitted_transactions s' = uncommitted_transactions s" "initialized s' = initialized s"
    "session_expiry_queue_of s' = session_expiry_queue_of s" "watches_ok s'"
proof -
  obtain resp s1 where s1: "process ctx r ds s = Inr (resp, s1)" "commits ds rest s s1"
    by (rule process_answered [OF ans])
  note c = commitsD [OF s1(2)] and f = commit_frameD [OF commitsD(4) [OF s1(2)]]
  have nc: "r \<noteq> CloseRequest" using ans(2) by auto
  have w1: "watches_ok s1" using watch f(12-14) by (simp add: watch_tables_of_def)
  obtain fired s2 where s2: "process_normal ctx r xid sid z g check_acl False ds s
      = Inr (fired @ [\<lparr>rfs_session_id = sid, rfs_response = set_ids xid z resp\<rparr>], s2)" "aside s1 s2"
    "session_expiry_queue_of s2 = session_expiry_queue_of s1" "watches_ok s2"
    by (rule process_normal_spec [OF s1(1) ans(2) w1])
  show ?thesis
  proof (cases "r = HeartbeatRequest")
    case True
    show ?thesis
      by (rule that [of "[]" resp s1]) (use True s1(1) c f w1 in simp_all)
  next
    case False
    show ?thesis
      by (rule that [of fired resp s2])
        (use False nc s2 c f w1 aside_views [OF s2(2)] in \<open>simp_all add: aside_def same_trees_def\<close>)
  qed
qed

text \<open>What is left of a session after its end: nothing.\<close>

definition session_gone :: "int \<Rightarrow> storage \<Rightarrow> bool" where
  "session_gone sid s \<longleftrightarrow> session_and_timeout s sid = None \<and> session_to_expiration_time (session_expiry_queue_of s) sid = None
     \<and> committed_session_and_auth s sid = None \<and> sessions_and_watchers s sid = None
     \<and> (\<forall>p. sid \<notin> set (bucket (watches s) p) \<and> sid \<notin> set (bucket (list_watches s) p))"

text \<open>\<open>Close\<close> fires the watches of the nodes that it removes and forgets the watches of the session.\<close>

lemma ok_deltas_slash: "ok_deltas ds t \<Longrightarrow> \<forall>d\<in>set ds. is_remove_delta d \<longrightarrow> slash \<in> set (delta_path d)"
proof (induction ds arbitrary: t)
  case (Cons d ds)
  have "slash \<in> set (delta_path d)" if "is_remove_delta d"
    using Cons.prems that parent_neq_slash
    by (cases "delta_operation d") (auto simp: is_remove_delta_def ok_delta_def)
  with Cons.IH [of "abs_delta d t"] Cons.prems show ?case by simp
qed simp

lemma process_close_spec:
  assumes ans: "answered z CloseRequest ds (cview s)" "sync (ds @ rest) s" "committed_inv s" "watches_ok s" "queue_wf (session_expiry_queue_of s)"
  obtains fired s' where "process_close ctx xid sid z g ds s
      = Inr (fired @ [\<lparr>rfs_session_id = sid, rfs_response = set_ids xid z (Response ZOK 0 0 CloseBody)\<rparr>], s')"
    "sync rest s'" "committed_inv s'" "cview s' = abs_deltas ds (cview s)" "uview s' = uview s"
    "us_deltas (uncommitted s') = us_deltas (uncommitted s)" "committed_zxid s' = committed_zxid s"
    "uncommitted_transactions s' = uncommitted_transactions s" "initialized s' = initialized s"
    "queue_wf (session_expiry_queue_of s')" "watches_ok s'" "session_gone sid s'"
proof -
  have ok: "ok_deltas ds (cview s)" using syncD(3) [OF ans(2)] by (simp add: ok_deltas_append)
  obtain fired t where w: "removed_watches ds (watch_tables_of s) = Inr (fired, t)" "tables_agree t"
    by (rule firesE [OF removed_watches_agree [OF ans(4) ok_deltas_slash [OF ok]]])
  define s1 where "s1 = set_watch_tables t s"
  have 1: "aside s s1" "session_expiry_queue_of s1 = session_expiry_queue_of s" unfolding s1_def by (rule watches_aside)+
  note v1 = aside_views [OF 1(1)]
  have ok1: "watches_ok s1" using w(2) by (simp add: s1_def set_watch_tables_ok)
  have srv: "served z CloseRequest ds (cview s1)" and sync1: "sync ((ds @ []) @ rest) s1" and inv1: "committed_inv s1"
    using ans(1-3) v1 by (simp_all add: answered_def)
  obtain s2 where s2: "commit ctx (ds @ []) s1 = Inr (first_error ds, s2)" "commits (ds @ []) rest s1 s2"
    by (rule served_commit [OF srv _ sync1 inv1, where ctx = ctx]) simp_all
  note c = commitsD [OF s2(2)] and f = commit_frameD [OF commitsD(4) [OF s2(2)]]
  define s3 where "s3 = (if kc_digest_enabled_on_commit ctx then s2 else s2\<lparr>nodes_digest := g\<rparr>)"
  define s4 where "s4 = s3\<lparr>committed_session_and_auth := (committed_session_and_auth s3)(sid := None)\<rparr>"
  have 4: "aside s2 s4" "session_expiry_queue_of s4 = session_expiry_queue_of s2" "watch_tables_of s4 = watch_tables_of s2"
    by (simp_all add: s4_def s3_def aside_def same_trees_def watch_tables_of_def)
  have "watches_ok s4" using ok1 f(12-14) 4(3) by (simp add: watch_tables_of_def)
  then obtain wa l m k where s5: "clearDeadWatches sid s4 = Inr (s4\<lparr>watches := wa, list_watches := l, sessions_and_watchers := m, total_watches_count := k\<rparr>)"
    "watches_ok (s4\<lparr>watches := wa, list_watches := l, sessions_and_watchers := m, total_watches_count := k\<rparr>)"
    "m sid = None" "\<And>p. sid \<notin> set (bucket wa p) \<and> sid \<notin> set (bucket l p)"
    by (rule clearDeadWatches_ok) (rule that)
  define s5 where "s5 = s4\<lparr>watches := wa, list_watches := l, sessions_and_watchers := m, total_watches_count := k\<rparr>"
  have q5: "session_expiry_queue_of s5 = session_expiry_queue_of s" using 1(2) 4(2) f(11) by (simp add: s5_def)
  obtain q where q: "remove_session (session_expiry_queue_of s5) sid = Inr (session_to_expiration_time (session_expiry_queue_of s5) sid \<noteq> None, q)" "queue_wf q"
    "session_to_expiration_time q = (session_to_expiration_time (session_expiry_queue_of s5))(sid := None)"
    by (rule remove_session_spec [of "session_expiry_queue_of s5" sid]) (use ans(5) q5 in simp_all)
  define s' where "s' = s5\<lparr>session_expiry_queue_of := q, session_and_timeout := (session_and_timeout s5)(sid := None)\<rparr>"
  have "aside s4 s'" by (simp add: s'_def s5_def aside_def same_trees_def)
  with 4(1) have a: "aside s2 s'" by (rule aside_trans)
  note v' = aside_views [OF a]
  have run: "process_close ctx xid sid z g ds s
      = Inr (fired @ [\<lparr>rfs_session_id = sid, rfs_response = set_ids xid z (Response ZOK 0 0 CloseBody)\<rparr>], s')"
    using w(1) s2(1) s5(1) [folded s5_def] q(1)
    by (simp add: process_close_def s1_def [symmetric] Let_def s3_def [symmetric] s4_def [symmetric] s'_def set_ids_def)
  have "watch_tables_of s' = watch_tables_of s5" by (simp add: s'_def watch_tables_of_def)
  then have "watches_ok s'" using s5(2) by (simp add: s5_def)
  moreover have "session_gone sid s'"
    using s5(3,4) q(3) by (simp add: session_gone_def s'_def s5_def s4_def)
  ultimately show ?thesis
    by (rule that [OF run, rotated -2])
      (use c f v' v1 a 1(1) q(2) in \<open>simp_all add: s'_def aside_def same_trees_def\<close>)
qed

text \<open>\<open>processRequest\<close> on the oldest pending transaction never fails and commits its deltas.\<close>

lemma processRequest_keeps:
  assumes inv: "keeper_inv (r # rs) s" and r: "request_logged r" and z: "z = ti_zxid (hd (uncommitted_transactions s))"
  obtains results resp s' where "processRequest ctx now r xid sid (Some z) check_acl False s
      = Inr (results @ [\<lparr>rfs_session_id = sid, rfs_response = set_ids xid z resp\<rparr>], s')"
    "keeper_inv rs s'" "uview s' = uview s" "committed_zxid s' = z" "r = CloseRequest \<longrightarrow> session_gone sid s'"
    "\<exists>ds. us_deltas (uncommitted s) = ds @ us_deltas (uncommitted s') \<and> step_ok z ds (cview s) \<and> answered z r ds (cview s) \<and> cview s' = abs_deltas ds (cview s)"
proof -
  obtain dss0 where dss0: "us_deltas (uncommitted s) = concat dss0" "groups (uncommitted_transactions s) (r # rs) dss0 (cview s)"
    using inv unfolding keeper_inv_def by blast
  obtain tx txs where ts: "uncommitted_transactions s = tx # txs" using dss0(2) by (cases "uncommitted_transactions s") auto
  from dss0(2) [unfolded ts] obtain ds dss where g: "dss0 = ds # dss" "step_ok (ti_zxid tx) ds (cview s)"
    "answered (ti_zxid tx) r ds (cview s)" "groups txs rs dss (abs_deltas ds (cview s))"
    by (rule groups_Cons) auto
  have zt: "z = ti_zxid tx" using z ts by simp
  have sorted: "committed_zxid s < z" "\<forall>t\<in>set txs. z < ti_zxid t" "sorted_wrt (<) (map ti_zxid txs)"
    using keeper_invD(5) [OF inv] by (simp_all add: ts zt)
  have "\<forall>d\<in>set ds. delta_zxid d = z" "\<forall>d\<in>set (concat dss). delta_zxid d \<noteq> z"
    using step_okD(1) [OF g(2)] zt groups_zxids [OF g(4)] sorted(2) by fastforce+
  note tw = takeWhile_prefix [OF this]
  define s1 where "s1 = s\<lparr>uncommitted := (uncommitted s)\<lparr>us_deltas := concat dss\<rparr>\<rparr>"
  have take: "take_deltas z s = (ds, s1)"
    using tw dss0(1) g(1) by (simp add: take_deltas_def s1_def)
  have sync1: "sync (ds @ concat dss) s1" using keeper_invD(2) [OF inv] dss0(1) g(1) by (simp add: s1_def)
  have v1: "cview s1 = cview s" "uview s1 = uview s"
    by (simp_all add: s1_def cview_def uview_def find_node_def find_entry_def fun_eq_iff cong: option.case_cong)
  have com1: "committed_inv s1"
    using keeper_invD(3) [OF inv] by (subst committed_inv_cong [of _ s]) (simp_all add: s1_def find_node_def fun_eq_iff)
  obtain s2 where s2: "touch_session now sid s1 = Inr s2" "aside s1 s2" "queue_wf (session_expiry_queue_of s2)"
    "watch_tables_of s2 = watch_tables_of s1"
    by (rule touch_session_aside [of s1]) (use keeper_invD(4) [OF inv] in \<open>simp_all add: s1_def\<close>)
  note v2 = aside_views [OF s2(2)]
  let ?g = "kd_value (ti_nodes_digest (hd (uncommitted_transactions s)))"
  have pre: "answered z r ds (cview s2)" "sync (ds @ concat dss) s2" "committed_inv s2" "tree_inv (abs_deltas ds (cview s2))"
    using g(3) step_okD(4) [OF g(2)] zt sync1 com1 v1 v2 by simp_all
  have w2: "watches_ok s2" using keeper_invD(8) [OF inv] s2(4) by (simp add: s1_def)
  obtain results s3 resp where s3: "(if r = CloseRequest then process_close ctx xid sid z ?g ds s2
      else if r = HeartbeatRequest
      then res_bind (process ctx r ds s2) (\<lambda>(response, s3). Inr ([\<lparr>rfs_session_id = sid, rfs_response = set_ids xid z response\<rparr>], s3))
      else process_normal ctx r xid sid z ?g check_acl False ds s2) = Inr (results @ [\<lparr>rfs_session_id = sid, rfs_response = set_ids xid z resp\<rparr>], s3)"
    "sync (concat dss) s3" "committed_inv s3" "cview s3 = abs_deltas ds (cview s2)" "uview s3 = uview s2"
    "us_deltas (uncommitted s3) = us_deltas (uncommitted s2)" "committed_zxid s3 = committed_zxid s2"
    "uncommitted_transactions s3 = uncommitted_transactions s2" "initialized s3 = initialized s2"
    "queue_wf (session_expiry_queue_of s3)" "watches_ok s3" "r = CloseRequest \<longrightarrow> session_gone sid s3"
  proof (cases "r = CloseRequest")
    case True
    show ?thesis
      by (rule process_close_spec [OF pre(1) [unfolded True] pre(2,3) w2 s2(3), where ctx = ctx and xid = xid and sid = sid and g = ?g])
        (use that True in simp)
  next
    case False
    then have "request_ok r" using r by (simp add: request_logged_def)
    then show ?thesis
      by (rule process_transaction [OF pre(1) _ pre(2-4) w2, where ctx = ctx and xid = xid and sid = sid and g = ?g and check_acl = check_acl])
        (rule that; (assumption | simp add: s2(3) False))
  qed
  have f3: "us_deltas (uncommitted s3) = concat dss" "committed_zxid s3 = committed_zxid s" "uncommitted_transactions s3 = tx # txs"
    "initialized s3" "queue_wf (session_expiry_queue_of s3)"
    using s3(6-10) s2(2,3) keeper_invD(1) [OF inv] ts by (simp_all add: aside_def same_trees_def s1_def)
  define s' where "s' = s3\<lparr>uncommitted_transactions := txs, committed_zxid := z\<rparr>"
  have "same_trees s3 s'" by (simp add: s'_def same_trees_def)
  note v' = same_trees_views [OF this]
  have cv: "cview s' = abs_deltas ds (cview s)" using v' s3(4) v2 v1 by simp
  have run: "processRequest ctx now r xid sid (Some z) check_acl False s
      = Inr (results @ [\<lparr>rfs_session_id = sid, rfs_response = set_ids xid z resp\<rparr>], s')"
    unfolding processRequest_def
    using keeper_invD(1) [OF inv] f3(2,3) sorted(1) take s2(1) s3(1) [unfolded ts list.sel]
    by (simp add: ts s'_def zt [symmetric] split del: if_split)
  have "dated z (cview s')"
    using dated_moves [OF keeper_invD(7) [OF inv] less_imp_le [OF sorted(1)]] step_okD(5) [OF g(2)] zt cv by simp
  then have "keeper_inv rs s'"
    unfolding keeper_inv_def
    using f3 s3(2,3,11) v' g(4) cv sorted keeper_invD(6) [OF inv] by (intro conjI exI [of _ dss]) (simp_all add: s'_def watch_tables_of_def)
  moreover have "uview s' = uview s" using v' s3(5) v2 v1 by simp
  moreover have "us_deltas (uncommitted s) = ds @ us_deltas (uncommitted s')" using dss0(1) g(1) f3(1) by (simp add: s'_def)
  moreover have "r = CloseRequest \<longrightarrow> session_gone sid s'" using s3(12) by (simp add: s'_def session_gone_def)
  ultimately show ?thesis
    using that [OF run] g(2,3) zt cv by (auto simp: s'_def)
qed

end
