(* ===== verification/Keeper_Local.thy ===== *)
theory Keeper_Local
  imports Keeper_Answers
begin

section \<open>Local reads\<close>

text \<open>
  Reads that a server answers without the log. The specification gives the answer from the committed tree; for a list
  of children it gives the set of names, because their order is not specified.
\<close>

definition reported :: "node_stats \<Rightarrow> stat" where
  "reported st = setResponseStat (default_node\<lparr>mn_stats := st\<rparr>)"

lemma setResponseStat_reported: "setResponseStat n = reported (mn_stats n)"
  by (simp add: reported_def setResponseStat_def)

fun listed :: "list_request_type \<Rightarrow> anode \<Rightarrow> bool" where
  "listed LIST_ALL a \<longleftrightarrow> True"
| "listed EPHEMERAL_ONLY a \<longleftrightarrow> isEphemeral (an_stats a)"
| "listed PERSISTENT_ONLY a \<longleftrightarrow> \<not> isEphemeral (an_stats a)"
| "listed (OTHER_LIST_TYPE k) a \<longleftrightarrow> False"

definition answer_node :: "tree \<Rightarrow> path \<Rightarrow> response_body \<Rightarrow> (anode \<Rightarrow> response_body) \<Rightarrow> zk_response" where
  "answer_node t p missing body = (case t p of None \<Rightarrow> response_of ZNONODE missing | Some a \<Rightarrow> response_of ZOK (body a))"

fun local_answer :: "keeper_context \<Rightarrow> tree \<Rightarrow> zk_request \<Rightarrow> zk_response \<Rightarrow> bool" where
  "local_answer ctx t (GetRequest p w) r \<longleftrightarrow>
     r = (if p = keeper_config_path then response_of ZOK (GetBody (kc_cluster_config ctx) default_stat)
          else answer_node t p (GetBody [] default_stat) (\<lambda>a. GetBody (an_data a) (reported (an_stats a))))"
| "local_answer ctx t (ExistsRequest p w) r \<longleftrightarrow>
     r = answer_node t p (ExistsBody default_stat) (\<lambda>a. ExistsBody (reported (an_stats a)))"
| "local_answer ctx t (GetACLRequest p) r \<longleftrightarrow>
     r = answer_node t p (GetACLBody [] default_stat) (\<lambda>a. GetACLBody (an_acls a) (reported (an_stats a)))"
| "local_answer ctx t (CheckRequest p v ne) r \<longleftrightarrow>
     r = response_of (case t p of
           None \<Rightarrow> if ne then ZOK else ZNONODE
         | Some a \<Rightarrow> if version_ok v (ns_version (an_stats a)) then (if ne then ZNODEEXISTS else ZOK)
                     else (if ne then ZOK else ZBADVERSION))
       (if ne then CheckNotExistsBody else CheckBody)"
| "local_answer ctx t (ListRequest k p w) r \<longleftrightarrow>
     (\<exists>names. r = answer_node t p (if k = SimpleList then SimpleListBody [] default_stat else ListBody [] default_stat)
          (\<lambda>a. if k = SimpleList then SimpleListBody names (reported (an_stats a)) else ListBody names (reported (an_stats a)))
        \<and> set names = getBaseNodeName ` {q \<in> kids t p. \<exists>a. t q = Some a \<and> listed (list_type k) a})"
| "local_answer ctx t _ r \<longleftrightarrow> False"

fun local_read :: "zk_request \<Rightarrow> bool" where
  "local_read (GetRequest p w) = True"
| "local_read (ExistsRequest p w) = True"
| "local_read (GetACLRequest p) = True"
| "local_read (CheckRequest p v ne) = True"
| "local_read (ListRequest k p w) = True"
| "local_read _ = False"

subsection \<open>The children of a node\<close>

lemma list_children_filter:
  assumes "\<forall>c\<in>set names. find_node s (fs_join p c) \<noteq> None"
  shows "list_children ty p s names = Inr (filter (\<lambda>c. \<exists>a. cview s (fs_join p c) = Some a \<and> listed ty a) names)"
  using assms
proof (induction names)
  case (Cons c names)
  obtain n where n: "find_node s (fs_join p c) = Some n" using Cons.prems by auto
  have "cview s (fs_join p c) = Some (abs_node (acls_of (acl_map_of s) (mn_acl_id n)) n)" using n by (simp add: cview_def)
  then show ?case using Cons n by (cases ty) (simp_all add: abs_node_def)
qed simp

lemma listed_names:
  assumes inv: "committed_inv s" and n: "find_node s p = Some n"
  obtains names where "list_children ty p s (mn_children n) = Inr names"
    "set names = getBaseNodeName ` {q \<in> kids (cview s) p. \<exists>a. cview s q = Some a \<and> listed ty a}"
proof -
  have ex: "children_exact (find_node s)" using inv by (simp add: committed_inv_def)
  have kids: "kids (cview s) p = {q. find_node s q \<noteq> None \<and> q \<noteq> root \<and> parentOf q = p}"
    unfolding kids_def find_node_cview ..
  have set: "set (mn_children n) = getBaseNodeName ` kids (cview s) p"
    using ex n unfolding kids by (simp add: children_exact_def)
  have join: "fs_join p (getBaseNodeName q) = q" if "q \<in> kids (cview s) p" for q
  proof -
    have q: "find_node s q \<noteq> None" "q \<noteq> root" "parentOf q = p" using that unfolding kids by simp_all
    then have "canonical_path q" using ex by (auto simp: children_exact_def)
    then show ?thesis using fs_join_parent_base [of q] q by simp
  qed
  let ?names = "filter (\<lambda>c. \<exists>a. cview s (fs_join p c) = Some a \<and> listed ty a) (mn_children n)"
  have "list_children ty p s (mn_children n) = Inr ?names"
    by (rule list_children_filter) (use children_found [OF inv n] in blast)
  moreover have "set ?names = getBaseNodeName ` {q \<in> kids (cview s) p. \<exists>a. cview s q = Some a \<and> listed ty a}"
  proof -
    have "set ?names = {c \<in> getBaseNodeName ` kids (cview s) p. \<exists>a. cview s (fs_join p c) = Some a \<and> listed ty a}" by (simp add: set)
    also have "\<dots> = getBaseNodeName ` {q \<in> kids (cview s) p. \<exists>a. cview s (fs_join p (getBaseNodeName q)) = Some a \<and> listed ty a}" by blast
    also have "{q \<in> kids (cview s) p. \<exists>a. cview s (fs_join p (getBaseNodeName q)) = Some a \<and> listed ty a}
        = {q \<in> kids (cview s) p. \<exists>a. cview s q = Some a \<and> listed ty a}" by (rule Collect_cong) (use join in metis)
    finally show ?thesis .
  qed
  ultimately show ?thesis by (rule that)
qed

lemma finite_dom_cview: "finite (dom (cview s))"
proof -
  have "dom (cview s) = dom (map_of (container s))" by (auto simp: cview_def find_node_def)
  then show ?thesis by (simp add: finite_dom_map_of)
qed

subsection \<open>The answers\<close>

lemma processLocal_answers:
  assumes inv: "committed_inv s" and r: "local_read r"
  shows "\<exists>resp. processLocal ctx r s = Inr (resp, s) \<and> local_answer ctx (cview s) r resp"
proof (cases r)
  case (GetRequest p w)
  then show ?thesis
    by (cases "find_node s p") (auto simp: get_body_def read_node_def answer_node_def cview_def abs_node_def setResponseStat_reported)
next
  case (ExistsRequest p w)
  then show ?thesis
    by (cases "find_node s p") (auto simp: exists_body_def read_node_def answer_node_def cview_def abs_node_def setResponseStat_reported)
next
  case (GetACLRequest p)
  show ?thesis
  proof (cases "find_node s p")
    case None
    then show ?thesis using GetACLRequest by (simp add: get_acl_body_def read_node_def answer_node_def cview_def)
  next
    case (Some n)
    obtain a where "convertNumber (acl_map_of s) (mn_acl_id n) = Inr a" by (rule counted_node [OF inv Some])
    then show ?thesis
      using GetACLRequest Some
      by (simp add: get_acl_body_def read_node_def answer_node_def cview_def abs_node_def acls_of_def setResponseStat_reported)
  qed
next
  case (CheckRequest p v ne)
  then show ?thesis
    by (cases "find_node s p") (auto simp: check_body_def cview_def abs_node_def version_ok_def Let_def)
next
  case (ListRequest k p w)
  show ?thesis
  proof (cases "find_node s p")
    case None
    then have none: "cview s p = None" by (simp add: cview_def)
    have "finite (getBaseNodeName ` {q \<in> kids (cview s) p. \<exists>a. cview s q = Some a \<and> listed (list_type k) a})"
      using finite_kids [OF finite_dom_cview, of s p] by simp
    from finite_list [OF this] obtain names where "set names = getBaseNodeName ` {q \<in> kids (cview s) p. \<exists>a. cview s q = Some a \<and> listed (list_type k) a}" ..
    then show ?thesis
      using ListRequest None none by (auto simp: list_body_def read_node_def answer_node_def Let_def)
  next
    case (Some n)
    have "p \<noteq> []" using inv Some by (auto simp: committed_inv_def children_exact_def canonical_path_def)
    moreover obtain names where "list_children (list_type k) p s (mn_children n) = Inr names"
      "set names = getBaseNodeName ` {q \<in> kids (cview s) p. \<exists>a. cview s q = Some a \<and> listed (list_type k) a}"
      by (rule listed_names [OF inv Some])
    moreover have "cview s p = Some (abs_node (acls_of (acl_map_of s) (mn_acl_id n)) n)" using Some by (simp add: cview_def)
    ultimately show ?thesis
      using ListRequest Some unfolding ListRequest local_answer.simps
      by (intro exI conjI [rotated]) (assumption, simp_all add: list_body_def read_node_def answer_node_def abs_node_def Let_def setResponseStat_reported)
  qed
qed (use r in simp_all)

lemma processLocal_all_answers:
  assumes "committed_inv s" "list_all local_read rs"
  shows "\<exists>resps. processLocal_all ctx rs s = Inr (resps, s) \<and> list_all2 (local_answer ctx (cview s)) rs resps"
  using assms(2)
proof (induction rs)
  case (Cons r rs)
  obtain resp where "processLocal ctx r s = Inr (resp, s)" "local_answer ctx (cview s) r resp"
    using processLocal_answers [OF assms(1), of r ctx] Cons.prems by auto
  with Cons show ?case by auto
qed simp

subsection \<open>Access checks outside the log\<close>

text \<open>A check outside the log looks at the committed nodes and may create an empty list of authentications.\<close>

definition touches :: "storage \<Rightarrow> storage \<Rightarrow> bool" where
  "touches s s' \<longleftrightarrow> (\<exists>m. s' = s\<lparr>committed_session_and_auth := m\<rparr>)"

lemma touches_refl [simp]: "touches s s"
  unfolding touches_def by (rule exI [of _ "committed_session_and_auth s"]) simp

lemma touches_trans: "touches s s1 \<Longrightarrow> touches s1 s2 \<Longrightarrow> touches s s2"
  by (auto simp: touches_def)

lemma hasACL_local: "touches s (snd (hasACL sid True P s))"
  by (auto simp: hasACL_def touch_committed_auth_def touches_def Let_def)

lemma checkACL_loop_local: "touches s (snd (checkACL_loop acls perm sid True s))"
proof (induction acls arbitrary: s)
  case (Cons a acls)
  let ?h = "hasACL sid True (\<lambda>au. au_scheme au = acl_scheme a \<and> au_ident au = acl_ident a) s"
  have "touches s (snd (checkACL_loop acls perm sid True (snd ?h)))"
    using touches_trans [OF hasACL_local Cons.IH] .
  then show ?case using Cons.IH hasACL_local by (simp add: case_prod_unfold Let_def)
qed simp

lemma checkACL_local:
  assumes "committed_inv s"
  shows "\<exists>b s'. checkACL p perm sid True s = Inr (b, s') \<and> touches s s'"
proof -
  obtain acls where acls: "getNodeACLs p True s = Inr (acls, s)"
  proof (cases "find_node s p")
    case (Some n)
    obtain a where "convertNumber (acl_map_of s) (mn_acl_id n) = Inr a" by (rule counted_node [OF assms Some])
    then show ?thesis using that Some by (simp add: getNodeACLs_def)
  qed (use that in \<open>simp add: getNodeACLs_def\<close>)
  obtain b s1 where h: "hasACL sid True (\<lambda>au. au_scheme au = ''super'') s = (b, s1)" by fastforce
  have t: "touches s s1" using hasACL_local [of s sid] h by (metis snd_conv)
  obtain c s2 where l: "checkACL_loop acls perm sid True s1 = (c, s2)" by fastforce
  have "touches s s2" using touches_trans [OF t] checkACL_loop_local [of s1 acls perm sid] l by simp
  with t show ?thesis by (auto simp: checkACL_def acls h l)
qed

lemma checkAuth_local:
  assumes "committed_inv s" "simple_request r"
  shows "\<exists>b s'. checkAuth r sid True s = Inr (b, s') \<and> touches s s'"
  using assms(2) checkACL_local [OF assms(1)] by (cases r) (auto simp: create_path_parent parentNodePath_slash)

lemma touches_committed_inv: "touches s s' \<Longrightarrow> committed_inv s' = committed_inv s"
  unfolding touches_def by (elim exE, hypsubst, rule committed_inv_cong) (simp_all add: find_node_def fun_eq_iff)

lemma checkAuth_all_local:
  "committed_inv s \<Longrightarrow> list_all simple_request rs \<Longrightarrow> \<exists>b s'. checkAuth_all rs sid True s = Inr (b, s') \<and> touches s s'"
proof (induction rs arbitrary: s)
  case (Cons r rs)
  obtain b s1 where s1: "checkAuth r sid True s = Inr (b, s1)" "touches s s1"
    using checkAuth_local [OF Cons.prems(1), of r sid] Cons.prems(2) by auto
  obtain c s2 where "checkAuth_all rs sid True s1 = Inr (c, s2)" "touches s1 s2"
    using Cons.IH [of s1] Cons.prems touches_committed_inv [OF s1(2)] by auto
  with s1 touches_trans [OF s1(2)] show ?case by auto
qed auto

subsection \<open>Requests outside the log\<close>

text \<open>The requests that a server answers by itself: reads, alone or together in a \<open>MultiRead\<close>.\<close>

definition local_part :: "zk_request \<Rightarrow> bool" where
  "local_part r \<longleftrightarrow> local_read r \<and> simple_request r"

fun local_request :: "zk_request \<Rightarrow> bool" where
  "local_request (MultiRequest ty rs) \<longleftrightarrow> ty = Some ReadOps \<and> list_all local_part rs"
| "local_request r \<longleftrightarrow> local_part r"

fun local_response :: "keeper_context \<Rightarrow> tree \<Rightarrow> zk_request \<Rightarrow> zk_response \<Rightarrow> bool" where
  "local_response ctx t (MultiRequest ty rs) resp \<longleftrightarrow>
     (\<exists>resps. resp = response_of ZOK (MultiReadBody resps) \<and> list_all2 (local_answer ctx t) rs resps)"
| "local_response ctx t r resp \<longleftrightarrow> local_answer ctx t r resp"

lemma local_request_reads: "local_request r \<Longrightarrow> isReadRequest r"
  by (cases r) (simp_all add: local_part_def)

lemma local_request_cases:
  assumes "local_request r"
  obtains rs where "r = MultiRequest (Some ReadOps) rs" "list_all local_part rs" | "local_part r" "\<And>ty rs. r \<noteq> MultiRequest ty rs"
  using assms by (cases r) auto

lemma local_request_auth:
  assumes "committed_inv s" "local_request r"
  shows "\<exists>b s'. (if check_acl then checkAuth r sid True s else Inr (True, s)) = Inr (b, s') \<and> touches s s'"
  using assms(2)
proof (cases rule: local_request_cases)
  case (1 rs)
  have "list_all simple_request rs" using 1(2) by (simp add: list_all_iff local_part_def)
  from checkAuth_all_local [OF assms(1) this, of sid] show ?thesis by (auto simp: 1(1))
next
  case 2
  then have "simple_request r" by (simp add: local_part_def)
  from checkAuth_local [OF assms(1) this, of sid] show ?thesis by auto
qed

lemma local_request_answered:
  assumes "committed_inv s" "local_request r"
  shows "\<exists>resp. processLocal ctx r s = Inr (resp, s) \<and> local_response ctx (cview s) r resp"
  using assms(2)
proof (cases rule: local_request_cases)
  case (1 rs)
  have "list_all local_read rs" using 1(2) by (simp add: list_all_iff local_part_def)
  from processLocal_all_answers [OF assms(1) this, of ctx] show ?thesis by (auto simp: 1(1))
next
  case 2
  then have "local_read r" by (simp add: local_part_def)
  from processLocal_answers [OF assms(1) this, of ctx] 2(2) show ?thesis by (cases r) auto
qed

lemma keeper_inv_aside:
  assumes "keeper_inv rs s" "aside s s'" "queue_wf (session_expiry_queue_of s')" "watches_ok s'"
  shows "keeper_inv rs s'"
  using assms(1,3,4) aside_views [OF assms(2)] assms(2) unfolding keeper_inv_def
  by (simp add: aside_def same_trees_def)

text \<open>The answer of a request outside the log: refused when the access check on the committed nodes fails.\<close>

definition local_outcome :: "keeper_context \<Rightarrow> bool \<Rightarrow> int \<Rightarrow> zk_request \<Rightarrow> zk_response \<Rightarrow> storage \<Rightarrow> bool" where
  "local_outcome ctx check_acl sid r resp s \<longleftrightarrow>
     (\<exists>allowed s1 s2. cview s1 = cview s \<and> committed_session_and_auth s1 = committed_session_and_auth s
        \<and> (if check_acl then checkAuth r sid True s1 else Inr (True, s1)) = Inr (allowed, s2)
        \<and> (if allowed then local_response ctx (cview s) r resp else resp = response_of ZNOAUTH (resp_body (makeResponse r))))"

text \<open>
  \<open>processRequest\<close> outside the log never fails: it answers from the committed tree, or refuses when access is denied;
  it registers the watch that the request asks for and prolongs the session.
\<close>

lemma processRequest_local:
  assumes inv: "keeper_inv rs s" and r: "local_request r"
  obtains resp s' where "processRequest ctx now r xid sid None check_acl True s
      = Inr ([\<lparr>rfs_session_id = sid, rfs_response = set_ids xid (committed_zxid s) resp\<rparr>], s')"
    "keeper_inv rs s'" "cview s' = cview s" "uview s' = uview s"
    "local_outcome ctx check_acl sid r resp s"
    "watch_tables_of s' = watch_tables_of (register_watch r (resp_error resp) sid s)"
proof -
  obtain s1 where s1: "touch_session now sid s = Inr s1" "aside s s1" "queue_wf (session_expiry_queue_of s1)" "watch_tables_of s1 = watch_tables_of s"
    by (rule touch_session_aside [OF keeper_invD(4) [OF inv]])
  have com: "committed_inv s1" using aside_views(4) [OF s1(2)] keeper_invD(3) [OF inv] by simp
  obtain b s2 where s2: "(if check_acl then checkAuth r sid True s1 else Inr (True, s1)) = Inr (b, s2)" "touches s1 s2"
    using local_request_auth [OF com r] by metis
  have a2: "aside s1 s2" "session_expiry_queue_of s2 = session_expiry_queue_of s1" "watch_tables_of s2 = watch_tables_of s1"
    using s2(2) by (auto simp: touches_def aside_def same_trees_def watch_tables_of_def)
  have com2: "committed_inv s2" using touches_committed_inv [OF s2(2)] com by simp
  have cv2: "cview s2 = cview s" using aside_views(1) [OF a2(1)] aside_views(1) [OF s1(2)] by simp
  obtain resp where resp: "(if \<not> b then Inr (response_of ZNOAUTH (resp_body (makeResponse r)), s2) else processLocal ctx r s2) = Inr (resp, s2)"
    "if b then local_response ctx (cview s) r resp else resp = response_of ZNOAUTH (resp_body (makeResponse r))"
    using local_request_answered [OF com2 r, of ctx] cv2 by (cases b) auto
  have "committed_session_and_auth s1 = committed_session_and_auth s"
    using s1(1) by (auto simp: touch_session_def res_bind_Inr_iff Let_def)
  then have out: "local_outcome ctx check_acl sid r resp s"
    unfolding local_outcome_def using aside_views(1) [OF s1(2)] s2(1) resp(2) by blast
  define s3 where "s3 = register_watch r (resp_error resp) sid s2"
  have quiet: "processWatches r [] t = Inr ([], t)" for t
    using local_request_reads [OF r] by (cases r) simp_all
  have same: "set_watch_tables (watch_tables_of s) s = s" for s by (simp add: set_watch_tables_def watch_tables_of_def)
  have normal: "process_normal ctx r xid sid (committed_zxid s) 0 check_acl True [] s1
      = Inr ([\<lparr>rfs_session_id = sid, rfs_response = set_ids xid (committed_zxid s) resp\<rparr>], s3)"
    using s2(1) resp(1) by (simp add: process_normal_def s3_def quiet same Let_def)
  have a3: "aside s s3" "session_expiry_queue_of s3 = session_expiry_queue_of s1"
    unfolding s3_def using aside_trans [OF aside_trans [OF s1(2) a2(1)] watches_aside(1)] watches_aside(2) a2(2) by simp_all
  have "r \<noteq> CloseRequest" "r \<noteq> HeartbeatRequest" using local_request_reads [OF r] by auto
  then have run: "processRequest ctx now r xid sid None check_acl True s
      = Inr ([\<lparr>rfs_session_id = sid, rfs_response = set_ids xid (committed_zxid s) resp\<rparr>], s3)"
    using keeper_invD(1) [OF inv] s1(1) normal a3(1) by (simp add: processRequest_def aside_def)
  have wt: "watch_tables_of s3 = watch_tables_of (register_watch r (resp_error resp) sid s)"
    using a2(3) s1(4) by (auto simp: s3_def register_watch_def add_watch_def watch_tables_of_def Let_def)
  have ok: "watches_ok s3" unfolding wt by (rule register_watch_ok [OF keeper_invD(8) [OF inv]])
  have "keeper_inv rs s3" by (rule keeper_inv_aside [OF inv a3(1) _ ok]) (use a3(2) s1(3) in simp)
  then show ?thesis by (rule that [OF run _ aside_views(1,2) [OF a3(1)] out wt])
qed

end
