(* ===== verification/Zk_Wire.thy ===== *)
theory Zk_Wire
  imports Keeper_Types "HOL-Library.Word"
begin

section \<open>The wire format\<close>

text \<open>
  How requests are written to and read from bytes: \<open>ZooKeeperIO\<close>, the \<open>writeImpl\<close>, \<open>sizeImpl\<close> and
  \<open>readImpl\<close> functions and the request factory of \<open>src/src/Common/ZooKeeper/ZooKeeperCommon.cpp\<close>, and how
  responses are written. Buffers are lists of bytes; a reader takes the rest of the buffer and returns a
  value with what is left. Numbers are big-endian two's complement; writing takes the bytes of a number,
  so a value that does not fit is cut off as the cast in the code does.
\<close>

type_synonym bytes = "8 word list"
type_synonym 'a reader = "bytes \<Rightarrow> ('a \<times> bytes) result"

subsection \<open>Numbers\<close>

fun be_bytes :: "nat \<Rightarrow> int \<Rightarrow> bytes" where
  "be_bytes 0 i = []"
| "be_bytes (Suc n) i = be_bytes n (i div 256) @ [word_of_int i]"

definition be_value :: "bytes \<Rightarrow> int" where
  "be_value bs = foldl (\<lambda>a b. a * 256 + uint b) 0 bs"

definition read_bytes :: "nat \<Rightarrow> bytes reader" where
  "read_bytes n inp = (if length inp < n then Inl (DbException ''Cannot read all data'') else Inr (take n inp, drop n inp))"

definition write_int32 :: "int \<Rightarrow> bytes" where "write_int32 i = be_bytes 4 i"
definition write_int64 :: "int \<Rightarrow> bytes" where "write_int64 i = be_bytes 8 i"
definition write_uint8 :: "int \<Rightarrow> bytes" where "write_uint8 i = be_bytes 1 i"
definition write_bool :: "bool \<Rightarrow> bytes" where "write_bool b = [if b then 1 else 0]"

definition read_int32 :: "int reader" where
  "read_int32 inp = res_bind (read_bytes 4 inp) (\<lambda>(bs, rest). Inr (signed_take_bit 31 (be_value bs), rest))"

definition read_int64 :: "int reader" where
  "read_int64 inp = res_bind (read_bytes 8 inp) (\<lambda>(bs, rest). Inr (signed_take_bit 63 (be_value bs), rest))"

definition read_uint32 :: "int reader" where
  "read_uint32 inp = res_bind (read_bytes 4 inp) (\<lambda>(bs, rest). Inr (be_value bs, rest))"

definition read_uint8 :: "int reader" where
  "read_uint8 inp = res_bind (read_bytes 1 inp) (\<lambda>(bs, rest). Inr (be_value bs, rest))"

definition read_bool :: "bool reader" where
  "read_bool inp = res_bind (read_bytes 1 inp) (\<lambda>(bs, rest). Inr (be_value bs \<noteq> 0, rest))"

subsection \<open>Strings, vectors and structures\<close>

definition MAX_STRING_OR_ARRAY_SIZE :: int where "MAX_STRING_OR_ARRAY_SIZE = 2 ^ 28"

definition byte_of_char :: "char \<Rightarrow> 8 word" where "byte_of_char c = word_of_nat (of_char c)"
definition char_of_byte :: "8 word \<Rightarrow> char" where "char_of_byte b = char_of (unat b)"

definition write_string :: "string \<Rightarrow> bytes" where
  "write_string s = write_int32 (int (length s)) @ map byte_of_char s"

text \<open>\<open>in.read\<close> returns fewer bytes at the end of the buffer, which \<open>read\<close> reports itself.\<close>

definition read_string :: "string reader" where
  "read_string inp = res_bind (read_int32 inp) (\<lambda>(size, rest).
     if size = -1 then Inr ([], rest)
     else if size < 0 then Inl (ZkException ''Negative size while reading string from ZooKeeper'')
     else if MAX_STRING_OR_ARRAY_SIZE < size then Inl (ZkException ''Too large string size while reading from ZooKeeper'')
     else if length rest < nat size then Inl (ZkException ''Buffer size read from Zookeeper is not big enough'')
     else Inr (map char_of_byte (take (nat size) rest), drop (nat size) rest))"

definition write_vector :: "('a \<Rightarrow> bytes) \<Rightarrow> 'a list \<Rightarrow> bytes" where
  "write_vector wr xs = write_int32 (int (length xs)) @ concat (map wr xs)"

fun read_elems :: "nat \<Rightarrow> 'a reader \<Rightarrow> 'a list reader" where
  "read_elems 0 rd inp = Inr ([], inp)"
| "read_elems (Suc n) rd inp =
     res_bind (rd inp) (\<lambda>(x, rest). res_bind (read_elems n rd rest) (\<lambda>(xs, rest'). Inr (x # xs, rest')))"

definition read_vector :: "'a reader \<Rightarrow> 'a list reader" where
  "read_vector rd inp = res_bind (read_int32 inp) (\<lambda>(size, rest).
     if size < 0 then Inl (ZkException ''Negative size while reading array from ZooKeeper'')
     else if MAX_STRING_OR_ARRAY_SIZE < size then Inl (ZkException ''Too large array size while reading from ZooKeeper'')
     else read_elems (nat size) rd rest)"

definition write_acl :: "acl \<Rightarrow> bytes" where
  "write_acl a = write_int32 (acl_permissions a) @ write_string (acl_scheme a) @ write_string (acl_ident a)"

definition read_acl :: "acl reader" where
  "read_acl inp = res_bind (read_int32 inp) (\<lambda>(permissions, r1).
     res_bind (read_string r1) (\<lambda>(scheme, r2).
     res_bind (read_string r2) (\<lambda>(ident, r3).
       Inr (\<lparr>acl_permissions = permissions, acl_scheme = scheme, acl_ident = ident\<rparr>, r3))))"

definition write_stat :: "stat \<Rightarrow> bytes" where
  "write_stat st =
     write_int64 (st_czxid st) @ write_int64 (st_mzxid st) @ write_int64 (st_ctime st) @ write_int64 (st_mtime st)
     @ write_int32 (st_version st) @ write_int32 (st_cversion st) @ write_int32 (st_aversion st)
     @ write_int64 (st_ephemeralOwner st) @ write_int32 (st_dataLength st) @ write_int32 (st_numChildren st)
     @ write_int64 (st_pzxid st)"

definition read_stat :: "stat reader" where
  "read_stat inp = res_bind (read_int64 inp) (\<lambda>(czxid, r1). res_bind (read_int64 r1) (\<lambda>(mzxid, r2).
     res_bind (read_int64 r2) (\<lambda>(ctime, r3). res_bind (read_int64 r3) (\<lambda>(mtime, r4).
     res_bind (read_int32 r4) (\<lambda>(version, r5). res_bind (read_int32 r5) (\<lambda>(cversion, r6).
     res_bind (read_int32 r6) (\<lambda>(aversion, r7). res_bind (read_int64 r7) (\<lambda>(owner, r8).
     res_bind (read_int32 r8) (\<lambda>(len, r9). res_bind (read_int32 r9) (\<lambda>(children, r10).
     res_bind (read_int64 r10) (\<lambda>(pzxid, r11).
       Inr (\<lparr>st_czxid = czxid, st_mzxid = mzxid, st_ctime = ctime, st_mtime = mtime, st_version = version,
             st_cversion = cversion, st_aversion = aversion, st_ephemeralOwner = owner, st_dataLength = len,
             st_numChildren = children, st_pzxid = pzxid\<rparr>, r11))))))))))))"

definition write_op_num :: "op_num \<Rightarrow> bytes" where
  "write_op_num op = write_int32 (op_code op)"

definition read_op_num :: "op_num reader" where
  "read_op_num inp = res_bind (read_int32 inp) (\<lambda>(raw, rest). res_bind (getOpNum_raw raw) (\<lambda>op. Inr (op, rest)))"

definition write_error :: "zk_error \<Rightarrow> bytes" where
  "write_error e = write_int32 (error_code e)"

subsection \<open>The sizes that precede a message\<close>

definition size_string :: "string \<Rightarrow> nat" where "size_string s = 4 + length s"
definition size_vector :: "('a \<Rightarrow> nat) \<Rightarrow> 'a list \<Rightarrow> nat" where
  "size_vector f xs = 4 + sum_list (map f xs)"
definition size_acl :: "acl \<Rightarrow> nat" where
  "size_acl a = 4 + size_string (acl_scheme a) + size_string (acl_ident a)"
definition size_stat :: "stat \<Rightarrow> nat" where
  "size_stat st = 8 + 8 + 8 + 8 + 4 + 4 + 4 + 8 + 4 + 4 + 8"
definition size_op_num :: "op_num \<Rightarrow> nat" where "size_op_num op = 4"
definition size_error :: "zk_error \<Rightarrow> nat" where "size_error e = 4"

subsection \<open>Requests\<close>

text \<open>\<open>writeImpl\<close>, \<open>sizeImpl\<close> and \<open>readImpl\<close> of each class. A reader fills an object that the factory made; the
  fields that are not part of the message keep their defaults.\<close>

definition sync_write :: "path \<Rightarrow> bytes" where
  [simp]: "sync_write p = write_string p"
definition sync_size :: "path \<Rightarrow> nat" where
  [simp]: "sync_size p = size_string p"
definition sync_read :: "zk_request reader" where
  [simp]: "sync_read inp = res_bind (read_string inp) (\<lambda>(p, r). Inr (SyncRequest p, r))"

definition reconfig_write :: "string \<Rightarrow> string \<Rightarrow> string \<Rightarrow> int \<Rightarrow> bytes" where
  [simp]: "reconfig_write joining leaving new_members version =
     write_string joining @ write_string leaving @ write_string new_members @ write_int32 version"
definition reconfig_size :: "string \<Rightarrow> string \<Rightarrow> string \<Rightarrow> int \<Rightarrow> nat" where
  [simp]: "reconfig_size joining leaving new_members version =
     size_string joining + size_string leaving + size_string new_members + 4"
definition reconfig_read :: "zk_request reader" where
  [simp]: "reconfig_read inp =
     res_bind (read_string inp) (\<lambda>(joining, r1). res_bind (read_string r1) (\<lambda>(leaving, r2).
     res_bind (read_string r2) (\<lambda>(new_members, r3). res_bind (read_int32 r3) (\<lambda>(version, r4).
       Inr (ReconfigRequest joining leaving new_members version, r4)))))"

definition auth_write :: "int \<Rightarrow> string \<Rightarrow> string \<Rightarrow> bytes" where
  [simp]: "auth_write ty scheme d = write_int32 ty @ write_string scheme @ write_string d"
definition auth_size :: "int \<Rightarrow> string \<Rightarrow> string \<Rightarrow> nat" where
  [simp]: "auth_size ty scheme d = 4 + size_string scheme + size_string d"
definition auth_read :: "zk_request reader" where
  [simp]: "auth_read inp =
     res_bind (read_int32 inp) (\<lambda>(ty, r1). res_bind (read_string r1) (\<lambda>(scheme, r2).
     res_bind (read_string r2) (\<lambda>(d, r3). Inr (AuthRequest ty scheme d, r3))))"

definition create_flags :: "create_request \<Rightarrow> int" where
  "create_flags c = (if cr_is_ephemeral c then 1 else 0) + (if cr_is_sequential c then 2 else 0)"

definition create_write :: "create_request \<Rightarrow> bytes" where
  [simp]: "create_write c =
     write_string (cr_path c) @ write_string (cr_data c) @ write_vector write_acl (cr_acls c) @ write_int32 (create_flags c)"
definition create_size :: "create_request \<Rightarrow> nat" where
  [simp]: "create_size c = size_string (cr_path c) + size_string (cr_data c) + size_vector size_acl (cr_acls c) + 4"
definition create_read :: "bool \<Rightarrow> zk_request reader" where
  "create_read not_exists inp =
     res_bind (read_string inp) (\<lambda>(p, r1). res_bind (read_string r1) (\<lambda>(d, r2).
     res_bind (read_vector read_acl r2) (\<lambda>(acls, r3). res_bind (read_int32 r3) (\<lambda>(flags, r4).
       Inr (CreateRequest \<lparr>cr_path = p, cr_data = d, cr_is_ephemeral = odd flags, cr_is_sequential = odd (flags div 2),
              cr_acls = acls, cr_not_exists = not_exists, cr_parent_cversion = -1\<rparr>, r4)))))"

definition read_path_and :: "'a reader \<Rightarrow> (path \<Rightarrow> 'a \<Rightarrow> zk_request) \<Rightarrow> zk_request reader" where
  "read_path_and rd f inp = res_bind (read_string inp) (\<lambda>(p, r1). res_bind (rd r1) (\<lambda>(x, r2). Inr (f p x, r2)))"

definition remove_write :: "path \<Rightarrow> int \<Rightarrow> bytes" where
  [simp]: "remove_write p version = write_string p @ write_int32 version"
definition remove_size :: "path \<Rightarrow> int \<Rightarrow> nat" where
  [simp]: "remove_size p version = size_string p + 4"
definition remove_read :: "zk_request reader" where
  [simp]: "remove_read = read_path_and read_int32 (\<lambda>p v. RemoveRequest p v False)"

definition remove_recursive_write :: "path \<Rightarrow> 32 word \<Rightarrow> bytes" where
  [simp]: "remove_recursive_write p limit = write_string p @ write_int32 (uint limit)"
definition remove_recursive_read :: "zk_request reader" where
  [simp]: "remove_recursive_read = read_path_and read_uint32 (\<lambda>p l. RemoveRecursiveRequest p (word_of_int l) False)"
definition remove_recursive_size :: "path \<Rightarrow> 32 word \<Rightarrow> nat" where
  [simp]: "remove_recursive_size p limit = size_string p + 4"

definition exists_write :: "path \<Rightarrow> bool \<Rightarrow> bytes" where
  [simp]: "exists_write p w = write_string p @ write_bool w"
definition exists_size :: "path \<Rightarrow> bool \<Rightarrow> nat" where
  [simp]: "exists_size p w = size_string p + 1"
definition exists_read :: "zk_request reader" where
  [simp]: "exists_read = read_path_and read_bool ExistsRequest"

definition get_write :: "path \<Rightarrow> bool \<Rightarrow> bytes" where
  [simp]: "get_write p w = write_string p @ write_bool w"
definition get_size :: "path \<Rightarrow> bool \<Rightarrow> nat" where
  [simp]: "get_size p w = size_string p + 1"
definition get_read :: "zk_request reader" where
  [simp]: "get_read = read_path_and read_bool GetRequest"

definition set_write :: "path \<Rightarrow> string \<Rightarrow> int \<Rightarrow> bytes" where
  [simp]: "set_write p d version = write_string p @ write_string d @ write_int32 version"
definition set_size :: "path \<Rightarrow> string \<Rightarrow> int \<Rightarrow> nat" where
  [simp]: "set_size p d version = size_string p + size_string d + 4"
definition set_read :: "zk_request reader" where
  [simp]: "set_read inp = res_bind (read_string inp) (\<lambda>(p, r1). read_path_and read_int32 (\<lambda>d v. SetRequest p d v) r1)"

definition list_write :: "path \<Rightarrow> bool \<Rightarrow> bytes" where
  [simp]: "list_write p w = write_string p @ write_bool w"
definition list_size :: "path \<Rightarrow> bool \<Rightarrow> nat" where
  [simp]: "list_size p w = size_string p + 1"
definition list_read :: "list_kind \<Rightarrow> zk_request reader" where
  [simp]: "list_read k = read_path_and read_bool (ListRequest k)"

text \<open>\<open>static_cast\<close> between \<open>ListRequestType\<close> and \<open>uint8_t\<close> keeps every value.\<close>

fun list_type_code :: "list_request_type \<Rightarrow> int" where
  "list_type_code LIST_ALL = 0"
| "list_type_code PERSISTENT_ONLY = 1"
| "list_type_code EPHEMERAL_ONLY = 2"
| "list_type_code (OTHER_LIST_TYPE i) = i"

definition list_type_of_code :: "int \<Rightarrow> list_request_type" where
  "list_type_of_code i =
     (if i = 0 then LIST_ALL else if i = 1 then PERSISTENT_ONLY else if i = 2 then EPHEMERAL_ONLY else OTHER_LIST_TYPE i)"

definition filtered_list_write :: "path \<Rightarrow> bool \<Rightarrow> list_request_type \<Rightarrow> bytes" where
  [simp]: "filtered_list_write p w ty = write_string p @ write_bool w @ write_uint8 (list_type_code ty)"
definition filtered_list_size :: "path \<Rightarrow> bool \<Rightarrow> list_request_type \<Rightarrow> nat" where
  [simp]: "filtered_list_size p w ty = size_string p + 1 + 1"
definition filtered_list_read :: "zk_request reader" where
  [simp]: "filtered_list_read inp =
     res_bind (read_string inp) (\<lambda>(p, r1). res_bind (read_bool r1) (\<lambda>(w, r2).
     res_bind (read_uint8 r2) (\<lambda>(ty, r3). Inr (ListRequest (FilteredList (list_type_of_code ty)) p w, r3))))"

definition setACL_write :: "path \<Rightarrow> acls \<Rightarrow> int \<Rightarrow> bytes" where
  [simp]: "setACL_write p acls version = write_string p @ write_vector write_acl acls @ write_int32 version"
definition setACL_size :: "path \<Rightarrow> acls \<Rightarrow> int \<Rightarrow> nat" where
  [simp]: "setACL_size p acls version = size_string p + size_vector size_acl acls + 4"
definition setACL_read :: "zk_request reader" where
  [simp]: "setACL_read inp =
     res_bind (read_string inp) (\<lambda>(p, r1). res_bind (read_vector read_acl r1) (\<lambda>(acls, r2).
     res_bind (read_int32 r2) (\<lambda>(v, r3). Inr (SetACLRequest p acls v, r3))))"

definition getACL_read :: "zk_request reader" where
  [simp]: "getACL_read inp = res_bind (read_string inp) (\<lambda>(p, r). Inr (GetACLRequest p, r))"
definition getACL_write :: "path \<Rightarrow> bytes" where
  [simp]: "getACL_write p = write_string p"
definition getACL_size :: "path \<Rightarrow> nat" where
  [simp]: "getACL_size p = size_string p"

definition check_write :: "path \<Rightarrow> int \<Rightarrow> bytes" where
  [simp]: "check_write p version = write_string p @ write_int32 version"
definition check_size :: "path \<Rightarrow> int \<Rightarrow> nat" where
  [simp]: "check_size p version = size_string p + 4"
definition check_read :: "bool \<Rightarrow> zk_request reader" where
  [simp]: "check_read not_exists = read_path_and read_int32 (\<lambda>p v. CheckRequest p v not_exists)"

text \<open>A \<open>Multi\<close> writes the operation number and the bytes of each subrequest after a header, and a footer.\<close>

definition write_multi_header :: "op_num \<Rightarrow> bool \<Rightarrow> int \<Rightarrow> bytes" where
  [simp]: "write_multi_header op finished error = write_op_num op @ write_bool finished @ write_int32 error"

definition multi_write :: "(op_num \<times> bytes) list \<Rightarrow> bytes" where
  [simp]: "multi_write subs =
     concat (map (\<lambda>(op, bs). write_multi_header op False (-1) @ bs) subs) @ write_multi_header OpError True (-1)"

definition multi_size :: "(op_num \<times> nat) list \<Rightarrow> nat" where
  [simp]: "multi_size subs = sum_list (map (\<lambda>(op, n). size_op_num op + 1 + 4 + n) subs) + size_op_num OpError + 1 + 4"

definition session_id_write :: "int \<Rightarrow> int \<Rightarrow> int \<Rightarrow> bytes" where
  [simp]: "session_id_write internal_id timeout server_id = write_int64 internal_id @ write_int64 timeout @ write_int32 server_id"
definition session_id_size :: "int \<Rightarrow> int \<Rightarrow> int \<Rightarrow> nat" where
  [simp]: "session_id_size internal_id timeout server_id = 8 + 8 + 4"
definition session_id_read :: "zk_request reader" where
  [simp]: "session_id_read inp =
     res_bind (read_int64 inp) (\<lambda>(internal_id, r1). res_bind (read_int64 r1) (\<lambda>(timeout, r2).
     res_bind (read_int32 r2) (\<lambda>(server_id, r3). Inr (SessionIDRequest internal_id timeout server_id, r3))))"

text \<open>The calls of the virtual functions.\<close>

fun write_request :: "zk_request \<Rightarrow> bytes" where
  "write_request HeartbeatRequest = []"
| "write_request (SyncRequest p) = sync_write p"
| "write_request (ReconfigRequest joining leaving new_members version) = reconfig_write joining leaving new_members version"
| "write_request (AuthRequest ty scheme d) = auth_write ty scheme d"
| "write_request CloseRequest = []"
| "write_request (CreateRequest c) = create_write c"
| "write_request (RemoveRequest p version _) = remove_write p version"
| "write_request (RemoveRecursiveRequest p limit _) = remove_recursive_write p limit"
| "write_request (ExistsRequest p w) = exists_write p w"
| "write_request (GetRequest p w) = get_write p w"
| "write_request (SetRequest p d version) = set_write p d version"
| "write_request (ListRequest k p w) =
     (case k of FilteredList ty \<Rightarrow> filtered_list_write p w ty | _ \<Rightarrow> list_write p w)"
| "write_request (CheckRequest p version _) = check_write p version"
| "write_request (MultiRequest _ rs) = multi_write (map (\<lambda>r. (getOpNum r, write_request r)) rs)"
| "write_request (SetACLRequest p acls version) = setACL_write p acls version"
| "write_request (GetACLRequest p) = getACL_write p"
| "write_request (SessionIDRequest internal_id timeout server_id) = session_id_write internal_id timeout server_id"

fun size_request :: "zk_request \<Rightarrow> nat" where
  "size_request HeartbeatRequest = 0"
| "size_request (SyncRequest p) = sync_size p"
| "size_request (ReconfigRequest joining leaving new_members version) = reconfig_size joining leaving new_members version"
| "size_request (AuthRequest ty scheme d) = auth_size ty scheme d"
| "size_request CloseRequest = 0"
| "size_request (CreateRequest c) = create_size c"
| "size_request (RemoveRequest p version _) = remove_size p version"
| "size_request (RemoveRecursiveRequest p limit _) = remove_recursive_size p limit"
| "size_request (ExistsRequest p w) = exists_size p w"
| "size_request (GetRequest p w) = get_size p w"
| "size_request (SetRequest p d version) = set_size p d version"
| "size_request (ListRequest k p w) =
     (case k of FilteredList ty \<Rightarrow> filtered_list_size p w ty | _ \<Rightarrow> list_size p w)"
| "size_request (CheckRequest p version _) = check_size p version"
| "size_request (MultiRequest _ rs) = multi_size (map (\<lambda>r. (getOpNum r, size_request r)) rs)"
| "size_request (SetACLRequest p acls version) = setACL_size p acls version"
| "size_request (GetACLRequest p) = getACL_size p"
| "size_request (SessionIDRequest internal_id timeout server_id) = session_id_size internal_id timeout server_id"

text \<open>The object that the factory makes for an operation number, and its \<open>readImpl\<close>, apart from \<open>Multi\<close>.\<close>

fun read_simple :: "op_num \<Rightarrow> zk_request reader" where
  "read_simple OpHeartbeat inp = Inr (HeartbeatRequest, inp)"
| "read_simple OpSync inp = sync_read inp"
| "read_simple OpAuth inp = auth_read inp"
| "read_simple OpClose inp = Inr (CloseRequest, inp)"
| "read_simple OpCreate inp = create_read False inp"
| "read_simple OpRemove inp = remove_read inp"
| "read_simple OpExists inp = exists_read inp"
| "read_simple OpGet inp = get_read inp"
| "read_simple OpSet inp = set_read inp"
| "read_simple OpSimpleList inp = list_read SimpleList inp"
| "read_simple OpList inp = list_read PlainList inp"
| "read_simple OpCheck inp = check_read False inp"
| "read_simple OpReconfig inp = reconfig_read inp"
| "read_simple OpCreateIfNotExists inp = create_read True inp"
| "read_simple OpSessionID inp = session_id_read inp"
| "read_simple OpGetACL inp = getACL_read inp"
| "read_simple OpSetACL inp = setACL_read inp"
| "read_simple OpFilteredList inp = filtered_list_read inp"
| "read_simple OpCheckNotExists inp = check_read True inp"
| "read_simple OpRemoveRecursive inp = remove_recursive_read inp"
| "read_simple _ inp = Inl (ZkException ''Unknown operation type'')"

definition read_multi_header :: "(op_num \<times> bool \<times> int) reader" where
  "read_multi_header inp = res_bind (read_op_num inp) (\<lambda>(op, r1). res_bind (read_bool r1) (\<lambda>(finished, r2).
     res_bind (read_int32 r2) (\<lambda>(error, r3). Inr ((op, finished, error), r3))))"

text \<open>
  \<open>readImpl\<close> with its loop over subrequests, which may be \<open>Multi\<close> requests again. The validator is called for
  the subrequests of the outermost \<open>Multi\<close> only. The argument \<open>fuel\<close> bounds the number of headers that are
  read; a buffer of \<open>n\<close> bytes has fewer than \<open>n\<close>.
\<close>

definition no_validator :: "zk_request \<Rightarrow> unit result" where "no_validator r = Inr ()"

function read_request :: "nat \<Rightarrow> op_num \<Rightarrow> zk_request reader"
  and read_multi :: "(zk_request \<Rightarrow> unit result) \<Rightarrow> nat \<Rightarrow> zk_request list reader" where
  "read_request fuel op inp =
     (if op = OpMulti then res_bind (read_multi no_validator fuel inp) (\<lambda>(rs, r). Inr (MultiRequest (Some WriteOps) rs, r))
      else if op = OpMultiRead then res_bind (read_multi no_validator fuel inp) (\<lambda>(rs, r). Inr (MultiRequest (Some ReadOps) rs, r))
      else read_simple op inp)"
| "read_multi validator 0 inp = Inl (Diverges ''the loop over subrequests'')"
| "read_multi validator (Suc fuel) inp =
     res_bind (read_multi_header inp) (\<lambda>((op, finished, error), r1).
       if finished
       then (if op \<noteq> OpError then Inl (ZkException ''Unexpected op_num received at the end of results for multi transaction'')
             else if error \<noteq> -1 then Inl (ZkException ''Unexpected error value received at the end of results for multi transaction'')
             else Inr ([], r1))
       else res_bind (read_request fuel op r1) (\<lambda>(r, r2).
            res_bind (validator r) (\<lambda>_.
              if r2 = [] then Inl (ZkException ''Not enough results received for multi transaction'')
              else res_bind (read_multi validator fuel r2) (\<lambda>(rs, r3). Inr (r # rs, r3)))))"
  by pat_completeness auto
termination
  by (relation "measure (\<lambda>x. case x of Inl (fuel, _) \<Rightarrow> 2 * fuel + 1 | Inr (_, fuel, _) \<Rightarrow> 2 * fuel)") auto

declare read_request.simps [simp del]

definition read_request_from :: "op_num \<Rightarrow> zk_request reader" where
  "read_request_from op inp = read_request (Suc (length inp)) op inp"

subsection \<open>What is written is read back\<close>

definition int32_ok :: "int \<Rightarrow> bool" where "int32_ok i \<longleftrightarrow> - (2 ^ 31) \<le> i \<and> i < 2 ^ 31"
definition int64_ok :: "int \<Rightarrow> bool" where "int64_ok i \<longleftrightarrow> - (2 ^ 63) \<le> i \<and> i < 2 ^ 63"
definition string_ok :: "string \<Rightarrow> bool" where "string_ok s \<longleftrightarrow> length s \<le> 2 ^ 28"

lemma length_be_bytes [simp]: "length (be_bytes n i) = n"
  by (induction n arbitrary: i) simp_all

lemma be_value_snoc: "be_value (bs @ [b]) = be_value bs * 256 + uint b"
  by (simp add: be_value_def)

lemma be_value_be_bytes: "be_value (be_bytes n i) = i mod 256 ^ n"
proof (induction n arbitrary: i)
  case 0
  then show ?case by (simp add: be_value_def)
next
  case (Suc n)
  have "i mod (256 * 256 ^ n) = 256 * (i div 256 mod 256 ^ n) + i mod 256"
    by (rule zmod_zmult2_eq) simp
  then show ?case by (simp add: be_value_snoc Suc uint_word_of_int algebra_simps)
qed

lemma signed_mod:
  fixes i :: int
  shows "- (2 ^ n) \<le> i \<Longrightarrow> i < 2 ^ n \<Longrightarrow> signed_take_bit n (i mod 2 ^ Suc n) = i"
  using signed_take_bit_take_bit [of n "Suc n" i] signed_take_bit_int_eq_self [of n i] by (simp add: take_bit_eq_mod)

named_theorems round_trip \<open>reading the bytes of a value gives the value and the rest\<close>

lemma read_bytes_append [simp]: "length bs = n \<Longrightarrow> read_bytes n (bs @ rest) = Inr (bs, rest)"
  by (simp add: read_bytes_def)

lemma read_int32_write [round_trip]: "int32_ok i \<Longrightarrow> read_int32 (write_int32 i @ rest) = Inr (i, rest)"
  using signed_mod [of 31 i] by (simp add: read_int32_def write_int32_def be_value_be_bytes int32_ok_def)

lemma read_int64_write [round_trip]: "int64_ok i \<Longrightarrow> read_int64 (write_int64 i @ rest) = Inr (i, rest)"
  using signed_mod [of 63 i] by (simp add: read_int64_def write_int64_def be_value_be_bytes int64_ok_def)

lemma read_uint32_write [round_trip]: "0 \<le> i \<Longrightarrow> i < 2 ^ 32 \<Longrightarrow> read_uint32 (write_int32 i @ rest) = Inr (i, rest)"
  by (simp add: read_uint32_def write_int32_def be_value_be_bytes)

lemma read_uint8_write [round_trip]: "0 \<le> i \<Longrightarrow> i < 256 \<Longrightarrow> read_uint8 (write_uint8 i @ rest) = Inr (i, rest)"
  using read_bytes_append [of "be_bytes 1 i" 1 rest] be_value_be_bytes [of 1 i]
  by (simp add: read_uint8_def write_uint8_def del: be_bytes.simps read_bytes_append One_nat_def)

lemma read_bool_write [round_trip]: "read_bool (write_bool b @ rest) = Inr (b, rest)"
  by (simp add: read_bool_def write_bool_def read_bytes_def be_value_def)

lemma char_of_byte_of_char [simp]: "char_of_byte (byte_of_char c) = c"
proof -
  have "of_char c < (256 :: nat)" using of_char_mod_256 [of c, where 'a = nat] mod_less_divisor [of 256 "of_char c :: nat"] by simp
  then show ?thesis by (simp add: char_of_byte_def byte_of_char_def unat_of_nat)
qed

lemma map_char_of_byte [simp]: "map char_of_byte (map byte_of_char s) = s"
  by (simp add: comp_def)

lemma read_string_write [round_trip]: "string_ok s \<Longrightarrow> read_string (write_string s @ rest) = Inr (s, rest)"
proof -
  assume s: "string_ok s"
  then have "int32_ok (int (length s))" by (simp add: string_ok_def int32_ok_def)
  then show ?thesis
    using s by (simp add: read_string_def write_string_def round_trip MAX_STRING_OR_ARRAY_SIZE_def string_ok_def comp_def)
qed

lemma read_elems_write:
  assumes "\<And>x rest. x \<in> set xs \<Longrightarrow> rd (wr x @ rest) = Inr (x, rest)"
  shows "read_elems (length xs) rd (concat (map wr xs) @ rest) = Inr (xs, rest)"
  using assms by (induction xs) simp_all

lemma read_vector_write:
  assumes "length xs \<le> 2 ^ 28" "\<And>x rest. x \<in> set xs \<Longrightarrow> rd (wr x @ rest) = Inr (x, rest)"
  shows "read_vector rd (write_vector wr xs @ rest) = Inr (xs, rest)"
proof -
  have "int32_ok (int (length xs))" using assms(1) by (simp add: int32_ok_def)
  then show ?thesis
    using assms(1) read_elems_write [of xs rd wr rest, OF assms(2)]
    by (simp add: read_vector_def write_vector_def round_trip MAX_STRING_OR_ARRAY_SIZE_def)
qed

definition acl_ok :: "acl \<Rightarrow> bool" where
  "acl_ok a \<longleftrightarrow> int32_ok (acl_permissions a) \<and> string_ok (acl_scheme a) \<and> string_ok (acl_ident a)"

definition acls_ok :: "acls \<Rightarrow> bool" where
  "acls_ok as \<longleftrightarrow> length as \<le> 2 ^ 28 \<and> (\<forall>a\<in>set as. acl_ok a)"

lemma read_acl_write: "acl_ok a \<Longrightarrow> read_acl (write_acl a @ rest) = Inr (a, rest)"
  by (simp add: read_acl_def write_acl_def acl_ok_def round_trip)

lemma read_acls_write [round_trip]: "acls_ok as \<Longrightarrow> read_vector read_acl (write_vector write_acl as @ rest) = Inr (as, rest)"
  by (rule read_vector_write) (simp_all add: acls_ok_def read_acl_write)

lemma getOpNum_raw_code: "getOpNum_raw (op_code op) = Inr op"
  by (cases op) (simp_all add: getOpNum_raw_def VALID_OPERATIONS_def)

lemma read_op_num_write [round_trip]: "read_op_num (write_op_num op @ rest) = Inr (op, rest)"
proof -
  have "int32_ok (op_code op)" by (cases op) (simp_all add: int32_ok_def)
  then show ?thesis by (simp add: read_op_num_def write_op_num_def round_trip getOpNum_raw_code)
qed

text \<open>The requests whose values fit the message, and what the reader of a message gets.\<close>

fun wire_ok :: "zk_request \<Rightarrow> bool" where
  "wire_ok HeartbeatRequest = True"
| "wire_ok (SyncRequest p) = string_ok p"
| "wire_ok (ReconfigRequest j l n v) = (string_ok j \<and> string_ok l \<and> string_ok n \<and> int32_ok v)"
| "wire_ok (AuthRequest ty s d) = (int32_ok ty \<and> string_ok s \<and> string_ok d)"
| "wire_ok CloseRequest = True"
| "wire_ok (CreateRequest c) = (string_ok (cr_path c) \<and> string_ok (cr_data c) \<and> acls_ok (cr_acls c))"
| "wire_ok (RemoveRequest p v _) = (string_ok p \<and> int32_ok v)"
| "wire_ok (RemoveRecursiveRequest p _ _) = string_ok p"
| "wire_ok (ExistsRequest p _) = string_ok p"
| "wire_ok (GetRequest p _) = string_ok p"
| "wire_ok (SetRequest p d v) = (string_ok p \<and> string_ok d \<and> int32_ok v)"
| "wire_ok (ListRequest k p _) = (string_ok p \<and> (case k of FilteredList (OTHER_LIST_TYPE i) \<Rightarrow> 2 < i \<and> i < 256 | _ \<Rightarrow> True))"
| "wire_ok (CheckRequest p v _) = (string_ok p \<and> int32_ok v)"
| "wire_ok (MultiRequest _ rs) = (\<forall>r\<in>set rs. wire_ok r)"
| "wire_ok (SetACLRequest p a v) = (string_ok p \<and> acls_ok a \<and> int32_ok v)"
| "wire_ok (GetACLRequest p) = string_ok p"
| "wire_ok (SessionIDRequest i t v) = (int64_ok i \<and> int64_ok t \<and> int32_ok v)"

fun received :: "zk_request \<Rightarrow> zk_request" where
  "received (CreateRequest c) = CreateRequest (c\<lparr>cr_parent_cversion := -1\<rparr>)"
| "received (RemoveRequest p v _) = RemoveRequest p v False"
| "received (RemoveRecursiveRequest p l _) = RemoveRecursiveRequest p l False"
| "received (MultiRequest ty rs) = MultiRequest (Some (if ty = Some ReadOps then ReadOps else WriteOps)) (map received rs)"
| "received r = r"

fun is_multi :: "zk_request \<Rightarrow> bool" where
  "is_multi (MultiRequest _ _) = True"
| "is_multi _ = False"

lemma int32_ok_simps [simp]: "int32_ok (-1)" "int32_ok 0" "int32_ok 1" "int32_ok 2" "int32_ok 3"
  by (simp_all add: int32_ok_def)

lemma create_read_write:
  assumes "wire_ok (CreateRequest c)"
  shows "create_read (cr_not_exists c) (write_request (CreateRequest c) @ rest) = Inr (received (CreateRequest c), rest)"
proof -
  have flags: "int32_ok (create_flags c)" "odd (create_flags c) = cr_is_ephemeral c" "odd (create_flags c div 2) = cr_is_sequential c"
    by (simp_all add: create_flags_def)
  then show ?thesis using assms by (simp add: create_read_def round_trip)
qed

lemma read_simple_write:
  assumes "wire_ok r" "\<not> is_multi r"
  shows "read_simple (getOpNum r) (write_request r @ rest) = Inr (received r, rest)"
proof (cases r)
  case (CreateRequest c)
  then show ?thesis using create_read_write [of c rest] assms(1)
    by (cases "cr_not_exists c") (simp_all del: write_request.simps received.simps wire_ok.simps)
next
  case (ListRequest k p w)
  then show ?thesis using assms
    by (cases k) (auto simp: read_path_and_def round_trip list_type_of_code_def split: list_request_type.splits)
next
  case (RemoveRecursiveRequest p l b)
  have "0 \<le> uint l" "uint l < 2 ^ 32" using uint_lt2p [of l] by simp_all
  then show ?thesis using assms RemoveRecursiveRequest by (simp add: read_path_and_def round_trip)
qed (use assms in \<open>simp_all add: read_path_and_def round_trip\<close>)

lemma getOpNum_multi: "getOpNum (MultiRequest ty rs) = (if ty = Some ReadOps then OpMultiRead else OpMulti)"
  by (cases ty) (auto intro: multi_type.exhaust)

lemma length_header [simp]: "length (write_op_num op) = 4" "length (write_int32 i) = 4" "length (write_bool b) = 1"
  by (simp_all add: write_op_num_def write_int32_def write_bool_def)

lemma write_bool_nonempty [simp]: "write_bool b \<noteq> []"
  by (simp add: write_bool_def)

lemma read_header_write [round_trip]:
  "int32_ok e \<Longrightarrow> read_multi_header (write_op_num op @ write_bool b @ write_int32 e @ rest) = Inr ((op, b, e), rest)"
  by (simp add: read_multi_header_def round_trip)

lemma read_multi_write:
  assumes r: "\<And>r rest fuel. r \<in> set rs \<Longrightarrow> length (write_request r) < fuel \<Longrightarrow>
      read_request fuel (getOpNum r) (write_request r @ rest) = Inr (received r, rest)"
    and v: "\<And>r. validator r = (if ok r then Inr () else Inl e)"
    and fuel: "length (write_request (MultiRequest ty rs)) \<le> fuel"
  shows "read_multi validator fuel (write_request (MultiRequest ty rs) @ rest) =
    (if \<forall>r\<in>set rs. ok (received r) then Inr (map received rs, rest) else Inl e)"
  using assms
proof (induction rs arbitrary: fuel)
  case Nil
  then obtain f where "fuel = Suc f" by (cases fuel) simp_all
  then show ?case by (simp add: round_trip)
next
  case (Cons r rs)
  then obtain f where f: "fuel = Suc f" by (cases fuel) simp_all
  have "read_request f (getOpNum r) (write_request r @ x) = Inr (received r, x)" for x
    by (rule Cons.prems(1)) (use Cons.prems(3) f in simp_all)
  moreover have "read_multi validator f (write_request (MultiRequest ty rs) @ rest) =
      (if \<forall>r\<in>set rs. ok (received r) then Inr (map received rs, rest) else Inl e)"
    by (rule Cons.IH) (use Cons.prems f in simp_all)
  ultimately show ?case using v [of "received r"] by (simp add: f round_trip)
qed

lemma not_multi_op:
  assumes "\<not> is_multi r"
  shows "getOpNum r \<noteq> OpMulti" "getOpNum r \<noteq> OpMultiRead"
  using assms by (cases r; auto split: list_kind.splits; metis getOpNum.simps(12-14) list_kind.exhaust op_num.distinct)+

lemma read_request_simple:
  assumes "wire_ok r" "\<not> is_multi r"
  shows "read_request fuel (getOpNum r) (write_request r @ rest) = Inr (received r, rest)"
  using read_simple_write [OF assms] not_multi_op [OF assms(2)] by (simp add: read_request.simps)

lemma read_request_write:
  assumes "wire_ok r" "length (write_request r) < fuel"
  shows "read_request fuel (getOpNum r) (write_request r @ rest) = Inr (received r, rest)"
  using assms
proof (induction r arbitrary: fuel rest)
  case (MultiRequest ty rs)
  have "read_multi no_validator fuel (write_request (MultiRequest ty rs) @ rest) = Inr (map received rs, rest)"
    using read_multi_write [of rs no_validator "\<lambda>_. True" undefined ty fuel rest] MultiRequest by (simp add: no_validator_def)
  then show ?case by (simp add: read_request.simps getOpNum_multi del: write_request.simps getOpNum.simps)
qed (rule read_request_simple; simp)+

subsection \<open>Sizes\<close>

lemma length_write_int [simp]: "length (write_int64 i) = 8" "length (write_uint8 i) = 1" "length (write_error e) = 4"
  by (simp_all add: write_int64_def write_uint8_def write_error_def del: be_bytes.simps)

lemma length_write_string [simp]: "length (write_string s) = size_string s"
  by (simp add: write_string_def size_string_def)

lemma length_write_vector: "(\<And>x. x \<in> set xs \<Longrightarrow> length (wr x) = f x) \<Longrightarrow> length (write_vector wr xs) = size_vector f xs"
  by (simp add: write_vector_def size_vector_def length_concat comp_def cong: map_cong)

lemma length_write_acls [simp]: "length (write_vector write_acl as) = size_vector size_acl as"
  by (rule length_write_vector) (simp add: write_acl_def size_acl_def)

lemma length_write_stat [simp]: "length (write_stat st) = size_stat st"
  by (simp add: write_stat_def size_stat_def)

lemma length_write_request: "length (write_request r) = size_request r"
proof (induction r)
  case (MultiRequest ty rs)
  then show ?case by (simp add: length_concat comp_def size_op_num_def cong: map_cong)
qed (simp_all split: list_kind.splits)

subsection \<open>Reading ends\<close>

text \<open>A reader returns a rest that is not longer than its input, and never runs out of fuel.\<close>

definition ends_well :: "nat \<Rightarrow> ('a \<times> bytes) result \<Rightarrow> bool" where
  "ends_well n R \<longleftrightarrow> (case R of Inl e \<Rightarrow> (\<forall>m. e \<noteq> Diverges m) | Inr (x, rest) \<Rightarrow> length rest \<le> n)"

lemma ends_well_simps [simp]:
  "ends_well n (Inr (x, rest)) \<longleftrightarrow> length rest \<le> n" "ends_well n (Inl (ZkException msg))" "ends_well n (Inl (DbException msg))"
  by (simp_all add: ends_well_def)

lemma ends_well_bind:
  assumes "ends_well n R" "\<And>x rest. length rest \<le> n \<Longrightarrow> R = Inr (x, rest) \<Longrightarrow> ends_well n (f (x, rest))"
  shows "ends_well n (res_bind R f)"
  using assms by (cases R) (auto simp: ends_well_def)

lemma ends_well_mono: "ends_well n R \<Longrightarrow> n \<le> m \<Longrightarrow> ends_well m R"
  by (auto simp: ends_well_def split: sum.splits)

named_theorems ends \<open>readers that end\<close>

lemma read_bytes_ends [ends]: "length inp \<le> n \<Longrightarrow> ends_well n (read_bytes k inp)"
  by (auto simp: read_bytes_def)

lemma read_numbers_end [ends]:
  assumes "length inp \<le> n"
  shows "ends_well n (read_int32 inp)" "ends_well n (read_int64 inp)" "ends_well n (read_uint32 inp)"
    "ends_well n (read_uint8 inp)" "ends_well n (read_bool inp)"
  unfolding read_int32_def read_int64_def read_uint32_def read_uint8_def read_bool_def
  by (rule ends_well_bind [OF read_bytes_ends [OF assms]]; simp)+

lemma read_string_ends [ends]: "length inp \<le> n \<Longrightarrow> ends_well n (read_string inp)"
  unfolding read_string_def by (rule ends_well_bind, erule ends) auto

lemma read_elems_ends:
  assumes "\<And>inp. length inp \<le> n \<Longrightarrow> ends_well n (rd inp)"
  shows "length inp \<le> n \<Longrightarrow> ends_well n (read_elems k rd inp)"
proof (induction k arbitrary: inp)
  case (Suc k)
  show ?case unfolding read_elems.simps
    by (rule ends_well_bind [OF assms [OF Suc.prems]], simp, rule ends_well_bind, rule Suc.IH) auto
qed simp

lemma read_vector_ends:
  assumes "\<And>inp. length inp \<le> n \<Longrightarrow> ends_well n (rd inp)"
  shows "length inp \<le> n \<Longrightarrow> ends_well n (read_vector rd inp)"
  unfolding read_vector_def by (rule ends_well_bind, erule ends) (auto intro: read_elems_ends [OF assms])

lemma read_acl_ends: "length inp \<le> n \<Longrightarrow> ends_well n (read_acl inp)"
  unfolding read_acl_def by (auto intro!: ends_well_bind ends)

lemma read_acls_ends [ends]: "length inp \<le> n \<Longrightarrow> ends_well n (read_vector read_acl inp)"
  by (rule read_vector_ends [OF read_acl_ends])

lemma read_op_num_ends [ends]: "length inp \<le> n \<Longrightarrow> ends_well n (read_op_num inp)"
  unfolding read_op_num_def getOpNum_raw_def by (auto intro!: ends_well_bind ends split: option.split)

lemma read_simple_ends: "length inp \<le> n \<Longrightarrow> ends_well n (read_simple op inp)"
  by (cases op) (auto simp: create_read_def read_path_and_def intro!: ends_well_bind ends)

lemma read_bytes_length: "read_bytes k inp = Inr (bs, rest) \<Longrightarrow> length rest + k = length inp"
  by (auto simp: read_bytes_def split: if_splits)

lemma read_header_length: "read_multi_header inp = Inr (h, rest) \<Longrightarrow> length rest + 9 = length inp"
  by (auto simp: read_multi_header_def read_op_num_def read_int32_def read_bool_def res_bind_Inr_iff dest!: read_bytes_length)

lemma read_header_ends: "length inp \<le> n \<Longrightarrow> ends_well n (read_multi_header inp)"
  unfolding read_multi_header_def by (auto intro!: ends_well_bind ends)

text \<open>A validator fails with an exception of its own.\<close>

definition validator_ok :: "(zk_request \<Rightarrow> unit result) \<Rightarrow> bool" where
  "validator_ok validator \<longleftrightarrow> (\<forall>r e. validator r = Inl e \<longrightarrow> (\<forall>m. e \<noteq> Diverges m))"

lemma no_validator_ok [simp]: "validator_ok no_validator"
  by (simp add: validator_ok_def no_validator_def)

lemma ends_well_validated:
  "validator_ok validator \<Longrightarrow> ends_well n R \<Longrightarrow> ends_well n (res_bind (validator r) (\<lambda>_. R))"
  by (cases "validator r") (auto simp: validator_ok_def ends_well_def)

lemma read_multi_ends_step:
  assumes v: "validator_ok validator" and inp: "length inp < Suc fuel"
    and request: "\<And>inp op. length inp < fuel \<Longrightarrow> ends_well (length inp) (read_request fuel op inp)"
    and multi: "\<And>inp. length inp < fuel \<Longrightarrow> ends_well (length inp) (read_multi validator fuel inp)"
  shows "ends_well (length inp) (read_multi validator (Suc fuel) inp)"
proof (cases "read_multi_header inp")
  case (Inl e)
  then show ?thesis using read_header_ends [of inp "length inp"] by (simp add: ends_well_def)
next
  case (Inr hr)
  obtain op d error r1 where h: "hr = ((op, d, error), r1)" by (cases hr) auto
  have r1: "length r1 + 9 = length inp" by (rule read_header_length) (use Inr h in simp)
  have sub: "ends_well (length r1) (read_request fuel op r1)" by (rule request) (use inp r1 in simp)
  have "ends_well (length inp) (res_bind (read_request fuel op r1) (\<lambda>(r, r2). res_bind (validator r) (\<lambda>_.
      if r2 = [] then Inl (ZkException ''Not enough results received for multi transaction'')
      else res_bind (read_multi validator fuel r2) (\<lambda>(rs, r3). Inr (r # rs, r3)))))"
  proof (rule ends_well_bind [OF ends_well_mono [OF sub]])
    fix r r2 assume "read_request fuel op r1 = Inr (r, r2)"
    with sub have r2: "length r2 \<le> length r1" by simp
    have "ends_well (length inp) (read_multi validator fuel r2)"
      by (rule ends_well_mono [OF multi]) (use inp r1 r2 in auto)
    then show "ends_well (length inp) (case (r, r2) of (r, r2) \<Rightarrow> res_bind (validator r) (\<lambda>_.
        if r2 = [] then Inl (ZkException ''Not enough results received for multi transaction'')
        else res_bind (read_multi validator fuel r2) (\<lambda>(rs, r3). Inr (r # rs, r3))))"
      by (auto intro!: ends_well_validated [OF v] intro: ends_well_bind)
  qed (use r1 in simp)
  then show ?thesis using Inr r1 by (simp add: h)
qed

lemma read_request_ends_aux:
  "(\<forall>validator inp. validator_ok validator \<longrightarrow> length inp < fuel \<longrightarrow> ends_well (length inp) (read_multi validator fuel inp))
   \<and> (\<forall>inp op. length inp < fuel \<longrightarrow> ends_well (length inp) (read_request fuel op inp))"
proof (induction fuel)
  case 0
  then show ?case by simp
next
  case (Suc fuel)
  have multi: "ends_well (length inp) (read_multi validator (Suc fuel) inp)"
    if "validator_ok validator" "length inp < Suc fuel" for validator inp
    by (rule read_multi_ends_step) (use that Suc.IH in auto)
  have "ends_well (length inp) (read_request (Suc fuel) op inp)" if inp: "length inp < Suc fuel" for inp op
    using multi [OF no_validator_ok inp] read_simple_ends [of inp "length inp" op]
    by (auto simp: read_request.simps [of "Suc fuel"] intro: ends_well_bind simp del: read_multi.simps)
  with multi show ?case by blast
qed

lemma read_request_from_ends: "ends_well (length inp) (read_request_from op inp)"
  using read_request_ends_aux [of "Suc (length inp)"] by (simp add: read_request_from_def)

lemma read_request_from_write:
  assumes "wire_ok r"
  shows "read_request_from (getOpNum r) (write_request r @ rest) = Inr (received r, rest)"
  unfolding read_request_from_def by (rule read_request_write [OF assms]) simp

end
