(* ===== verification/Zk_Response.thy ===== *)
theory Zk_Response
  imports Zk_Wire
begin

section \<open>Messages\<close>

text \<open>
  How responses are written (\<open>writeImpl\<close> and \<open>sizeImpl\<close> of each class of responses) and the framing of
  requests and responses by their length (\<open>ZooKeeperRequest::write\<close>, \<open>ZooKeeperResponse::write\<close>), of
  \<open>src/src/Common/ZooKeeper/ZooKeeperCommon.cpp\<close>. Writing a response fails when a \<open>Multi\<close> contains the
  response of a watch, which has no operation number.
\<close>

subsection \<open>The bodies of the responses\<close>

definition sync_response_write :: "path \<Rightarrow> bytes" where
  [simp]: "sync_response_write p = write_string p"
definition sync_response_size :: "path \<Rightarrow> nat" where
  [simp]: "sync_response_size p = size_string p"

definition reconfig_response_write :: "string \<Rightarrow> stat \<Rightarrow> bytes" where
  [simp]: "reconfig_response_write v st = write_string v @ write_stat st"
definition reconfig_response_size :: "string \<Rightarrow> stat \<Rightarrow> nat" where
  [simp]: "reconfig_response_size v st = size_string v + size_stat st"

fun event_code :: "watch_event \<Rightarrow> int" where
  "event_code EvCreated = 1"
| "event_code EvDeleted = 2"
| "event_code EvChanged = 3"
| "event_code EvChild = 4"
| "event_code EvSession = -1"
| "event_code EvNotWatching = -2"

fun state_code :: "watch_state \<Rightarrow> int" where
  "state_code EXPIRED_SESSION = -112"
| "state_code AUTH_FAILED = -113"
| "state_code CONNECTING = 1"
| "state_code ASSOCIATING = 2"
| "state_code CONNECTED = 3"
| "state_code READONLY = 5"
| "state_code NOTCONNECTED = 999"

definition watch_response_write :: "watch_event \<Rightarrow> watch_state \<Rightarrow> path \<Rightarrow> bytes" where
  [simp]: "watch_response_write ty state p = write_int32 (event_code ty) @ write_int32 (state_code state) @ write_string p"
definition watch_response_size :: "watch_event \<Rightarrow> watch_state \<Rightarrow> path \<Rightarrow> nat" where
  [simp]: "watch_response_size ty state p = 4 + 4 + size_string p"

definition create_response_write :: "path \<Rightarrow> bytes" where
  [simp]: "create_response_write p = write_string p"
definition create_response_size :: "path \<Rightarrow> nat" where
  [simp]: "create_response_size p = size_string p"

definition exists_response_write :: "stat \<Rightarrow> bytes" where
  [simp]: "exists_response_write st = write_stat st"
definition exists_response_size :: "stat \<Rightarrow> nat" where
  [simp]: "exists_response_size st = size_stat st"

definition get_response_write :: "string \<Rightarrow> stat \<Rightarrow> bytes" where
  [simp]: "get_response_write d st = write_string d @ write_stat st"
definition get_response_size :: "string \<Rightarrow> stat \<Rightarrow> nat" where
  [simp]: "get_response_size d st = size_string d + size_stat st"

definition set_response_write :: "stat \<Rightarrow> bytes" where
  [simp]: "set_response_write st = write_stat st"
definition set_response_size :: "stat \<Rightarrow> nat" where
  [simp]: "set_response_size st = size_stat st"

definition list_response_write :: "string list \<Rightarrow> stat \<Rightarrow> bytes" where
  [simp]: "list_response_write names st = write_vector write_string names @ write_stat st"
definition list_response_size :: "string list \<Rightarrow> stat \<Rightarrow> nat" where
  [simp]: "list_response_size names st = size_vector size_string names + size_stat st"

definition simple_list_response_write :: "string list \<Rightarrow> bytes" where
  [simp]: "simple_list_response_write names = write_vector write_string names"
definition simple_list_response_size :: "string list \<Rightarrow> nat" where
  [simp]: "simple_list_response_size names = size_vector size_string names"

definition setACL_response_write :: "stat \<Rightarrow> bytes" where
  [simp]: "setACL_response_write st = write_stat st"
definition setACL_response_size :: "stat \<Rightarrow> nat" where
  [simp]: "setACL_response_size st = size_stat st"

definition getACL_response_write :: "acls \<Rightarrow> stat \<Rightarrow> bytes" where
  [simp]: "getACL_response_write acls st = write_vector write_acl acls @ write_stat st"
definition getACL_response_size :: "acls \<Rightarrow> stat \<Rightarrow> nat" where
  [simp]: "getACL_response_size acls st = size_vector size_acl acls + size_stat st"

definition error_response_write :: "zk_error \<Rightarrow> bytes" where
  [simp]: "error_response_write e = write_error e"
definition error_response_size :: "zk_error \<Rightarrow> nat" where
  [simp]: "error_response_size e = size_error e"

definition session_id_response_write :: "int \<Rightarrow> int \<Rightarrow> int \<Rightarrow> bytes" where
  [simp]: "session_id_response_write internal_id session_id server_id =
     write_int64 internal_id @ write_int64 session_id @ write_int32 server_id"
definition session_id_response_size :: "int \<Rightarrow> int \<Rightarrow> int \<Rightarrow> nat" where
  [simp]: "session_id_response_size internal_id session_id server_id = 8 + 8 + 4"

text \<open>
  The responses of a \<open>Multi\<close>, each given by its error, its \<open>getOpNum\<close> and what its \<open>writeImpl\<close> or \<open>sizeImpl\<close>
  yields. \<open>getOpNum\<close> of the response of a watch throws; the body is only written for \<open>ZOK\<close> and error responses.
\<close>

definition no_op_num :: failure where
  "no_op_num = ZkException ''OpNum for watch response does not exist''"

fun multi_response_write :: "(zk_error \<times> op_num option \<times> bytes result) list \<Rightarrow> bytes result" where
  "multi_response_write [] = Inr (write_op_num OpError @ write_bool True @ write_int32 (-1))"
| "multi_response_write ((op_error, op_num, body) # subs) =
     (case op_num of
        None \<Rightarrow> Inl no_op_num
      | Some op \<Rightarrow>
          res_bind (if op_error = ZOK \<or> op = OpError then body else Inr []) (\<lambda>bs.
          res_bind (multi_response_write subs) (\<lambda>rest.
            Inr (write_op_num op @ write_bool False @ write_error op_error @ bs @ rest))))"

fun multi_response_size :: "(zk_error \<times> op_num option \<times> nat result) list \<Rightarrow> nat result" where
  "multi_response_size [] = Inr (size_op_num OpError + 1 + 4)"
| "multi_response_size ((op_error, op_num, body) # subs) =
     (case op_num of
        None \<Rightarrow> Inl no_op_num
      | Some op \<Rightarrow>
          res_bind (if op_error = ZOK \<or> op = OpError then body else Inr 0) (\<lambda>n.
          res_bind (multi_response_size subs) (\<lambda>rest.
            Inr (size_op_num op + 1 + size_error op_error + n + rest))))"

lemma size_resp_body [termination_simp]: "r \<in> set rs \<Longrightarrow> size (resp_body r) < Suc (size_list size rs)"
proof (induction rs)
  case (Cons q rs)
  then show ?case by (cases q) auto
qed simp

text \<open>The calls of the virtual functions; an error response writes the error of its header.\<close>

fun write_body :: "zk_error \<Rightarrow> response_body \<Rightarrow> bytes result" where
  "write_body _ HeartbeatBody = Inr []"
| "write_body _ (SyncBody p) = Inr (sync_response_write p)"
| "write_body _ (ReconfigBody v st) = Inr (reconfig_response_write v st)"
| "write_body _ AuthBody = Inr []"
| "write_body _ CloseBody = Inr []"
| "write_body _ (CreateBody p) = Inr (create_response_write p)"
| "write_body _ (CreateIfNotExistsBody p) = Inr (create_response_write p)"
| "write_body _ RemoveBody = Inr []"
| "write_body _ RemoveRecursiveBody = Inr []"
| "write_body _ (ExistsBody st) = Inr (exists_response_write st)"
| "write_body _ (GetBody d st) = Inr (get_response_write d st)"
| "write_body _ (SetBody st) = Inr (set_response_write st)"
| "write_body _ (ListBody names st) = Inr (list_response_write names st)"
| "write_body _ (SimpleListBody names _) = Inr (simple_list_response_write names)"
| "write_body _ CheckBody = Inr []"
| "write_body _ CheckNotExistsBody = Inr []"
| "write_body e ErrorBody = Inr (error_response_write e)"
| "write_body _ (SetACLBody st) = Inr (setACL_response_write st)"
| "write_body _ (GetACLBody acls st) = Inr (getACL_response_write acls st)"
| "write_body _ (MultiWriteBody rs) =
     multi_response_write (map (\<lambda>r. (resp_error r, response_getOpNum (resp_body r), write_body (resp_error r) (resp_body r))) rs)"
| "write_body _ (MultiReadBody rs) =
     multi_response_write (map (\<lambda>r. (resp_error r, response_getOpNum (resp_body r), write_body (resp_error r) (resp_body r))) rs)"
| "write_body _ (WatchBody ty state p) = Inr (watch_response_write ty state p)"
| "write_body _ (SessionIDBody internal_id session_id server_id) = Inr (session_id_response_write internal_id session_id server_id)"

fun size_body :: "zk_error \<Rightarrow> response_body \<Rightarrow> nat result" where
  "size_body _ HeartbeatBody = Inr 0"
| "size_body _ (SyncBody p) = Inr (sync_response_size p)"
| "size_body _ (ReconfigBody v st) = Inr (reconfig_response_size v st)"
| "size_body _ AuthBody = Inr 0"
| "size_body _ CloseBody = Inr 0"
| "size_body _ (CreateBody p) = Inr (create_response_size p)"
| "size_body _ (CreateIfNotExistsBody p) = Inr (create_response_size p)"
| "size_body _ RemoveBody = Inr 0"
| "size_body _ RemoveRecursiveBody = Inr 0"
| "size_body _ (ExistsBody st) = Inr (exists_response_size st)"
| "size_body _ (GetBody d st) = Inr (get_response_size d st)"
| "size_body _ (SetBody st) = Inr (set_response_size st)"
| "size_body _ (ListBody names st) = Inr (list_response_size names st)"
| "size_body _ (SimpleListBody names _) = Inr (simple_list_response_size names)"
| "size_body _ CheckBody = Inr 0"
| "size_body _ CheckNotExistsBody = Inr 0"
| "size_body e ErrorBody = Inr (error_response_size e)"
| "size_body _ (SetACLBody st) = Inr (setACL_response_size st)"
| "size_body _ (GetACLBody acls st) = Inr (getACL_response_size acls st)"
| "size_body _ (MultiWriteBody rs) =
     multi_response_size (map (\<lambda>r. (resp_error r, response_getOpNum (resp_body r), size_body (resp_error r) (resp_body r))) rs)"
| "size_body _ (MultiReadBody rs) =
     multi_response_size (map (\<lambda>r. (resp_error r, response_getOpNum (resp_body r), size_body (resp_error r) (resp_body r))) rs)"
| "size_body _ (WatchBody ty state p) = Inr (watch_response_size ty state p)"
| "size_body _ (SessionIDBody internal_id session_id server_id) = Inr (session_id_response_size internal_id session_id server_id)"

subsection \<open>Framing\<close>

definition size_xid :: "bool \<Rightarrow> nat" where "size_xid use_xid_64 = (if use_xid_64 then 8 else 4)"
definition write_xid :: "bool \<Rightarrow> int \<Rightarrow> bytes" where
  "write_xid use_xid_64 xid = (if use_xid_64 then write_int64 xid else write_int32 xid)"

definition write_request_message :: "bool \<Rightarrow> int \<Rightarrow> zk_request \<Rightarrow> bytes" where
  "write_request_message use_xid_64 xid r =
     (let request_size = size_xid use_xid_64 + size_op_num (getOpNum r) + size_request r in
      write_int32 (int request_size) @ write_xid use_xid_64 xid @ write_op_num (getOpNum r) @ write_request r)"

definition write_response :: "bool \<Rightarrow> zk_response \<Rightarrow> bytes result" where
  "write_response use_xid_64 r =
     res_bind (if resp_error r = ZOK then size_body (resp_error r) (resp_body r) else Inr 0) (\<lambda>body_size.
     res_bind (if resp_error r = ZOK then write_body (resp_error r) (resp_body r) else Inr []) (\<lambda>body.
       let response_size = size_xid use_xid_64 + 8 + size_error (resp_error r) + body_size in
       Inr (write_int32 (int response_size) @ write_xid use_xid_64 (resp_xid r) @ write_int64 (resp_zxid r)
            @ write_error (resp_error r) @ body)))"

definition write_watch_response :: "bool \<Rightarrow> zk_response \<Rightarrow> bytes result" where
  "write_watch_response use_xid_64 r = (if resp_error r = ZOK then write_response use_xid_64 r else Inr [])"

definition write_response_message :: "bool \<Rightarrow> zk_response \<Rightarrow> bytes result" where
  "write_response_message use_xid_64 r =
     (case resp_body r of WatchBody _ _ _ \<Rightarrow> write_watch_response use_xid_64 r | _ \<Rightarrow> write_response use_xid_64 r)"

subsection \<open>The length in front of a message is the length of the message\<close>

lemma length_write_names [simp]: "length (write_vector write_string xs) = size_vector size_string xs"
  by (rule length_write_vector) simp

lemma length_write_xid [simp]: "length (write_xid u x) = size_xid u"
  by (simp add: write_xid_def size_xid_def)

definition same_size :: "bytes result \<Rightarrow> nat result \<Rightarrow> bool" where
  "same_size W N \<longleftrightarrow> (case W of Inl e \<Rightarrow> N = Inl e | Inr bs \<Rightarrow> N = Inr (length bs))"

lemma same_size_Inr [simp]: "same_size (Inr bs) (Inr n) \<longleftrightarrow> n = length bs"
  by (simp add: same_size_def)

lemma multi_response_same_size:
  assumes "\<And>r. r \<in> set rs \<Longrightarrow> same_size (w r) (n r)"
  shows "same_size (multi_response_write (map (\<lambda>r. (e r, opn r, w r)) rs)) (multi_response_size (map (\<lambda>r. (e r, opn r, n r)) rs))"
  using assms
proof (induction rs)
  case (Cons r rs)
  then have "same_size (w r) (n r)"
    "same_size (multi_response_write (map (\<lambda>r. (e r, opn r, w r)) rs)) (multi_response_size (map (\<lambda>r. (e r, opn r, n r)) rs))"
    by simp_all
  then show ?case
    by (auto simp: same_size_def size_op_num_def size_error_def split: option.splits sum.splits)
qed (simp add: size_op_num_def)

lemma body_same_size: "same_size (write_body e b) (size_body e b)"
proof (induction e b rule: write_body.induct)
  case (20 e rs)
  then show ?case by (simp add: multi_response_same_size)
next
  case (21 e rs)
  then show ?case by (simp add: multi_response_same_size)
qed (simp_all add: size_error_def)

text \<open>The bodies that a server can send: no response of a watch inside a \<open>Multi\<close>.\<close>

fun body_ok :: "response_body \<Rightarrow> bool" where
  "body_ok (MultiWriteBody rs) = (\<forall>r\<in>set rs. (response_getOpNum (resp_body r) \<noteq> None) \<and> body_ok (resp_body r))"
| "body_ok (MultiReadBody rs) = (\<forall>r\<in>set rs. (response_getOpNum (resp_body r) \<noteq> None) \<and> body_ok (resp_body r))"
| "body_ok _ = True"

lemma multi_response_write_total:
  assumes "\<And>r. r \<in> set rs \<Longrightarrow> opn r \<noteq> None \<and> (\<exists>bs. w r = Inr bs)"
  shows "\<exists>bs. multi_response_write (map (\<lambda>r. (e r, opn r, w r)) rs) = Inr bs"
  using assms
proof (induction rs)
  case (Cons r rs)
  then obtain bs op b where "multi_response_write (map (\<lambda>r. (e r, opn r, w r)) rs) = Inr bs" "opn r = Some op" "w r = Inr b"
    by fastforce
  then show ?case by simp
qed simp

lemma write_body_total: "body_ok b \<Longrightarrow> \<exists>bs. write_body e b = Inr bs"
proof (induction e b rule: write_body.induct)
  case (20 e rs)
  then show ?case by (simp add: multi_response_write_total)
next
  case (21 e rs)
  then show ?case by (simp add: multi_response_write_total)
qed simp_all

lemma frame_length:
  assumes "n = length bs" "n < 2 ^ 31"
  shows "read_int32 (write_int32 (int n) @ bs) = Inr (int (length bs), bs)"
  unfolding assms(1) by (rule read_int32_write) (use assms in \<open>simp add: int32_ok_def\<close>)

lemma write_response_cases:
  assumes "write_response u r = Inr bs"
  obtains body where "bs = write_int32 (int (length body)) @ body" "size_xid u + 12 \<le> length body"
proof -
  have "\<exists>body. bs = write_int32 (int (length body)) @ body \<and> size_xid u + 12 \<le> length body"
    using assms body_same_size [of "resp_error r" "resp_body r"]
    by (auto simp: write_response_def Let_def res_bind_Inr_iff same_size_def size_error_def algebra_simps split: if_splits sum.splits
        intro!: exI [of _ "drop 4 bs"])
  then show thesis using that by blast
qed

lemma write_message_frame:
  assumes "body_ok (resp_body r)"
  shows "\<exists>bs. write_response_message u r = Inr bs
    \<and> (bs = [] \<longleftrightarrow> resp_error r \<noteq> ZOK \<and> (\<exists>ty state p. resp_body r = WatchBody ty state p))
    \<and> (bs \<noteq> [] \<and> length bs < 2 ^ 31 \<longrightarrow> read_int32 bs = Inr (int (length bs) - 4, drop 4 bs))"
proof -
  obtain b where "write_body (resp_error r) (resp_body r) = Inr b"
    using write_body_total [OF assms] by blast
  moreover from this have "size_body (resp_error r) (resp_body r) = Inr (length b)"
    using body_same_size [of "resp_error r" "resp_body r"] by (simp add: same_size_def)
  ultimately have "\<exists>bs. write_response u r = Inr bs"
    by (cases "resp_error r = ZOK") (simp_all add: write_response_def Let_def)
  then obtain bs where bs: "write_response u r = Inr bs" ..
  then obtain body where body: "bs = write_int32 (int (length body)) @ body" "size_xid u + 12 \<le> length body"
    by (rule write_response_cases)
  have "read_int32 bs = Inr (int (length bs) - 4, drop 4 bs)" if "length bs < 2 ^ 31"
    using that frame_length [of "length body" body] by (simp add: body(1))
  moreover have "bs \<noteq> []" using body by auto
  ultimately show ?thesis
    using bs by (cases "resp_body r") (auto simp: write_response_message_def write_watch_response_def)
qed

text \<open>The length that is written in front of a request is the number of bytes that follow it, for every
  request and for both widths of the \<open>xid\<close>, as long as the message is shorter than two gigabytes.\<close>

lemma request_frame_exact:
  assumes "length (write_request_message u xid r) < 2 ^ 31"
  shows "read_int32 (write_request_message u xid r)
    = Inr (int (length (write_request_message u xid r)) - 4, drop 4 (write_request_message u xid r))"
proof -
  let ?body = "write_xid u xid @ write_op_num (getOpNum r) @ write_request r"
  have m: "write_request_message u xid r = write_int32 (int (length ?body)) @ ?body"
    by (simp add: write_request_message_def Let_def length_write_request size_op_num_def algebra_simps)
  then have "read_int32 (write_request_message u xid r) = Inr (int (length ?body), ?body)"
    using assms frame_length [of "length ?body" ?body] by simp
  with m show ?thesis by simp
qed

subsection \<open>Properties\<close>

text \<open>C23: the reader of requests ends on every input: it returns a request with a rest that is not longer than
  the input, or one of its exceptions, however the \<open>Multi\<close> requests are nested.\<close>

theorem reading_a_request_ends:
  "case read_request_from op inp of
     Inr (r, rest) \<Rightarrow> length rest \<le> length inp
   | Inl e \<Rightarrow> (\<forall>msg. e \<noteq> Diverges msg)"
  using read_request_from_ends [of inp op] by (auto simp: ends_well_def split: sum.splits)

end
