(* ===== verification/Keeper_Features.thy ===== *)
theory Keeper_Features
  imports Zk_Wire
begin

unbundle bit_operations_syntax

section \<open>Feature flags\<close>

text \<open>
  The optional operations of a server: \<open>KeeperFeatureFlags\<close> (\<open>src/src/Common/ZooKeeper/KeeperFeatureFlags.cpp\<close>), a
  string of bits, most significant bit first, that the server also stores in a system node; how
  \<open>KeeperContext\<close> (\<open>src/src/Coordination/KeeperContext.cpp\<close>) sets it up from the configuration, and
  \<open>isOperationSupported\<close>.
\<close>

datatype keeper_feature_flag = FILTERED_LIST | MULTI_READ | CHECK_NOT_EXISTS | CREATE_IF_NOT_EXISTS | REMOVE_RECURSIVE

fun flag_num :: "keeper_feature_flag \<Rightarrow> nat" where
  "flag_num FILTERED_LIST = 0"
| "flag_num MULTI_READ = 1"
| "flag_num CHECK_NOT_EXISTS = 2"
| "flag_num CREATE_IF_NOT_EXISTS = 3"
| "flag_num REMOVE_RECURSIVE = 4"

type_synonym feature_flags = "8 word list"

definition getByteAndBitIndex :: "nat \<Rightarrow> nat \<times> nat" where
  "getByteAndBitIndex num = (num div 8, 7 - num mod 8)"

definition new_flags :: feature_flags where
  "new_flags = replicate (fst (getByteAndBitIndex (5 - 1)) + 1) 0"

text \<open>A string may be read one place after its last character, where it has a zero.\<close>

definition isEnabled :: "feature_flags \<Rightarrow> keeper_feature_flag \<Rightarrow> bool" where
  "isEnabled flags f = (case getByteAndBitIndex (flag_num f) of (byte_idx, bit_idx) \<Rightarrow>
     if length flags < byte_idx then False else ((flags @ [0]) ! byte_idx) AND push_bit bit_idx 1 \<noteq> 0)"

definition enableFeatureFlag :: "feature_flags \<Rightarrow> keeper_feature_flag \<Rightarrow> feature_flags result" where
  "enableFeatureFlag flags f = (case getByteAndBitIndex (flag_num f) of (byte_idx, bit_idx) \<Rightarrow>
     if byte_idx < length flags then Inr (flags[byte_idx := (flags ! byte_idx) OR push_bit bit_idx 1])
     else Inl (Undefined ''write after the end of the flags''))"

definition disableFeatureFlag :: "feature_flags \<Rightarrow> keeper_feature_flag \<Rightarrow> feature_flags result" where
  "disableFeatureFlag flags f = (case getByteAndBitIndex (flag_num f) of (byte_idx, bit_idx) \<Rightarrow>
     if byte_idx < length flags then Inr (flags[byte_idx := (flags ! byte_idx) AND NOT (push_bit bit_idx 1)])
     else Inl (Undefined ''write after the end of the flags''))"

datatype keeper_api_version =
  ZOOKEEPER_COMPATIBLE | WITH_FILTERED_LIST | WITH_MULTI_READ | WITH_CHECK_NOT_EXISTS | WITH_REMOVE_RECURSIVE

fun api_version_num :: "keeper_api_version \<Rightarrow> nat" where
  "api_version_num ZOOKEEPER_COMPATIBLE = 0"
| "api_version_num WITH_FILTERED_LIST = 1"
| "api_version_num WITH_MULTI_READ = 2"
| "api_version_num WITH_CHECK_NOT_EXISTS = 3"
| "api_version_num WITH_REMOVE_RECURSIVE = 4"

definition fromApiVersion :: "keeper_api_version \<Rightarrow> feature_flags \<Rightarrow> feature_flags result" where
  "fromApiVersion v flags =
     (let enable_if = (\<lambda>from f flags. if api_version_num from \<le> api_version_num v then enableFeatureFlag flags f else Inr flags) in
      if v = ZOOKEEPER_COMPATIBLE then Inr flags
      else res_bind (enable_if WITH_FILTERED_LIST FILTERED_LIST flags) (\<lambda>flags1.
           res_bind (enable_if WITH_MULTI_READ MULTI_READ flags1) (\<lambda>flags2.
             enable_if WITH_CHECK_NOT_EXISTS CHECK_NOT_EXISTS flags2)))"

text \<open>The flags of \<open>KeeperContext\<close> and the system nodes that announce them.\<close>

record feature_context =
  fc_flags :: feature_flags
  fc_system_nodes :: "path \<Rightarrow> string option"

definition flags_node :: "feature_flags \<Rightarrow> string" where
  "flags_node flags = map char_of_byte flags"

definition new_feature_context :: "feature_context result" where
  "new_feature_context =
     res_bind (enableFeatureFlag new_flags FILTERED_LIST) (\<lambda>flags1.
     res_bind (enableFeatureFlag flags1 MULTI_READ) (\<lambda>flags2.
       Inr \<lparr>fc_flags = flags2,
            fc_system_nodes = [keeper_api_feature_flags_path \<mapsto> flags_node flags2, keeper_api_version_path \<mapsto> ''2'']\<rparr>))"

definition to_upper :: "char \<Rightarrow> char" where
  "to_upper c = (let n = of_char c :: nat in if 97 \<le> n \<and> n \<le> 122 then char_of (n - 32) else c)"

definition flag_of_name :: "string \<Rightarrow> keeper_feature_flag option" where
  "flag_of_name s = map_of
     [(''FILTERED_LIST'', FILTERED_LIST), (''MULTI_READ'', MULTI_READ), (''CHECK_NOT_EXISTS'', CHECK_NOT_EXISTS),
      (''CREATE_IF_NOT_EXISTS'', CREATE_IF_NOT_EXISTS), (''REMOVE_RECURSIVE'', REMOVE_RECURSIVE)] s"

definition configure_flag :: "string \<times> bool \<Rightarrow> feature_flags \<Rightarrow> feature_flags result" where
  "configure_flag kv flags = (case flag_of_name (map to_upper (fst kv)) of
       None \<Rightarrow> Inl (DbException ''Invalid feature flag defined in config for Keeper'')
     | Some f \<Rightarrow> if snd kv then enableFeatureFlag flags f else disableFeatureFlag flags f)"

text \<open>The argument is the section of the configuration with its keys in order, if there is one.\<close>

definition initializeFeatureFlags :: "(string \<times> bool) list option \<Rightarrow> feature_context \<Rightarrow> feature_context result" where
  "initializeFeatureFlags config fc = (case config of
       None \<Rightarrow> Inr fc
     | Some keys \<Rightarrow>
         res_bind (res_fold configure_flag keys (fc_flags fc)) (\<lambda>flags.
         res_bind (if isEnabled flags MULTI_READ then enableFeatureFlag flags FILTERED_LIST else Inr flags) (\<lambda>flags'.
           let nodes = (if isEnabled flags MULTI_READ then fc_system_nodes fc
                        else (fc_system_nodes fc)(keeper_api_version_path \<mapsto> ''0'')) in
           Inr (fc\<lparr>fc_flags := flags', fc_system_nodes := nodes(keeper_api_feature_flags_path \<mapsto> flags_node flags')\<rparr>))))"

fun isOperationSupported :: "feature_flags \<Rightarrow> op_num \<Rightarrow> bool" where
  "isOperationSupported flags OpFilteredList = isEnabled flags FILTERED_LIST"
| "isOperationSupported flags OpMultiRead = isEnabled flags MULTI_READ"
| "isOperationSupported flags OpCreateIfNotExists = isEnabled flags CREATE_IF_NOT_EXISTS"
| "isOperationSupported flags OpCheckNotExists = isEnabled flags CHECK_NOT_EXISTS"
| "isOperationSupported flags OpRemoveRecursive = isEnabled flags REMOVE_RECURSIVE"
| "isOperationSupported flags _ = True"

subsection \<open>A flag is a bit\<close>

definition flags_ok :: "feature_flags \<Rightarrow> bool" where "flags_ok flags \<longleftrightarrow> flags \<noteq> []"

lemma flag_num_less [simp]: "flag_num f < 8"
  by (cases f) simp_all

lemma flag_num_inject: "flag_num f = flag_num g \<longleftrightarrow> f = g"
  by (cases f; cases g) simp_all

lemma and_push_bit: "(w :: 8 word) AND 2 ^ i \<noteq> 0 \<longleftrightarrow> i < 8 \<and> bit w i"
proof -
  have "w AND 2 ^ i \<noteq> 0 \<longleftrightarrow> (\<exists>n < 8. bit (w AND 2 ^ i) n)"
    by (auto simp: bit_eq_iff dest: bit_imp_le_length)
  also have "\<dots> \<longleftrightarrow> i < 8 \<and> bit w i" by (auto simp: bit_simps)
  finally show ?thesis .
qed

lemma flag_bit_less [simp]: "7 - flag_num f < 8"
  by (cases f) simp_all

lemma isEnabled_bit: "flags_ok flags \<Longrightarrow> isEnabled flags f \<longleftrightarrow> bit (flags ! 0) (7 - flag_num f)"
  by (simp add: isEnabled_def getByteAndBitIndex_def flags_ok_def nth_append and_push_bit del: flag_num.simps)

lemma enable_bit:
  "flags_ok flags \<Longrightarrow> enableFeatureFlag flags f = Inr (flags[0 := set_bit (7 - flag_num f) (flags ! 0)])"
  by (simp add: enableFeatureFlag_def getByteAndBitIndex_def flags_ok_def set_bit_eq_or)

lemma disable_bit:
  "flags_ok flags \<Longrightarrow> disableFeatureFlag flags f = Inr (flags[0 := unset_bit (7 - flag_num f) (flags ! 0)])"
  by (simp add: disableFeatureFlag_def getByteAndBitIndex_def flags_ok_def unset_bit_eq_and_not)

lemma flag_bits_differ: "7 - flag_num f = 7 - flag_num g \<longleftrightarrow> f = g"
  by (cases f; cases g) simp_all

lemma enable_flag:
  assumes "flags_ok flags"
  obtains flags' where "enableFeatureFlag flags f = Inr flags'" "flags_ok flags'" "isEnabled flags' = (isEnabled flags)(f := True)"
proof
  let ?flags' = "flags[0 := set_bit (7 - flag_num f) (flags ! 0)]"
  show "enableFeatureFlag flags f = Inr ?flags'" using assms by (rule enable_bit)
  show ok: "flags_ok ?flags'" using assms by (simp add: flags_ok_def)
  show "isEnabled ?flags' = (isEnabled flags)(f := True)"
  proof
    fix g show "isEnabled ?flags' g = ((isEnabled flags)(f := True)) g"
      using assms isEnabled_bit [OF ok] isEnabled_bit [OF assms] flag_bits_differ [of f g]
      by (auto simp: flags_ok_def bit_simps)
  qed
qed

lemma disable_flag:
  assumes "flags_ok flags"
  obtains flags' where "disableFeatureFlag flags f = Inr flags'" "flags_ok flags'" "isEnabled flags' = (isEnabled flags)(f := False)"
proof
  let ?flags' = "flags[0 := unset_bit (7 - flag_num f) (flags ! 0)]"
  show "disableFeatureFlag flags f = Inr ?flags'" using assms by (rule disable_bit)
  show ok: "flags_ok ?flags'" using assms by (simp add: flags_ok_def)
  show "isEnabled ?flags' = (isEnabled flags)(f := False)"
  proof
    fix g show "isEnabled ?flags' g = ((isEnabled flags)(f := False)) g"
      using assms isEnabled_bit [OF ok] isEnabled_bit [OF assms] flag_bits_differ [of f g]
      by (auto simp: flags_ok_def bit_simps)
  qed
qed

lemma new_feature_context_flags:
  obtains fc where "new_feature_context = Inr fc" "flags_ok (fc_flags fc)"
    "isEnabled (fc_flags fc) = (\<lambda>f. f = FILTERED_LIST \<or> f = MULTI_READ)"
    "fc_system_nodes fc = [keeper_api_feature_flags_path \<mapsto> flags_node (fc_flags fc), keeper_api_version_path \<mapsto> ''2'']"
proof -
  have new: "flags_ok new_flags" "\<not> isEnabled new_flags f" for f
    by (simp_all add: flags_ok_def new_flags_def getByteAndBitIndex_def isEnabled_def)
  obtain f1 where f1: "enableFeatureFlag new_flags FILTERED_LIST = Inr f1" "flags_ok f1"
    "isEnabled f1 = (isEnabled new_flags)(FILTERED_LIST := True)" by (rule enable_flag [OF new(1)])
  obtain f2 where f2: "enableFeatureFlag f1 MULTI_READ = Inr f2" "flags_ok f2"
    "isEnabled f2 = (isEnabled f1)(MULTI_READ := True)" by (rule enable_flag [OF f1(2)])
  show thesis
    by (rule that [of "\<lparr>fc_flags = f2,
            fc_system_nodes = [keeper_api_feature_flags_path \<mapsto> flags_node f2, keeper_api_version_path \<mapsto> ''2'']\<rparr>"])
       (auto simp: new_feature_context_def f1 f2 new fun_eq_iff)
qed

text \<open>What a key of the configuration means for the set of enabled flags.\<close>

definition flag_effect :: "string \<times> bool \<Rightarrow> (keeper_feature_flag \<Rightarrow> bool) \<Rightarrow> keeper_feature_flag \<Rightarrow> bool" where
  "flag_effect kv F = (case flag_of_name (map to_upper (fst kv)) of Some f \<Rightarrow> F(f := snd kv) | None \<Rightarrow> F)"

definition known_flag :: "string \<times> bool \<Rightarrow> bool" where
  "known_flag kv \<longleftrightarrow> flag_of_name (map to_upper (fst kv)) \<noteq> None"

lemma configure_flags:
  assumes "flags_ok flags" "list_all known_flag keys"
  obtains flags' where "res_fold configure_flag keys flags = Inr flags'" "flags_ok flags'"
    "isEnabled flags' = fold flag_effect keys (isEnabled flags)"
  using assms
proof (induction keys arbitrary: flags thesis)
  case Nil
  then show ?case by simp
next
  case (Cons kv keys)
  then obtain f where f: "flag_of_name (map to_upper (fst kv)) = Some f" by (auto simp: known_flag_def)
  obtain flags1 where flags1: "configure_flag kv flags = Inr flags1" "flags_ok flags1" "isEnabled flags1 = (isEnabled flags)(f := snd kv)"
  proof (cases "snd kv")
    case True
    show thesis by (rule enable_flag [OF Cons.prems(2), of f], rule that) (simp_all add: configure_flag_def f True)
  next
    case False
    show thesis by (rule disable_flag [OF Cons.prems(2), of f], rule that) (simp_all add: configure_flag_def f False)
  qed
  obtain flags' where "res_fold configure_flag keys flags1 = Inr flags'" "flags_ok flags'"
    "isEnabled flags' = fold flag_effect keys (isEnabled flags1)"
    by (rule Cons.IH [OF _ flags1(2)]) (use Cons.prems(3) in simp_all)
  moreover have "flag_effect kv (isEnabled flags) = isEnabled flags1" by (simp add: flags1 flag_effect_def f)
  ultimately show ?case using Cons.prems(1) [of flags'] by (simp add: flags1(1))
qed

text \<open>C26: with a section of known flags in the configuration, the server starts with exactly the default flags
  changed by the keys in their order, and with filtered lists whenever it has \<open>MultiRead\<close>; the two system
  nodes announce these flags and the version of the interface that belongs to them.\<close>

theorem configured_flags:
  assumes "list_all known_flag keys"
  defines "F \<equiv> fold flag_effect keys (\<lambda>f. f = FILTERED_LIST \<or> f = MULTI_READ)"
  shows "\<exists>fc. res_bind new_feature_context (initializeFeatureFlags (Some keys)) = Inr fc
    \<and> isEnabled (fc_flags fc) = F(FILTERED_LIST := F FILTERED_LIST \<or> F MULTI_READ)
    \<and> fc_system_nodes fc keeper_api_feature_flags_path = Some (flags_node (fc_flags fc))
    \<and> fc_system_nodes fc keeper_api_version_path = Some (if F MULTI_READ then ''2'' else ''0'')"
proof -
  have paths: "keeper_api_feature_flags_path \<noteq> keeper_api_version_path"
    by (simp add: keeper_api_feature_flags_path_def keeper_api_version_path_def keeper_system_path_def)
  obtain fc where fc: "new_feature_context = Inr fc" "flags_ok (fc_flags fc)"
    "isEnabled (fc_flags fc) = (\<lambda>f. f = FILTERED_LIST \<or> f = MULTI_READ)"
    "fc_system_nodes fc = [keeper_api_feature_flags_path \<mapsto> flags_node (fc_flags fc), keeper_api_version_path \<mapsto> ''2'']"
    by (rule new_feature_context_flags)
  obtain flags where flags: "res_fold configure_flag keys (fc_flags fc) = Inr flags" "flags_ok flags" "isEnabled flags = F"
    by (rule configure_flags [OF fc(2) assms(1)]) (simp add: fc(3) F_def)
  obtain flags' where "enableFeatureFlag flags FILTERED_LIST = Inr flags'" "isEnabled flags' = F(FILTERED_LIST := True)"
    by (rule enable_flag [OF flags(2), of FILTERED_LIST]) (simp add: flags(3))
  then show ?thesis
    by (cases "F MULTI_READ") (auto simp: initializeFeatureFlags_def fc flags Let_def paths paths [symmetric] fun_eq_iff)
qed

theorem configured_flags_witness:
  "\<exists>fc. res_bind new_feature_context (initializeFeatureFlags (Some [(''multi_read'', False), (''remove_recursive'', True)])) = Inr fc
    \<and> isEnabled (fc_flags fc) = (\<lambda>f. f = FILTERED_LIST \<or> f = REMOVE_RECURSIVE)"
proof -
  let ?keys = "[(''multi_read'', False), (''remove_recursive'', True)]"
  have "list_all known_flag ?keys" by code_simp
  from configured_flags [OF this]
  obtain fc where fc: "res_bind new_feature_context (initializeFeatureFlags (Some ?keys)) = Inr fc"
    "isEnabled (fc_flags fc) = (fold flag_effect ?keys (\<lambda>f. f = FILTERED_LIST \<or> f = MULTI_READ))
       (FILTERED_LIST := fold flag_effect ?keys (\<lambda>f. f = FILTERED_LIST \<or> f = MULTI_READ) FILTERED_LIST
          \<or> fold flag_effect ?keys (\<lambda>f. f = FILTERED_LIST \<or> f = MULTI_READ) MULTI_READ)"
    by blast
  have names: "flag_of_name (map to_upper ''multi_read'') = Some MULTI_READ"
    "flag_of_name (map to_upper ''remove_recursive'') = Some REMOVE_RECURSIVE"
    by code_simp+
  have "isEnabled (fc_flags fc) = (\<lambda>f. f = FILTERED_LIST \<or> f = REMOVE_RECURSIVE)"
    unfolding fc(2) fun_eq_iff using names by (auto simp: flag_effect_def)
  with fc(1) show ?thesis by blast
qed

end
