(* ===== verification/Keeper_Connection.thy ===== *)
theory Keeper_Connection
  imports Zk_Response Keeper_Features
begin

section \<open>Connections\<close>

text \<open>
  How a client and a server open a connection and how the server reads a request: \<open>KeeperTCPHandler\<close>
  (\<open>src/src/Server/KeeperTCPHandler.cpp\<close>) and the handshake of the client
  (\<open>src/src/Common/ZooKeeper/ZooKeeperImpl.cpp\<close>). Time spans are microseconds. The comparison of a
  password with the configured authentication data and the session number that the dispatcher hands out are
  arguments. The bytes of a connection are not compressed here: compression wraps both buffers after the
  handshake.
\<close>

definition ZOOKEEPER_PROTOCOL_VERSION :: int where "ZOOKEEPER_PROTOCOL_VERSION = 0"
definition ZOOKEEPER_PROTOCOL_VERSION_WITH_COMPRESSION :: int where "ZOOKEEPER_PROTOCOL_VERSION_WITH_COMPRESSION = 10"
definition ZOOKEEPER_PROTOCOL_VERSION_WITH_XID_64 :: int where "ZOOKEEPER_PROTOCOL_VERSION_WITH_XID_64 = 11"
definition KEEPER_PROTOCOL_VERSION_CONNECTION_REJECT :: int where "KEEPER_PROTOCOL_VERSION_CONNECTION_REJECT = 42"
definition CLIENT_HANDSHAKE_LENGTH :: int where "CLIENT_HANDSHAKE_LENGTH = 44"
definition CLIENT_HANDSHAKE_LENGTH_WITH_READONLY :: int where "CLIENT_HANDSHAKE_LENGTH_WITH_READONLY = 45"
definition SERVER_HANDSHAKE_LENGTH :: int where "SERVER_HANDSHAKE_LENGTH = 36"
definition SERVER_HANDSHAKE_LENGTH_WITH_READONLY :: int where "SERVER_HANDSHAKE_LENGTH_WITH_READONLY = 37"
definition PASSWORD_LENGTH :: nat where "PASSWORD_LENGTH = 16"
definition DEFAULT_SESSION_TIMEOUT_MS :: int where "DEFAULT_SESSION_TIMEOUT_MS = 30000"
definition CLOSE_XID :: int where "CLOSE_XID = 2 ^ 31 - 1"
definition CLOSE_XID_64 :: int where "CLOSE_XID_64 = 2 ^ 63 - 1"

lemmas protocol_constants = ZOOKEEPER_PROTOCOL_VERSION_def ZOOKEEPER_PROTOCOL_VERSION_WITH_COMPRESSION_def
  ZOOKEEPER_PROTOCOL_VERSION_WITH_XID_64_def KEEPER_PROTOCOL_VERSION_CONNECTION_REJECT_def CLIENT_HANDSHAKE_LENGTH_def
  CLIENT_HANDSHAKE_LENGTH_WITH_READONLY_def SERVER_HANDSHAKE_LENGTH_def SERVER_HANDSHAKE_LENGTH_WITH_READONLY_def
  PASSWORD_LENGTH_def

subsection \<open>The handler of the server\<close>

text \<open>What the handler takes from the configuration of the server.\<close>

record server_settings =
  ss_use_xid_64 :: bool
  ss_min_session_timeout :: int
  ss_max_session_timeout :: int
  ss_auth_data :: "(string \<Rightarrow> bool) option"

record connection =
  conn_use_xid_64 :: bool
  conn_close_xid :: int
  conn_use_compression :: bool
  conn_session_timeout :: int
  conn_session_id :: int

definition new_connection :: connection where
  "new_connection = \<lparr>conn_use_xid_64 = False, conn_close_xid = CLOSE_XID, conn_use_compression = False,
     conn_session_timeout = 0, conn_session_id = -1\<rparr>"

definition isHandShake :: "int \<Rightarrow> bool" where
  "isHandShake handshake_length \<longleftrightarrow>
     handshake_length = CLIENT_HANDSHAKE_LENGTH \<or> handshake_length = CLIENT_HANDSHAKE_LENGTH_WITH_READONLY"

definition write_array :: "string \<Rightarrow> bytes" where
  "write_array s = write_int32 (int (length s)) @ map byte_of_char s"

definition read_array :: "nat \<Rightarrow> string reader" where
  "read_array n inp = res_bind (read_int32 inp) (\<lambda>(size, r1).
     if size \<noteq> int n then Inl (ZkException ''Unexpected array size while reading from ZooKeeper'')
     else res_bind (read_bytes n r1) (\<lambda>(bs, r2). Inr (map char_of_byte bs, r2)))"

definition trim_right_nul :: "string \<Rightarrow> string" where
  "trim_right_nul s = rev (dropWhile (\<lambda>c. c = CHR 0x00) (rev s))"

definition read_protocol_version :: "server_settings \<Rightarrow> connection \<Rightarrow> connection reader" where
  "read_protocol_version ss conn inp = res_bind (read_int32 inp) (\<lambda>(protocol_version, r1).
     if protocol_version \<noteq> ZOOKEEPER_PROTOCOL_VERSION
        \<and> protocol_version < ZOOKEEPER_PROTOCOL_VERSION_WITH_COMPRESSION
        \<and> protocol_version > ZOOKEEPER_PROTOCOL_VERSION_WITH_XID_64
     then Inl (DbException ''Unexpected protocol version'')
     else if protocol_version = ZOOKEEPER_PROTOCOL_VERSION_WITH_COMPRESSION
     then Inr (conn\<lparr>conn_use_compression := True\<rparr>, r1)
     else if ZOOKEEPER_PROTOCOL_VERSION_WITH_XID_64 \<le> protocol_version
     then if \<not> ss_use_xid_64 ss
          then Inl (DbException ''use_xid_64 is set to false while client has it enabled'')
          else res_bind (read_bool r1) (\<lambda>(use_compression, r2).
                 Inr (conn\<lparr>conn_close_xid := CLOSE_XID_64, conn_use_xid_64 := True, conn_use_compression := use_compression\<rparr>, r2))
     else Inr (conn, r1))"

text \<open>The product of the timeout and 1000 is one of two 32-bit integers.\<close>

definition receiveHandshake :: "server_settings \<Rightarrow> int \<Rightarrow> connection \<Rightarrow> (int \<times> connection) reader" where
  "receiveHandshake ss handshake_length conn inp =
     (if \<not> isHandShake handshake_length then Inl (DbException ''Unexpected handshake length received'')
      else res_bind (read_protocol_version ss conn inp) (\<lambda>(conn', r1).
        res_bind (read_int64 r1) (\<lambda>(last_zxid_seen, r2). res_bind (read_int32 r2) (\<lambda>(timeout_ms, r3).
        res_bind (read_int64 r3) (\<lambda>(previous_session_id, r4). res_bind (read_array PASSWORD_LENGTH r4) (\<lambda>(passwd, r5).
          if (case ss_auth_data ss of Some matches \<Rightarrow> \<not> matches (trim_right_nul passwd) | None \<Rightarrow> False)
          then Inl (DbException ''Wrong password specified, authentication failed'')
          else res_bind (if handshake_length = CLIENT_HANDSHAKE_LENGTH_WITH_READONLY
                         then res_bind (read_uint8 r5) (\<lambda>(readonly, r6). Inr r6) else Inr r5) (\<lambda>r6.
            if int32_ok (timeout_ms * 1000) then Inr ((timeout_ms * 1000, conn'), r6)
            else Inl (Undefined ''overflow of a signed integer''))))))))"

definition totalMilliseconds :: "int \<Rightarrow> int" where
  "totalMilliseconds span = (if span < 0 then - (- span div 1000) else span div 1000)"

definition negotiate_timeout :: "server_settings \<Rightarrow> int \<Rightarrow> int" where
  "negotiate_timeout ss client_timeout =
     (let timeout = (if totalMilliseconds client_timeout = 0 then DEFAULT_SESSION_TIMEOUT_MS * 1000 else client_timeout) in
      min (max timeout (ss_min_session_timeout ss)) (ss_max_session_timeout ss))"

definition sendHandshake :: "bool \<Rightarrow> connection \<Rightarrow> bytes" where
  "sendHandshake has_leader conn =
     write_int32 SERVER_HANDSHAKE_LENGTH
     @ write_int32 (if has_leader
         then (if conn_use_xid_64 conn then ZOOKEEPER_PROTOCOL_VERSION_WITH_XID_64
               else if conn_use_compression conn then ZOOKEEPER_PROTOCOL_VERSION_WITH_COMPRESSION
               else ZOOKEEPER_PROTOCOL_VERSION)
         else KEEPER_PROTOCOL_VERSION_CONNECTION_REJECT)
     @ write_int32 (totalMilliseconds (conn_session_timeout conn)) @ write_int64 (conn_session_id conn)
     @ write_array (replicate PASSWORD_LENGTH (CHR 0x00))"

text \<open>
  \<open>runImpl\<close> up to its loop. Exceptions of the header and of the handshake are caught and end the connection;
  undefined behaviour is not an exception.
\<close>

datatype opened =
    NoData
  | HeaderFailed
  | FourLetterCommand int
  | HandshakeFailed
  | Rejected bytes
  | Accepted connection bytes bytes

fun is_exception :: "failure \<Rightarrow> bool" where
  "is_exception (ZkException _) = True"
| "is_exception (DbException _) = True"
| "is_exception (LogicalError _) = True"
| "is_exception _ = False"

definition open_session :: "server_settings \<Rightarrow> bool \<Rightarrow> (int \<Rightarrow> int result) \<Rightarrow> connection \<Rightarrow> bytes \<Rightarrow> opened result" where
  "open_session ss server_active getSessionID conn rest =
     (if \<not> server_active then Inr (Rejected (sendHandshake False conn))
      else case getSessionID (totalMilliseconds (conn_session_timeout conn)) of
          Inl e \<Rightarrow> if is_exception e then Inr (Rejected (sendHandshake False conn)) else Inl e
        | Inr session_id \<Rightarrow>
            let conn' = conn\<lparr>conn_session_id := session_id\<rparr> in Inr (Accepted conn' (sendHandshake True conn') rest))"

definition open_connection :: "server_settings \<Rightarrow> bool \<Rightarrow> (int \<Rightarrow> int result) \<Rightarrow> bytes \<Rightarrow> opened result" where
  "open_connection ss server_active getSessionID inp =
     (if inp = [] then Inr NoData
      else case read_int32 inp of
          Inl e \<Rightarrow> Inr HeaderFailed
        | Inr (header, r1) \<Rightarrow>
            if \<not> isHandShake header then Inr (FourLetterCommand header)
            else case receiveHandshake ss header new_connection r1 of
                Inl e \<Rightarrow> if is_exception e then Inr HandshakeFailed else Inl e
              | Inr ((client_timeout, conn), r2) \<Rightarrow>
                  open_session ss server_active getSessionID
                    (conn\<lparr>conn_session_timeout := negotiate_timeout ss client_timeout\<rparr>) r2)"

text \<open>Reading a request; the validator is not called for a \<open>Multi\<close> itself.\<close>

definition request_validator :: "feature_flags \<Rightarrow> zk_request \<Rightarrow> unit result" where
  "request_validator flags r =
     (if isOperationSupported flags (getOpNum r) then Inr () else Inl (DbException ''Unsupported operation''))"

definition read_xid :: "bool \<Rightarrow> int reader" where
  "read_xid use_xid_64 = (if use_xid_64 then read_int64 else read_int32)"

definition receiveRequest :: "feature_flags \<Rightarrow> bool \<Rightarrow> (op_num \<times> int \<times> zk_request) reader" where
  "receiveRequest flags use_xid_64 inp =
     res_bind (read_int32 inp) (\<lambda>(length, r1). res_bind (read_xid use_xid_64 r1) (\<lambda>(xid, r2).
     res_bind (read_op_num r2) (\<lambda>(opnum, r3).
       if opnum = OpMulti \<or> opnum = OpMultiRead
       then res_bind (read_multi (request_validator flags) (Suc (List.length r3)) r3) (\<lambda>(rs, r4).
              Inr ((opnum, xid, MultiRequest (Some (if opnum = OpMultiRead then ReadOps else WriteOps)) rs), r4))
       else res_bind (read_simple opnum r3) (\<lambda>(request, r4).
            res_bind (request_validator flags request) (\<lambda>_. Inr ((opnum, xid, request), r4))))))"

subsection \<open>The handshake of the client\<close>

record client_args =
  ca_use_xid_64 :: bool
  ca_use_compression :: bool
  ca_session_timeout_ms :: int
  ca_password :: string

definition resize_string :: "nat \<Rightarrow> string \<Rightarrow> string" where
  "resize_string n s = take n s @ replicate (n - length s) (CHR 0x00)"

definition client_sendHandshake :: "client_args \<Rightarrow> bytes" where
  "client_sendHandshake args =
     write_int32 45
     @ (if ca_use_xid_64 args then write_int32 ZOOKEEPER_PROTOCOL_VERSION_WITH_XID_64 @ write_bool (ca_use_compression args)
        else if ca_use_compression args then write_int32 ZOOKEEPER_PROTOCOL_VERSION_WITH_COMPRESSION
        else write_int32 ZOOKEEPER_PROTOCOL_VERSION)
     @ write_int64 0 @ write_int32 (ca_session_timeout_ms args) @ write_int64 0
     @ write_string (resize_string PASSWORD_LENGTH (ca_password args)) @ write_bool True"

text \<open>The result is the session timeout that the client uses from now on and the number of the session.\<close>

definition client_receiveHandshake :: "client_args \<Rightarrow> (int \<times> int) reader" where
  "client_receiveHandshake args inp =
     res_bind (read_int32 inp) (\<lambda>(handshake_length, r1).
       if handshake_length \<noteq> SERVER_HANDSHAKE_LENGTH \<and> handshake_length \<noteq> SERVER_HANDSHAKE_LENGTH_WITH_READONLY
       then Inl (ZkException ''Unexpected handshake length received'')
       else res_bind (read_int32 r1) (\<lambda>(protocol_version_read, r2).
         if protocol_version_read = KEEPER_PROTOCOL_VERSION_CONNECTION_REJECT
         then Inl (ZkException ''Keeper server rejected the connection during the handshake'')
         else if ca_use_xid_64 args \<and> protocol_version_read < ZOOKEEPER_PROTOCOL_VERSION_WITH_XID_64
         then Inl (ZkException ''Unexpected protocol version with 64bit XID'')
         else if \<not> ca_use_xid_64 args \<and> ca_use_compression args
                 \<and> protocol_version_read \<noteq> ZOOKEEPER_PROTOCOL_VERSION_WITH_COMPRESSION
         then Inl (ZkException ''Unexpected protocol version with compression'')
         else if \<not> ca_use_xid_64 args \<and> \<not> ca_use_compression args \<and> protocol_version_read \<noteq> ZOOKEEPER_PROTOCOL_VERSION
         then Inl (ZkException ''Unexpected protocol version'')
         else res_bind (read_int32 r2) (\<lambda>(timeout, r3). res_bind (read_int64 r3) (\<lambda>(session_id, r4).
              res_bind (read_array PASSWORD_LENGTH r4) (\<lambda>(passwd, r5).
              res_bind (if handshake_length = SERVER_HANDSHAKE_LENGTH_WITH_READONLY
                        then res_bind (read_bool r5) (\<lambda>(read_only, r6). Inr r6) else Inr r5) (\<lambda>r6.
                Inr ((timeout, session_id), r6)))))))"

subsection \<open>A client and a server open a connection\<close>

lemma read_array_write [round_trip]: "length s = n \<Longrightarrow> n \<le> 2 ^ 28 \<Longrightarrow> read_array n (write_array s @ rest) = Inr (s, rest)"
  by (simp add: read_array_def write_array_def read_int32_write int32_ok_def comp_def)

lemma write_string_array: "write_string s = write_array s"
  by (simp add: write_string_def write_array_def)

lemma length_resize [simp]: "length (resize_string n s) = n"
  by (simp add: resize_string_def)

lemma dropWhile_replicate: "P c \<Longrightarrow> dropWhile P (replicate n c @ xs) = dropWhile P xs"
  by (induction n) simp_all

lemma trim_resize:
  assumes "length s \<le> n" "s = [] \<or> last s \<noteq> CHR 0x00"
  shows "trim_right_nul (resize_string n s) = s"
proof -
  have "trim_right_nul (resize_string n s) = rev (dropWhile (\<lambda>c. c = CHR 0x00) (rev s))"
    using assms(1) by (simp add: trim_right_nul_def resize_string_def dropWhile_replicate)
  also have "\<dots> = s" using assms(2) by (cases s rule: rev_cases) simp_all
  finally show ?thesis .
qed

text \<open>The connection that the arguments of the client ask for.\<close>

definition requested :: "client_args \<Rightarrow> connection" where
  "requested args = new_connection
     \<lparr>conn_use_xid_64 := ca_use_xid_64 args, conn_use_compression := ca_use_compression args,
      conn_close_xid := if ca_use_xid_64 args then CLOSE_XID_64 else CLOSE_XID\<rparr>"

definition password_accepted :: "server_settings \<Rightarrow> string \<Rightarrow> bool" where
  "password_accepted ss password \<longleftrightarrow> (case ss_auth_data ss of Some matches \<Rightarrow> matches password | None \<Rightarrow> True)"

definition args_ok :: "client_args \<Rightarrow> bool" where
  "args_ok args \<longleftrightarrow> int32_ok (ca_session_timeout_ms args) \<and> length (ca_password args) \<le> 16
     \<and> (ca_password args = [] \<or> last (ca_password args) \<noteq> CHR 0x00)"

lemma int32_ok_protocol [simp]: "int32_ok 10" "int32_ok 11" "int32_ok 36" "int32_ok 42" "int32_ok 45" "int32_ok 16"
  "int64_ok 0"
  by (simp_all add: int32_ok_def int64_ok_def)

definition client_version :: "client_args \<Rightarrow> bytes" where
  "client_version args =
     (if ca_use_xid_64 args then write_int32 ZOOKEEPER_PROTOCOL_VERSION_WITH_XID_64 @ write_bool (ca_use_compression args)
      else if ca_use_compression args then write_int32 ZOOKEEPER_PROTOCOL_VERSION_WITH_COMPRESSION
      else write_int32 ZOOKEEPER_PROTOCOL_VERSION)"

lemma read_protocol_version_client:
  assumes "ca_use_xid_64 args \<Longrightarrow> ss_use_xid_64 ss"
  shows "read_protocol_version ss new_connection (client_version args @ rest) = Inr (requested args, rest)"
  using assms by (auto simp: read_protocol_version_def client_version_def round_trip protocol_constants requested_def new_connection_def)

lemma read_flag_byte: "res_bind (read_uint8 (write_bool b @ rest)) (\<lambda>(readonly, r6). Inr r6) = Inr rest"
  by (simp add: read_uint8_def write_bool_def read_bytes_def)

lemma receiveHandshake_client:
  assumes args: "args_ok args" and xid: "ca_use_xid_64 args \<Longrightarrow> ss_use_xid_64 ss"
    and pw: "password_accepted ss (ca_password args)"
  shows "receiveHandshake ss 45 new_connection
      (client_version args @ write_int64 0 @ write_int32 (ca_session_timeout_ms args) @ write_int64 0
       @ write_string (resize_string PASSWORD_LENGTH (ca_password args)) @ write_bool True @ rest)
    = (if int32_ok (ca_session_timeout_ms args * 1000) then Inr ((ca_session_timeout_ms args * 1000, requested args), rest)
       else Inl (Undefined ''overflow of a signed integer''))"
proof -
  have "trim_right_nul (resize_string PASSWORD_LENGTH (ca_password args)) = ca_password args"
    by (rule trim_resize) (use args in \<open>auto simp: args_ok_def PASSWORD_LENGTH_def\<close>)
  moreover have "read_array PASSWORD_LENGTH (write_string (resize_string PASSWORD_LENGTH (ca_password args)) @ x)
      = Inr (resize_string PASSWORD_LENGTH (ca_password args), x)" for x
    unfolding write_string_array by (rule read_array_write) (simp_all add: PASSWORD_LENGTH_def)
  ultimately show ?thesis
    using args pw xid
    by (simp add: receiveHandshake_def isHandShake_def CLIENT_HANDSHAKE_LENGTH_WITH_READONLY_def round_trip read_flag_byte
        read_protocol_version_client args_ok_def password_accepted_def split: option.splits)
qed

lemma client_sendHandshake_split: "client_sendHandshake args =
    write_int32 45 @ client_version args @ write_int64 0 @ write_int32 (ca_session_timeout_ms args) @ write_int64 0
     @ write_string (resize_string PASSWORD_LENGTH (ca_password args)) @ write_bool True"
  by (simp add: client_sendHandshake_def client_version_def)

lemma open_connection_client:
  assumes "args_ok args" "ca_use_xid_64 args \<Longrightarrow> ss_use_xid_64 ss" "password_accepted ss (ca_password args)"
  shows "open_connection ss active getSessionID (client_sendHandshake args @ rest) =
    (if int32_ok (ca_session_timeout_ms args * 1000)
     then open_session ss active getSessionID
       ((requested args)\<lparr>conn_session_timeout := negotiate_timeout ss (ca_session_timeout_ms args * 1000)\<rparr>) rest
     else Inl (Undefined ''overflow of a signed integer''))"
proof -
  have "isHandShake 45" by (simp add: isHandShake_def CLIENT_HANDSHAKE_LENGTH_WITH_READONLY_def)
  then show ?thesis
    using receiveHandshake_client [OF assms]
    by (simp add: open_connection_def client_sendHandshake_split round_trip)
qed

lemma client_receives:
  assumes "conn_use_xid_64 conn = ca_use_xid_64 args" "conn_use_compression conn = ca_use_compression args"
    "int32_ok (totalMilliseconds (conn_session_timeout conn))" "int64_ok (conn_session_id conn)"
  shows "client_receiveHandshake args (sendHandshake True conn @ rest) =
    Inr ((totalMilliseconds (conn_session_timeout conn), conn_session_id conn), rest)"
  using assms
  by (auto simp: client_receiveHandshake_def sendHandshake_def protocol_constants round_trip)

lemma client_rejected:
  "client_receiveHandshake args (sendHandshake False conn @ rest) =
    Inl (ZkException ''Keeper server rejected the connection during the handshake'')"
  by (simp add: client_receiveHandshake_def sendHandshake_def protocol_constants round_trip)

lemma total_ms_ok: "0 \<le> t \<Longrightarrow> t < 2 ^ 31 * 1000 \<Longrightarrow> int32_ok (totalMilliseconds t)"
  using zdiv_mono1 [of t "2 ^ 31 * 1000 - 1" 1000] pos_imp_zdiv_nonneg_iff [of 1000 t]
  by (simp add: totalMilliseconds_def int32_ok_def)

text \<open>C18: a client whose password is accepted opens a connection with a server that is active. Both sides then
  agree on the width of the \<open>xid\<close>, on compression, on the session timeout, which lies between the limits of
  the server, and on the number of the session; the bytes after the handshake are left for what follows.\<close>

theorem handshake_agreement:
  assumes "args_ok args" "ca_use_xid_64 args \<longrightarrow> ss_use_xid_64 ss" "password_accepted ss (ca_password args)"
    and "int32_ok (ca_session_timeout_ms args * 1000)"
    and limits: "0 \<le> ss_min_session_timeout ss" "ss_min_session_timeout ss \<le> ss_max_session_timeout ss"
      "ss_max_session_timeout ss < 2 ^ 31 * 1000"
    and "\<forall>timeout. getSessionID timeout = Inr session_id" "int64_ok session_id"
  shows "\<exists>conn reply. open_connection ss True getSessionID (client_sendHandshake args @ rest) = Inr (Accepted conn reply rest)
    \<and> conn_use_xid_64 conn = ca_use_xid_64 args \<and> conn_use_compression conn = ca_use_compression args
    \<and> conn_session_id conn = session_id
    \<and> ss_min_session_timeout ss \<le> conn_session_timeout conn \<and> conn_session_timeout conn \<le> ss_max_session_timeout ss
    \<and> client_receiveHandshake args (reply @ rest') = Inr ((totalMilliseconds (conn_session_timeout conn), session_id), rest')"
proof -
  let ?timeout = "negotiate_timeout ss (ca_session_timeout_ms args * 1000)"
  let ?conn = "(requested args)\<lparr>conn_session_timeout := ?timeout, conn_session_id := session_id\<rparr>"
  have timeout: "ss_min_session_timeout ss \<le> ?timeout" "?timeout \<le> ss_max_session_timeout ss"
    using limits by (simp_all add: negotiate_timeout_def Let_def)
  then have "int32_ok (totalMilliseconds ?timeout)"
    using limits total_ms_ok [of ?timeout] by simp
  then have "client_receiveHandshake args (sendHandshake True ?conn @ rest')
      = Inr ((totalMilliseconds ?timeout, session_id), rest')"
    using client_receives [of ?conn args rest'] assms(9) by (simp add: requested_def)
  moreover have "open_connection ss True getSessionID (client_sendHandshake args @ rest) = Inr (Accepted ?conn (sendHandshake True ?conn) rest)"
    using assms by (simp add: open_connection_client open_session_def Let_def)
  ultimately show ?thesis using timeout
    by (intro exI [of _ ?conn] exI [of _ "sendHandshake True ?conn"]) (simp add: requested_def)
qed

theorem handshake_agreement_witness:
  "\<exists>conn reply. open_connection \<lparr>ss_use_xid_64 = True, ss_min_session_timeout = 10000000, ss_max_session_timeout = 100000000,
        ss_auth_data = Some (\<lambda>s. s = ''secret'')\<rparr> True (\<lambda>t. Inr 5)
      (client_sendHandshake \<lparr>ca_use_xid_64 = True, ca_use_compression = False, ca_session_timeout_ms = 30000, ca_password = ''secret''\<rparr> @ [])
      = Inr (Accepted conn reply []) \<and> conn_use_xid_64 conn \<and> conn_session_id conn = 5"
  using handshake_agreement [of "\<lparr>ca_use_xid_64 = True, ca_use_compression = False, ca_session_timeout_ms = 30000, ca_password = ''secret''\<rparr>"
      "\<lparr>ss_use_xid_64 = True, ss_min_session_timeout = 10000000, ss_max_session_timeout = 100000000,
        ss_auth_data = Some (\<lambda>s. s = ''secret'')\<rparr>" "\<lambda>t. Inr 5" 5 "[]" "[]"]
  by (auto simp: args_ok_def password_accepted_def int32_ok_def int64_ok_def)

text \<open>C34: a client that asks for a session timeout of more than 2147483 milliseconds makes the server multiply
  two signed integers whose product does not fit, although the server limits the timeout afterwards.\<close>

theorem long_timeout_overflows:
  assumes "args_ok args" "ca_use_xid_64 args \<longrightarrow> ss_use_xid_64 ss" "password_accepted ss (ca_password args)"
    and "2147483 < ca_session_timeout_ms args"
  shows "open_connection ss active getSessionID (client_sendHandshake args @ rest) = Inl (Undefined ''overflow of a signed integer'')"
  using assms by (simp add: open_connection_client int32_ok_def)

theorem long_timeout_overflows_witness:
  "open_connection \<lparr>ss_use_xid_64 = False, ss_min_session_timeout = 10000000, ss_max_session_timeout = 100000000, ss_auth_data = None\<rparr>
      True (\<lambda>t. Inr 5)
      (client_sendHandshake \<lparr>ca_use_xid_64 = False, ca_use_compression = False, ca_session_timeout_ms = 3600000, ca_password = []\<rparr> @ [])
   = Inl (Undefined ''overflow of a signed integer'')"
  by (rule long_timeout_overflows) (simp_all add: args_ok_def password_accepted_def int32_ok_def)



subsection \<open>Requests reach the server\<close>

text \<open>The requests that the handler admits: the validator sees a request or the subrequests of a \<open>Multi\<close>.\<close>

fun admitted :: "feature_flags \<Rightarrow> zk_request \<Rightarrow> bool" where
  "admitted flags (MultiRequest ty rs) = (\<forall>r\<in>set rs. isOperationSupported flags (getOpNum r))"
| "admitted flags r = isOperationSupported flags (getOpNum r)"

lemma getOpNum_received [simp]: "getOpNum (received r) = getOpNum r"
proof (cases r)
  case (MultiRequest ty rs)
  then show ?thesis by (simp add: getOpNum_multi del: getOpNum.simps)
qed simp_all

lemma read_int32_any: "\<exists>x. read_int32 (write_int32 i @ rest) = Inr (x, rest)"
  by (simp add: read_int32_def write_int32_def)

definition xid_ok :: "bool \<Rightarrow> int \<Rightarrow> bool" where
  "xid_ok use_xid_64 xid \<longleftrightarrow> (if use_xid_64 then int64_ok xid else int32_ok xid)"

lemma read_xid_write [round_trip]: "xid_ok u xid \<Longrightarrow> read_xid u (write_xid u xid @ rest) = Inr (xid, rest)"
  by (simp add: xid_ok_def read_xid_def write_xid_def round_trip)

lemma receiveRequest_message:
  assumes "xid_ok u xid"
  shows "receiveRequest flags u (write_request_message u xid r @ rest) =
    (if getOpNum r = OpMulti \<or> getOpNum r = OpMultiRead
     then res_bind (read_multi (request_validator flags) (Suc (length (write_request r @ rest))) (write_request r @ rest)) (\<lambda>(rs, r4).
            Inr ((getOpNum r, xid, MultiRequest (Some (if getOpNum r = OpMultiRead then ReadOps else WriteOps)) rs), r4))
     else res_bind (read_simple (getOpNum r) (write_request r @ rest)) (\<lambda>(request, r4).
          res_bind (request_validator flags request) (\<lambda>_. Inr ((getOpNum r, xid, request), r4))))"
proof -
  let ?size = "int (size_xid u + size_op_num (getOpNum r) + size_request r)"
  let ?body = "write_xid u xid @ write_op_num (getOpNum r) @ write_request r @ rest"
  obtain n where "read_int32 (write_int32 ?size @ ?body) = Inr (n, ?body)"
    using read_int32_any by blast
  moreover have "write_request_message u xid r @ rest = write_int32 ?size @ ?body"
    by (simp add: write_request_message_def Let_def)
  ultimately show ?thesis
    using assms by (simp add: receiveRequest_def round_trip del: read_multi.simps)
qed

lemma receiveRequest_multi:
  assumes "wire_ok (MultiRequest ty rs)"
  shows "read_multi (request_validator flags) (Suc (length (write_request (MultiRequest ty rs) @ rest)))
      (write_request (MultiRequest ty rs) @ rest) =
    (if admitted flags (MultiRequest ty rs) then Inr (map received rs, rest) else Inl (DbException ''Unsupported operation''))"
proof -
  have "read_multi (request_validator flags) (Suc (length (write_request (MultiRequest ty rs) @ rest)))
      (write_request (MultiRequest ty rs) @ rest) =
    (if \<forall>r\<in>set rs. isOperationSupported flags (getOpNum (received r)) then Inr (map received rs, rest)
     else Inl (DbException ''Unsupported operation''))"
    by (rule read_multi_write)
       (use assms in \<open>auto simp: request_validator_def intro: read_request_write simp del: write_request.simps\<close>)
  then show ?thesis by simp
qed

lemma receiveRequest_write:
  assumes r: "wire_ok r" and xid: "xid_ok u xid"
  shows "receiveRequest flags u (write_request_message u xid r @ rest) =
    (if admitted flags r then Inr ((getOpNum r, xid, received r), rest) else Inl (DbException ''Unsupported operation''))"
proof (cases "is_multi r")
  case True
  then obtain ty rs where m: "r = MultiRequest ty rs" by (cases r) simp_all
  show ?thesis
    unfolding receiveRequest_message [OF xid] unfolding m receiveRequest_multi [OF r [unfolded m]]
    by (simp add: getOpNum_multi del: getOpNum.simps admitted.simps)
next
  case False
  then have "admitted flags r = isOperationSupported flags (getOpNum r)" by (cases r) simp_all
  then show ?thesis
    using read_simple_write [OF r False, of rest] not_multi_op [OF False]
    by (simp add: receiveRequest_message [OF xid] request_validator_def)
qed

text \<open>C16: what a client writes as a request is what the server reads: the operation, the \<open>xid\<close> and the request
  with the fields that are not sent reset, and nothing of the bytes behind the message is consumed. A request
  that the validator does not admit is refused.\<close>

theorem request_transmitted:
  assumes "wire_ok r" "xid_ok u xid"
  shows "receiveRequest flags u (write_request_message u xid r @ rest) =
    (if admitted flags r then Inr ((getOpNum r, xid, received r), rest) else Inl (DbException ''Unsupported operation''))"
  using assms by (rule receiveRequest_write)

theorem request_transmitted_witness:
  "receiveRequest [0] False (write_request_message False 3 (MultiRequest (Some WriteOps) [SetRequest ''/a'' ''x'' 2, CheckRequest ''/b'' 1 False]) @ [7])
   = Inr ((OpMulti, 3, MultiRequest (Some WriteOps) [SetRequest ''/a'' ''x'' 2, CheckRequest ''/b'' 1 False]), [7])"
  using request_transmitted [of "MultiRequest (Some WriteOps) [SetRequest ''/a'' ''x'' 2, CheckRequest ''/b'' 1 False]" False 3 "[0]" "[7]"]
  by (simp add: string_ok_def xid_ok_def)

text \<open>The validator of a \<open>Multi\<close> sees exactly its direct subrequests.\<close>

lemma read_multi_validated:
  "read_multi v fuel inp = Inr (rs, rest) \<longleftrightarrow> read_multi no_validator fuel inp = Inr (rs, rest) \<and> (\<forall>r\<in>set rs. v r = Inr ())"
proof (induction fuel arbitrary: inp rs rest)
  case (Suc fuel)
  show ?case
  proof (cases "read_multi_header inp")
    case (Inr h)
    obtain op finished error r1 where h: "h = ((op, finished, error), r1)" by (cases h) auto
    show ?thesis
    proof (cases "read_request fuel op r1")
      case (Inl e)
      then show ?thesis using Inr by (cases finished) (auto simp: h)
    next
      case (Inr r)
      show ?thesis
      proof (cases "v (fst r)")
        case (Inr u)
        with \<open>read_multi_header inp = Inr h\<close> \<open>read_request fuel op r1 = Inr r\<close> show ?thesis
          by (cases finished; cases r; cases "snd r = []") (auto simp: h no_validator_def res_bind_Inr_iff Suc.IH)
      qed (use \<open>read_multi_header inp = Inr h\<close> \<open>read_request fuel op r1 = Inr r\<close> in
          \<open>cases finished; cases r; auto simp: h no_validator_def res_bind_Inr_iff\<close>)
    qed
  qed simp
qed simp

lemma read_simple_not_multi: "read_simple op inp = Inr (r, rest) \<Longrightarrow> \<not> is_multi r"
  by (cases op) (auto simp: create_read_def read_path_and_def res_bind_Inr_iff)

lemma res_bind_iff_and:
  "(\<And>a. (f a = Inr x) = (g a = Inr x \<and> P)) \<Longrightarrow> (res_bind m f = Inr x) = (res_bind m g = Inr x \<and> P)"
  by (cases m) auto

definition all_features :: feature_flags where "all_features = [255]"

lemma all_features_supported [simp]: "isOperationSupported all_features op"
  by (cases op) (simp_all add: all_features_def isEnabled_def getByteAndBitIndex_def)

text \<open>\<open>receiveRequest\<close> after the numbers in front of the request.\<close>

definition receive_body :: "feature_flags \<Rightarrow> op_num \<Rightarrow> int \<Rightarrow> (op_num \<times> int \<times> zk_request) reader" where
  "receive_body flags opnum xid r3 =
     (if opnum = OpMulti \<or> opnum = OpMultiRead
      then res_bind (read_multi (request_validator flags) (Suc (length r3)) r3) (\<lambda>(rs, r4).
             Inr ((opnum, xid, MultiRequest (Some (if opnum = OpMultiRead then ReadOps else WriteOps)) rs), r4))
      else res_bind (read_simple opnum r3) (\<lambda>(request, r4).
           res_bind (request_validator flags request) (\<lambda>_. Inr ((opnum, xid, request), r4))))"

lemma receiveRequest_body: "receiveRequest flags u inp =
    res_bind (read_int32 inp) (\<lambda>(length, r1). res_bind (read_xid u r1) (\<lambda>(xid, r2). res_bind (read_op_num r2) (\<lambda>(opnum, r3).
      receive_body flags opnum xid r3)))"
  by (simp only: receiveRequest_def receive_body_def)

lemma receive_body_multi:
  "receive_body flags opnum x r3 = Inr ((op, xid, MultiRequest ty rs), rest) \<longleftrightarrow>
     (opnum = OpMulti \<or> opnum = OpMultiRead) \<and> opnum = op \<and> x = xid \<and> ty = Some (if opnum = OpMultiRead then ReadOps else WriteOps)
     \<and> read_multi no_validator (Suc (length r3)) r3 = Inr (rs, rest) \<and> (\<forall>r\<in>set rs. isOperationSupported flags (getOpNum r))"
proof -
  have valid: "request_validator flags r = Inr () \<longleftrightarrow> isOperationSupported flags (getOpNum r)" for r by (simp add: request_validator_def)
  have simple: "read_simple opnum r3 \<noteq> Inr (MultiRequest ty rs, r4)" for r4 using read_simple_not_multi by fastforce
  show ?thesis
    unfolding receive_body_def
    by (auto simp: res_bind_Inr_iff read_multi_validated [of "request_validator flags"] valid simple simp del: read_multi.simps)
qed

text \<open>C32: the validation of a \<open>Multi\<close> goes one level deep. Whatever bytes a client sends, they are admitted as a
  \<open>Multi\<close> or a \<open>MultiRead\<close> exactly when a server with all features admits them and the server supports the operations
  of the direct subrequests: the feature of the \<open>MultiRead\<close> itself is not asked for, nor are those of the
  operations in a \<open>Multi\<close> inside it.\<close>

theorem multi_validated_one_level:
  "receiveRequest flags u inp = Inr ((op, xid, MultiRequest ty rs), rest)
     \<longleftrightarrow> receiveRequest all_features u inp = Inr ((op, xid, MultiRequest ty rs), rest)
        \<and> (\<forall>r\<in>set rs. isOperationSupported flags (getOpNum r))"
proof -
  have "receive_body flags opnum x r3 = Inr ((op, xid, MultiRequest ty rs), rest)
      \<longleftrightarrow> receive_body all_features opnum x r3 = Inr ((op, xid, MultiRequest ty rs), rest)
        \<and> (\<forall>r\<in>set rs. isOperationSupported flags (getOpNum r))" for opnum x r3
    by (auto simp: receive_body_multi)
  then show ?thesis unfolding receiveRequest_body by (auto intro!: res_bind_iff_and)
qed

theorem multi_validated_one_level_witness:
  "\<not> isOperationSupported [0] OpMultiRead \<and> \<not> isOperationSupported [0] OpRemoveRecursive
   \<and> receiveRequest [0] False (write_request_message False 1 (MultiRequest (Some ReadOps) [MultiRequest (Some WriteOps) [RemoveRecursiveRequest ''/a'' 1 False]]))
     = Inr ((OpMultiRead, 1, MultiRequest (Some ReadOps) [MultiRequest (Some WriteOps) [RemoveRecursiveRequest ''/a'' 1 False]]), [])"
proof -
  let ?r = "MultiRequest (Some ReadOps) [MultiRequest (Some WriteOps) [RemoveRecursiveRequest ''/a'' 1 False]]"
  have "receiveRequest all_features False (write_request_message False 1 ?r) = Inr ((OpMultiRead, 1, ?r), [])"
    using receiveRequest_write [of ?r False 1 all_features "[]"] by (simp add: string_ok_def xid_ok_def)
  with multi_validated_one_level [of "[0]" False "write_request_message False 1 ?r" OpMultiRead 1 "Some ReadOps"
      "[MultiRequest (Some WriteOps) [RemoveRecursiveRequest ''/a'' 1 False]]" "[]"]
  show ?thesis by (simp add: isEnabled_def getByteAndBitIndex_def)
qed

end
