(* ===== verification/Log_Entry.thy ===== *)
theory Log_Entry
  imports Keeper_Connection
begin

section \<open>Log entries\<close>

text \<open>
  The entries of the replicated log: \<open>getZooKeeperLogEntry\<close> and \<open>parseRequest\<close> of
  \<open>src/src/Coordination/KeeperStateMachine.cpp\<close> with the cache of parsed requests, and the callback
  \<open>PreAppendLogLeader\<close> of \<open>src/src/Coordination/KeeperServer.cpp\<close>, with which the leader writes the number of the
  transaction and the digest into an entry. \<open>writeIntBinary\<close> writes the bytes of the machine, which is
  little-endian. The clock and the contents of freshly allocated memory are arguments.
\<close>

definition native_bytes :: "nat \<Rightarrow> int \<Rightarrow> bytes" where "native_bytes n i = rev (be_bytes n i)"

definition read_native :: "nat \<Rightarrow> int reader" where
  "read_native n inp = res_bind (read_bytes n inp) (\<lambda>(bs, rest). Inr (be_value (rev bs), rest))"

definition read_native_int64 :: "int reader" where
  "read_native_int64 inp = res_bind (read_native 8 inp) (\<lambda>(i, rest). Inr (signed_take_bit 63 i, rest))"

text \<open>The version is a byte and the value a 64-bit word.\<close>

record log_digest =
  ld_version :: int
  ld_value :: int

record log_request =
  lr_session_id :: int
  lr_time :: int
  lr_request :: zk_request
  lr_xid :: int
  lr_zxid :: int
  lr_digest :: "log_digest option"
  lr_use_xid_64 :: bool

definition xid_lower :: "int \<Rightarrow> int" where "xid_lower xid = xid mod 2 ^ 32"
definition xid_upper :: "int \<Rightarrow> int" where "xid_upper xid = xid div 2 ^ 32 mod 2 ^ 32"
definition xid_join :: "int \<Rightarrow> int \<Rightarrow> int" where "xid_join lower upper = signed_take_bit 63 (upper * 2 ^ 32 + lower)"

definition getZooKeeperLogEntry :: "log_request \<Rightarrow> bytes" where
  "getZooKeeperLogEntry rfs =
     (let request = lr_request rfs; request_size = 4 + size_op_num (getOpNum request) + size_request request in
      native_bytes 8 (lr_session_id rfs)
      @ write_int32 (int request_size)
      @ (if lr_use_xid_64 rfs then write_int32 (xid_lower (lr_xid rfs)) else write_int32 (lr_xid rfs))
      @ write_op_num (getOpNum request) @ write_request request
      @ native_bytes 8 (lr_time rfs) @ native_bytes 8 0 @ native_bytes 1 0 @ native_bytes 8 0
      @ (if lr_use_xid_64 rfs then write_int32 (xid_upper (lr_xid rfs)) else []))"

datatype log_version = INITIAL | WITH_TIME | WITH_ZXID_DIGEST | WITH_XID_64

fun log_version_num :: "log_version \<Rightarrow> nat" where
  "log_version_num INITIAL = 0"
| "log_version_num WITH_TIME = 1"
| "log_version_num WITH_ZXID_DIGEST = 2"
| "log_version_num WITH_XID_64 = 3"

text \<open>What follows the request in an entry; older servers wrote less of it.\<close>

record log_trailer =
  tr_version :: log_version
  tr_time :: int
  tr_zxid :: int
  tr_digest :: "log_digest option"
  tr_xid :: int

definition read_digest :: "log_digest reader" where
  "read_digest inp = res_bind (read_native 1 inp) (\<lambda>(version, r1).
     if version \<noteq> 0 \<or> r1 \<noteq> []
     then res_bind (read_native 8 r1) (\<lambda>(value, r2). Inr (\<lparr>ld_version = version, ld_value = value\<rparr>, r2))
     else Inr (\<lparr>ld_version = version, ld_value = 0\<rparr>, r1))"

definition read_trailer :: "int \<Rightarrow> int \<Rightarrow> log_trailer reader" where
  "read_trailer now lower inp =
     res_bind (if inp \<noteq> [] then res_bind (read_native_int64 inp) (\<lambda>(time, r1). Inr ((WITH_TIME, time), r1))
               else Inr ((INITIAL, now), inp)) (\<lambda>((version1, time), r1).
     res_bind (if r1 \<noteq> [] then res_bind (read_native_int64 r1) (\<lambda>(zxid, r2). res_bind (read_digest r2) (\<lambda>(digest, r3).
                                Inr ((WITH_ZXID_DIGEST, zxid, Some digest), r3)))
               else Inr ((version1, 0, None), r1)) (\<lambda>((version2, zxid, digest), r2).
     res_bind (if r2 \<noteq> [] then res_bind (read_uint32 r2) (\<lambda>(upper, r3). Inr ((WITH_XID_64, xid_join lower upper), r3))
               else Inr ((version2, signed_take_bit 31 lower), r2)) (\<lambda>((version3, xid), r3).
       Inr (\<lparr>tr_version = version3, tr_time = time, tr_zxid = zxid, tr_digest = digest, tr_xid = xid\<rparr>, r3))))"

text \<open>The position is that of a buffer in memory, with an exception for a position outside of it.\<close>

definition seek :: "int \<Rightarrow> bytes \<Rightarrow> nat result" where
  "seek pos data = (if 0 \<le> pos \<and> pos \<le> int (length data) then Inr (nat pos) else Inl (DbException ''Seek position is out of bounds''))"

record parsed_head =
  ph_session_id :: int
  ph_trailer :: log_trailer
  ph_request_end_position :: nat

definition parse_head :: "int \<Rightarrow> bytes \<Rightarrow> parsed_head result" where
  "parse_head now data =
     res_bind (read_native_int64 data) (\<lambda>(session_id, r1). res_bind (read_int32 r1) (\<lambda>(len, r2).
     res_bind (read_uint32 r2) (\<lambda>(lower, r3).
     res_bind (seek (int (length data - length r3) + (len - 4)) data) (\<lambda>end_position.
     res_bind (read_trailer now lower (drop end_position data)) (\<lambda>(trailer, r4).
       Inr \<lparr>ph_session_id = session_id, ph_trailer = trailer, ph_request_end_position = end_position\<rparr>)))))"

definition PING_XID :: int where "PING_XID = -2"
definition AUTH_XID :: int where "AUTH_XID = -4"

definition non_cacheable_xids :: "int list" where
  "non_cacheable_xids = [WATCH_XID, PING_XID, AUTH_XID, CLOSE_XID, CLOSE_XID_64]"

type_synonym request_cache = "int \<Rightarrow> int \<Rightarrow> log_request option"

definition should_cache :: "nat \<Rightarrow> bytes \<Rightarrow> int \<Rightarrow> int \<Rightarrow> bool" where
  "should_cache min_request_size_to_cache data session_id xid \<longleftrightarrow>
     min_request_size_to_cache \<noteq> 0 \<and> session_id \<noteq> -1 \<and> min_request_size_to_cache \<le> length data
     \<and> list_all (\<lambda>x. xid \<noteq> x) non_cacheable_xids"

definition cache_erase :: "int \<Rightarrow> int \<Rightarrow> request_cache \<Rightarrow> request_cache" where
  "cache_erase session_id xid cache = cache(session_id := (cache session_id)(xid := None))"

text \<open>\<open>emplace\<close> keeps an existing entry.\<close>

definition cache_emplace :: "log_request \<Rightarrow> request_cache \<Rightarrow> request_cache" where
  "cache_emplace rfs cache =
     (if cache (lr_session_id rfs) (lr_xid rfs) = None
      then cache(lr_session_id rfs := (cache (lr_session_id rfs))(lr_xid rfs \<mapsto> rfs)) else cache)"

text \<open>Committing a \<open>Close\<close> request drops the requests of the session.\<close>

definition cache_close_session :: "int \<Rightarrow> request_cache \<Rightarrow> request_cache" where
  "cache_close_session session_id cache = cache(session_id := (\<lambda>_. None))"

definition parse_body :: "parsed_head \<Rightarrow> bytes \<Rightarrow> log_request result" where
  "parse_body head data =
     res_bind (read_op_num (drop 16 data)) (\<lambda>(opnum, r1). res_bind (read_request_from opnum r1) (\<lambda>(request, r2).
       Inr \<lparr>lr_session_id = ph_session_id head, lr_time = tr_time (ph_trailer head), lr_request = request,
            lr_xid = tr_xid (ph_trailer head), lr_zxid = tr_zxid (ph_trailer head), lr_digest = tr_digest (ph_trailer head),
            lr_use_xid_64 = False\<rparr>))"

text \<open>
  The cache holds shared pointers. A request that \<open>parseRequest\<close> has found in the cache, or has put into it, is the
  object of the cache: \<open>pe_shared\<close> is its place there, and an assignment to the object changes the entry at this
  place too. Requests that are not cached, and requests that are taken out of the cache, belong to the caller alone.
\<close>

record parsed_entry =
  pe_request :: log_request
  pe_version :: log_version
  pe_request_end_position :: nat
  pe_cache :: request_cache
  pe_shared :: "(int \<times> int) option"

definition parseRequest :: "nat \<Rightarrow> int \<Rightarrow> bool \<Rightarrow> bytes \<Rightarrow> request_cache \<Rightarrow> parsed_entry result" where
  "parseRequest min_request_size_to_cache now final data cache =
     res_bind (parse_head now data) (\<lambda>head.
       let session_id = ph_session_id head; xid = tr_xid (ph_trailer head);
           caching = should_cache min_request_size_to_cache data session_id xid;
           result = (\<lambda>rfs cache. \<lparr>pe_request = rfs, pe_version = tr_version (ph_trailer head),
                                  pe_request_end_position = ph_request_end_position head, pe_cache = cache,
                                  pe_shared = (if caching \<and> \<not> final then Some (session_id, xid) else None)\<rparr>) in
       case (if caching then cache session_id xid else None) of
         Some rfs \<Rightarrow> Inr (result rfs (if final then cache_erase session_id xid cache else cache))
       | None \<Rightarrow> res_bind (parse_body head data) (\<lambda>rfs.
                   Inr (result rfs (if caching \<and> \<not> final then cache_emplace rfs cache else cache))))"


text \<open>
  What the leader does with an entry after preprocessing it: it writes the number of the transaction and the
  digest after the time, and appends the fields that an old entry does not have.
\<close>

definition overwrite :: "nat \<Rightarrow> bytes \<Rightarrow> bytes \<Rightarrow> bytes" where
  "overwrite pos bs data = take pos data @ bs @ drop (pos + length bs) data"

definition bytes_missing :: "log_version \<Rightarrow> nat" where
  "bytes_missing version = (if log_version_num version < log_version_num WITH_TIME then 8 else 0)
     + (if log_version_num version < log_version_num WITH_ZXID_DIGEST then 8 + 1 + 8 else 0)"

definition leader_fields :: "log_version \<Rightarrow> int \<Rightarrow> int \<Rightarrow> log_digest \<Rightarrow> bytes" where
  "leader_fields version time zxid digest =
     (if log_version_num version < log_version_num WITH_TIME then native_bytes 8 time else [])
     @ native_bytes 8 zxid @ native_bytes 1 (ld_version digest)
     @ (if ld_version digest \<noteq> 0 then native_bytes 8 (ld_value digest) else [])"

definition preAppendLogLeader :: "(nat \<Rightarrow> 8 word) \<Rightarrow> log_version \<Rightarrow> nat \<Rightarrow> int \<Rightarrow> int \<Rightarrow> log_digest \<Rightarrow> bytes \<Rightarrow> bytes" where
  "preAppendLogLeader memory version request_end_position time zxid digest data =
     (let grown = data @ map memory [0..<bytes_missing version];
          pos = (if log_version_num version < log_version_num WITH_TIME then request_end_position else request_end_position + 8) in
      overwrite pos (leader_fields version time zxid digest) grown)"





subsection \<open>Reading back an entry\<close>

lemma length_native_bytes [simp]: "length (native_bytes n i) = n"
  by (simp add: native_bytes_def)

lemma native_bytes_nonempty [simp]: "native_bytes 8 i \<noteq> []"
  using length_native_bytes [of 8 i] by force

lemma read_native_write: "read_native n (native_bytes n i @ rest) = Inr (i mod 256 ^ n, rest)"
  by (simp add: read_native_def) (simp add: native_bytes_def be_value_be_bytes)

lemma read_native_int64_write [round_trip]: "int64_ok i \<Longrightarrow> read_native_int64 (native_bytes 8 i @ rest) = Inr (i, rest)"
  using signed_mod [of 63 i] by (simp add: read_native_int64_def read_native_write int64_ok_def)

lemma read_uint32_any: "read_uint32 (write_int32 i @ rest) = Inr (i mod 2 ^ 32, rest)"
  by (simp add: read_uint32_def write_int32_def be_value_be_bytes)

lemma xid_join_split: "int64_ok xid \<Longrightarrow> xid_join (xid_lower xid) (xid_upper xid) = xid"
proof -
  assume ok: "int64_ok xid"
  have "xid mod (2 ^ 32 * 2 ^ 32) = 2 ^ 32 * (xid div 2 ^ 32 mod 2 ^ 32) + xid mod 2 ^ 32"
    by (rule zmod_zmult2_eq) simp
  then have "xid_join (xid_lower xid) (xid_upper xid) = signed_take_bit 63 (xid mod 2 ^ Suc 63)"
    by (simp add: xid_join_def xid_lower_def xid_upper_def algebra_simps)
  then show ?thesis using ok signed_mod [of 63 xid] by (simp add: int64_ok_def)
qed

lemma xid_narrow: "int32_ok xid \<Longrightarrow> signed_take_bit 31 (xid mod 2 ^ 32) = xid"
  using signed_mod [of 31 xid] by (simp add: int32_ok_def)

text \<open>The layout of an entry: the head, the request and a trailer.\<close>

definition request_bytes :: "zk_request \<Rightarrow> bytes" where
  "request_bytes r = write_op_num (getOpNum r) @ write_request r"

definition entry_head :: "int \<Rightarrow> int \<Rightarrow> zk_request \<Rightarrow> bytes" where
  "entry_head session_id lower r =
     native_bytes 8 session_id @ write_int32 (int (4 + length (request_bytes r))) @ write_int32 lower @ request_bytes r"

definition digest_bytes :: "int \<Rightarrow> log_digest \<Rightarrow> bytes" where
  "digest_bytes zxid d = native_bytes 8 zxid @ native_bytes 1 (ld_version d) @ native_bytes 8 (ld_value d)"

definition upper_bytes :: "bool \<Rightarrow> int \<Rightarrow> bytes" where
  "upper_bytes use_xid_64 xid = (if use_xid_64 then write_int32 (xid_upper xid) else [])"

definition lower_part :: "bool \<Rightarrow> int \<Rightarrow> int" where
  "lower_part use_xid_64 xid = (if use_xid_64 then xid_lower xid else xid)"

definition entry_bytes :: "log_request \<Rightarrow> int \<Rightarrow> log_digest \<Rightarrow> bytes" where
  "entry_bytes rfs zxid d =
     entry_head (lr_session_id rfs) (lower_part (lr_use_xid_64 rfs) (lr_xid rfs)) (lr_request rfs)
     @ native_bytes 8 (lr_time rfs) @ digest_bytes zxid d @ upper_bytes (lr_use_xid_64 rfs) (lr_xid rfs)"

lemma getZooKeeperLogEntry_bytes: "getZooKeeperLogEntry rfs = entry_bytes rfs 0 \<lparr>ld_version = 0, ld_value = 0\<rparr>"
  by (simp add: getZooKeeperLogEntry_def entry_bytes_def entry_head_def digest_bytes_def upper_bytes_def lower_part_def request_bytes_def
      Let_def length_write_request size_op_num_def)

lemma length_entry_head [simp]: "length (entry_head sid lo r) = 16 + length (request_bytes r)"
  by (simp add: entry_head_def)

lemma parse_head_layout:
  assumes "int64_ok sid" "length (request_bytes r) < 2 ^ 30"
  shows "parse_head now (entry_head sid lo r @ tr) =
    res_bind (read_trailer now (lo mod 2 ^ 32) tr) (\<lambda>(t, _).
      Inr \<lparr>ph_session_id = sid, ph_trailer = t, ph_request_end_position = 16 + length (request_bytes r)\<rparr>)"
proof -
  let ?n = "length (request_bytes r)"
  have "int32_ok (int (4 + ?n))" using assms(2) by (simp add: int32_ok_def)
  moreover have "drop (16 + ?n) (entry_head sid lo r @ tr) = tr" by simp
  ultimately show ?thesis
    using assms
    by (simp add: parse_head_def entry_head_def round_trip read_uint32_any seek_def nat_add_distrib
        del: drop_append)
qed

lemma parse_body_layout:
  assumes "wire_ok r"
  shows "parse_body head (entry_head sid lo r @ tr) =
    Inr \<lparr>lr_session_id = ph_session_id head, lr_time = tr_time (ph_trailer head), lr_request = received r,
         lr_xid = tr_xid (ph_trailer head), lr_zxid = tr_zxid (ph_trailer head), lr_digest = tr_digest (ph_trailer head),
         lr_use_xid_64 = False\<rparr>"
proof -
  have "drop 16 (entry_head sid lo r @ tr) = write_op_num (getOpNum r) @ write_request r @ tr"
    by (simp add: entry_head_def request_bytes_def)
  then show ?thesis by (simp add: parse_body_def round_trip read_request_from_write [OF assms])
qed

definition digest_ok :: "log_digest \<Rightarrow> bool" where
  "digest_ok d \<longleftrightarrow> 0 \<le> ld_version d \<and> ld_version d < 256 \<and> 0 \<le> ld_value d \<and> ld_value d < 2 ^ 64"

lemma read_digest_write:
  assumes "digest_ok d"
  shows "read_digest (native_bytes 1 (ld_version d) @ native_bytes 8 (ld_value d) @ rest) = Inr (d, rest)"
  using assms by (simp add: read_digest_def read_native_write digest_ok_def del: One_nat_def)

lemma read_trailer_full:
  assumes "int64_ok time" "int64_ok zxid" "digest_ok d"
  shows "read_trailer now lo (native_bytes 8 time @ digest_bytes zxid d @ up) =
    res_bind (if up \<noteq> [] then res_bind (read_uint32 up) (\<lambda>(upper, r3). Inr ((WITH_XID_64, xid_join lo upper), r3))
              else Inr ((WITH_ZXID_DIGEST, signed_take_bit 31 lo), up)) (\<lambda>((version, xid), r3).
      Inr (\<lparr>tr_version = version, tr_time = time, tr_zxid = zxid, tr_digest = Some d, tr_xid = xid\<rparr>, r3))"
  using assms read_digest_write [of d "[]", unfolded append_Nil2]
  by (cases "up = []") (simp_all add: read_trailer_def digest_bytes_def round_trip read_digest_write del: One_nat_def)

definition entry_version :: "bool \<Rightarrow> log_version" where
  "entry_version use_xid_64 = (if use_xid_64 then WITH_XID_64 else WITH_ZXID_DIGEST)"

lemma read_trailer_entry:
  assumes "int64_ok time" "int64_ok zxid" "digest_ok d" "xid_ok u xid"
  shows "\<exists>rest. read_trailer now (lower_part u xid mod 2 ^ 32) (native_bytes 8 time @ digest_bytes zxid d @ upper_bytes u xid) =
    Inr (\<lparr>tr_version = entry_version u, tr_time = time, tr_zxid = zxid, tr_digest = Some d, tr_xid = xid\<rparr>, rest)"
proof (cases u)
  case True
  have "write_int32 (xid_upper xid) \<noteq> []" using length_header(2) [of "xid_upper xid"] by force
  then show ?thesis
    using True assms read_uint32_any [of "xid_upper xid" "[]"] xid_join_split [of xid]
    by (simp add: read_trailer_full upper_bytes_def lower_part_def xid_lower_def xid_upper_def entry_version_def xid_ok_def)
next
  case False
  then show ?thesis
    using assms xid_narrow [of xid] read_trailer_full [of time zxid d now _ "[]", unfolded append_Nil2]
    by (simp add: upper_bytes_def lower_part_def entry_version_def xid_ok_def)
qed

text \<open>The requests that fit an entry, and what the reader of the entry gets.\<close>

definition fits_entry :: "log_request \<Rightarrow> bool" where
  "fits_entry rfs \<longleftrightarrow> int64_ok (lr_session_id rfs) \<and> int64_ok (lr_time rfs) \<and> wire_ok (lr_request rfs)
     \<and> xid_ok (lr_use_xid_64 rfs) (lr_xid rfs) \<and> length (request_bytes (lr_request rfs)) < 2 ^ 30"

definition logged :: "log_request \<Rightarrow> int \<Rightarrow> log_digest \<Rightarrow> log_request" where
  "logged rfs zxid d = rfs\<lparr>lr_request := received (lr_request rfs), lr_zxid := zxid, lr_digest := Some d, lr_use_xid_64 := False\<rparr>"

lemma logged_fields: "logged rfs zxid d = \<lparr>lr_session_id = lr_session_id rfs, lr_time = lr_time rfs, lr_request = received (lr_request rfs),
    lr_xid = lr_xid rfs, lr_zxid = zxid, lr_digest = Some d, lr_use_xid_64 = False\<rparr>"
  by (cases rfs) (simp add: logged_def)

lemma parse_entry_any:
  assumes ok: "fits_entry rfs" "int64_ok zxid" "digest_ok d"
  shows "parseRequest m now final (entry_bytes rfs zxid d) cache =
    (let sid = lr_session_id rfs; xid = lr_xid rfs; caching = should_cache m (entry_bytes rfs zxid d) sid xid;
         result = (\<lambda>r c. Inr \<lparr>pe_request = r, pe_version = entry_version (lr_use_xid_64 rfs),
             pe_request_end_position = 16 + length (request_bytes (lr_request rfs)), pe_cache = c,
             pe_shared = (if caching \<and> \<not> final then Some (sid, xid) else None)\<rparr>) in
     case (if caching then cache sid xid else None) of
       Some r \<Rightarrow> result r (if final then cache_erase sid xid cache else cache)
     | None \<Rightarrow> result (logged rfs zxid d) (if caching \<and> \<not> final then cache_emplace (logged rfs zxid d) cache else cache))"
proof -
  let ?u = "lr_use_xid_64 rfs" let ?xid = "lr_xid rfs"
  let ?tr = "native_bytes 8 (lr_time rfs) @ digest_bytes zxid d @ upper_bytes ?u ?xid"
  obtain rest where tr: "read_trailer now (lower_part ?u ?xid mod 2 ^ 32) ?tr =
      Inr (\<lparr>tr_version = entry_version ?u, tr_time = lr_time rfs, tr_zxid = zxid, tr_digest = Some d, tr_xid = ?xid\<rparr>, rest)"
    using read_trailer_entry [of "lr_time rfs" zxid d ?u ?xid now] ok by (auto simp: fits_entry_def)
  have head: "parse_head now (entry_bytes rfs zxid d) = Inr \<lparr>ph_session_id = lr_session_id rfs,
      ph_trailer = \<lparr>tr_version = entry_version ?u, tr_time = lr_time rfs, tr_zxid = zxid, tr_digest = Some d, tr_xid = ?xid\<rparr>,
      ph_request_end_position = 16 + length (request_bytes (lr_request rfs))\<rparr>"
    unfolding entry_bytes_def using ok(1) by (subst parse_head_layout) (simp add: fits_entry_def, simp add: fits_entry_def, subst tr, simp)
  have body: "parse_body h (entry_bytes rfs zxid d) = Inr \<lparr>lr_session_id = ph_session_id h, lr_time = tr_time (ph_trailer h),
      lr_request = received (lr_request rfs), lr_xid = tr_xid (ph_trailer h), lr_zxid = tr_zxid (ph_trailer h),
      lr_digest = tr_digest (ph_trailer h), lr_use_xid_64 = False\<rparr>" for h
    unfolding entry_bytes_def using ok(1) by (intro parse_body_layout) (simp add: fits_entry_def)
  show ?thesis by (simp add: parseRequest_def head body logged_fields Let_def split: option.split)
qed

lemma parse_entry:
  assumes "fits_entry rfs" "int64_ok zxid" "digest_ok d" "cache (lr_session_id rfs) (lr_xid rfs) = None"
  shows "parseRequest m now final (entry_bytes rfs zxid d) cache = Inr
    \<lparr>pe_request = logged rfs zxid d, pe_version = entry_version (lr_use_xid_64 rfs),
     pe_request_end_position = 16 + length (request_bytes (lr_request rfs)),
     pe_cache = (if should_cache m (entry_bytes rfs zxid d) (lr_session_id rfs) (lr_xid rfs) \<and> \<not> final
                 then cache_emplace (logged rfs zxid d) cache else cache),
     pe_shared = (if should_cache m (entry_bytes rfs zxid d) (lr_session_id rfs) (lr_xid rfs) \<and> \<not> final
                  then Some (lr_session_id rfs, lr_xid rfs) else None)\<rparr>"
  using assms by (simp add: parse_entry_any Let_def)

subsection \<open>The fields of the leader\<close>

lemma overwrite_middle:
  assumes "length a = pos" "length b = length b'"
  shows "overwrite pos b' (a @ b @ c) = a @ b' @ c"
  using assms by (simp add: overwrite_def)

text \<open>Without a digest the leader leaves the old value in place.\<close>

definition digest_written :: "log_digest \<Rightarrow> log_digest \<Rightarrow> log_digest" where
  "digest_written old d = (if ld_version d = 0 then d\<lparr>ld_value := ld_value old\<rparr> else d)"

lemma preAppend_entry:
  "preAppendLogLeader memory (entry_version (lr_use_xid_64 rfs)) (16 + length (request_bytes (lr_request rfs))) time zxid d
     (entry_bytes rfs zxid0 d0) = entry_bytes rfs zxid (digest_written d0 d)"
proof -
  let ?a = "entry_head (lr_session_id rfs) (lower_part (lr_use_xid_64 rfs) (lr_xid rfs)) (lr_request rfs) @ native_bytes 8 (lr_time rfs)"
  let ?new = "native_bytes 8 zxid @ native_bytes 1 (ld_version d)" let ?old = "native_bytes 8 zxid0 @ native_bytes 1 (ld_version d0)"
  let ?up = "upper_bytes (lr_use_xid_64 rfs) (lr_xid rfs)"
  have start: "preAppendLogLeader memory (entry_version (lr_use_xid_64 rfs)) (16 + length (request_bytes (lr_request rfs))) time zxid d
     (entry_bytes rfs zxid0 d0) = overwrite (length ?a) (?new @ (if ld_version d \<noteq> 0 then native_bytes 8 (ld_value d) else []))
        (?a @ ?old @ native_bytes 8 (ld_value d0) @ ?up)"
    by (simp add: preAppendLogLeader_def bytes_missing_def leader_fields_def entry_bytes_def digest_bytes_def entry_version_def Let_def
        add.commute del: One_nat_def)
  show ?thesis
  proof (cases "ld_version d = 0")
    case True
    have "overwrite (length ?a) ?new (?a @ ?old @ (native_bytes 8 (ld_value d0) @ ?up)) = ?a @ ?new @ (native_bytes 8 (ld_value d0) @ ?up)"
      by (rule overwrite_middle) simp_all
    then show ?thesis unfolding start using True
      by (simp add: entry_bytes_def digest_bytes_def digest_written_def del: One_nat_def)
  next
    case False
    have "overwrite (length ?a) (?new @ native_bytes 8 (ld_value d)) (?a @ (?old @ native_bytes 8 (ld_value d0)) @ ?up)
        = ?a @ (?new @ native_bytes 8 (ld_value d)) @ ?up"
      by (rule overwrite_middle) simp_all
    then show ?thesis unfolding start using False
      by (simp add: entry_bytes_def digest_bytes_def digest_written_def del: One_nat_def)
  qed
qed

text \<open>C17: an entry made from a request, parsed by the leader and completed with the number of the transaction and
  the digest, is parsed by every replica as this request of the session with its time, its \<open>xid\<close> of 32 or
  64 bits, this transaction and this digest.\<close>

theorem leader_entry_replicated:
  assumes "fits_entry rfs" "int64_ok zxid" "digest_ok d" "cache (lr_session_id rfs) (lr_xid rfs) = None"
    and "cache' (lr_session_id rfs) (lr_xid rfs) = None"
  shows "\<exists>pe pe'. parseRequest m now False (getZooKeeperLogEntry rfs) cache = Inr pe
    \<and> pe_request pe = logged rfs 0 \<lparr>ld_version = 0, ld_value = 0\<rparr>
    \<and> parseRequest m' now' final
        (preAppendLogLeader memory (pe_version pe) (pe_request_end_position pe) (lr_time (pe_request pe)) zxid d
           (getZooKeeperLogEntry rfs)) cache' = Inr pe'
    \<and> pe_request pe' = logged rfs zxid (digest_written \<lparr>ld_version = 0, ld_value = 0\<rparr> d)"
proof -
  have ok0: "int64_ok 0" "digest_ok \<lparr>ld_version = 0, ld_value = 0\<rparr>" by (simp_all add: int64_ok_def digest_ok_def)
  have "digest_ok (digest_written \<lparr>ld_version = 0, ld_value = 0\<rparr> d)"
    using assms(3) by (simp add: digest_written_def digest_ok_def)
  note replica = parse_entry [of rfs zxid _ cache', OF assms(1,2) this assms(5), of m' now' final]
  note leader = parse_entry [of rfs 0 _ cache, OF assms(1) ok0 assms(4), of m now False]
  show ?thesis unfolding getZooKeeperLogEntry_bytes leader by (simp add: preAppend_entry replica)
qed

theorem leader_entry_replicated_witness:
  "\<exists>rfs pe pe'. rfs = \<lparr>lr_session_id = 1, lr_time = 9, lr_request = GetRequest ''/a'' False, lr_xid = 2 ^ 40,
        lr_zxid = 0, lr_digest = None, lr_use_xid_64 = True\<rparr>
    \<and> parseRequest 0 0 False (getZooKeeperLogEntry rfs) (\<lambda>_ _. None) = Inr pe
    \<and> parseRequest 0 0 True
        (preAppendLogLeader (\<lambda>_. 0) (pe_version pe) (pe_request_end_position pe) (lr_time (pe_request pe)) 7
           \<lparr>ld_version = 4, ld_value = 99\<rparr> (getZooKeeperLogEntry rfs)) (\<lambda>_ _. None) = Inr pe'
    \<and> lr_zxid (pe_request pe') = 7 \<and> lr_xid (pe_request pe') = 2 ^ 40"
proof -
  let ?r = "\<lparr>lr_session_id = 1, lr_time = 9, lr_request = GetRequest ''/a'' False, lr_xid = 2 ^ 40,
     lr_zxid = 0, lr_digest = None, lr_use_xid_64 = True\<rparr>"
  have ok: "fits_entry ?r" "int64_ok 7" "digest_ok \<lparr>ld_version = 4, ld_value = 99\<rparr>"
    by (simp_all add: fits_entry_def int64_ok_def xid_ok_def string_ok_def request_bytes_def size_string_def digest_ok_def)
  obtain pe pe' where "parseRequest 0 0 False (getZooKeeperLogEntry ?r) (\<lambda>_ _. None) = Inr pe"
    "parseRequest 0 0 True
        (preAppendLogLeader (\<lambda>_. 0) (pe_version pe) (pe_request_end_position pe) (lr_time (pe_request pe)) 7
           \<lparr>ld_version = 4, ld_value = 99\<rparr> (getZooKeeperLogEntry ?r)) (\<lambda>_ _. None) = Inr pe'"
    "pe_request pe' = logged ?r 7 (digest_written \<lparr>ld_version = 0, ld_value = 0\<rparr> \<lparr>ld_version = 4, ld_value = 99\<rparr>)"
    using leader_entry_replicated [OF ok, of "\<lambda>_ _. None" "\<lambda>_ _. None" 0 0 0 0 True "\<lambda>_. 0"] by auto
  then show ?thesis by (intro exI [of _ ?r] exI [of _ pe] exI [of _ pe']) (simp add: logged_def)
qed



subsection \<open>The cache of parsed requests\<close>

lemma no_digest_ok: "int64_ok 0" "digest_ok \<lparr>ld_version = 0, ld_value = 0\<rparr>"
  by (simp_all add: int64_ok_def digest_ok_def)

lemma parse_new_entry:
  assumes "fits_entry rfs" "cache (lr_session_id rfs) (lr_xid rfs) = None"
    "should_cache m (getZooKeeperLogEntry rfs) (lr_session_id rfs) (lr_xid rfs)"
  obtains pe where "parseRequest m now False (getZooKeeperLogEntry rfs) cache = Inr pe"
    "pe_request pe = logged rfs 0 \<lparr>ld_version = 0, ld_value = 0\<rparr>"
    "pe_cache pe = cache(lr_session_id rfs := (cache (lr_session_id rfs))(lr_xid rfs \<mapsto> pe_request pe))"
    "pe_version pe = entry_version (lr_use_xid_64 rfs)"
    "pe_request_end_position pe = 16 + length (request_bytes (lr_request rfs))"
    "pe_shared pe = Some (lr_session_id rfs, lr_xid rfs)"
proof -
  have "parseRequest m now False (getZooKeeperLogEntry rfs) cache = Inr
    \<lparr>pe_request = logged rfs 0 \<lparr>ld_version = 0, ld_value = 0\<rparr>, pe_version = entry_version (lr_use_xid_64 rfs),
     pe_request_end_position = 16 + length (request_bytes (lr_request rfs)),
     pe_cache = cache_emplace (logged rfs 0 \<lparr>ld_version = 0, ld_value = 0\<rparr>) cache,
     pe_shared = Some (lr_session_id rfs, lr_xid rfs)\<rparr>"
    using parse_entry [of rfs 0 _ cache, OF assms(1) no_digest_ok assms(2)] assms(3)
    by (simp add: getZooKeeperLogEntry_bytes)
  then show thesis by (rule that) (simp_all add: cache_emplace_def logged_fields assms(2))
qed

lemma parse_cached:
  assumes "fits_entry rfs" "should_cache m (getZooKeeperLogEntry rfs) (lr_session_id rfs) (lr_xid rfs)"
    "cache (lr_session_id rfs) (lr_xid rfs) = Some r"
  shows "\<exists>pe. parseRequest m now final (getZooKeeperLogEntry rfs) cache = Inr pe \<and> pe_request pe = r
    \<and> pe_cache pe = (if final then cache_erase (lr_session_id rfs) (lr_xid rfs) cache else cache)"
  using parse_entry_any [of rfs 0 _ m now final cache, OF assms(1) no_digest_ok] assms(2,3)
  by (simp add: getZooKeeperLogEntry_bytes Let_def)







lemma logged_example:
  assumes "p = ''/a'' \<or> p = ''/b''"
  defines "rfs \<equiv> \<lparr>lr_session_id = 1, lr_time = 9, lr_request = GetRequest p False, lr_xid = 5, lr_zxid = 0, lr_digest = None,
     lr_use_xid_64 = False\<rparr>"
  shows "fits_entry rfs" "should_cache 1 (getZooKeeperLogEntry rfs) (lr_session_id rfs) (lr_xid rfs)"
proof -
  show "fits_entry rfs"
    using assms(1) by (auto simp: rfs_def fits_entry_def int64_ok_def xid_ok_def string_ok_def request_bytes_def size_string_def int32_ok_def)
  show "should_cache 1 (getZooKeeperLogEntry rfs) (lr_session_id rfs) (lr_xid rfs)"
    by (simp add: rfs_def should_cache_def non_cacheable_xids_def WATCH_XID_def PING_XID_def AUTH_XID_def CLOSE_XID_def CLOSE_XID_64_def
        getZooKeeperLogEntry_def Let_def)
qed


text \<open>C33: the cache knows a request by its session and its \<open>xid\<close> alone. When a client uses an \<open>xid\<close> again before
  the first request is committed, the second entry is taken for the first request.\<close>

theorem reused_xid_shadows_entry:
  assumes "fits_entry rfs" "cache (lr_session_id rfs) (lr_xid rfs) = None"
    and "should_cache m (getZooKeeperLogEntry rfs) (lr_session_id rfs) (lr_xid rfs)"
    and "fits_entry rfs'" "lr_session_id rfs' = lr_session_id rfs" "lr_xid rfs' = lr_xid rfs"
    and "should_cache m (getZooKeeperLogEntry rfs') (lr_session_id rfs') (lr_xid rfs')"
  shows "\<exists>pe pe'. parseRequest m now False (getZooKeeperLogEntry rfs) cache = Inr pe
    \<and> parseRequest m now' final (getZooKeeperLogEntry rfs') (pe_cache pe) = Inr pe'
    \<and> lr_request (pe_request pe') = received (lr_request rfs)"
proof -
  obtain pe where pe: "parseRequest m now False (getZooKeeperLogEntry rfs) cache = Inr pe"
    "pe_request pe = logged rfs 0 \<lparr>ld_version = 0, ld_value = 0\<rparr>"
    "pe_cache pe = cache(lr_session_id rfs := (cache (lr_session_id rfs))(lr_xid rfs \<mapsto> pe_request pe))"
    by (rule parse_new_entry [of rfs cache m, OF assms(1-3)])
  have "\<exists>pe'. parseRequest m now' final (getZooKeeperLogEntry rfs') (pe_cache pe) = Inr pe' \<and> pe_request pe' = pe_request pe"
    using parse_cached [of rfs' m "pe_cache pe" "pe_request pe" now' final] assms(4-7) by (auto simp: pe(3))
  then show ?thesis using pe(1,2) by (auto simp: logged_fields)
qed

theorem reused_xid_shadows_entry_witness:
  "\<exists>rfs rfs' pe pe'. lr_request rfs = GetRequest ''/a'' False \<and> lr_request rfs' = GetRequest ''/b'' False
    \<and> parseRequest 1 0 False (getZooKeeperLogEntry rfs) (\<lambda>_ _. None) = Inr pe
    \<and> parseRequest 1 0 False (getZooKeeperLogEntry rfs') (pe_cache pe) = Inr pe'
    \<and> lr_request (pe_request pe') = GetRequest ''/a'' False"
proof -
  let ?r = "\<lambda>p. \<lparr>lr_session_id = 1, lr_time = 9, lr_request = GetRequest p False, lr_xid = 5, lr_zxid = 0,
      lr_digest = None, lr_use_xid_64 = False\<rparr>"
  obtain pe pe' where "parseRequest 1 0 False (getZooKeeperLogEntry (?r ''/a'')) (\<lambda>_ _. None) = Inr pe"
    "parseRequest 1 0 False (getZooKeeperLogEntry (?r ''/b'')) (pe_cache pe) = Inr pe'"
    "lr_request (pe_request pe') = GetRequest ''/a'' False"
    using reused_xid_shadows_entry [OF logged_example(1) _ logged_example(2) logged_example(1) _ _ logged_example(2),
        of "''/a''" "\<lambda>_ _. None" "''/b''" 0 0 False] by auto
  then show ?thesis by (intro exI [of _ "?r ''/a''"] exI [of _ "?r ''/b''"] exI [of _ pe] exI [of _ pe']) simp
qed

end
