(* ===== verification/Keeper_Snapshot.thy ===== *)
theory Keeper_Snapshot
  imports Keeper_Init Log_Entry
begin

section \<open>Snapshots\<close>

text \<open>
  \<open>KeeperStorageSnapshot\<close> of \<open>src/src/Coordination/KeeperSnapshotManager.cpp\<close> for the storage in memory: a
  snapshot takes the state of a storage, \<open>serialize\<close> writes it as bytes and \<open>deserialize\<close> builds a storage from
  them, also from the six older formats; with the variable-length numbers of \<open>src/src/IO/VarInt.h\<close>. The
  consensus library turns its metadata and its cluster configuration into bytes and back and is an argument, as
  is the clock. The bytes are those before compression. A version is the number of a \<open>SnapshotVersion\<close>.
\<close>

subsection \<open>Numbers of variable length and strings\<close>

fun writeVarUInt :: "nat \<Rightarrow> bytes" where
  "writeVarUInt x =
     (if 127 < x then word_of_nat (128 + x mod 128) # writeVarUInt (x div 128) else [word_of_nat x])"

text \<open>The loop of \<open>readVarUInt\<close> from the group \<open>i\<close> on, with ten groups at most.\<close>

fun read_var_loop :: "nat \<Rightarrow> nat \<Rightarrow> nat \<Rightarrow> nat reader" where
  "read_var_loop 0 i x inp = Inr (x mod 2 ^ 64, inp)"
| "read_var_loop (Suc n) i x [] = Inl (DbException ''Attempt to read after eof'')"
| "read_var_loop (Suc n) i x (b # rest) =
     (let x' = x + unat b mod 128 * 2 ^ (7 * i)
      in if unat b < 128 then Inr (x' mod 2 ^ 64, rest) else read_var_loop n (Suc i) x' rest)"

definition readVarUInt :: "nat reader" where
  "readVarUInt inp = read_var_loop 10 0 0 inp"

text \<open>The overload for 32-bit numbers casts.\<close>

definition readVarUInt32 :: "nat reader" where
  "readVarUInt32 inp = res_bind (readVarUInt inp) (\<lambda>(x, rest). Inr (x mod 2 ^ 32, rest))"

definition DEFAULT_MAX_STRING_SIZE :: nat where "DEFAULT_MAX_STRING_SIZE = 2 ^ 30"

definition writeStringBinary :: "string \<Rightarrow> bytes" where
  "writeStringBinary s = writeVarUInt (length s) @ map byte_of_char s"

definition readStringBinary :: "string reader" where
  "readStringBinary inp = res_bind (readVarUInt inp) (\<lambda>(size, r1).
     if DEFAULT_MAX_STRING_SIZE < size then Inl (DbException ''Too large string size.'')
     else res_bind (read_bytes size r1) (\<lambda>(bs, r2). Inr (map char_of_byte bs, r2)))"

text \<open>\<open>writeBinary\<close> and \<open>readBinary\<close> of the integer types and of \<open>bool\<close>.\<close>

definition write_size :: "nat \<Rightarrow> bytes" where "write_size n = native_bytes 8 (int n)"

definition read_size :: "nat reader" where
  "read_size inp = res_bind (read_native 8 inp) (\<lambda>(i, rest). Inr (nat i, rest))"

definition read_native_int32 :: "int reader" where
  "read_native_int32 inp = res_bind (read_native 4 inp) (\<lambda>(i, rest). Inr (signed_take_bit 31 i, rest))"

definition read_native_bool :: "bool reader" where
  "read_native_bool inp = res_bind (read_native 1 inp) (\<lambda>(i, rest). Inr (i \<noteq> 0, rest))"

text \<open>A loop over as many elements as the number in front says.\<close>

definition read_counted :: "'a reader \<Rightarrow> 'a list reader" where
  "read_counted rd inp = res_bind (read_size inp) (\<lambda>(n, rest). read_elems n rd rest)"

definition write_counted :: "('a \<Rightarrow> bytes) \<Rightarrow> 'a list \<Rightarrow> bytes" where
  "write_counted wr xs = write_size (length xs) @ concat (map wr xs)"

subsection \<open>Nodes\<close>

definition CURRENT_SNAPSHOT_VERSION :: nat where "CURRENT_SNAPSHOT_VERSION = 6"

definition write_snapshot_acl :: "acl \<Rightarrow> bytes" where
  "write_snapshot_acl a =
     native_bytes 4 (acl_permissions a) @ writeStringBinary (acl_scheme a) @ writeStringBinary (acl_ident a)"

definition read_snapshot_acl :: "acl reader" where
  "read_snapshot_acl inp = res_bind (read_native_int32 inp) (\<lambda>(permissions, r1).
     res_bind (readStringBinary r1) (\<lambda>(scheme, r2). res_bind (readStringBinary r2) (\<lambda>(ident, r3).
       Inr (\<lparr>acl_permissions = permissions, acl_scheme = scheme, acl_ident = ident\<rparr>, r3))))"

text \<open>The size of a node object is an argument.\<close>

definition sizeInBytes :: "nat \<Rightarrow> mem_node \<Rightarrow> nat" where
  "sizeInBytes sizeof_node n = sizeof_node + length (mn_children n) * 16 + ns_data_size (mn_stats n)"

definition writeNode :: "nat \<Rightarrow> nat \<Rightarrow> mem_node \<Rightarrow> bytes" where
  "writeNode sizeof_node version n =
     (let st = mn_stats n in
      writeStringBinary (getData n) @ write_size (mn_acl_id n)
      @ (if version < 6 then native_bytes 1 0 else [])
      @ native_bytes 8 (ns_czxid st) @ native_bytes 8 (ns_mzxid st) @ native_bytes 8 (ns_ctime st)
      @ native_bytes 8 (ns_mtime st) @ native_bytes 4 (ns_version st) @ native_bytes 4 (ns_cversion st)
      @ native_bytes 4 (ns_aversion st) @ native_bytes 8 (ephemeralOwner st)
      @ (if version < 6 then native_bytes 4 (int (ns_data_size st)) else [])
      @ native_bytes 4 (numChildren st) @ native_bytes 8 (ns_pzxid st) @ native_bytes 4 (seqNum st)
      @ (if 4 \<le> version \<and> version \<le> 5 then write_size (sizeInBytes sizeof_node n) else []))"

text \<open>The ACL of a node with its number; the version 0 has the list of ACLs in place.\<close>

definition read_node_acl :: "nat \<Rightarrow> acl_map \<Rightarrow> (nat \<times> acl_map) reader" where
  "read_node_acl version acl_map inp =
     res_bind (if 1 \<le> version then res_bind (read_size inp) (\<lambda>(i, rest). Inr ((i, acl_map), rest))
               else res_bind (read_counted read_snapshot_acl inp) (\<lambda>(acls, rest). Inr (convertACLs acl_map acls, rest)))
       (\<lambda>((acl_id, m), rest).
         let acl_id = (if acl_id = 2 ^ 64 - 1 then 0 else acl_id)
         in Inr ((acl_id, addUsage m acl_id), rest))"

definition read_if :: "bool \<Rightarrow> 'a reader \<Rightarrow> 'a \<Rightarrow> 'a reader" where
  "read_if b rd dflt inp = (if b then rd inp else Inr (dflt, inp))"

definition read_stats :: "nat \<Rightarrow> nat \<Rightarrow> node_stats reader" where
  "read_stats version data_size inp =
     res_bind (read_if (version < 6) read_native_bool False inp) (\<lambda>(is_sequential, r0).
     res_bind (read_native_int64 r0) (\<lambda>(czxid, r1). res_bind (read_native_int64 r1) (\<lambda>(mzxid, r2).
     res_bind (read_native_int64 r2) (\<lambda>(ctime, r3). res_bind (read_native_int64 r3) (\<lambda>(mtime, r4).
     res_bind (read_native_int32 r4) (\<lambda>(version', r5). res_bind (read_native_int32 r5) (\<lambda>(cversion, r6).
     res_bind (read_native_int32 r6) (\<lambda>(aversion, r7). res_bind (read_native_int64 r7) (\<lambda>(owner, r8).
     res_bind (read_if (version < 6) read_native_int32 0 r8) (\<lambda>(data_length, r9).
     res_bind (read_native_int32 r9) (\<lambda>(num_children, r10). res_bind (read_native_int64 r10) (\<lambda>(pzxid, r11).
     res_bind (read_native_int32 r11) (\<lambda>(seq_num, r12).
     res_bind (read_if (4 \<le> version \<and> version \<le> 5) read_size 0 r12) (\<lambda>(size_bytes, r13).
       let st = (setCtime ctime default_stats)\<lparr>ns_data_size := data_size, ns_czxid := czxid, ns_mzxid := mzxid,
                  ns_mtime := mtime, ns_version := version', ns_cversion := cversion, ns_aversion := aversion,
                  ns_pzxid := pzxid\<rparr>
       in Inr (if owner \<noteq> 0 then setEphemeralOwner owner st else setSeqNum seq_num (setNumChildren num_children st), r13)))))))))))))))"

definition readNode :: "nat \<Rightarrow> acl_map \<Rightarrow> (mem_node \<times> acl_map) reader" where
  "readNode version acl_map inp =
     res_bind (readVarUInt32 inp) (\<lambda>(data_size, r1). res_bind (read_bytes data_size r1) (\<lambda>(data, r2).
     res_bind (read_node_acl version acl_map r2) (\<lambda>((acl_id, acl_map'), r3).
     res_bind (read_stats version data_size r3) (\<lambda>(st, r4).
       Inr ((default_node\<lparr>mn_stats := st, mn_data := map char_of_byte data, mn_acl_id := acl_id\<rparr>, acl_map'), r4)))))"

subsection \<open>Taking and writing a snapshot\<close>

record ('m, 'c) nuraft_codec =
  nu_write_meta :: "'m \<Rightarrow> bytes"
  nu_read_meta :: "bytes \<Rightarrow> 'm result"
  nu_last_log_idx :: "'m \<Rightarrow> int"
  nu_write_config :: "'c \<Rightarrow> bytes"
  nu_read_config :: "bytes \<Rightarrow> 'c result"

text \<open>\<open>sn_nodes\<close>: the \<open>snapshot_container_size\<close> elements from the iterator \<open>begin\<close> on.\<close>

record ('m, 'c) storage_snapshot =
  sn_version :: nat
  sn_meta :: 'm
  sn_session_id :: int
  sn_nodes :: "(path \<times> mem_node) list"
  sn_session_and_timeout :: "int \<rightharpoonup> int"
  sn_session_and_auth :: "int \<rightharpoonup> auth_id list"
  sn_acl_map :: "nat \<rightharpoonup> acls"
  sn_cluster_config :: "'c option"
  sn_zxid :: int
  sn_nodes_digest :: "64 word"

definition take_snapshot :: "'m \<Rightarrow> 'c option \<Rightarrow> storage \<Rightarrow> ('m, 'c) storage_snapshot" where
  "take_snapshot meta cluster_config s =
     \<lparr>sn_version = CURRENT_SNAPSHOT_VERSION, sn_meta = meta, sn_session_id = session_id_counter s,
      sn_nodes = container s, sn_session_and_timeout = session_and_timeout s,
      sn_session_and_auth = committed_session_and_auth s, sn_acl_map = num_to_acl (acl_map_of s),
      sn_cluster_config = cluster_config, sn_zxid = committed_zxid s, sn_nodes_digest = nodes_digest s\<rparr>"

definition serializeSnapshotMetadata :: "('m, 'c) nuraft_codec \<Rightarrow> 'm \<Rightarrow> bytes" where
  "serializeSnapshotMetadata nu meta = (let buffer = nu_write_meta nu meta in writeVarUInt (length buffer) @ buffer)"

definition deserializeSnapshotMetadata :: "('m, 'c) nuraft_codec \<Rightarrow> 'm reader" where
  "deserializeSnapshotMetadata nu inp = res_bind (readVarUInt inp) (\<lambda>(data_size, r1).
     res_bind (read_bytes data_size r1) (\<lambda>(buffer, r2).
     res_bind (nu_read_meta nu buffer) (\<lambda>meta. Inr (meta, r2))))"

text \<open>The entries of an unordered map, sorted by their keys.\<close>

definition sorted_entries :: "('k :: linorder \<rightharpoonup> 'v) \<Rightarrow> ('k \<times> 'v) list" where
  "sorted_entries m = map (\<lambda>k. (k, the (m k))) (sorted_list_of_set (dom m))"

definition write_acl_entry :: "nat \<times> acls \<Rightarrow> bytes" where
  "write_acl_entry e = write_size (fst e) @ write_counted write_snapshot_acl (snd e)"

definition write_auth :: "auth_id \<Rightarrow> bytes" where
  "write_auth a = writeStringBinary (au_scheme a) @ writeStringBinary (au_ident a)"

definition write_session :: "(int \<rightharpoonup> auth_id list) \<Rightarrow> int \<times> int \<Rightarrow> bytes" where
  "write_session session_and_auth e =
     native_bytes 8 (fst e) @ native_bytes 8 (snd e)
     @ write_counted write_auth (case session_and_auth (fst e) of None \<Rightarrow> [] | Some ids \<Rightarrow> ids)"

text \<open>The loop over the nodes; the \<open>break\<close> ends it at a node that is newer than the snapshot.\<close>

fun write_nodes :: "nat \<Rightarrow> nat \<Rightarrow> int \<Rightarrow> (path \<times> mem_node) list \<Rightarrow> bytes" where
  "write_nodes sizeof_node version zxid [] = []"
| "write_nodes sizeof_node version zxid ((p, n) # nodes) =
     (if matchPath p keeper_system_path = IS_CHILD then write_nodes sizeof_node version zxid nodes
      else if zxid < ns_mzxid (mn_stats n) then []
      else writeStringBinary p @ writeNode sizeof_node version n @ write_nodes sizeof_node version zxid nodes)"

definition write_digest :: "keeper_context \<Rightarrow> 64 word \<Rightarrow> bytes" where
  "write_digest ctx digest =
     (if kc_digest_enabled ctx then native_bytes 1 4 @ native_bytes 8 (uint digest) else native_bytes 1 0)"

definition serialize :: "('m, 'c) nuraft_codec \<Rightarrow> nat \<Rightarrow> keeper_context \<Rightarrow> ('m, 'c) storage_snapshot \<Rightarrow> bytes" where
  "serialize nu sizeof_node ctx sn =
     native_bytes 1 (int (sn_version sn)) @ serializeSnapshotMetadata nu (sn_meta sn)
     @ (if 5 \<le> sn_version sn then native_bytes 8 (sn_zxid sn) @ write_digest ctx (sn_nodes_digest sn) else [])
     @ native_bytes 8 (sn_session_id sn)
     @ write_counted write_acl_entry (sorted_entries (sn_acl_map sn))
     @ native_bytes 8 (int (length (sn_nodes sn)) - int (length (kc_system_nodes_with_data ctx)))
     @ write_nodes sizeof_node (sn_version sn) (sn_zxid sn) (sn_nodes sn)
     @ write_counted (write_session (sn_session_and_auth sn)) (sorted_entries (sn_session_and_timeout sn))
     @ (case sn_cluster_config sn of None \<Rightarrow> []
        | Some c \<Rightarrow> (let buffer = nu_write_config nu c in writeVarUInt (length buffer) @ buffer))"

subsection \<open>Reading a snapshot\<close>

definition read_header :: "('m, 'c) nuraft_codec \<Rightarrow> keeper_context \<Rightarrow> storage \<Rightarrow> (nat \<times> 'm \<times> bool \<times> storage) reader" where
  "read_header nu ctx s inp = res_bind (read_native 1 inp) (\<lambda>(v, r1).
     let version = nat v in
     if CURRENT_SNAPSHOT_VERSION < version then Inl (DbException ''Unsupported snapshot version'')
     else res_bind (deserializeSnapshotMetadata nu r1) (\<lambda>(meta, r2).
       if 5 \<le> version then
         res_bind (read_native_int64 r2) (\<lambda>(zxid, r3). res_bind (read_native 1 r3) (\<lambda>(digest_version, r4).
         let s1 = s\<lparr>committed_zxid := zxid, old_snapshot_zxid := 0\<rparr> in
         if digest_version \<noteq> 0 then
           res_bind (read_native 8 r4) (\<lambda>(digest, r5).
             if digest_version = 4 then Inr ((version, meta, False, s1\<lparr>nodes_digest := word_of_int digest\<rparr>), r5)
             else Inr ((version, meta, kc_digest_enabled ctx, s1), r5))
         else Inr ((version, meta, kc_digest_enabled ctx, s1), r4)))
       else (let zxid = signed_take_bit 63 (nu_last_log_idx nu meta) in
             Inr ((version, meta, kc_digest_enabled ctx, s\<lparr>committed_zxid := zxid, old_snapshot_zxid := zxid\<rparr>), r2))))"

definition read_acl_entry :: "(nat \<times> acls) reader" where
  "read_acl_entry inp = res_bind (read_size inp) (\<lambda>(acl_id, r1).
     res_bind (read_counted read_snapshot_acl r1) (\<lambda>(acls, r2). Inr ((acl_id, acls), r2)))"

definition read_acl_map :: "nat \<Rightarrow> storage \<Rightarrow> storage reader" where
  "read_acl_map version s inp =
     (if 1 \<le> version then res_bind (read_counted read_acl_entry inp) (\<lambda>(entries, rest).
        Inr (s\<lparr>acl_map_of := fold (\<lambda>e m. addMapping m (fst e) (snd e)) entries (acl_map_of s)\<rparr>, rest))
      else Inr (s, inp))"

text \<open>
  \<open>insertOrReplace\<close> with a node that is moved in. Moving leaves the cached digest of the target as it is.
\<close>

definition insertOrReplace_node :: "path \<Rightarrow> mem_node \<Rightarrow> storage \<Rightarrow> storage" where
  "insertOrReplace_node p n s =
     (let cached = (case find_node s p of None \<Rightarrow> 0 | Some old \<Rightarrow> mn_cached_digest old)
      in s\<lparr>container := AList.update p (n\<lparr>mn_cached_digest := cached\<rparr>) (container s)\<rparr>)"

definition add_snapshot_node :: "bool \<Rightarrow> path \<Rightarrow> mem_node \<Rightarrow> storage \<Rightarrow> storage" where
  "add_snapshot_node recalculate_digest p n s =
     (let owner = ephemeralOwner (mn_stats n);
          s1 = (if owner \<noteq> 0
                then s\<lparr>committed_ephemerals := registerEphemeralPath (committed_ephemerals s) owner p,
                       committed_ephemeral_nodes := committed_ephemeral_nodes s + 1\<rparr>
                else s);
          s2 = (if recalculate_digest then s1\<lparr>nodes_digest := nodes_digest s1 + fst (getDigest p n)\<rparr> else s1)
      in insertOrReplace_node p n s2)"

definition ignores_system_path :: "keeper_context \<Rightarrow> bool" where
  "ignores_system_path ctx \<longleftrightarrow> kc_ignore_system_path_on_startup ctx \<or> kc_server_state ctx \<noteq> INIT"

definition read_tree_node :: "keeper_context \<Rightarrow> nat \<Rightarrow> bool \<Rightarrow> storage \<Rightarrow> storage reader" where
  "read_tree_node ctx version recalculate_digest s inp =
     res_bind (readVarUInt inp) (\<lambda>(path_size, r1). res_bind (read_bytes path_size r1) (\<lambda>(path_data, r2).
     res_bind (readNode version (acl_map_of s) r2) (\<lambda>((node, acl_map), r3).
       let p = map char_of_byte path_data; s1 = s\<lparr>acl_map_of := acl_map\<rparr>; result = matchPath p keeper_system_path;
           err = Inl (LogicalError ''Cannot read node from a snapshot because it is used as a system node'')
       in if result = IS_CHILD then (if ignores_system_path ctx then Inr (s1, r3) else err)
          else if result = EXACT \<and> \<not> node_empty node
               then (if ignores_system_path ctx then Inr (add_snapshot_node recalculate_digest p default_node s1, r3) else err)
               else Inr (add_snapshot_node recalculate_digest p node s1, r3))))"

fun read_times :: "nat \<Rightarrow> ('s \<Rightarrow> 's reader) \<Rightarrow> 's \<Rightarrow> 's reader" where
  "read_times 0 rd s inp = Inr (s, inp)"
| "read_times (Suc n) rd s inp = res_bind (rd s inp) (\<lambda>(s', rest). read_times n rd s' rest)"

definition read_tree :: "keeper_context \<Rightarrow> nat \<Rightarrow> bool \<Rightarrow> storage \<Rightarrow> storage reader" where
  "read_tree ctx version recalculate_digest s inp = res_bind (read_size inp) (\<lambda>(size, rest).
     read_times size (read_tree_node ctx version recalculate_digest)
       (if recalculate_digest then s\<lparr>nodes_digest := 0\<rparr> else s) rest)"

definition build_child :: "path \<Rightarrow> storage \<Rightarrow> storage result" where
  "build_child p s =
     (if p \<noteq> ''/'' then res_bind (parentNodePath p) (\<lambda>parent_path. updateValue parent_path (addChild (getBaseNodeName p)) s) else Inr s)"

definition build_children :: "storage \<Rightarrow> storage result" where
  "build_children s = res_fold build_child (map fst (container s)) s"

text \<open>A build with \<open>NDEBUG\<close> only logs a wrong counter.\<close>

definition check_children :: "bool \<Rightarrow> storage \<Rightarrow> storage result" where
  "check_children ndebug s =
     (if \<not> ndebug \<and> list_ex (\<lambda>(p, n). p \<noteq> ''/''
           \<and> numChildren (mn_stats n) \<noteq> signed_take_bit 31 (int (length (mn_children n)))) (container s)
      then Inl (LogicalError ''Children counter in stat.numChildren is different from actual children size'')
      else Inr s)"

definition read_auth :: "auth_id reader" where
  "read_auth inp = res_bind (readStringBinary inp) (\<lambda>(scheme, r1). res_bind (readStringBinary r1) (\<lambda>(ident, r2).
     Inr (\<lparr>au_scheme = scheme, au_ident = ident\<rparr>, r2)))"

definition read_session :: "int \<Rightarrow> nat \<Rightarrow> storage \<Rightarrow> storage reader" where
  "read_session now version s inp =
     res_bind (read_native_int64 inp) (\<lambda>(session_id, r1). res_bind (read_native_int64 r1) (\<lambda>(timeout, r2).
     res_bind (addSessionID now session_id timeout s) (\<lambda>s1.
       if 1 \<le> version then res_bind (read_counted read_auth r2) (\<lambda>(ids, r3).
         Inr (if ids \<noteq> [] then s1\<lparr>committed_session_and_auth := (committed_session_and_auth s1)(session_id \<mapsto> ids)\<rparr> else s1, r3))
       else Inr (s1, r2))))"

definition read_sessions :: "int \<Rightarrow> nat \<Rightarrow> storage \<Rightarrow> storage reader" where
  "read_sessions now version s inp = res_bind (read_size inp) (\<lambda>(size, rest). read_times size (read_session now version) s rest)"

text \<open>The cluster configuration is there if the snapshot does not end before.\<close>

definition read_cluster_config :: "('m, 'c) nuraft_codec \<Rightarrow> bytes \<Rightarrow> 'c option result" where
  "read_cluster_config nu inp =
     (if inp \<noteq> [] then res_bind (readVarUInt inp) (\<lambda>(data_size, r1). res_bind (read_bytes data_size r1) (\<lambda>(buffer, r2).
        res_bind (nu_read_config nu buffer) (\<lambda>c. Inr (Some c))))
      else Inr None)"

record ('m, 'c) deserialization_result =
  dr_storage :: storage
  dr_snapshot_meta :: 'm
  dr_cluster_config :: "'c option"

definition deserialize ::
  "('m, 'c) nuraft_codec \<Rightarrow> keeper_context \<Rightarrow> bool \<Rightarrow> int \<Rightarrow> storage \<Rightarrow> bytes \<Rightarrow> ('m, 'c) deserialization_result result" where
  "deserialize nu ctx ndebug now s inp =
     res_bind (read_header nu ctx s inp) (\<lambda>((version, meta, recalculate_digest, s1), r1).
     res_bind (read_native_int64 r1) (\<lambda>(session_id, r2).
     res_bind (read_acl_map version (s1\<lparr>session_id_counter := session_id\<rparr>) r2) (\<lambda>(s2, r3).
     res_bind (read_tree ctx version recalculate_digest s2 r3) (\<lambda>(s3, r4).
     res_bind (build_children s3) (\<lambda>s4. res_bind (check_children ndebug s4) (\<lambda>s5.
     res_bind (read_sessions now version s5 r4) (\<lambda>(s6, r5).
     res_bind (read_cluster_config nu r5) (\<lambda>config.
       Inr \<lparr>dr_storage = s6, dr_snapshot_meta = meta, dr_cluster_config = config\<rparr>))))))))"

definition deserializeSnapshotFromBuffer ::
  "('m, 'c) nuraft_codec \<Rightarrow> keeper_context \<Rightarrow> bool \<Rightarrow> int \<Rightarrow> int \<Rightarrow> string \<Rightarrow> bytes \<Rightarrow> ('m, 'c) deserialization_result result" where
  "deserializeSnapshotFromBuffer nu ctx ndebug now tick_time super inp =
     res_bind (new_storage ctx tick_time super False) (\<lambda>s.
     res_bind (deserialize nu ctx ndebug now s inp) (\<lambda>result.
     res_bind (initializeSystemNodes ctx (dr_storage result)) (\<lambda>s'. Inr (result\<lparr>dr_storage := s'\<rparr>))))"

end
