(* ===== verification/Keeper_Restore.thy ===== *)
theory Keeper_Restore
  imports Keeper_Snapshot
begin

section \<open>Restoring a storage from its snapshot\<close>

text \<open>
  Reading what \<open>serialize\<close> has written gives a storage with the same tree, sessions, ACLs and counters.
\<close>

subsection \<open>Numbers, strings and lists\<close>

declare writeVarUInt.simps [simp del]

lemma read_var_loop_write:
  "x < 128 ^ n \<Longrightarrow> 0 < n \<Longrightarrow>
     read_var_loop n i a (writeVarUInt x @ rest) = Inr ((a + x * 2 ^ (7 * i)) mod 2 ^ 64, rest)"
proof (induction x arbitrary: n i a rule: writeVarUInt.induct)
  case (1 x)
  obtain m where n: "n = Suc m" using 1(3) by (cases n) simp_all
  show ?case
  proof (cases "127 < x")
    case False
    then show ?thesis by (simp add: n writeVarUInt.simps [of x] unat_of_nat Let_def)
  next
    case True
    have x: "x div 128 < 128 ^ m" using 1(2) by (simp add: n less_mult_imp_div_less mult.commute)
    have m: "0 < m"
    proof (rule ccontr)
      assume "\<not> 0 < m" then show False using 1(2) True by (simp add: n)
    qed
    have "x mod 128 < 128" by simp
    then have b: "unat (word_of_nat (128 + x mod 128) :: 8 word) = 128 + x mod 128"
      by (simp only: unat_of_nat) simp
    have split: "x mod 128 * k + x div 128 * (128 * k) = x * k" for k
      using distrib_right [of "x mod 128" "128 * (x div 128)" k] by (simp add: ac_simps)
    have sum: "a + x mod 128 * 2 ^ (7 * i) + x div 128 * 2 ^ (7 * Suc i) = a + x * 2 ^ (7 * i)"
      using split [of "2 ^ (7 * i)"] by (simp add: power_add)
    have "read_var_loop n i a (writeVarUInt x @ rest)
        = read_var_loop m (Suc i) (a + x mod 128 * 2 ^ (7 * i)) (writeVarUInt (x div 128) @ rest)"
      using True by (simp add: n writeVarUInt.simps [of x] b Let_def del: of_nat_add)
    also have "\<dots> = Inr ((a + x * 2 ^ (7 * i)) mod 2 ^ 64, rest)"
      unfolding 1(1) [OF True x m] sum ..
    finally show ?thesis .
  qed
qed

lemma readVarUInt_write [round_trip]:
  assumes "x < 2 ^ 64"
  shows "readVarUInt (writeVarUInt x @ rest) = Inr (x, rest)"
proof -
  have "x < 128 ^ 10" using assms by simp
  from read_var_loop_write [OF this, of 0 0 rest] show ?thesis using assms by (simp add: readVarUInt_def)
qed

lemma writeVarUInt_nonempty [simp]: "writeVarUInt x \<noteq> []"
  by (subst writeVarUInt.simps) simp

definition short_string :: "string \<Rightarrow> bool" where "short_string s \<longleftrightarrow> length s \<le> 2 ^ 30"

lemma readStringBinary_write [round_trip]:
  "short_string s \<Longrightarrow> readStringBinary (writeStringBinary s @ rest) = Inr (s, rest)"
  by (simp add: readStringBinary_def writeStringBinary_def round_trip short_string_def DEFAULT_MAX_STRING_SIZE_def comp_def)

lemma read_size_write [round_trip]: "n < 2 ^ 64 \<Longrightarrow> read_size (write_size n @ rest) = Inr (n, rest)"
  by (simp add: read_size_def write_size_def read_native_write)

lemma read_native_int32_write [round_trip]: "int32_ok i \<Longrightarrow> read_native_int32 (native_bytes 4 i @ rest) = Inr (i, rest)"
  using signed_mod [of 31 i] by (simp add: read_native_int32_def read_native_write int32_ok_def)

lemma read_byte_write [round_trip]: "0 \<le> i \<Longrightarrow> i < 256 \<Longrightarrow> read_native 1 (native_bytes 1 i @ rest) = Inr (i, rest)"
  by (simp only: read_native_write) simp

lemma read_counted_write:
  assumes "length xs < 2 ^ 64" "\<And>x rest. x \<in> set xs \<Longrightarrow> rd (wr x @ rest) = Inr (x, rest)"
  shows "read_counted rd (write_counted wr xs @ rest) = Inr (xs, rest)"
  using assms by (simp add: read_counted_def write_counted_def round_trip read_elems_write)

lemma read_if_simps [simp]: "read_if True rd d = rd" "read_if False rd d inp = Inr (d, inp)"
  by (simp_all add: read_if_def fun_eq_iff)

subsection \<open>Nodes\<close>

text \<open>
  The fields of a node fit the types of the code, and the union of the statistics has the member that
  \<open>is_ephemeral\<close> names.
\<close>

fun union_fits :: "bool \<Rightarrow> ephemeral_or_children \<Rightarrow> bool" where
  "union_fits eph (EphemeralOwner owner) \<longleftrightarrow> eph \<and> owner \<noteq> 0 \<and> int64_ok owner"
| "union_fits eph (ChildrenInfo seq num) \<longleftrightarrow> \<not> eph \<and> int32_ok seq \<and> int32_ok num"

definition stats_fit :: "node_stats \<Rightarrow> bool" where
  "stats_fit st \<longleftrightarrow> int64_ok (ns_czxid st) \<and> int64_ok (ns_mzxid st) \<and> int64_ok (ns_pzxid st) \<and> int64_ok (ns_mtime st)
     \<and> int32_ok (ns_version st) \<and> int32_ok (ns_cversion st) \<and> int32_ok (ns_aversion st)
     \<and> ns_data_size st < 2 ^ 32 \<and> - (2 ^ 62) \<le> ns_ctime st \<and> ns_ctime st < 2 ^ 62
     \<and> union_fits (ns_is_ephemeral st) (ns_data st)"

text \<open>The same ranges without the member that the union holds.\<close>

fun union_in_range :: "ephemeral_or_children \<Rightarrow> bool" where
  "union_in_range (EphemeralOwner owner) \<longleftrightarrow> int64_ok owner"
| "union_in_range (ChildrenInfo seq num) \<longleftrightarrow> int32_ok seq \<and> int32_ok num"

definition stats_in_range :: "node_stats \<Rightarrow> bool" where
  "stats_in_range st \<longleftrightarrow> int64_ok (ns_czxid st) \<and> int64_ok (ns_mzxid st) \<and> int64_ok (ns_pzxid st) \<and> int64_ok (ns_mtime st)
     \<and> int32_ok (ns_version st) \<and> int32_ok (ns_cversion st) \<and> int32_ok (ns_aversion st)
     \<and> ns_data_size st < 2 ^ 32 \<and> - (2 ^ 62) \<le> ns_ctime st \<and> ns_ctime st < 2 ^ 62 \<and> union_in_range (ns_data st)"

lemma union_fits_iff: "union_fits eph d \<longleftrightarrow> union_holds eph d \<and> union_in_range d"
  by (cases d) auto

lemma stats_fit_iff: "stats_fit st \<longleftrightarrow> stats_in_range st \<and> union_holds (ns_is_ephemeral st) (ns_data st)"
  by (auto simp: stats_fit_def stats_in_range_def union_fits_iff)

definition node_fits :: "mem_node \<Rightarrow> bool" where
  "node_fits n \<longleftrightarrow> stats_fit (mn_stats n) \<and> node_wf n \<and> mn_acl_id n < 2 ^ 64 - 1"

text \<open>What a node is after a round trip: the cached digest and the children are not stored.\<close>

definition restored_node :: "mem_node \<Rightarrow> mem_node" where
  "restored_node n = \<lparr>mn_stats = mn_stats n, mn_data = getData n, mn_cached_digest = 0, mn_acl_id = mn_acl_id n, mn_children = []\<rparr>"

lemma ctime_fits:
  fixes t :: int
  assumes "- (2 ^ 62) \<le> t" "t < 2 ^ 62"
  shows "signed_take_bit 62 t = t" "int64_ok t"
  using assms by (simp_all add: signed_take_bit_int_eq_self int64_ok_def)

lemma union_read:
  assumes "union_fits (ns_is_ephemeral st) (ns_data st)"
  shows "int64_ok (ephemeralOwner st)" "int32_ok (numChildren st)" "int32_ok (seqNum st)"
    "ns_is_ephemeral st \<longleftrightarrow> ephemeralOwner st \<noteq> 0"
    "ephemeralOwner st \<noteq> 0 \<Longrightarrow> EphemeralOwner (ephemeralOwner st) = ns_data st"
    "ephemeralOwner st = 0 \<Longrightarrow> ChildrenInfo (seqNum st) (numChildren st) = ns_data st"
  using assms
  by (cases "ns_data st"; simp add: ephemeralOwner_def numChildren_def seqNum_def isEphemeral_def int64_ok_def int32_ok_def)+

lemma read_stats_write:
  assumes fit: "stats_fit (mn_stats n)" and sz: "sizeInBytes sizeof_node n < 2 ^ 64"
  shows "read_stats version (ns_data_size (mn_stats n))
     ((if version < 6 then native_bytes 1 0 else [])
      @ native_bytes 8 (ns_czxid (mn_stats n)) @ native_bytes 8 (ns_mzxid (mn_stats n)) @ native_bytes 8 (ns_ctime (mn_stats n))
      @ native_bytes 8 (ns_mtime (mn_stats n)) @ native_bytes 4 (ns_version (mn_stats n)) @ native_bytes 4 (ns_cversion (mn_stats n))
      @ native_bytes 4 (ns_aversion (mn_stats n)) @ native_bytes 8 (ephemeralOwner (mn_stats n))
      @ (if version < 6 then native_bytes 4 (int (ns_data_size (mn_stats n))) else [])
      @ native_bytes 4 (numChildren (mn_stats n)) @ native_bytes 8 (ns_pzxid (mn_stats n)) @ native_bytes 4 (seqNum (mn_stats n))
      @ (if 4 \<le> version \<and> version \<le> 5 then write_size (sizeInBytes sizeof_node n) else []) @ rest)
   = Inr (mn_stats n, rest)"
proof -
  let ?st = "mn_stats n"
  have un: "union_fits (ns_is_ephemeral ?st) (ns_data ?st)" using fit by (simp add: stats_fit_def)
  have rng: "int64_ok (ns_czxid ?st)" "int64_ok (ns_mzxid ?st)" "int64_ok (ns_pzxid ?st)" "int64_ok (ns_mtime ?st)"
    "int32_ok (ns_version ?st)" "int32_ok (ns_cversion ?st)" "int32_ok (ns_aversion ?st)"
    "signed_take_bit 62 (ns_ctime ?st) = ns_ctime ?st" "int64_ok (ns_ctime ?st)"
    using fit ctime_fits [of "ns_ctime ?st"] by (simp_all add: stats_fit_def)
  have seq: "read_native_bool (native_bytes 1 0 @ r) = Inr (False, r)" for r
    unfolding read_native_bool_def by (simp only: read_native_write) simp
  let ?new = "(setCtime (ns_ctime ?st) default_stats)\<lparr>ns_data_size := ns_data_size ?st, ns_czxid := ns_czxid ?st, ns_mzxid := ns_mzxid ?st,
      ns_mtime := ns_mtime ?st, ns_version := ns_version ?st, ns_cversion := ns_cversion ?st, ns_aversion := ns_aversion ?st,
      ns_pzxid := ns_pzxid ?st\<rparr>"
  have new: "(if ephemeralOwner ?st \<noteq> 0 then setEphemeralOwner (ephemeralOwner ?st) ?new
      else setSeqNum (seqNum ?st) (setNumChildren (numChildren ?st) ?new)) = ?st"
    using union_read(4-6) [OF un] rng(8)
    by (auto simp: setEphemeralOwner_def setSeqNum_def setNumChildren_def setCtime_def default_stats_def intro: node_stats.equality)
  show ?thesis
  proof (cases "version < 6")
    case True
    obtain i where i: "read_native_int32 (native_bytes 4 (int (ns_data_size ?st)) @ r) = Inr (i, r)" for r
      by (simp add: read_native_int32_def read_native_write)
    show ?thesis
      using True sz by (simp add: read_stats_def round_trip rng union_read(1-3) [OF un] seq i new del: One_nat_def)
  next
    case False
    then show ?thesis by (simp add: read_stats_def round_trip rng union_read(1-3) [OF un] new)
  qed
qed

lemma readNode_write:
  assumes fit: "node_fits n" and v: "1 \<le> version" and sz: "sizeInBytes sizeof_node n < 2 ^ 64"
  shows "readNode version m (writeNode sizeof_node version n @ rest) = Inr ((restored_node n, addUsage m (mn_acl_id n)), rest)"
proof -
  have size: "length (getData n) = ns_data_size (mn_stats n)" "ns_data_size (mn_stats n) < 2 ^ 32"
    using fit length_getData by (auto simp: node_fits_def stats_fit_def)
  have stats: "stats_fit (mn_stats n)" and acl: "mn_acl_id n < 2 ^ 64 - 1" using fit by (simp_all add: node_fits_def)
  show ?thesis
    using size acl v
    by (simp add: readNode_def writeNode_def Let_def readVarUInt32_def writeStringBinary_def round_trip read_node_acl_def
      read_stats_write [OF stats sz] restored_node_def default_node_def comp_def)
qed

subsection \<open>Loops\<close>

lemma read_times_write:
  assumes "res_fold f xs s = Inr s'"
    and "\<And>x s s' rest. x \<in> set xs \<Longrightarrow> f x s = Inr s' \<Longrightarrow> rd s (wr x @ rest) = Inr (s', rest)"
  shows "read_times (length xs) rd s (concat (map wr xs) @ rest) = Inr (s', rest)"
  using assms
proof (induction xs arbitrary: s)
  case (Cons x xs)
  then obtain s1 where s1: "f x s = Inr s1" "res_fold f xs s1 = Inr s'" by (auto simp: res_bind_Inr_iff)
  have "read_times (length xs) rd s1 (concat (map wr xs) @ rest) = Inr (s', rest)"
    by (rule Cons.IH [OF s1(2)]) (use Cons.prems(2) in simp)
  then show ?case using Cons.prems(2) [of x s s1] s1(1) by simp
qed simp

lemma res_fold_total_fold: "res_fold (\<lambda>x s. Inr (g x s)) xs s = Inr (fold g xs s)"
  by (induction xs arbitrary: s) simp_all

subsection \<open>The ACL map\<close>

lemma addMapping_fields:
  "num_to_acl (addMapping m k a) = (num_to_acl m)(k \<mapsto> a)" "usage_counter (addMapping m k a) = usage_counter m"
  by (simp_all add: addMapping_def)

lemma fold_addMapping:
  assumes "acl_map_wf m" "distinct (map fst es)" "distinct (map snd es)"
    and "\<And>k a. (k, a) \<in> set es \<Longrightarrow> k \<noteq> 0 \<and> a \<noteq> [] \<and> num_to_acl m k = None \<and> acl_to_num m a = None"
  shows "acl_map_wf (fold (\<lambda>e m. addMapping m (fst e) (snd e)) es m)
     \<and> num_to_acl (fold (\<lambda>e m. addMapping m (fst e) (snd e)) es m) = num_to_acl m ++ map_of es
     \<and> usage_counter (fold (\<lambda>e m. addMapping m (fst e) (snd e)) es m) = usage_counter m"
  using assms
proof (induction es arbitrary: m)
  case (Cons e es)
  obtain k a where e: "e = (k, a)" by fastforce
  have new: "k \<noteq> 0" "a \<noteq> []" "num_to_acl m k = None" "acl_to_num m a = None"
    using Cons.prems(4) [of k a] by (simp_all add: e)
  have "k' \<noteq> 0 \<and> a' \<noteq> [] \<and> num_to_acl (addMapping m k a) k' = None \<and> acl_to_num (addMapping m k a) a' = None"
    if "(k', a') \<in> set es" for k' a'
  proof -
    have "k' \<noteq> k" "a' \<noteq> a" using Cons.prems(2,3) that by (force simp: e)+
    with Cons.prems(4) [of k' a'] that show ?thesis by (simp add: addMapping_def)
  qed
  with Cons.IH [OF acl_map_wf_addMapping [OF Cons.prems(1) new]] Cons.prems(2,3)
  have "acl_map_wf (fold (\<lambda>e m. addMapping m (fst e) (snd e)) es (addMapping m k a))
     \<and> num_to_acl (fold (\<lambda>e m. addMapping m (fst e) (snd e)) es (addMapping m k a)) = num_to_acl (addMapping m k a) ++ map_of es
     \<and> usage_counter (fold (\<lambda>e m. addMapping m (fst e) (snd e)) es (addMapping m k a)) = usage_counter (addMapping m k a)"
    by simp
  moreover have "(num_to_acl m)(k \<mapsto> a) ++ map_of es = num_to_acl m ++ map_of (e # es)"
    using Cons.prems(2) by (simp add: e map_add_upd_left dom_map_of_conv_image_fst)
  ultimately show ?case unfolding e fold.simps comp_apply fst_conv snd_conv addMapping_fields by (elim conjE) (intro conjI; (assumption | erule trans, assumption))
qed simp

lemma map_of_sorted_entries: "finite (dom m) \<Longrightarrow> map_of (sorted_entries m) = m"
  unfolding sorted_entries_def
  by (rule ext) (auto simp: map_of_map_restrict [unfolded comp_def] restrict_map_def domIff)

lemma set_sorted_entries: "finite (dom m) \<Longrightarrow> (k, v) \<in> set (sorted_entries m) \<longleftrightarrow> m k = Some v"
  by (auto simp: sorted_entries_def)

lemma distinct_sorted_entries: "distinct (map fst (sorted_entries m))"
  by (simp add: sorted_entries_def comp_def)

lemma acl_map_finite: "acl_map_wf m \<Longrightarrow> finite (dom (num_to_acl m))"
  by (rule finite_subset [of _ "{..< max_acl_id m}"]) (auto simp: acl_map_wf_def)

text \<open>The map that the mappings of another one give, without usages.\<close>

lemma restored_acl_map:
  assumes wf: "acl_map_wf m" and m': "m' = fold (\<lambda>e m. addMapping m (fst e) (snd e)) (sorted_entries (num_to_acl m)) empty_acl_map"
  shows "acl_map_wf m'" "num_to_acl m' = num_to_acl m" "usage_counter m' = Map.empty"
proof -
  note fin = acl_map_finite [OF wf]
  let ?es = "sorted_entries (num_to_acl m)"
  have "distinct (map snd ?es)"
  proof -
    have "inj_on snd (set ?es)"
      using acl_map_wf_inj [OF wf] by (auto simp: inj_on_def set_sorted_entries [OF fin])
    moreover have "distinct ?es" using distinct_sorted_entries [of "num_to_acl m"] by (simp add: distinct_map)
    ultimately show ?thesis by (simp add: distinct_map)
  qed
  moreover have "k \<noteq> 0 \<and> a \<noteq> [] \<and> num_to_acl empty_acl_map k = None \<and> acl_to_num empty_acl_map a = None" if "(k, a) \<in> set ?es" for k a
    using that acl_map_wf_no_default [OF wf] by (cases "k = 0") (auto simp: set_sorted_entries [OF fin] empty_acl_map_def)
  ultimately have "acl_map_wf m' \<and> num_to_acl m' = num_to_acl empty_acl_map ++ map_of ?es \<and> usage_counter m' = usage_counter empty_acl_map"
    unfolding m' by (intro fold_addMapping acl_map_wf_empty distinct_sorted_entries)
  then show "acl_map_wf m'" "num_to_acl m' = num_to_acl m" "usage_counter m' = Map.empty"
    by (simp_all add: map_of_sorted_entries [OF fin] empty_acl_map_def)
qed

subsection \<open>Reading the tree\<close>

definition snapshot_nodes :: "(path \<times> mem_node) list \<Rightarrow> (path \<times> mem_node) list" where
  "snapshot_nodes ns = filter (\<lambda>e. matchPath (fst e) keeper_system_path \<noteq> IS_CHILD) ns"

definition write_tree_node :: "nat \<Rightarrow> nat \<Rightarrow> path \<times> mem_node \<Rightarrow> bytes" where
  "write_tree_node sizeof_node version e = writeStringBinary (fst e) @ writeNode sizeof_node version (snd e)"

definition tree_node_fits :: "nat \<Rightarrow> path \<times> mem_node \<Rightarrow> bool" where
  "tree_node_fits sizeof_node e \<longleftrightarrow> node_fits (snd e) \<and> sizeInBytes sizeof_node (snd e) < 2 ^ 64 \<and> length (fst e) < 2 ^ 64
     \<and> matchPath (fst e) keeper_system_path \<noteq> IS_CHILD \<and> (matchPath (fst e) keeper_system_path = EXACT \<longrightarrow> node_empty (snd e))"

definition restore_step :: "bool \<Rightarrow> path \<times> mem_node \<Rightarrow> storage \<Rightarrow> storage" where
  "restore_step recalculate_digest e s =
     add_snapshot_node recalculate_digest (fst e) (restored_node (snd e)) (s\<lparr>acl_map_of := addUsage (acl_map_of s) (mn_acl_id (snd e))\<rparr>)"

lemma write_nodes_all:
  assumes "\<forall>e\<in>set (snapshot_nodes ns). ns_mzxid (mn_stats (snd e)) \<le> zxid"
  shows "write_nodes sizeof_node version zxid ns = concat (map (write_tree_node sizeof_node version) (snapshot_nodes ns))"
  using assms
proof (induction ns)
  case (Cons e ns)
  obtain p n where e: "e = (p, n)" by fastforce
  show ?case
    using Cons by (cases "matchPath p keeper_system_path = IS_CHILD") (simp_all add: e snapshot_nodes_def write_tree_node_def)
qed (simp add: snapshot_nodes_def)

lemma read_tree_node_write:
  assumes fit: "tree_node_fits sizeof_node e" and v: "1 \<le> version"
  shows "read_tree_node ctx version rc s (write_tree_node sizeof_node version e @ rest) = Inr (restore_step rc e s, rest)"
proof -
  obtain p n where e: "e = (p, n)" by fastforce
  note f = fit [unfolded tree_node_fits_def e fst_conv snd_conv]
  have "readNode version (acl_map_of s) (writeNode sizeof_node version n @ rest)
      = Inr ((restored_node n, addUsage (acl_map_of s) (mn_acl_id n)), rest)"
    using f v by (intro readNode_write) simp_all
  moreover have "node_empty (restored_node n) = node_empty n" by (simp add: node_empty_def restored_node_def)
  ultimately show ?thesis
    using f by (auto simp: read_tree_node_def write_tree_node_def e writeStringBinary_def round_trip comp_def restore_step_def Let_def)
qed

text \<open>What reading the nodes changes.\<close>

definition tree_frame :: "storage \<Rightarrow> storage \<Rightarrow> bool" where
  "tree_frame s s' \<longleftrightarrow> uncommitted s' = uncommitted s \<and> committed_zxid s' = committed_zxid s \<and> old_snapshot_zxid s' = old_snapshot_zxid s
     \<and> session_id_counter s' = session_id_counter s \<and> committed_session_and_auth s' = committed_session_and_auth s
     \<and> superdigest s' = superdigest s \<and> session_and_timeout s' = session_and_timeout s
     \<and> session_expiry_queue_of s' = session_expiry_queue_of s \<and> uncommitted_transactions s' = uncommitted_transactions s
     \<and> initialized s' = initialized s \<and> watch_tables_of s' = watch_tables_of s"

lemma tree_frame_refl [simp]: "tree_frame s s"
  by (simp add: tree_frame_def)

lemma tree_frame_trans [trans]: "tree_frame s s' \<Longrightarrow> tree_frame s' s'' \<Longrightarrow> tree_frame s s''"
  by (simp add: tree_frame_def)

lemma restore_step_fields:
  "tree_frame s (restore_step rc e s)"
  "acl_map_of (restore_step rc e s) = addUsage (acl_map_of s) (mn_acl_id (snd e))"
  "container (restore_step rc e s) = AList.update (fst e)
     ((restored_node (snd e))\<lparr>mn_cached_digest := (case find_node s (fst e) of None \<Rightarrow> 0 | Some old \<Rightarrow> mn_cached_digest old)\<rparr>) (container s)"
  "committed_ephemerals (restore_step rc e s) = (let owner = ephemeralOwner (mn_stats (snd e))
     in if owner \<noteq> 0 then registerEphemeralPath (committed_ephemerals s) owner (fst e) else committed_ephemerals s)"
  "\<not> rc \<Longrightarrow> nodes_digest (restore_step rc e s) = nodes_digest s"
  by (simp_all add: restore_step_def add_snapshot_node_def insertOrReplace_node_def tree_frame_def find_node_def Let_def restored_node_def)

lemma num_to_acl_addUsage: "num_to_acl (addUsage m k) = num_to_acl m"
  by (simp add: addUsage_def)

definition no_digests :: "storage \<Rightarrow> bool" where
  "no_digests s \<longleftrightarrow> (\<forall>p n. find_node s p = Some n \<longrightarrow> mn_cached_digest n = 0)"

lemma restore_step_find:
  assumes "no_digests s"
  shows "find_node (restore_step rc e s) = (find_node s)(fst e \<mapsto> restored_node (snd e))" "no_digests (restore_step rc e s)"
proof -
  have "(restored_node (snd e))\<lparr>mn_cached_digest := (case find_node s (fst e) of None \<Rightarrow> 0 | Some old \<Rightarrow> mn_cached_digest old)\<rparr> = restored_node (snd e)"
    using assms by (auto simp: no_digests_def restored_node_def split: option.splits)
  then show f: "find_node (restore_step rc e s) = (find_node s)(fst e \<mapsto> restored_node (snd e))"
    by (simp add: find_node_def [abs_def] restore_step_fields(3) map_of_alist_update fun_eq_iff)
  show "no_digests (restore_step rc e s)"
    using assms by (simp add: no_digests_def f restored_node_def)
qed

definition restored_by :: "bool \<Rightarrow> (path \<times> mem_node) list \<Rightarrow> storage \<Rightarrow> storage \<Rightarrow> bool" where
  "restored_by rc ns s s' \<longleftrightarrow> tree_frame s s'
     \<and> find_node s' = find_node s ++ (\<lambda>p. map_option restored_node (map_of ns p))
     \<and> (distinct (map fst (container s)) \<longrightarrow> distinct (map fst (container s')))
     \<and> num_to_acl (acl_map_of s') = num_to_acl (acl_map_of s) \<and> (acl_map_wf (acl_map_of s) \<longrightarrow> acl_map_wf (acl_map_of s'))
     \<and> (\<forall>k. usage_of (acl_map_of s') k = usage_of (acl_map_of s) k + length (filter (\<lambda>e. mn_acl_id (snd e) = k) ns))
     \<and> (\<forall>sid. set (bucket (committed_ephemerals s') sid) = set (bucket (committed_ephemerals s) sid)
          \<union> {p. \<exists>n. (p, n) \<in> set ns \<and> ephemeralOwner (mn_stats n) = sid \<and> sid \<noteq> 0})
     \<and> (\<not> rc \<longrightarrow> nodes_digest s' = nodes_digest s)"

lemma restore_fold:
  "no_digests s \<Longrightarrow> distinct (map fst ns) \<Longrightarrow> restored_by rc ns s (fold (restore_step rc) ns s)"
proof (induction ns arbitrary: s)
  case Nil
  then show ?case by (simp add: restored_by_def map_add_def fun_eq_iff)
next
  case (Cons e ns)
  let ?s = "restore_step rc e s" and ?f = "fold (restore_step rc) ns (restore_step rc e s)"
  note step = restore_step_fields [where s = s and rc = rc and e = e] restore_step_find [OF Cons.prems(1), of rc e]
  have IH: "restored_by rc ns ?s ?f" using Cons.IH [OF step(7)] Cons.prems(2) by simp
  note I = IH [unfolded restored_by_def]
  have new: "map_of ns (fst e) = None"
    using Cons.prems(2) by (simp add: map_of_eq_None_iff)
  have "find_node ?f = find_node ?s ++ (\<lambda>p. map_option restored_node (map_of ns p))" using I by blast
  also have "\<dots> = find_node s ++ (\<lambda>p. map_option restored_node (map_of (e # ns) p))"
    unfolding step(6) by (rule ext) (simp add: map_add_def new split: option.split)
  finally have find: "find_node ?f = find_node s ++ (\<lambda>p. map_option restored_node (map_of (e # ns) p))" .
  have eph: "set (bucket (committed_ephemerals ?f) sid) = set (bucket (committed_ephemerals s) sid)
      \<union> {p. \<exists>n. (p, n) \<in> set (e # ns) \<and> ephemeralOwner (mn_stats n) = sid \<and> sid \<noteq> 0}" for sid
  proof -
    have "set (bucket (committed_ephemerals ?f) sid) = set (bucket (committed_ephemerals ?s) sid)
        \<union> {p. \<exists>n. (p, n) \<in> set ns \<and> ephemeralOwner (mn_stats n) = sid \<and> sid \<noteq> 0}" using I by blast
    moreover have "set (bucket (committed_ephemerals ?s) sid) = set (bucket (committed_ephemerals s) sid)
        \<union> (if ephemeralOwner (mn_stats (snd e)) = sid \<and> sid \<noteq> 0 then {fst e} else {})"
      by (auto simp: step(4) Let_def registerEphemeralPath_def bucket_def)
    ultimately show ?thesis by (cases e) auto
  qed
  have keys: "distinct (map fst (container s)) \<longrightarrow> distinct (map fst (container ?f))"
    using I by (simp add: step(3) distinct_update)
  have nums: "num_to_acl (acl_map_of ?f) = num_to_acl (acl_map_of s)" "acl_map_wf (acl_map_of s) \<longrightarrow> acl_map_wf (acl_map_of ?f)"
    using I acl_map_wf_addUsage by (simp_all add: step(2) num_to_acl_addUsage)
  have uses: "usage_of (acl_map_of ?f) k = usage_of (acl_map_of s) k + length (filter (\<lambda>e. mn_acl_id (snd e) = k) (e # ns))" for k
    using I by (simp add: step(2) usage_addUsage)
  have digest: "\<not> rc \<longrightarrow> nodes_digest ?f = nodes_digest s" using I step(5) by simp
  have "tree_frame s ?f" using I tree_frame_trans [OF step(1)] by blast
  then show ?case
    unfolding restored_by_def fold.simps comp_apply using find eph keys nums uses digest by blast
qed

subsection \<open>The children\<close>

text \<open>A run of \<open>build_child\<close> over paths whose parents are there.\<close>

definition child_names :: "path list \<Rightarrow> path \<Rightarrow> string list" where
  "child_names ps p = map getBaseNodeName (filter (\<lambda>q. q \<noteq> root \<and> parentOf q = p) ps)"

definition with_children :: "path list \<Rightarrow> path \<Rightarrow> mem_node \<Rightarrow> mem_node" where
  "with_children ps p = fold addChild (child_names ps p)"

lemma build_child_fields:
  assumes "build_child p s = Inr s'"
  shows "tree_frame s s'" "acl_map_of s' = acl_map_of s" "committed_ephemerals s' = committed_ephemerals s"
    "nodes_digest s' = nodes_digest s" "map fst (container s') = map fst (container s)"
    "find_node s' x = map_option (with_children [p] x) (find_node s x)"
proof -
  have alist: "map fst (AList.update q v C) = map fst C" if "map_of C q \<noteq> None" for q v and C :: "(path \<times> mem_node) list"
    using that by (induction C) (auto split: if_splits)
  consider "p = root" "s' = s"
    | n where "p \<noteq> root" "find_node s (parentOf p) = Some n"
        "s' = s\<lparr>container := AList.update (parentOf p) (addChild (getBaseNodeName p) n) (container s)\<rparr>"
    using assms by (auto simp: build_child_def root_literal updateValue_def res_bind_Inr_iff dest!: parentOf_Inr split: if_splits option.splits)
  note cases = this
  show "tree_frame s s'" "acl_map_of s' = acl_map_of s" "committed_ephemerals s' = committed_ephemerals s"
    "nodes_digest s' = nodes_digest s"
    by (cases rule: cases; simp add: tree_frame_def)+
  show "map fst (container s') = map fst (container s)"
    by (cases rule: cases) (use alist [of "container s"] in \<open>simp_all add: find_node_def\<close>)
  show "find_node s' x = map_option (with_children [p] x) (find_node s x)"
    by (cases rule: cases)
      (auto simp: with_children_def child_names_def find_node_def map_of_alist_update option.map_id)
qed

lemma build_children_fold:
  assumes "\<forall>p\<in>set ps. p \<noteq> root \<longrightarrow> slash \<in> set p \<and> find_node s (parentOf p) \<noteq> None"
  obtains s' where "res_fold build_child ps s = Inr s'" "tree_frame s s'" "acl_map_of s' = acl_map_of s"
    "committed_ephemerals s' = committed_ephemerals s" "nodes_digest s' = nodes_digest s"
    "map fst (container s') = map fst (container s)" "\<And>x. find_node s' x = map_option (with_children ps x) (find_node s x)"
  using assms
proof (induction ps arbitrary: s thesis)
  case Nil
  show ?case by (rule Nil(1) [of s]) (simp_all add: with_children_def child_names_def option.map_ident)
next
  case (Cons p ps)
  obtain s1 where s1: "build_child p s = Inr s1"
    using Cons.prems(2) by (cases "p = root") (auto simp: build_child_def root_literal updateValue_def parentNodePath_slash)
  note f = build_child_fields [OF s1]
  have par: "\<forall>q\<in>set ps. q \<noteq> root \<longrightarrow> slash \<in> set q \<and> find_node s1 (parentOf q) \<noteq> None" using Cons.prems(2) f(6) by simp
  obtain s2 where s2: "res_fold build_child ps s1 = Inr s2" "tree_frame s1 s2" "acl_map_of s2 = acl_map_of s1"
    "committed_ephemerals s2 = committed_ephemerals s1" "nodes_digest s2 = nodes_digest s1"
    "map fst (container s2) = map fst (container s1)" "\<And>x. find_node s2 x = map_option (with_children ps x) (find_node s1 x)"
    by (rule Cons.IH [OF _ par]) (rule that)
  have "find_node s2 x = map_option (with_children (p # ps) x) (find_node s x)" for x
    unfolding s2(7) f(6) by (simp add: option.map_comp with_children_def child_names_def comp_def)
  then show ?case
    by (intro Cons.prems(1) [of s2]) (use s1 s2 f tree_frame_trans [OF f(1) s2(2)] in simp_all)
qed

lemma fold_addChild:
  "fold addChild cs n = n\<lparr>mn_children := fold uset_insert cs (mn_children n)\<rparr>"
  by (induction cs arbitrary: n) (simp_all add: addChild_def)

lemma set_fold_uset_insert: "set (fold uset_insert cs xs) = set cs \<union> set xs"
  by (induction cs arbitrary: xs) auto

lemma distinct_fold_uset_insert: "distinct xs \<Longrightarrow> distinct (fold uset_insert cs xs)"
  by (induction cs arbitrary: xs) simp_all

lemma with_children_fields:
  "mn_stats (with_children ps p n) = mn_stats n" "mn_data (with_children ps p n) = mn_data n"
  "mn_acl_id (with_children ps p n) = mn_acl_id n"
  "mn_children (with_children ps p n) = fold uset_insert (child_names ps p) (mn_children n)"
  by (simp_all add: with_children_def fold_addChild)

subsection \<open>The system nodes\<close>

lemma below_system_iff:
  assumes "canonical_path p" "p \<noteq> root"
  shows "matchPath p keeper_system_path = IS_CHILD \<longleftrightarrow> (\<exists>r. p = keeper_system_path @ slash # r)"
  by (simp add: matchPath_IS_CHILD_iff remove_suffix_canonical [OF assms] remove_suffix_canonical [OF keeper_path_canonical])

lemma at_system_iff:
  assumes "canonical_path p" "p \<noteq> root"
  shows "matchPath p keeper_system_path = EXACT \<longleftrightarrow> p = keeper_system_path"
  by (simp add: matchPath_EXACT_iff remove_suffix_canonical [OF assms] remove_suffix_canonical [OF keeper_path_canonical])

lemma root_not_below: "matchPath root keeper_system_path = NOT_MATCH"
  by (simp add: matchPath_def remove_slash_suffix_def keeper_system_path_def slash_def)

lemma below_system_parent:
  assumes "canonical_path p" "p \<noteq> root" "sys (parentOf p)"
  shows "matchPath p keeper_system_path = IS_CHILD"
proof -
  have "sys p" by (rule sys_child [OF assms])
  moreover have "p \<noteq> keeper_system_path" using assms(3) not_sys_root by (auto simp: keeper_parent)
  ultimately show ?thesis using sys_iff [OF assms(1,2)] below_system_iff [OF assms(1,2)] by simp
qed

lemma parent_not_below:
  assumes "canonical_path p" "p \<noteq> root" "matchPath p keeper_system_path \<noteq> IS_CHILD"
  shows "matchPath (parentOf p) keeper_system_path = NOT_MATCH"
  using below_system_parent [OF assms(1,2)] assms(3) by (auto simp: sys_def)

text \<open>The nodes below the system path are children of it.\<close>

definition system_flat :: "(path \<rightharpoonup> mem_node) \<Rightarrow> bool" where
  "system_flat X \<longleftrightarrow> (\<forall>q. X q \<noteq> None \<longrightarrow> matchPath q keeper_system_path = IS_CHILD \<longrightarrow> system_child q)"

lemma insert_system_node_new:
  assumes p: "system_child p" "find_node s p = None" and k: "find_node s keeper_system_path = Some k"
  obtains s' where "insert_system_node (p, d) s = Inr s'" "tree_frame s s'" "acl_map_of s' = acl_map_of s"
    "committed_ephemerals s' = committed_ephemerals s" "nodes_digest s' = nodes_digest s"
    "find_node s' = (find_node s)(p \<mapsto> system_node d, keeper_system_path \<mapsto> addChild (getBaseNodeName p) k)"
proof -
  have neq: "p \<noteq> keeper_system_path" using p k by auto
  note par = system_child_facts(1) [OF p(1)] parentNodePath_canonical [OF system_child_facts(4) [OF p(1)]]
  let ?s1 = "s\<lparr>container := AList.update p (system_node d) (container s)\<rparr>"
  let ?s2 = "s\<lparr>container := AList.update keeper_system_path (addChild (getBaseNodeName p) k) (AList.update p (system_node d) (container s))\<rparr>"
  have "insert_node p (setData d default_node) s = ?s1" using p(2) by (simp add: insert_node_def system_node_def)
  moreover have "find_node ?s1 keeper_system_path = Some k"
    using k neq by (simp add: find_node_def map_of_alist_update)
  ultimately have run: "insert_system_node (p, d) s = Inr ?s2" by (simp add: insert_system_node_def par updateValue_def)
  show ?thesis
    by (rule that [OF run]) (simp_all add: tree_frame_def find_node_def [abs_def] map_of_alist_update fun_eq_iff)
qed

lemma system_node_exact:
  assumes ex: "children_exact X" "system_flat X" and p: "system_child p" "X p = None" and k: "X keeper_system_path = Some k"
    and n: "mn_children n = []" and Y: "Y = X(p \<mapsto> n, keeper_system_path \<mapsto> addChild (getBaseNodeName p) k)"
  shows "children_exact Y" "system_flat Y"
proof -
  note c = system_child_facts [OF p(1)]
  have neq: "p \<noteq> keeper_system_path" using p k by auto
  have none: "parentOf q \<noteq> p" if q: "X q \<noteq> None" for q
  proof
    assume par: "parentOf q = p"
    have "canonical_path q" using ex(1) q by (auto simp: children_exact_def)
    moreover have "q \<noteq> root" using par c(3) by auto
    ultimately have "matchPath q keeper_system_path = IS_CHILD" using below_system_parent c(2) par by simp
    then have "system_child q" using ex(2) q by (simp add: system_flat_def)
    then show False using system_child_facts(1) par neq by simp
  qed
  show "children_exact Y"
    by (rule children_exact_create [OF ex(1) c(4,3) p(2), of k n]) (use none n k c(1) neq Y in auto)
  show "system_flat Y" using ex(2) p(1) k by (auto simp: system_flat_def Y)
qed

lemma insert_system_nodes_new:
  assumes "children_exact (find_node s)" "system_flat (find_node s)" "find_node s keeper_system_path = Some k"
    "\<forall>(p, d)\<in>set nodes. system_child p \<and> find_node s p = None" "distinct (map fst nodes)"
  obtains s' k' where "res_fold insert_system_node nodes s = Inr s'" "tree_frame s s'" "acl_map_of s' = acl_map_of s"
    "committed_ephemerals s' = committed_ephemerals s" "nodes_digest s' = nodes_digest s" "children_exact (find_node s')"
    "find_node s' = (find_node s)(keeper_system_path \<mapsto> k') ++ (\<lambda>p. map_option system_node (map_of nodes p))"
    "mn_stats k' = mn_stats k" "mn_data k' = mn_data k" "mn_acl_id k' = mn_acl_id k"
  using assms
proof (induction nodes arbitrary: s k thesis)
  case Nil
  have "find_node s = (find_node s)(keeper_system_path \<mapsto> k) ++ (\<lambda>p. map_option system_node (map_of [] p))"
    using Nil(4) by (intro ext) (simp add: map_add_def)
  with Nil(2) show ?case by (intro Nil(1) [of s k]) simp_all
next
  case (Cons pd nodes)
  obtain p d where pd: "pd = (p, d)" by fastforce
  have p: "system_child p" "find_node s p = None" using Cons.prems(5) pd by auto
  have neq: "p \<noteq> keeper_system_path" using p Cons.prems(4) by auto
  obtain s1 where s1: "insert_system_node (p, d) s = Inr s1" "tree_frame s s1" "acl_map_of s1 = acl_map_of s"
    "committed_ephemerals s1 = committed_ephemerals s" "nodes_digest s1 = nodes_digest s"
    "find_node s1 = (find_node s)(p \<mapsto> system_node d, keeper_system_path \<mapsto> addChild (getBaseNodeName p) k)"
    by (rule insert_system_node_new [OF p Cons.prems(4)]) (rule that)
  note ex = system_node_exact [OF Cons.prems(2,3) p Cons.prems(4) system_node_fields(2) s1(6)]
  have k1: "find_node s1 keeper_system_path = Some (addChild (getBaseNodeName p) k)" by (simp add: s1(6))
  have fresh: "\<forall>(q, d)\<in>set nodes. system_child q \<and> find_node s1 q = None"
  proof (clarify, intro conjI)
    fix q d' assume q: "(q, d') \<in> set nodes"
    then show "system_child q" using Cons.prems(5) by auto
    have "find_node s q = None" using Cons.prems(5) q by auto
    moreover have "q \<noteq> p" using Cons.prems(6) q by (auto simp: pd image_iff)
    moreover have "q \<noteq> keeper_system_path" using \<open>find_node s q = None\<close> Cons.prems(4) by auto
    ultimately show "find_node s1 q = None" by (simp add: s1(6))
  qed
  have dist: "distinct (map fst nodes)" using Cons.prems(6) by simp
  obtain s2 k' where s2: "res_fold insert_system_node nodes s1 = Inr s2" "tree_frame s1 s2" "acl_map_of s2 = acl_map_of s1"
    "committed_ephemerals s2 = committed_ephemerals s1" "nodes_digest s2 = nodes_digest s1" "children_exact (find_node s2)"
    "find_node s2 = (find_node s1)(keeper_system_path \<mapsto> k') ++ (\<lambda>p. map_option system_node (map_of nodes p))"
    "mn_stats k' = mn_stats (addChild (getBaseNodeName p) k)" "mn_data k' = mn_data (addChild (getBaseNodeName p) k)"
    "mn_acl_id k' = mn_acl_id (addChild (getBaseNodeName p) k)"
    by (rule Cons.IH [OF _ ex k1 fresh dist]) (rule that)
  have new: "map_of nodes p = None" using Cons.prems(6) by (simp add: pd map_of_eq_None_iff)
  have find: "find_node s2 = (find_node s)(keeper_system_path \<mapsto> k') ++ (\<lambda>q. map_option system_node (map_of (pd # nodes) q))"
    unfolding s2(7) s1(6) using neq by (intro ext) (simp add: map_add_def new pd split: option.split)
  have run: "res_fold insert_system_node (pd # nodes) s = Inr s2" using s1(1) s2(1) by (simp add: pd)
  show ?case
    by (rule Cons.prems(1) [OF run tree_frame_trans [OF s1(2) s2(2)] trans [OF s2(3) s1(3)] trans [OF s2(4) s1(4)]
      trans [OF s2(5) s1(5)] s2(6) find]) (use s2(8-10) in \<open>simp_all add: addChild_def\<close>)
qed

end
