(* ===== verification/Keeper_Restart.thy ===== *)
theory Keeper_Restart
  imports Keeper_Restore
begin

section \<open>Restarting from a snapshot\<close>

text \<open>
  The sections of a snapshot read back one after the other, and the storage that comes out: it shows the tree of
  the storage that the snapshot was taken of, with its sessions, and satisfies the invariant of the state machine.
\<close>

subsection \<open>Sessions\<close>

definition session_step :: "int \<Rightarrow> (int \<rightharpoonup> auth_id list) \<Rightarrow> int \<times> int \<Rightarrow> storage \<Rightarrow> storage result" where
  "session_step now auths e s = res_bind (addSessionID now (fst e) (snd e) s) (\<lambda>s1.
     Inr (if bucket auths (fst e) \<noteq> []
          then s1\<lparr>committed_session_and_auth := (committed_session_and_auth s1)(fst e \<mapsto> bucket auths (fst e))\<rparr> else s1))"

definition auth_fits :: "auth_id \<Rightarrow> bool" where
  "auth_fits a \<longleftrightarrow> short_string (au_scheme a) \<and> short_string (au_ident a)"

definition session_fits :: "(int \<rightharpoonup> auth_id list) \<Rightarrow> int \<times> int \<Rightarrow> bool" where
  "session_fits auths e \<longleftrightarrow> int64_ok (fst e) \<and> int64_ok (snd e) \<and> length (bucket auths (fst e)) < 2 ^ 64
     \<and> (\<forall>a\<in>set (bucket auths (fst e)). auth_fits a)"

lemma read_session_write:
  assumes fit: "session_fits auths e" and run: "session_step now auths e s = Inr s'" and v: "1 \<le> version"
  shows "read_session now version s (write_session auths e @ rest) = Inr (s', rest)"
proof -
  have auth: "read_counted read_auth (write_counted write_auth (bucket auths (fst e)) @ rest) = Inr (bucket auths (fst e), rest)"
    by (rule read_counted_write) (use fit in \<open>auto simp: session_fits_def auth_fits_def read_auth_def write_auth_def round_trip\<close>)
  have "write_session auths e = native_bytes 8 (fst e) @ native_bytes 8 (snd e) @ write_counted write_auth (bucket auths (fst e))"
    by (simp add: write_session_def bucket_def)
  then show ?thesis
    using fit run v auth by (auto simp: read_session_def session_fits_def round_trip session_step_def res_bind_Inr_iff)
qed

text \<open>What the sessions leave alone.\<close>

definition session_frame :: "storage \<Rightarrow> storage \<Rightarrow> bool" where
  "session_frame s s' \<longleftrightarrow> container s' = container s \<and> acl_map_of s' = acl_map_of s \<and> committed_ephemerals s' = committed_ephemerals s
     \<and> nodes_digest s' = nodes_digest s \<and> uncommitted s' = uncommitted s \<and> committed_zxid s' = committed_zxid s
     \<and> old_snapshot_zxid s' = old_snapshot_zxid s \<and> session_id_counter s' = session_id_counter s
     \<and> superdigest s' = superdigest s \<and> uncommitted_transactions s' = uncommitted_transactions s \<and> initialized s' = initialized s
     \<and> watch_tables_of s' = watch_tables_of s"

lemma session_step_run:
  assumes q: "queue_wf (session_expiry_queue_of s)" and new: "session_and_timeout s (fst e) = None"
  obtains s' where "session_step now auths e s = Inr s'" "session_frame s s'" "queue_wf (session_expiry_queue_of s')"
    "session_and_timeout s' = (session_and_timeout s)(fst e \<mapsto> snd e)"
    "committed_session_and_auth s' = (if bucket auths (fst e) \<noteq> [] then (committed_session_and_auth s)(fst e \<mapsto> bucket auths (fst e))
       else committed_session_and_auth s)"
    "session_to_expiration_time (session_expiry_queue_of s') = (session_to_expiration_time (session_expiry_queue_of s))
       (fst e \<mapsto> nextInterval (session_expiry_queue_of s) (now + snd e))"
    "expiration_interval (session_expiry_queue_of s') = expiration_interval (session_expiry_queue_of s)"
proof -
  obtain q' where q': "addNewSessionOrUpdate (session_expiry_queue_of s) now (fst e) (snd e) = Inr q'" "queue_wf q'"
    "session_to_expiration_time q' = (session_to_expiration_time (session_expiry_queue_of s))
       (fst e \<mapsto> nextInterval (session_expiry_queue_of s) (now + snd e))"
    "expiration_interval q' = expiration_interval (session_expiry_queue_of s)"
    by (rule addNewSessionOrUpdate_spec [OF q]) (rule that)
  let ?s1 = "s\<lparr>session_and_timeout := (session_and_timeout s)(fst e \<mapsto> snd e), session_expiry_queue_of := q'\<rparr>"
  let ?s2 = "if bucket auths (fst e) \<noteq> []
    then ?s1\<lparr>committed_session_and_auth := (committed_session_and_auth s)(fst e \<mapsto> bucket auths (fst e))\<rparr> else ?s1"
  have run: "session_step now auths e s = Inr ?s2" using new q'(1) by (simp add: session_step_def addSessionID_def)
  show ?thesis
    by (rule that [OF run]) (use q' in \<open>simp_all add: session_frame_def\<close>)
qed

definition sessions_restored :: "int \<Rightarrow> (int \<rightharpoonup> auth_id list) \<Rightarrow> (int \<times> int) list \<Rightarrow> storage \<Rightarrow> storage \<Rightarrow> bool" where
  "sessions_restored now auths es s s' \<longleftrightarrow> session_frame s s' \<and> queue_wf (session_expiry_queue_of s')
     \<and> session_and_timeout s' = session_and_timeout s ++ map_of es
     \<and> (\<forall>sid. committed_session_and_auth s' sid = (if sid \<in> fst ` set es \<and> bucket auths sid \<noteq> [] then Some (bucket auths sid)
          else committed_session_and_auth s sid))
     \<and> session_to_expiration_time (session_expiry_queue_of s') = session_to_expiration_time (session_expiry_queue_of s)
         ++ (\<lambda>sid. map_option (\<lambda>t. nextInterval (session_expiry_queue_of s) (now + t)) (map_of es sid))"

lemma nextInterval_cong:
  "expiration_interval q' = expiration_interval q \<Longrightarrow> nextInterval q' t = nextInterval q t"
  by (simp add: nextInterval_def)

lemma sessions_fold:
  assumes "queue_wf (session_expiry_queue_of s)" "distinct (map fst es)" "\<forall>e\<in>set es. session_and_timeout s (fst e) = None"
  obtains s' where "res_fold (session_step now auths) es s = Inr s'" "sessions_restored now auths es s s'"
  using assms
proof (induction es arbitrary: s thesis)
  case Nil
  show ?case
    by (rule Nil(1) [of s]) (use Nil(2) in \<open>simp_all add: sessions_restored_def session_frame_def map_add_def\<close>)
next
  case (Cons e es)
  have new: "session_and_timeout s (fst e) = None" using Cons.prems(4) by simp
  obtain s1 where s1: "session_step now auths e s = Inr s1" "session_frame s s1" "queue_wf (session_expiry_queue_of s1)"
    "session_and_timeout s1 = (session_and_timeout s)(fst e \<mapsto> snd e)"
    "committed_session_and_auth s1 = (if bucket auths (fst e) \<noteq> [] then (committed_session_and_auth s)(fst e \<mapsto> bucket auths (fst e))
       else committed_session_and_auth s)"
    "session_to_expiration_time (session_expiry_queue_of s1) = (session_to_expiration_time (session_expiry_queue_of s))
       (fst e \<mapsto> nextInterval (session_expiry_queue_of s) (now + snd e))"
    "expiration_interval (session_expiry_queue_of s1) = expiration_interval (session_expiry_queue_of s)"
    by (rule session_step_run [OF Cons.prems(2) new, where now = now and auths = auths]) (rule that)
  have dist: "distinct (map fst es)" "fst e \<notin> fst ` set es" using Cons.prems(3) by simp_all
  have fresh: "\<forall>x\<in>set es. session_and_timeout s1 (fst x) = None"
    using Cons.prems(4) dist(2) by (auto simp: s1(4) image_iff)
  obtain s2 where s2: "res_fold (session_step now auths) es s1 = Inr s2" "sessions_restored now auths es s1 s2"
    by (rule Cons.IH [OF _ s1(3) dist(1) fresh]) (rule that)
  note r = s2(2) [unfolded sessions_restored_def]
  have none: "map_of es (fst e) = None" using dist(2) by (simp add: map_of_eq_None_iff)
  have "session_and_timeout s2 = session_and_timeout s ++ map_of (e # es)"
    using r none by (intro ext) (simp add: s1(4) map_add_def split: option.split)
  moreover have "committed_session_and_auth s2 sid = (if sid \<in> fst ` set (e # es) \<and> bucket auths sid \<noteq> [] then Some (bucket auths sid)
      else committed_session_and_auth s sid)" for sid
    using r by (simp add: s1(5))
  moreover have "session_to_expiration_time (session_expiry_queue_of s2) = session_to_expiration_time (session_expiry_queue_of s)
      ++ (\<lambda>sid. map_option (\<lambda>t. nextInterval (session_expiry_queue_of s) (now + t)) (map_of (e # es) sid))"
    using r none nextInterval_cong [OF s1(7)] by (intro ext) (simp add: s1(6) map_add_def split: option.split)
  moreover have "session_frame s s2" using s1(2) r by (simp add: session_frame_def)
  ultimately have "sessions_restored now auths (e # es) s s2" using r by (simp add: sessions_restored_def)
  then show ?case by (intro Cons.prems(1) [of s2]) (use s1(1) s2(1) in simp)
qed

subsection \<open>The sections of a snapshot\<close>

text \<open>What the code relies on of the consensus library: it reads what it has written.\<close>

definition codec_reads :: "('m, 'c) nuraft_codec \<Rightarrow> 'm \<Rightarrow> 'c option \<Rightarrow> bool" where
  "codec_reads nu meta config \<longleftrightarrow> nu_read_meta nu (nu_write_meta nu meta) = Inr meta \<and> length (nu_write_meta nu meta) < 2 ^ 64
     \<and> (\<forall>c. config = Some c \<longrightarrow> nu_read_config nu (nu_write_config nu c) = Inr c \<and> length (nu_write_config nu c) < 2 ^ 64)"

lemma deserializeSnapshotMetadata_write:
  "codec_reads nu meta config \<Longrightarrow> deserializeSnapshotMetadata nu (serializeSnapshotMetadata nu meta @ rest) = Inr (meta, rest)"
  by (simp add: codec_reads_def deserializeSnapshotMetadata_def serializeSnapshotMetadata_def round_trip Let_def)

lemma read_cluster_config_write:
  "codec_reads nu meta config \<Longrightarrow> read_cluster_config nu (case config of None \<Rightarrow> []
     | Some c \<Rightarrow> (let buffer = nu_write_config nu c in writeVarUInt (length buffer) @ buffer)) = Inr config"
  by (cases config)
    (simp_all add: codec_reads_def read_cluster_config_def Let_def readVarUInt_write read_bytes_append [where rest = "[]", simplified])

lemma uint_mod_64: "uint (d :: 64 word) mod 256 ^ 8 = uint d"
  using uint_lt2p [of d] by (simp add: uint_ge_0)

lemma read_snapshot_header_write:
  assumes "codec_reads nu meta config" "int64_ok zxid"
  shows "read_header nu ctx s (native_bytes 1 6 @ serializeSnapshotMetadata nu meta @ native_bytes 8 zxid @ write_digest ctx digest @ rest)
    = Inr ((6, meta, False, s\<lparr>committed_zxid := zxid, old_snapshot_zxid := 0,
        nodes_digest := (if kc_digest_enabled ctx then digest else nodes_digest s)\<rparr>), rest)"
proof -
  have b: "read_native 1 (native_bytes 1 6 @ r) = Inr (6, r)" "read_native 1 (native_bytes 1 4 @ r) = Inr (4, r)"
    "read_native 1 (native_bytes 1 0 @ r) = Inr (0, r)" for r
    by (rule read_byte_write; simp)+
  have d: "read_native 8 (native_bytes 8 (uint digest) @ r) = Inr (uint digest, r)" for r
    using read_native_write [of 8 "uint digest" r] unfolding uint_mod_64 .
  show ?thesis
    using assms
    by (simp add: read_header_def b d deserializeSnapshotMetadata_write round_trip write_digest_def CURRENT_SNAPSHOT_VERSION_def Let_def
      del: One_nat_def)
qed

definition acl_fits :: "acl \<Rightarrow> bool" where
  "acl_fits a \<longleftrightarrow> int32_ok (acl_permissions a) \<and> short_string (acl_scheme a) \<and> short_string (acl_ident a)"

definition acl_map_fits :: "acl_map \<Rightarrow> bool" where
  "acl_map_fits m \<longleftrightarrow> card (dom (num_to_acl m)) < 2 ^ 64
     \<and> (\<forall>k a. num_to_acl m k = Some a \<longrightarrow> k < 2 ^ 64 \<and> length a < 2 ^ 64 \<and> list_all acl_fits a)"

lemma read_acl_entry_write:
  assumes "fst e < 2 ^ 64" "length (snd e) < 2 ^ 64" "list_all acl_fits (snd e)"
  shows "read_acl_entry (write_acl_entry e @ rest) = Inr (e, rest)"
proof -
  have "read_counted read_snapshot_acl (write_counted write_snapshot_acl (snd e) @ rest) = Inr (snd e, rest)"
    by (rule read_counted_write [OF assms(2)])
      (use assms(3) in \<open>auto simp: list_all_iff acl_fits_def read_snapshot_acl_def write_snapshot_acl_def round_trip\<close>)
  then show ?thesis using assms(1) by (simp add: read_acl_entry_def write_acl_entry_def round_trip)
qed

lemma length_sorted_entries: "length (sorted_entries m) = card (dom m)"
  by (simp add: sorted_entries_def)

lemma read_acl_map_write:
  assumes fit: "acl_map_fits m" and wf: "acl_map_wf m" and v: "1 \<le> version"
  shows "read_acl_map version s (write_counted write_acl_entry (sorted_entries (num_to_acl m)) @ rest)
    = Inr (s\<lparr>acl_map_of := fold (\<lambda>e m. addMapping m (fst e) (snd e)) (sorted_entries (num_to_acl m)) (acl_map_of s)\<rparr>, rest)"
proof -
  have "read_counted read_acl_entry (write_counted write_acl_entry (sorted_entries (num_to_acl m)) @ rest)
      = Inr (sorted_entries (num_to_acl m), rest)"
  proof (rule read_counted_write)
    fix e r assume "e \<in> set (sorted_entries (num_to_acl m))"
    then have "num_to_acl m (fst e) = Some (snd e)"
      using set_sorted_entries [OF acl_map_finite [OF wf], of "fst e" "snd e"] by simp
    with fit show "read_acl_entry (write_acl_entry e @ r) = Inr (e, r)"
      by (intro read_acl_entry_write) (auto simp: acl_map_fits_def)
  qed (use fit in \<open>simp add: length_sorted_entries acl_map_fits_def\<close>)
  then show ?thesis using v by (simp add: read_acl_map_def)
qed

lemma read_tree_write:
  assumes fit: "\<forall>e\<in>set (snapshot_nodes ns). tree_node_fits sizeof_node e \<and> ns_mzxid (mn_stats (snd e)) \<le> zxid"
    and count: "int (length ns) - int k = int (length (snapshot_nodes ns))" "length ns < 2 ^ 64" and v: "1 \<le> version"
  shows "read_tree ctx version False s (native_bytes 8 (int (length ns) - int k) @ write_nodes sizeof_node version zxid ns @ rest)
    = Inr (fold (restore_step False) (snapshot_nodes ns) s, rest)"
proof -
  have "length (snapshot_nodes ns) < 2 ^ 64"
    unfolding snapshot_nodes_def by (rule order.strict_trans1 [OF length_filter_le count(2)])
  then have size: "read_size (native_bytes 8 (int (length ns) - int k) @ r) = Inr (length (snapshot_nodes ns), r)" for r
    unfolding count(1) write_size_def [symmetric] by (rule read_size_write)
  have "read_times (length (snapshot_nodes ns)) (read_tree_node ctx version False) s
      (concat (map (write_tree_node sizeof_node version) (snapshot_nodes ns)) @ rest) = Inr (fold (restore_step False) (snapshot_nodes ns) s, rest)"
    by (rule read_times_write [OF res_fold_total_fold]) (use fit v read_tree_node_write in auto)
  then show ?thesis
    using fit by (simp add: read_tree_def size write_nodes_all)
qed

lemma read_sessions_write:
  assumes run: "res_fold (session_step now auths) (sorted_entries m) s = Inr s'"
    and fit: "card (dom m) < 2 ^ 64" "\<forall>e\<in>set (sorted_entries m). session_fits auths e" and v: "1 \<le> version"
  shows "read_sessions now version s (write_counted (write_session auths) (sorted_entries m) @ rest) = Inr (s', rest)"
proof -
  have "read_times (length (sorted_entries m)) (read_session now version) s
      (concat (map (write_session auths) (sorted_entries m)) @ rest) = Inr (s', rest)"
    by (rule read_times_write [OF run]) (use fit(2) v read_session_write in auto)
  then show ?thesis
    using fit(1) by (simp add: read_sessions_def write_counted_def round_trip length_sorted_entries)
qed

subsection \<open>The nodes of a snapshot\<close>

text \<open>The nodes below the system path are those of the configuration, and the system path itself is untouched.\<close>

definition system_as_configured :: "keeper_context \<Rightarrow> storage \<Rightarrow> bool" where
  "system_as_configured ctx s \<longleftrightarrow> distinct (map fst (kc_system_nodes_with_data ctx))
     \<and> (\<forall>p. matchPath p keeper_system_path = IS_CHILD \<longrightarrow>
          cview s p = map_option (\<lambda>d. abs_node [] (system_node d)) (map_of (kc_system_nodes_with_data ctx) p))
     \<and> map_option an_stats (cview s keeper_system_path) = Some default_stats"

definition nodes_fit :: "nat \<Rightarrow> storage \<Rightarrow> bool" where
  "nodes_fit sizeof_node s \<longleftrightarrow> distinct (map fst (container s)) \<and> length (container s) < 2 ^ 64
     \<and> (\<forall>(p, n)\<in>set (container s). node_fits n \<and> sizeInBytes sizeof_node n < 2 ^ 64 \<and> length p < 2 ^ 64
          \<and> ns_mzxid (mn_stats n) \<le> committed_zxid s)"

lemma map_of_snapshot_nodes:
  "map_of (snapshot_nodes ns) p = (if matchPath p keeper_system_path = IS_CHILD then None else map_of ns p)"
  unfolding snapshot_nodes_def by (induction ns) auto

lemma snapshot_node_fits:
  assumes fit: "nodes_fit sizeof_node s" and sys: "system_as_configured ctx s" and inv: "committed_inv s"
    and e: "e \<in> set (snapshot_nodes (container s))"
  shows "tree_node_fits sizeof_node e" "ns_mzxid (mn_stats (snd e)) \<le> committed_zxid s"
proof -
  obtain p n where pn: "e = (p, n)" by fastforce
  have mem: "(p, n) \<in> set (container s)" "matchPath p keeper_system_path \<noteq> IS_CHILD" using e by (simp_all add: pn snapshot_nodes_def)
  have node: "find_node s p = Some n" using fit mem(1) by (simp add: nodes_fit_def find_node_def)
  have "node_empty n" if "matchPath p keeper_system_path = EXACT"
  proof -
    have "canonical_path p" using inv node by (auto simp: committed_inv_def children_exact_def)
    moreover have "p \<noteq> root" using that root_not_below by auto
    ultimately have "p = keeper_system_path" using at_system_iff that by simp
    then have "mn_stats n = default_stats" using sys node by (simp add: system_as_configured_def cview_def abs_node_def)
    then show ?thesis by (simp add: node_empty_def default_stats_def)
  qed
  then show "tree_node_fits sizeof_node e" "ns_mzxid (mn_stats (snd e)) \<le> committed_zxid s"
    using fit mem by (auto simp: nodes_fit_def tree_node_fits_def pn)
qed

lemma length_filter_keys:
  assumes "distinct (map fst xs)"
  shows "length (filter (\<lambda>e. P (fst e)) xs) = card {k \<in> fst ` set xs. P k}"
proof -
  have "distinct (map fst (filter (\<lambda>e. P (fst e)) xs))" using assms by (rule distinct_map_filter)
  then have "length (filter (\<lambda>e. P (fst e)) xs) = card (set (map fst (filter (\<lambda>e. P (fst e)) xs)))"
    by (metis distinct_card length_map)
  also have "set (map fst (filter (\<lambda>e. P (fst e)) xs)) = {k \<in> fst ` set xs. P k}" by auto
  finally show ?thesis .
qed

lemma system_child_below: "system_child p \<Longrightarrow> matchPath p keeper_system_path = IS_CHILD"
  using system_child_facts(3,4) below_system_iff by (auto simp: system_child_def)

lemma snapshot_count:
  assumes "nodes_fit sizeof_node s" "system_as_configured ctx s" "system_nodes_ok (kc_system_nodes_with_data ctx)"
  shows "int (length (container s)) - int (length (kc_system_nodes_with_data ctx)) = int (length (snapshot_nodes (container s)))"
proof -
  let ?below = "\<lambda>p. matchPath p keeper_system_path = IS_CHILD" and ?sys = "kc_system_nodes_with_data ctx"
  have "{k \<in> fst ` set (container s). ?below k} = fst ` set ?sys"
  proof (intro equalityI subsetI)
    fix k assume k: "k \<in> {k \<in> fst ` set (container s). ?below k}"
    then have "cview s k \<noteq> None" by (simp add: cview_def find_node_def map_of_eq_None_iff)
    moreover have "cview s k = map_option (\<lambda>d. abs_node [] (system_node d)) (map_of ?sys k)"
      using assms(2) k by (simp add: system_as_configured_def)
    ultimately have "map_of ?sys k \<noteq> None" by simp
    then show "k \<in> fst ` set ?sys" by (simp add: map_of_eq_None_iff)
  next
    fix k assume k: "k \<in> fst ` set ?sys"
    then have below: "?below k" using assms(3) system_child_below by (auto simp: system_nodes_ok_def)
    have "map_of ?sys k \<noteq> None" using k by (simp add: map_of_eq_None_iff)
    then have "cview s k \<noteq> None" using assms(2) below by (simp add: system_as_configured_def)
    then show "k \<in> {k \<in> fst ` set (container s). ?below k}" using below by (simp add: cview_def find_node_def map_of_eq_None_iff)
  qed
  moreover have "card (fst ` set ?sys) = length ?sys"
    using assms(2) distinct_card [of "map fst ?sys"] by (simp add: system_as_configured_def)
  moreover have "length (filter (\<lambda>e. ?below (fst e)) (container s)) = card {k \<in> fst ` set (container s). ?below k}"
    by (rule length_filter_keys) (use assms(1) in \<open>simp add: nodes_fit_def\<close>)
  ultimately have "length (filter (\<lambda>e. ?below (fst e)) (container s)) = length ?sys" by simp
  then show ?thesis
    using sum_length_filter_compl [of "\<lambda>e. ?below (fst e)" "container s"] by (simp add: snapshot_nodes_def)
qed

subsection \<open>The tree that is read\<close>

definition node_content :: "mem_node \<Rightarrow> node_stats \<times> string \<times> nat" where
  "node_content n = (mn_stats n, getData n, mn_acl_id n)"

lemma node_content_restored:
  "node_content (with_children ps p (restored_node n)) = node_content n"
  "node_wf n \<Longrightarrow> node_wf (with_children ps p (restored_node n))"
  by (simp_all add: node_content_def with_children_fields restored_node_def getData_def node_wf_def)

lemma card_base_names:
  assumes "\<forall>q\<in>K. canonical_path q \<and> q \<noteq> root \<and> parentOf q = p"
  shows "card (getBaseNodeName ` K) = card K"
proof (rule card_image, rule inj_onI)
  fix x y assume "x \<in> K" "y \<in> K" "getBaseNodeName x = getBaseNodeName y"
  with assms show "x = y" by (metis canonical_path_inj)
qed

definition below :: "path \<Rightarrow> bool" where
  "below p \<longleftrightarrow> matchPath p keeper_system_path = IS_CHILD"

lemma below_parent_sys:
  assumes q: "canonical_path q" "q \<noteq> root" "below q"
  shows "sys (parentOf q)"
proof -
  obtain x where x: "q = keeper_system_path @ slash # x" using below_system_iff [OF q(1,2)] q(3) by (auto simp: below_def)
  obtain r b where r: "q = r @ slash # b" "slash \<notin> set b" "b \<noteq> []" "r = [] \<or> (canonical_path r \<and> r \<noteq> root)"
    by (rule canonical_split [OF q(1,2)])
  have "keeper_system_path @ slash # x = r @ slash # b" using x r(1) by simp
  then have "r = keeper_system_path \<or> (\<exists>y. r = keeper_system_path @ slash # y)"
    using r(2) by (auto simp: append_eq_append_conv2 append_eq_Cons_conv Cons_eq_append_conv)
  moreover from this have "r \<noteq> []" by (auto simp: keeper_system_path_def)
  ultimately show ?thesis
    using r(4) parentOf_split [OF r(2), of r] by (auto simp: r(1) sys_iff)
qed

text \<open>The storage after the nodes are read and their children are built.\<close>

definition tree_read :: "storage \<Rightarrow> storage \<Rightarrow> bool" where
  "tree_read s s' \<longleftrightarrow> children_exact (find_node s') \<and> container_wf s' \<and> ephemerals_exact s' \<and> distinct (map fst (container s'))
     \<and> acl_map_wf (acl_map_of s') \<and> num_to_acl (acl_map_of s') = num_to_acl (acl_map_of s)
     \<and> (\<forall>k. usage_of (acl_map_of s') k = card (acl_users s' k))
     \<and> (\<forall>p. map_option node_content (find_node s' p) = (if below p then None else map_option node_content (find_node s p)))
     \<and> (\<forall>p n. find_node s' p = Some n \<longrightarrow> distinct (mn_children n))"

lemma usage_of_nodes:
  assumes "distinct (map fst ns)" "\<And>p. map_option mn_acl_id (X p) = map_option mn_acl_id (map_of ns p)"
  shows "length (filter (\<lambda>e. mn_acl_id (snd e) = k) ns) = card {p. map_option mn_acl_id (X p) = Some k}"
proof -
  have "distinct (map fst (filter (\<lambda>e. mn_acl_id (snd e) = k) ns))" using assms(1) by (rule distinct_map_filter)
  then have "length (filter (\<lambda>e. mn_acl_id (snd e) = k) ns) = card (set (map fst (filter (\<lambda>e. mn_acl_id (snd e) = k) ns)))"
    by (metis distinct_card length_map)
  also have "set (map fst (filter (\<lambda>e. mn_acl_id (snd e) = k) ns)) = {p. map_option mn_acl_id (map_of ns p) = Some k}"
    using assms(1) by (force simp: map_of_eq_Some_iff)
  finally show ?thesis by (simp add: assms(2))
qed

lemma content_proj:
  assumes "map_option node_content (X p) = map_option node_content (Y p)"
  shows "map_option mn_acl_id (X p) = map_option mn_acl_id (Y p)" "map_option mn_stats (X p) = map_option mn_stats (Y p)"
    "X p = None \<longleftrightarrow> Y p = None"
  using assms by (cases "X p"; cases "Y p"; simp add: node_content_def)+

lemma children_checked:
  assumes r: "tree_read s s'" and inv: "committed_inv s" "tree_inv (cview s)" and sys: "system_as_configured ctx s"
    and n: "find_node s' p = Some n" "p \<noteq> root" and fit: "int32_ok (numChildren (mn_stats n))"
  shows "numChildren (mn_stats n) = signed_take_bit 31 (int (length (mn_children n)))"
proof -
  let ?K = "{q. find_node s' q \<noteq> None \<and> q \<noteq> root \<and> parentOf q = p}"
  have set: "set (mn_children n) = getBaseNodeName ` ?K" and can: "canonical_path p"
    using r n(1) by (auto simp: tree_read_def children_exact_def)
  have canq: "canonical_path q" if "find_node s' q \<noteq> None" for q using r that by (auto simp: tree_read_def children_exact_def)
  have "distinct (mn_children n)" using r n(1) by (auto simp: tree_read_def)
  then have "length (mn_children n) = card (getBaseNodeName ` ?K)" using distinct_card [of "mn_children n"] set by simp
  then have len: "length (mn_children n) = card ?K" using card_base_names [of ?K p] canq by simp
  have content: "map_option node_content (find_node s' q) = (if below q then None else map_option node_content (find_node s q))" for q
    using r by (simp add: tree_read_def)
  have nb: "\<not> below p" using content [of p] n(1) by auto
  obtain m where m: "find_node s p = Some m" "mn_stats m = mn_stats n"
    using content [of p] n(1) nb by (cases "find_node s p") (simp_all add: node_content_def)
  have view: "cview s p = Some (abs_node (acls_of (acl_map_of s) (mn_acl_id m)) m)" using m(1) by (simp add: cview_def)
  have "numChildren (mn_stats n) = int (card ?K)"
  proof (cases "sys p")
    case True
    then have p: "p = keeper_system_path" using sys_iff [OF can n(2)] below_system_iff [OF can n(2)] nb by (auto simp: below_def)
    then have "mn_stats n = default_stats" using sys view m(2) by (simp add: system_as_configured_def abs_node_def)
    moreover have "card ?K = card ({} :: path set)"
    proof -
      have "below q" if "canonical_path q" "q \<noteq> root" "parentOf q = p" for q
        unfolding below_def by (rule below_system_parent [OF that(1,2)]) (simp add: that(3) True)
      moreover have "\<not> below q" if "find_node s' q \<noteq> None" for q using content [of q] that by auto
      ultimately have "?K = {}" using canq by blast
      then show ?thesis by (rule arg_cong)
    qed
    ultimately show ?thesis by (simp only: card.empty) (simp add: numChildren_def default_stats_def isEphemeral_def)
  next
    case False
    have "find_node s' q \<noteq> None \<longleftrightarrow> find_node s q \<noteq> None" if q: "q \<noteq> root" "parentOf q = p" for q
    proof -
      have "\<not> below q" if "canonical_path q" using below_parent_sys [OF that q(1)] False q(2) by auto
      moreover have "canonical_path q" if "find_node s q \<noteq> None" using inv(1) that by (auto simp: committed_inv_def children_exact_def)
      ultimately have "find_node s' q \<noteq> None \<or> find_node s q \<noteq> None \<longrightarrow> \<not> below q" using canq [of q] by blast
      then show ?thesis using content_proj(3) [of "find_node s'" q "find_node s"] content [of q] by (cases "below q") auto
    qed
    then have "?K = kids (cview s) p" by (auto simp: kids_def cview_def)
    then show ?thesis using tree_inv_node(6) [OF inv(2) view False] m(2) by (simp add: abs_node_def)
  qed
  then show ?thesis using fit len signed_take_bit_int_eq_self [of 31 "int (length (mn_children n))"] by (simp add: int32_ok_def)
qed

text \<open>The storage into which the nodes are read: it has the root and the mappings of the ACLs.\<close>

definition ready_for :: "storage \<Rightarrow> storage \<Rightarrow> bool" where
  "ready_for s b \<longleftrightarrow> container b = [(root, copy_node default_node)] \<and> acl_map_wf (acl_map_of b)
     \<and> num_to_acl (acl_map_of b) = num_to_acl (acl_map_of s) \<and> usage_counter (acl_map_of b) = Map.empty
     \<and> committed_ephemerals b = Map.empty"

lemma ready_no_digests: "ready_for s b \<Longrightarrow> no_digests b"
  by (simp add: ready_for_def no_digests_def find_node_def copy_node_def assign_node_def default_node_def default_stats_def Let_def split: if_splits)

lemma nodes_read:
  assumes b: "ready_for s b" and inv: "committed_inv s" "tree_inv (cview s)" and fit: "nodes_fit sizeof_node s"
    and s3: "s3 = fold (restore_step False) (snapshot_nodes (container s)) b"
  shows "tree_frame b s3" "nodes_digest s3 = nodes_digest b" "distinct (map fst (container s3))"
    "acl_map_wf (acl_map_of s3)" "num_to_acl (acl_map_of s3) = num_to_acl (acl_map_of s)"
    "usage_of (acl_map_of s3) k = card {p. \<not> below p \<and> map_option mn_acl_id (find_node s p) = Some k}"
    "set (bucket (committed_ephemerals s3) sid)
       = {p. \<not> below p \<and> sid \<noteq> 0 \<and> map_option (\<lambda>n. ephemeralOwner (mn_stats n)) (find_node s p) = Some sid}"
    "find_node s3 p = (if below p then None else map_option restored_node (find_node s p))"
proof -
  let ?N = "snapshot_nodes (container s)"
  have dist: "distinct (map fst ?N)" unfolding snapshot_nodes_def by (rule distinct_map_filter) (use fit in \<open>simp add: nodes_fit_def\<close>)
  have N: "map_of ?N p = (if below p then None else find_node s p)" for p
    by (simp add: map_of_snapshot_nodes below_def find_node_def)
  have r: "restored_by False ?N b s3" unfolding s3 by (rule restore_fold [OF ready_no_digests [OF b] dist])
  note R = r [unfolded restored_by_def]
  show "tree_frame b s3" "nodes_digest s3 = nodes_digest b" "distinct (map fst (container s3))"
    "acl_map_wf (acl_map_of s3)" "num_to_acl (acl_map_of s3) = num_to_acl (acl_map_of s)"
    using R b by (simp_all add: ready_for_def)
  have "length (filter (\<lambda>e. mn_acl_id (snd e) = k) ?N) = card {p. map_option mn_acl_id (map_of ?N p) = Some k}"
    by (rule usage_of_nodes [OF dist refl])
  moreover have "{p. map_option mn_acl_id (map_of ?N p) = Some k} = {p. \<not> below p \<and> map_option mn_acl_id (find_node s p) = Some k}"
    by (auto simp: N split: if_splits)
  ultimately show "usage_of (acl_map_of s3) k = card {p. \<not> below p \<and> map_option mn_acl_id (find_node s p) = Some k}"
    using R b by (simp add: ready_for_def usage_of_def)
  have "(p, n) \<in> set ?N \<longleftrightarrow> \<not> below p \<and> find_node s p = Some n" for p n
    using map_of_eq_Some_iff [OF dist, of p n] by (auto simp: N split: if_splits)
  then have "{p. \<exists>n. (p, n) \<in> set ?N \<and> ephemeralOwner (mn_stats n) = sid \<and> sid \<noteq> 0}
      = {p. \<not> below p \<and> sid \<noteq> 0 \<and> map_option (\<lambda>n. ephemeralOwner (mn_stats n)) (find_node s p) = Some sid}"
    by auto
  then show "set (bucket (committed_ephemerals s3) sid)
       = {p. \<not> below p \<and> sid \<noteq> 0 \<and> map_option (\<lambda>n. ephemeralOwner (mn_stats n)) (find_node s p) = Some sid}"
    using R b by (simp add: ready_for_def bucket_def)
  have root: "find_node s root \<noteq> None" using tree_invD(3) [OF inv(2)] by (simp add: cview_def)
  have "find_node s3 p = (find_node b ++ (\<lambda>p. map_option restored_node (map_of ?N p))) p" using R by simp
  then show "find_node s3 p = (if below p then None else map_option restored_node (find_node s p))"
    using b root root_not_below
    by (auto simp: N ready_for_def find_node_def [of b] map_add_def below_def split: option.splits)
qed

lemma children_built:
  assumes b: "ready_for s b" and inv: "committed_inv s" "tree_inv (cview s)" and fit: "nodes_fit sizeof_node s"
    and s3: "s3 = fold (restore_step False) (snapshot_nodes (container s)) b"
  obtains s4 where "build_children s3 = Inr s4" "tree_read s s4" "tree_frame b s4" "nodes_digest s4 = nodes_digest b"
proof -
  note r = nodes_read [OF b inv fit s3]
  let ?ps = "map fst (container s3)"
  have keys: "q \<in> set ?ps \<longleftrightarrow> \<not> below q \<and> find_node s q \<noteq> None" for q
  proof -
    have "q \<in> set ?ps \<longleftrightarrow> find_node s3 q \<noteq> None" by (simp add: find_node_def map_of_eq_None_iff)
    then show ?thesis by (simp add: r(8))
  qed
  have can: "canonical_path q" if "find_node s q \<noteq> None" for q using inv(1) that by (auto simp: committed_inv_def children_exact_def)
  have par: "\<forall>q\<in>set ?ps. q \<noteq> root \<longrightarrow> slash \<in> set q \<and> find_node s3 (parentOf q) \<noteq> None"
  proof (intro ballI impI)
    fix q assume q: "q \<in> set ?ps" "q \<noteq> root"
    then have f: "find_node s q \<noteq> None" "\<not> below q" using keys by blast+
    have "cview s q \<noteq> None" using f(1) by (simp add: cview_def)
    then have "find_node s (parentOf q) \<noteq> None"
      using tree_inv_node(5) [OF inv(2) _ q(2)] by (auto simp: cview_def)
    moreover have "\<not> below (parentOf q)"
      using parent_not_below [OF can [OF f(1)] q(2)] f(2) by (simp add: below_def)
    ultimately show "slash \<in> set q \<and> find_node s3 (parentOf q) \<noteq> None"
      using canonical_path_slash [OF can [OF f(1)]] by (simp add: r(8))
  qed
  obtain s4 where s4: "res_fold build_child ?ps s3 = Inr s4" "tree_frame s3 s4" "acl_map_of s4 = acl_map_of s3"
    "committed_ephemerals s4 = committed_ephemerals s3" "nodes_digest s4 = nodes_digest s3"
    "map fst (container s4) = map fst (container s3)" "\<And>x. find_node s4 x = map_option (with_children ?ps x) (find_node s3 x)"
    by (rule build_children_fold [OF par]) (rule that)
  have f: "find_node s4 p = (if below p then None else map_option (\<lambda>n. with_children ?ps p (restored_node n)) (find_node s p))" for p
    by (simp add: s4(7) r(8) option.map_comp comp_def)
  have content: "map_option node_content (find_node s4 p) = (if below p then None else map_option node_content (find_node s p))" for p
    by (simp add: f option.map_comp comp_def node_content_restored)
  have some: "find_node s4 p \<noteq> None \<longleftrightarrow> p \<in> set ?ps" for p unfolding keys by (simp add: f)
  have "children_exact (find_node s4)"
    unfolding children_exact_def
  proof (intro allI impI conjI)
    fix p n assume "find_node s4 p = Some n"
    then obtain m where m: "find_node s p = Some m" "n = with_children ?ps p (restored_node m)" by (auto simp: f split: if_splits)
    show "canonical_path p" using can m(1) by simp
    have "{q. find_node s4 q \<noteq> None \<and> q \<noteq> [slash] \<and> parentOf q = p} = set (filter (\<lambda>q. q \<noteq> root \<and> parentOf q = p) ?ps)"
      unfolding some by (simp only: set_filter)
    then show "set (mn_children n) = getBaseNodeName ` {q. find_node s4 q \<noteq> None \<and> q \<noteq> [slash] \<and> parentOf q = p}"
      by (simp add: m(2) with_children_fields restored_node_def set_fold_uset_insert child_names_def)
  qed
  moreover have "container_wf s4"
    using inv(1) node_content_restored(2) by (auto simp: committed_inv_def container_wf_def f split: if_splits)
  moreover have "ephemerals_exact s4"
    unfolding ephemerals_exact_def s4(4) r(7)
    by (auto simp: f with_children_fields restored_node_def option.map_comp comp_def split: if_splits)
  moreover have "acl_users s4 k = {p. \<not> below p \<and> map_option mn_acl_id (find_node s p) = Some k}" for k
    by (auto simp: acl_users_def f with_children_fields restored_node_def option.map_comp comp_def split: if_splits)
  moreover have "distinct (mn_children n)" if n: "find_node s4 p = Some n" for p n
    using n by (auto simp: f with_children_fields restored_node_def distinct_fold_uset_insert split: if_splits)
  ultimately have "tree_read s s4"
    using r(3-6) content by (simp add: tree_read_def s4(3,6))
  moreover have "build_children s3 = Inr s4" using s4(1) by (simp add: build_children_def)
  ultimately show ?thesis using that tree_frame_trans [OF r(1) s4(2)] r(2) s4(5) by simp
qed

lemma check_children_ok:
  assumes r: "tree_read s s'" and inv: "committed_inv s" "tree_inv (cview s)" and sys: "system_as_configured ctx s"
    and fit: "nodes_fit sizeof_node s"
  shows "check_children ndebug s' = Inr s'"
proof -
  have "numChildren (mn_stats n) = signed_take_bit 31 (int (length (mn_children n)))" if n: "(p, n) \<in> set (container s')" "p \<noteq> root" for p n
  proof -
    have node: "find_node s' p = Some n" using r n(1) by (simp add: tree_read_def find_node_def)
    have "map_option node_content (find_node s' p) = (if below p then None else map_option node_content (find_node s p))"
      using r by (simp add: tree_read_def)
    with node obtain m where m: "find_node s p = Some m" "mn_stats m = mn_stats n"
      by (cases "find_node s p") (auto simp: node_content_def split: if_splits)
    then have "(p, m) \<in> set (container s)" by (simp add: find_node_def map_of_SomeD)
    then have "stats_fit (mn_stats n)" using fit m(2) by (auto simp: nodes_fit_def node_fits_def)
    then have "int32_ok (numChildren (mn_stats n))" by (simp add: stats_fit_def union_read(2))
    with children_checked [OF r inv sys node n(2)] show ?thesis by simp
  qed
  then show ?thesis by (auto simp: check_children_def list_ex_iff root_literal)
qed

subsection \<open>The storage that comes out\<close>

lemma cview_content:
  "cview s p = map_option (\<lambda>(st, d, k). \<lparr>an_stats = st, an_data = d, an_acls = acls_of (acl_map_of s) k\<rparr>) (map_option node_content (find_node s p))"
  by (simp add: cview_def node_content_def abs_node_def option.map_comp comp_def)

lemma convertNumber_cong: "num_to_acl m' = num_to_acl m \<Longrightarrow> convertNumber m' k = convertNumber m k"
  by (simp add: convertNumber_def)

lemma acls_of_cong: "num_to_acl m' = num_to_acl m \<Longrightarrow> acls_of m' k = acls_of m k"
  by (simp add: acls_of_def convertNumber_def)

lemma system_restored:
  assumes r: "tree_read s s6" and inv: "committed_inv s" "tree_inv (cview s)" and sys: "system_as_configured ctx s"
    and ok: "system_nodes_ok (kc_system_nodes_with_data ctx)" and new: "\<not> initialized s6"
  obtains s7 where "initializeSystemNodes ctx s6 = Inr s7" "cview s7 = cview s" "committed_inv s7" "initialized s7"
    "tree_frame (s6\<lparr>initialized := True\<rparr>) s7" "nodes_digest s7 = nodes_digest s6"
proof -
  let ?sys = "kc_system_nodes_with_data ctx"
  note R = r [unfolded tree_read_def]
  have six: "children_exact (find_node s6)" "container_wf s6" "ephemerals_exact s6" "acl_map_wf (acl_map_of s6)"
    "num_to_acl (acl_map_of s6) = num_to_acl (acl_map_of s)" "\<And>k. usage_of (acl_map_of s6) k = card (acl_users s6 k)"
    using R by blast+
  have content: "map_option node_content (find_node s6 p) = (if below p then None else map_option node_content (find_node s p))" for p
    using R by blast
  have none: "find_node s6 p = None" if "below p" for p using content [of p] that by simp
  have keeper: "\<not> below keeper_system_path"
    using at_system_iff [OF keeper_path_canonical] by (simp add: below_def)
  have "find_node s keeper_system_path \<noteq> None" using tree_invD(2) [OF inv(2)] by (simp add: cview_def)
  then obtain k where k: "find_node s6 keeper_system_path = Some k"
    using content_proj(3) [of "find_node s6" keeper_system_path "find_node s"] content [of keeper_system_path] keeper by auto
  have kids: "\<forall>(p, d)\<in>set ?sys. system_child p \<and> find_node s6 p = None"
    using ok system_child_below none by (auto simp: system_nodes_ok_def below_def)
  have dist: "distinct (map fst ?sys)" using sys by (simp add: system_as_configured_def)
  have ex: "children_exact (find_node s6)" "system_flat (find_node s6)"
    using six(1) none by (auto simp: system_flat_def below_def)
  obtain s7 k' where s7: "res_fold insert_system_node ?sys s6 = Inr s7" "tree_frame s6 s7" "acl_map_of s7 = acl_map_of s6"
    "committed_ephemerals s7 = committed_ephemerals s6" "nodes_digest s7 = nodes_digest s6" "children_exact (find_node s7)"
    "find_node s7 = (find_node s6)(keeper_system_path \<mapsto> k') ++ (\<lambda>p. map_option system_node (map_of ?sys p))"
    "mn_stats k' = mn_stats k" "mn_data k' = mn_data k" "mn_acl_id k' = mn_acl_id k"
    by (rule insert_system_nodes_new [OF ex k kids dist]) (rule that)
  have sysmap: "map_of ?sys p = None" if "\<not> below p" for p
    using that kids system_child_below by (cases "map_of ?sys p") (auto simp: below_def dest: map_of_SomeD)
  have f: "find_node s7 p = (if below p then map_option system_node (map_of ?sys p)
      else if p = keeper_system_path then Some k' else find_node s6 p)" for p
  proof (cases "below p")
    case True
    then have "p \<noteq> keeper_system_path" using keeper by auto
    then show ?thesis using True none [of p] by (simp add: s7(7) map_add_def split: option.split)
  next
    case False
    then show ?thesis using sysmap [of p] by (simp add: s7(7) map_add_def)
  qed
  have k': "node_content k' = node_content k" "node_wf k' = node_wf k"
    using s7(8-10) by (simp_all add: node_content_def getData_def node_wf_def)
  have same: "map_option node_content (find_node s7 p) = map_option node_content (find_node s p)" if "\<not> below p" for p
    using content [of p] that k k'(1) by (auto simp: f)
  have nums: "num_to_acl (acl_map_of s7) = num_to_acl (acl_map_of s)" using six(5) by (simp add: s7(3))
  have view: "cview s7 = cview s"
  proof
    fix p
    show "cview s7 p = cview s p"
    proof (cases "below p")
      case True
      then have "cview s p = map_option (\<lambda>d. abs_node [] (system_node d)) (map_of ?sys p)"
        using sys by (simp add: system_as_configured_def below_def)
      then show ?thesis using True by (simp add: cview_def f option.map_comp comp_def acls_of_def convertNumber_def)
    next
      case False
      then show ?thesis by (simp add: cview_content same acls_of_cong [OF nums])
    qed
  qed
  have "container_wf s7"
    using six(2) k k'(2) by (auto simp: container_wf_def f split: if_splits)
  moreover have "ephemerals_exact s7"
  proof -
    have owner: "map_option (\<lambda>n. ephemeralOwner (mn_stats n)) (find_node s7 p) = Some sid \<longleftrightarrow>
        map_option (\<lambda>n. ephemeralOwner (mn_stats n)) (find_node s6 p) = Some sid" if "sid \<noteq> 0" for p sid
      using that none [of p] k s7(8) by (auto simp: f)
    show ?thesis
      unfolding ephemerals_exact_def s7(4)
    proof (intro allI)
      fix sid p
      show "p \<in> set (bucket (committed_ephemerals s6) sid) \<longleftrightarrow>
          sid \<noteq> 0 \<and> map_option (\<lambda>n. ephemeralOwner (mn_stats n)) (find_node s7 p) = Some sid"
        using six(3) owner [of sid p] by (cases "sid = 0") (simp_all add: ephemerals_exact_def)
    qed
  qed
  moreover have "acls_counted s7"
  proof -
    have users: "acl_users s7 j = acl_users s6 j" if "j \<noteq> 0" for j
      using that none k s7(10) by (auto simp: acl_users_def f split: if_splits)
    have resolves: "\<exists>v. convertNumber (acl_map_of s7) j = Inr v" if j: "j \<noteq> 0" "0 < card (acl_users s6 j)" for j
    proof -
      obtain p where p: "map_option mn_acl_id (find_node s6 p) = Some j" using j(2) by (auto simp: acl_users_def card_gt_0_iff)
      then have "\<not> below p" using none by auto
      then obtain n where n: "find_node s p = Some n" "mn_acl_id n = j"
        using p content_proj(1) [of "find_node s6" p "find_node s"] content [of p] by auto
      obtain a where "convertNumber (acl_map_of s) (mn_acl_id n) = Inr a" by (rule counted_node [OF inv(1) n(1)])
      then show ?thesis using convertNumber_cong [OF nums] n(2) by auto
    qed
    have "am.counted (acl_map_of s7) (\<lambda>k. card (acl_users s7 k))"
      using six(4,6) resolves by (simp add: am.counted_def users s7(3))
    then show ?thesis by (simp add: acls_counted_def)
  qed
  ultimately have inv7: "committed_inv s7" using s7(6) by (simp add: committed_inv_def)
  have "initializeSystemNodes ctx s6 = Inr (s7\<lparr>initialized := True\<rparr>)"
    using new k s7(1) by (simp add: initializeSystemNodes_def)
  moreover have "cview (s7\<lparr>initialized := True\<rparr>) = cview s" using view by (simp add: cview_def find_node_def fun_eq_iff)
  moreover have "committed_inv (s7\<lparr>initialized := True\<rparr>)"
    using inv7 by (subst committed_inv_cong [of _ s7]) (simp_all add: find_node_def fun_eq_iff)
  ultimately show ?thesis
    using that [of "s7\<lparr>initialized := True\<rparr>"] s7(2,5) by (simp add: tree_frame_def)
qed

definition storage_fits :: "nat \<Rightarrow> keeper_context \<Rightarrow> storage \<Rightarrow> bool" where
  "storage_fits sizeof_node ctx s \<longleftrightarrow> nodes_fit sizeof_node s \<and> acl_map_fits (acl_map_of s) \<and> system_as_configured ctx s
     \<and> int64_ok (committed_zxid s) \<and> int64_ok (session_id_counter s)
     \<and> finite (dom (session_and_timeout s)) \<and> card (dom (session_and_timeout s)) < 2 ^ 64
     \<and> (\<forall>sid t. session_and_timeout s sid = Some t \<longrightarrow> session_fits (committed_session_and_auth s) (sid, t))"

text \<open>
  The part of it that is about the machine types only: the keys of the container are distinct, and the numbers, lengths
  and counts fit the types that the code has for them.
\<close>

definition storage_in_range :: "nat \<Rightarrow> storage \<Rightarrow> bool" where
  "storage_in_range sizeof_node s \<longleftrightarrow> distinct (map fst (container s)) \<and> length (container s) < 2 ^ 64
     \<and> (\<forall>(p, n)\<in>set (container s). stats_in_range (mn_stats n) \<and> mn_acl_id n < 2 ^ 64 - 1
          \<and> sizeInBytes sizeof_node n < 2 ^ 64 \<and> length p < 2 ^ 64)
     \<and> acl_map_fits (acl_map_of s) \<and> int64_ok (committed_zxid s) \<and> int64_ok (session_id_counter s)
     \<and> finite (dom (session_and_timeout s)) \<and> card (dom (session_and_timeout s)) < 2 ^ 64
     \<and> (\<forall>sid t. session_and_timeout s sid = Some t \<longrightarrow> session_fits (committed_session_and_auth s) (sid, t))"

lemma storage_fits_run:
  assumes inv: "keeper_inv rs s" and sys: "system_as_configured ctx s" and range: "storage_in_range sizeof_node s"
  shows "storage_fits sizeof_node ctx s"
proof -
  have "nodes_fit sizeof_node s"
  proof -
    have dist: "distinct (map fst (container s))" "length (container s) < 2 ^ 64" using range by (simp_all add: storage_in_range_def)
    have "node_fits n \<and> sizeInBytes sizeof_node n < 2 ^ 64 \<and> length p < 2 ^ 64 \<and> ns_mzxid (mn_stats n) \<le> committed_zxid s"
      if mem: "(p, n) \<in> set (container s)" for p n
    proof -
      have node: "find_node s p = Some n" using dist(1) mem by (simp add: find_node_def)
      have "cview s p = Some (abs_node (acls_of (acl_map_of s) (mn_acl_id n)) n)" using node by (simp add: cview_def)
      then have "ns_mzxid (mn_stats n) \<le> committed_zxid s" "union_holds (ns_is_ephemeral (mn_stats n)) (ns_data (mn_stats n))"
        using keeper_invD(7) [OF inv] unfolding dated_def by (fastforce simp: abs_node_def)+
      moreover have "node_wf n" using keeper_invD(3) [OF inv] node by (simp add: committed_inv_def container_wf_def)
      moreover have "stats_in_range (mn_stats n)" "mn_acl_id n < 2 ^ 64 - 1" "sizeInBytes sizeof_node n < 2 ^ 64" "length p < 2 ^ 64"
        using range mem unfolding storage_in_range_def by fast+
      ultimately show ?thesis by (simp add: node_fits_def stats_fit_iff)
    qed
    with dist show ?thesis by (auto simp: nodes_fit_def)
  qed
  with range sys show ?thesis unfolding storage_fits_def storage_in_range_def by blast
qed

definition restored_from :: "keeper_context \<Rightarrow> int \<Rightarrow> int \<Rightarrow> storage \<Rightarrow> storage \<Rightarrow> bool" where
  "restored_from ctx tick now s s' \<longleftrightarrow> keeper_inv [] s' \<and> cview s' = cview s \<and> committed_zxid s' = committed_zxid s
     \<and> session_id_counter s' = session_id_counter s \<and> session_and_timeout s' = session_and_timeout s
     \<and> (\<forall>sid. session_and_timeout s sid \<noteq> None \<longrightarrow> bucket (committed_session_and_auth s') sid = bucket (committed_session_and_auth s) sid)
     \<and> (\<forall>sid. session_to_expiration_time (session_expiry_queue_of s') sid
          = map_option (\<lambda>t. nextInterval (new_expiry_queue tick) (now + t)) (session_and_timeout s sid))
     \<and> (kc_digest_enabled ctx \<longrightarrow> nodes_digest s' = nodes_digest s)"

lemma keeper_inv_idle:
  assumes "uncommitted s = empty_uncommitted" "uncommitted_transactions s = []" "committed_inv s" "initialized s"
    "queue_wf (session_expiry_queue_of s)" "tree_inv (cview s)" "has_system (cview s)" "0 \<le> committed_zxid s"
    "dated (committed_zxid s) (cview s)" "watches_ok s"
  shows "keeper_inv [] s"
proof -
  have f: "uview s = cview s" "find_entry s = (\<lambda>p. None)"
    using assms(1) by (simp_all add: uview_def find_entry_def empty_uncommitted_def fun_eq_iff)
  have "sync [] s"
    using assms(1) by (simp add: sync_def f cache_inv_def tracking_ok_def auths_end_def empty_uncommitted_def
      auths_of_def bucket_def omap_wf_def)
  then show ?thesis using assms by (simp add: keeper_inv_def empty_uncommitted_def)
qed

lemma tree_read_cong:
  assumes "tree_read s s'" "container s'' = container s'" "acl_map_of s'' = acl_map_of s'" "committed_ephemerals s'' = committed_ephemerals s'"
  shows "tree_read s s''"
proof -
  have "find_node s'' = find_node s'" using assms(2) by (simp add: find_node_def fun_eq_iff)
  then show ?thesis
    using assms by (simp add: tree_read_def container_wf_def ephemerals_exact_def acl_users_def)
qed

text \<open>The storage into which a snapshot is read.\<close>

definition blank_storage :: "int \<Rightarrow> string \<Rightarrow> storage" where
  "blank_storage tick super = addDigest default_node root (insert_node root default_node (base_storage tick super))"

lemma new_storage_blank: "new_storage ctx tick super False = Inr (blank_storage tick super)"
  by (simp add: new_storage_def blank_storage_def root_literal)

lemma blank_storage_fields:
  "container (blank_storage tick super) = [(root, copy_node default_node)]" "acl_map_of (blank_storage tick super) = empty_acl_map"
  "committed_ephemerals (blank_storage tick super) = Map.empty" "uncommitted (blank_storage tick super) = empty_uncommitted"
  "uncommitted_transactions (blank_storage tick super) = []" "session_and_timeout (blank_storage tick super) = Map.empty"
  "committed_session_and_auth (blank_storage tick super) = Map.empty" "\<not> initialized (blank_storage tick super)"
  "session_expiry_queue_of (blank_storage tick super) = new_expiry_queue tick"
  by (simp_all add: blank_storage_def addDigest_def insert_node_def find_node_def base_storage_def)

lemma blank_storage_watches: "watches_ok (blank_storage tick super)"
  by (rule watches_ok_empty) (simp_all add: blank_storage_def addDigest_def insert_node_def find_node_def base_storage_def)

text \<open>The storage after the header, the session counter and the ACLs.\<close>

definition headed :: "keeper_context \<Rightarrow> storage \<Rightarrow> storage \<Rightarrow> storage" where
  "headed ctx s b = b\<lparr>committed_zxid := committed_zxid s, old_snapshot_zxid := 0,
     nodes_digest := (if kc_digest_enabled ctx then nodes_digest s else nodes_digest b), session_id_counter := session_id_counter s,
     acl_map_of := fold (\<lambda>e m. addMapping m (fst e) (snd e)) (sorted_entries (num_to_acl (acl_map_of s))) (acl_map_of b)\<rparr>"

lemma acl_map_wf_inv: "committed_inv s \<Longrightarrow> acl_map_wf (acl_map_of s)"
  by (simp add: committed_inv_def acls_counted_def am.counted_def)

lemma headed_ready: "committed_inv s \<Longrightarrow> ready_for s (headed ctx s (blank_storage tick super))"
  using restored_acl_map [OF acl_map_wf_inv refl] by (simp add: ready_for_def headed_def blank_storage_fields)

lemma deserialize_serialize:
  assumes fit: "storage_fits sizeof_node ctx s" and nu: "codec_reads nu meta config"
    and inv: "committed_inv s" "tree_inv (cview s)" and sys: "system_nodes_ok (kc_system_nodes_with_data ctx)" and tick: "tick \<noteq> 0"
  obtains s6 where "deserialize nu ctx ndebug now (blank_storage tick super) (serialize nu sizeof_node ctx (take_snapshot meta config s))
      = Inr \<lparr>dr_storage = s6, dr_snapshot_meta = meta, dr_cluster_config = config\<rparr>"
    "tree_read s s6" "\<not> initialized s6" "uncommitted s6 = empty_uncommitted" "uncommitted_transactions s6 = []"
    "committed_zxid s6 = committed_zxid s" "session_id_counter s6 = session_id_counter s"
    "nodes_digest s6 = (if kc_digest_enabled ctx then nodes_digest s else nodes_digest (blank_storage tick super))"
    "session_and_timeout s6 = session_and_timeout s" "queue_wf (session_expiry_queue_of s6)"
    "watches_ok s6"
    "\<And>sid. session_and_timeout s sid \<noteq> None \<Longrightarrow> bucket (committed_session_and_auth s6) sid = bucket (committed_session_and_auth s) sid"
    "session_to_expiration_time (session_expiry_queue_of s6)
       = (\<lambda>sid. map_option (\<lambda>t. nextInterval (new_expiry_queue tick) (now + t)) (session_and_timeout s sid))"
proof -
  let ?b = "blank_storage tick super" and ?N = "snapshot_nodes (container s)" and ?es = "sorted_entries (session_and_timeout s)"
  let ?h = "headed ctx s ?b"
  note F = fit [unfolded storage_fits_def]
  have nf: "nodes_fit sizeof_node s" and sc: "system_as_configured ctx s" using F by blast+
  note ready = headed_ready [OF inv(1)]
  obtain s4 where s4: "build_children (fold (restore_step False) ?N ?h) = Inr s4" "tree_read s s4" "tree_frame ?h s4" "nodes_digest s4 = nodes_digest ?h"
    by (rule children_built [OF ready inv nf refl]) (rule that)
  have check: "check_children ndebug s4 = Inr s4" by (rule check_children_ok [OF s4(2) inv sc nf])
  have h: "session_and_timeout s4 = Map.empty" "session_expiry_queue_of s4 = new_expiry_queue tick"
    "committed_session_and_auth s4 = Map.empty"
    using s4(3) by (simp_all add: tree_frame_def headed_def blank_storage_fields)
  obtain s6 where s6: "res_fold (session_step now (committed_session_and_auth s)) ?es s4 = Inr s6"
    "sessions_restored now (committed_session_and_auth s) ?es s4 s6"
    by (rule sessions_fold [of s4 ?es]) (simp_all add: h queue_wf_new [OF tick] distinct_sorted_entries)
  have zx: "int64_ok (committed_zxid s)" "int64_ok (session_id_counter s)" using F by blast+
  have fin: "finite (dom (session_and_timeout s))" using F by blast
  have header: "read_header nu ctx ?b (native_bytes 1 6 @ serializeSnapshotMetadata nu meta @ native_bytes 8 (committed_zxid s)
      @ write_digest ctx (nodes_digest s) @ rest)
    = Inr ((6, meta, False, ?b\<lparr>committed_zxid := committed_zxid s, old_snapshot_zxid := 0,
        nodes_digest := (if kc_digest_enabled ctx then nodes_digest s else nodes_digest ?b)\<rparr>), rest)" for rest
    by (rule read_snapshot_header_write [OF nu zx(1)])
  have tree: "read_tree ctx 6 False ?h (native_bytes 8 (int (length (container s)) - int (length (kc_system_nodes_with_data ctx)))
      @ write_nodes sizeof_node 6 (committed_zxid s) (container s) @ rest) = Inr (fold (restore_step False) ?N ?h, rest)" for rest
    by (rule read_tree_write [OF _ snapshot_count [OF nf sc sys]])
      (use snapshot_node_fits [OF nf sc inv(1)] nf in \<open>simp_all add: nodes_fit_def\<close>)
  have sess: "read_sessions now 6 s4 (write_counted (write_session (committed_session_and_auth s)) ?es @ rest) = Inr (s6, rest)" for rest
    by (rule read_sessions_write [OF s6(1)]) (use F set_sorted_entries [OF fin] in auto)
  have acls: "read_acl_map 6 (?b\<lparr>committed_zxid := committed_zxid s, old_snapshot_zxid := 0,
        nodes_digest := (if kc_digest_enabled ctx then nodes_digest s else nodes_digest ?b), session_id_counter := session_id_counter s\<rparr>)
      (write_counted write_acl_entry (sorted_entries (num_to_acl (acl_map_of s))) @ rest) = Inr (?h, rest)" for rest
    by (subst read_acl_map_write [OF _ acl_map_wf_inv [OF inv(1)]]) (use F in \<open>simp_all add: headed_def\<close>)
  have run: "deserialize nu ctx ndebug now ?b (serialize nu sizeof_node ctx (take_snapshot meta config s))
      = Inr \<lparr>dr_storage = s6, dr_snapshot_meta = meta, dr_cluster_config = config\<rparr>"
    by (simp add: deserialize_def serialize_def take_snapshot_def CURRENT_SNAPSHOT_VERSION_def header round_trip zx acls tree s4(1) check sess
      read_cluster_config_write [OF nu] del: One_nat_def)
  note S = s6(2) [unfolded sessions_restored_def session_frame_def]
  show ?thesis
  proof (rule that [OF run])
    show "tree_read s s6" by (rule tree_read_cong [OF s4(2)]) (use S in simp_all)
    show "watches_ok s6" using S s4(3) blank_storage_watches [of tick super] by (simp add: tree_frame_def headed_def)
    show "\<not> initialized s6" "uncommitted s6 = empty_uncommitted" "uncommitted_transactions s6 = []"
      "committed_zxid s6 = committed_zxid s" "session_id_counter s6 = session_id_counter s" "queue_wf (session_expiry_queue_of s6)"
      "nodes_digest s6 = (if kc_digest_enabled ctx then nodes_digest s else nodes_digest ?b)"
      using S s4(3,4) by (simp_all add: tree_frame_def headed_def blank_storage_fields)
    show "session_and_timeout s6 = session_and_timeout s"
      using S by (simp add: h map_of_sorted_entries [OF fin])
    show "bucket (committed_session_and_auth s6) sid = bucket (committed_session_and_auth s) sid" if "session_and_timeout s sid \<noteq> None" for sid
    proof -
      have "sid \<in> fst ` set ?es" using that set_sorted_entries [OF fin] by force
      then show ?thesis using S h(3) by (auto simp: bucket_def split: option.splits)
    qed
    show "session_to_expiration_time (session_expiry_queue_of s6)
       = (\<lambda>sid. map_option (\<lambda>t. nextInterval (new_expiry_queue tick) (now + t)) (session_and_timeout s sid))"
      using S by (simp add: h map_of_sorted_entries [OF fin] new_expiry_queue_def)
  qed
qed

lemma restart_run:
  assumes inv: "keeper_inv rs s" and fit: "storage_fits sizeof_node ctx s" and nu: "codec_reads nu meta config"
    and sys: "system_nodes_ok (kc_system_nodes_with_data ctx)" and tick: "tick \<noteq> 0"
  obtains s' where "deserializeSnapshotFromBuffer nu ctx ndebug now tick super (serialize nu sizeof_node ctx (take_snapshot meta config s))
      = Inr \<lparr>dr_storage = s', dr_snapshot_meta = meta, dr_cluster_config = config\<rparr>" "restored_from ctx tick now s s'"
proof -
  have com: "committed_inv s" and tree: "tree_inv (cview s)" "has_system (cview s)" and zx: "0 \<le> committed_zxid s"
    using inv groups_tree by (auto simp: keeper_inv_def)
  obtain s6 where s6: "deserialize nu ctx ndebug now (blank_storage tick super) (serialize nu sizeof_node ctx (take_snapshot meta config s))
      = Inr \<lparr>dr_storage = s6, dr_snapshot_meta = meta, dr_cluster_config = config\<rparr>"
    "tree_read s s6" "\<not> initialized s6" "uncommitted s6 = empty_uncommitted" "uncommitted_transactions s6 = []"
    "committed_zxid s6 = committed_zxid s" "session_id_counter s6 = session_id_counter s"
    "nodes_digest s6 = (if kc_digest_enabled ctx then nodes_digest s else nodes_digest (blank_storage tick super))"
    "session_and_timeout s6 = session_and_timeout s" "queue_wf (session_expiry_queue_of s6)"
    "watches_ok s6"
    "\<And>sid. session_and_timeout s sid \<noteq> None \<Longrightarrow> bucket (committed_session_and_auth s6) sid = bucket (committed_session_and_auth s) sid"
    "session_to_expiration_time (session_expiry_queue_of s6)
       = (\<lambda>sid. map_option (\<lambda>t. nextInterval (new_expiry_queue tick) (now + t)) (session_and_timeout s sid))"
    by (rule deserialize_serialize [OF fit nu com tree(1) sys tick, where ndebug = ndebug and now = now and super = super]) (rule that)
  have sc: "system_as_configured ctx s" using fit by (simp add: storage_fits_def)
  obtain s7 where s7: "initializeSystemNodes ctx s6 = Inr s7" "cview s7 = cview s" "committed_inv s7" "initialized s7"
    "tree_frame (s6\<lparr>initialized := True\<rparr>) s7" "nodes_digest s7 = nodes_digest s6"
    by (rule system_restored [OF s6(2) com tree(1) sc sys s6(3)]) (rule that)
  note fr = s7(5) [unfolded tree_frame_def]
  have "keeper_inv [] s7"
    by (rule keeper_inv_idle) (use fr s6 s7 tree zx keeper_invD(7) [OF inv] in simp_all)
  then have "restored_from ctx tick now s s7"
    using fr s6(6-13) s7(2,6) by (simp add: restored_from_def)
  moreover have "deserializeSnapshotFromBuffer nu ctx ndebug now tick super (serialize nu sizeof_node ctx (take_snapshot meta config s))
      = Inr \<lparr>dr_storage = s7, dr_snapshot_meta = meta, dr_cluster_config = config\<rparr>"
    by (simp add: deserializeSnapshotFromBuffer_def new_storage_blank s6(1) s7(1))
  ultimately show ?thesis by (rule that [rotated])
qed

text \<open>A restarting server reads the snapshot before it runs.\<close>

lemma phase_irrelevant:
  "serialize nu sizeof_node (ctx\<lparr>kc_server_state := ph\<rparr>) sn = serialize nu sizeof_node ctx sn"
  "storage_fits sizeof_node (ctx\<lparr>kc_server_state := ph\<rparr>) s = storage_fits sizeof_node ctx s"
  "restored_from (ctx\<lparr>kc_server_state := ph\<rparr>) tick now s s' = restored_from ctx tick now s s'"
  by (simp_all add: serialize_def write_digest_def storage_fits_def system_as_configured_def restored_from_def)

lemma restart_in_phase:
  assumes "keeper_inv rs s" "storage_fits sizeof_node ctx s" "codec_reads nu meta config" "system_nodes_ok (kc_system_nodes_with_data ctx)" "tick \<noteq> 0"
  obtains s' where "deserializeSnapshotFromBuffer nu (ctx\<lparr>kc_server_state := ph\<rparr>) ndebug now tick super
        (serialize nu sizeof_node ctx (take_snapshot meta config s))
      = Inr \<lparr>dr_storage = s', dr_snapshot_meta = meta, dr_cluster_config = config\<rparr>" "restored_from ctx tick now s s'"
proof (rule restart_run [where ctx = "ctx\<lparr>kc_server_state := ph\<rparr>" and ndebug = ndebug and now = now and super = super])
  note ok = that
  show "keeper_inv rs s" "codec_reads nu meta config" "tick \<noteq> 0" by (fact assms)+
  show "storage_fits sizeof_node (ctx\<lparr>kc_server_state := ph\<rparr>) s" using assms(2) by (simp add: phase_irrelevant)
  show "system_nodes_ok (kc_system_nodes_with_data (ctx\<lparr>kc_server_state := ph\<rparr>))" using assms(4) by simp
  show thesis if "deserializeSnapshotFromBuffer nu (ctx\<lparr>kc_server_state := ph\<rparr>) ndebug now tick super
        (serialize nu sizeof_node (ctx\<lparr>kc_server_state := ph\<rparr>) (take_snapshot meta config s))
      = Inr \<lparr>dr_storage = s', dr_snapshot_meta = meta, dr_cluster_config = config\<rparr>"
    "restored_from (ctx\<lparr>kc_server_state := ph\<rparr>) tick now s s'" for s'
    by (rule ok) (use that in \<open>simp_all add: phase_irrelevant\<close>)
qed

subsection \<open>Older formats\<close>

text \<open>C39. The nodes of every format with an ACL map, the versions 1 to 6, are read as they were written: statistics,
  data and ACL number come back, every reader consumes exactly the bytes of the node, and its ACL is counted once; a
  snapshot of a later version is refused before anything else is read.\<close>

theorem snapshot_formats:
  assumes "node_fits n" "sizeInBytes sizeof_node n < 2 ^ 64" "1 \<le> version" "version \<le> CURRENT_SNAPSHOT_VERSION"
    and "CURRENT_SNAPSHOT_VERSION < later" "later < 256"
  shows "readNode version m (writeNode sizeof_node version n @ rest) = Inr ((restored_node n, addUsage m (mn_acl_id n)), rest)
    \<and> deserialize nu ctx ndebug now s (native_bytes 1 (int later) @ rest) = Inl (DbException ''Unsupported snapshot version'')"
proof
  show "readNode version m (writeNode sizeof_node version n @ rest) = Inr ((restored_node n, addUsage m (mn_acl_id n)), rest)"
    by (rule readNode_write [OF assms(1,3,2)])
  have "read_native 1 (native_bytes 1 (int later) @ rest) = Inr (int later, rest)" by (rule read_byte_write) (use assms(6) in simp_all)
  then show "deserialize nu ctx ndebug now s (native_bytes 1 (int later) @ rest) = Inl (DbException ''Unsupported snapshot version'')"
    using assms(5) by (simp add: deserialize_def read_header_def Let_def del: One_nat_def)
qed

text \<open>The demonstrations use a library that writes bytes as they are and a server without system nodes.\<close>

definition demo_codec :: "(bytes, bytes) nuraft_codec" where
  "demo_codec = \<lparr>nu_write_meta = (\<lambda>m. m), nu_read_meta = Inr, nu_last_log_idx = (\<lambda>m. int (length m)), nu_write_config = (\<lambda>c. c),
     nu_read_config = Inr\<rparr>"

definition demo_plain_ctx :: keeper_context where
  "demo_plain_ctx = \<lparr>kc_digest_enabled = True, kc_digest_enabled_on_commit = False, kc_server_state = INIT,
     kc_ignore_system_path_on_startup = False, kc_system_nodes_with_data = [], kc_cluster_config = [], kc_base64_sha1 = (\<lambda>s. s)\<rparr>"

theorem snapshot_formats_witness:
  "deserialize demo_codec demo_plain_ctx True 0 (blank_storage 500 []) (native_bytes 1 7 @ [1]) = Inl (DbException ''Unsupported snapshot version'')
   \<and> readNode 4 empty_acl_map (writeNode 200 4 (setData ''x'' default_node) @ [1])
     = Inr ((restored_node (setData ''x'' default_node), addUsage empty_acl_map 0), [1])"
proof -
  have n: "node_fits (setData ''x'' default_node)" "sizeInBytes 200 (setData ''x'' default_node) < 2 ^ 64" "mn_acl_id (setData ''x'' default_node) = 0"
    by (simp_all add: node_fits_def stats_fit_def setData_def default_node_def default_stats_def node_wf_def int64_ok_def int32_ok_def sizeInBytes_def)
  show ?thesis
    using snapshot_formats [OF n(1,2), where version = 4 and later = 7 and m = empty_acl_map and rest = "[1]"
      and nu = demo_codec and ctx = demo_plain_ctx and ndebug = True and now = 0 and s = "blank_storage 500 []"] n(3)
    by (simp add: CURRENT_SNAPSHOT_VERSION_def)
qed

end
