(* ===== verification/Keeper_Steps.thy ===== *)
theory Keeper_Steps
  imports Keeper_Local Keeper_Restart
begin

section \<open>Runs of the state machine\<close>

text \<open>
  The runs of a Keeper storage: construction, and then in any order preprocessing of the next
  request of the log, commit of the oldest pending request, rollback of the newest pending request, reads that
  the server answers outside the log, the creation of sessions, and the replacement of the storage by one that is read
  from a snapshot of it, after a restart or on another replica. The list of pending requests is carried along.
  Requests of the log are of the kinds that \<open>request_from\<close> admits; the availability zone is only read through the log
  where one is configured.
\<close>

definition admissible :: "keeper_context \<Rightarrow> int \<Rightarrow> zk_request \<Rightarrow> bool" where
  "admissible ctx sid r \<longleftrightarrow> request_from sid r
     \<and> (zone_read r \<longrightarrow> keeper_availability_zone_path \<in> fst ` set (kc_system_nodes_with_data ctx))"

lemma admissibleD:
  assumes "admissible ctx sid r"
  shows "request_from sid r" "zone_read r \<Longrightarrow> keeper_availability_zone_path \<in> fst ` set (kc_system_nodes_with_data ctx)"
  using assms by (simp_all add: admissible_def)

inductive reachable :: "keeper_context \<Rightarrow> zk_request list \<Rightarrow> storage \<Rightarrow> bool" for ctx :: keeper_context where
  construct: "tick \<noteq> 0 \<Longrightarrow> new_storage ctx tick super True = Inr s \<Longrightarrow> reachable ctx [] s"
| preprocess: "reachable ctx rs s \<Longrightarrow> admissible ctx sid r \<Longrightarrow> getNextZXID s \<le> z
    \<Longrightarrow> preprocessRequest ctx r sid time z check_acl digest log_idx s = Inr s' \<Longrightarrow> reachable ctx (rs @ [r]) s'"
| commit: "reachable ctx (r # rs) s \<Longrightarrow> z = ti_zxid (hd (uncommitted_transactions s))
    \<Longrightarrow> processRequest ctx now r xid sid (Some z) check_acl False s = Inr (results, s') \<Longrightarrow> reachable ctx rs s'"
| rollback: "reachable ctx (rs @ [r]) s \<Longrightarrow> z = ti_zxid (last (uncommitted_transactions s))
    \<Longrightarrow> rollbackRequest z allow_missing s = Inr s' \<Longrightarrow> reachable ctx rs s'"
| read: "reachable ctx rs s \<Longrightarrow> local_request r
    \<Longrightarrow> processRequest ctx now r xid sid None check_acl True s = Inr (results, s') \<Longrightarrow> reachable ctx rs s'"
| session: "reachable ctx rs s \<Longrightarrow> getSessionID now timeout s = Inr (sid, s') \<Longrightarrow> reachable ctx rs s'"
| restart: "reachable ctx rs s \<Longrightarrow> storage_in_range sizeof_node s \<Longrightarrow> tick \<noteq> 0 \<Longrightarrow> codec_reads (nu :: (bytes, bytes) nuraft_codec) meta config
    \<Longrightarrow> deserializeSnapshotFromBuffer nu (ctx\<lparr>kc_server_state := ph\<rparr>) ndebug now tick super
          (serialize nu sizeof_node ctx (take_snapshot meta config s)) = Inr result
    \<Longrightarrow> reachable ctx [] (dr_storage result)"

text \<open>
  A context whose system nodes are children of the system path with the feature flags among them, as \<open>KeeperContext\<close>
  sets them up, and open to the server.
\<close>

definition context_ok :: "keeper_context \<Rightarrow> bool" where
  "context_ok ctx \<longleftrightarrow> system_nodes_ok (kc_system_nodes_with_data ctx) \<and> system_paths_open ctx"

lemma context_okD:
  assumes "context_ok ctx"
  shows "system_nodes_ok (kc_system_nodes_with_data ctx)" "system_paths_open ctx"
  using assms by (simp_all add: context_ok_def)

lemma getSessionID_keeps:
  assumes inv: "keeper_inv rs s"
  obtains sid s' where "getSessionID now timeout s = Inr (sid, s')" "keeper_inv rs s'" "sid = session_id_counter s"
    "uview s' = uview s" "cview s' = cview s"
proof -
  obtain q where q: "addNewSessionOrUpdate (session_expiry_queue_of s) now (session_id_counter s) timeout = Inr q" "queue_wf q"
    by (rule addNewSessionOrUpdate_spec [OF keeper_invD(4) [OF inv]])
  define s' where "s' = s\<lparr>session_id_counter := session_id_counter s + 1,
                    session_and_timeout :=
                      (if session_and_timeout s (session_id_counter s) = None
                       then (session_and_timeout s)(session_id_counter s \<mapsto> timeout) else session_and_timeout s),
                    session_expiry_queue_of := q\<rparr>"
  have a: "aside s s'" by (simp add: s'_def aside_def same_trees_def)
  have "keeper_inv rs s'" by (rule keeper_inv_aside [OF inv a]) (use keeper_invD(8) [OF inv] in \<open>simp_all add: s'_def q watch_tables_of_def\<close>)
  moreover have "getSessionID now timeout s = Inr (session_id_counter s, s')"
    using q(1) by (simp add: getSessionID_def s'_def Let_def)
  ultimately show ?thesis using that aside_views(1,2) [OF a] by blast
qed

text \<open>The system nodes depend on the committed tree only, and no transaction changes them.\<close>

lemma system_as_configured_cong: "cview s' = cview s \<Longrightarrow> system_as_configured ctx s \<Longrightarrow> system_as_configured ctx s'"
  by (simp add: system_as_configured_def)

lemma system_as_configured_step:
  assumes "system_as_configured ctx s" "step_ok z ds (cview s)" "cview s' = abs_deltas ds (cview s)"
  shows "system_as_configured ctx s'"
proof -
  have "cview s' p = cview s p" if "sys p" for p
    using step_okD(5) [OF assms(2)] assms(3) that by (simp add: moves_def)
  moreover have "sys p" if "matchPath p keeper_system_path = IS_CHILD" for p using that by (simp add: sys_def)
  moreover have "sys keeper_system_path" using sys_iff [OF keeper_path_canonical] by simp
  ultimately show ?thesis using assms(1) by (simp add: system_as_configured_def)
qed

lemma new_storage_run:
  assumes ok: "system_nodes_ok (kc_system_nodes_with_data ctx)" and tick: "tick \<noteq> 0"
  obtains s where "new_storage ctx tick super True = Inr s" "keeper_inv [] s" "system_as_configured ctx s"
proof -
  obtain s where s: "new_storage ctx tick super True = Inr s" "keeper_inv [] s"
    "\<And>p. sys p \<Longrightarrow> p \<noteq> keeper_system_path \<Longrightarrow>
       cview s p = map_option (\<lambda>d. abs_node [] (system_node d)) (map_of (kc_system_nodes_with_data ctx) p)"
    "map_option an_stats (cview s keeper_system_path) = Some default_stats"
    by (rule new_storage_keeper_inv [OF ok tick, where super = super]) (rule that)
  have "p \<noteq> keeper_system_path" "sys p" if "matchPath p keeper_system_path = IS_CHILD" for p
    using that at_system_iff [OF keeper_path_canonical] by (auto simp: sys_def)
  then have "system_as_configured ctx s"
    using s(3,4) ok by (simp add: system_as_configured_def system_nodes_ok_def)
  with s(1,2) show ?thesis by (rule that)
qed

lemma groups_system: "groups txs rs dss t \<Longrightarrow> sys p \<Longrightarrow> abs_deltas (concat dss) t p = t p"
proof (induction txs rs dss t rule: groups.induct)
  case (2 tx txs r rs ds dss t)
  then have "moves (ti_zxid tx) t (abs_deltas ds t)" using step_okD(5) by auto
  with 2 show ?case by (simp add: moves_def)
qed simp_all

lemma keeper_inv_system:
  assumes "keeper_inv rs s" "sys p"
  shows "uview s p = cview s p"
proof -
  obtain dss where dss: "us_deltas (uncommitted s) = concat dss" "groups (uncommitted_transactions s) rs dss (cview s)"
    using assms(1) unfolding keeper_inv_def by blast
  then show ?thesis using syncD(2) [OF keeper_invD(2) [OF assms(1)]] groups_system [OF dss(2) assms(2)] by simp
qed

lemma zone_is_child: "matchPath keeper_availability_zone_path keeper_system_path = IS_CHILD"
  by (simp add: matchPath_def keeper_availability_zone_path_def keeper_system_path_def remove_slash_suffix_def slash_def)

lemma admissible_zone:
  assumes "keeper_inv rs s" "system_as_configured ctx s" "admissible ctx sid r"
  shows "zone_known r (uview s)"
proof -
  have "cview s keeper_availability_zone_path \<noteq> None" if "zone_read r"
    using admissibleD(2) [OF assms(3) that] assms(2) zone_is_child by (simp add: system_as_configured_def map_of_eq_None_iff)
  then show ?thesis
    using keeper_inv_system [OF assms(1) sys_system_paths(2)] by (simp add: zone_known_def)
qed

lemma reachable_run:
  assumes "reachable ctx rs s" "context_ok ctx"
  shows "keeper_inv rs s \<and> (\<forall>r\<in>set rs. request_logged r) \<and> system_as_configured ctx s"
proof -
  note ctx = context_okD [OF assms(2)]
  show ?thesis
    using assms(1)
  proof induction
    case (construct tick super s)
    obtain s0 where "new_storage ctx tick super True = Inr s0" "keeper_inv [] s0" "system_as_configured ctx s0"
      by (rule new_storage_run [OF ctx(1) construct(1)])
    with construct show ?case by simp
  next
    case (preprocess rs s sid r z time check_acl digest log_idx s')
    have zone: "zone_known r (uview s)"
      by (rule admissible_zone [OF conjunct1 [OF preprocess.IH] _ preprocess.hyps(2)]) (use preprocess.IH in simp)
    obtain ds s1 where "preprocessRequest ctx r sid time z check_acl digest log_idx s = Inr s1" "keeper_inv (rs @ [r]) s1" "cview s1 = cview s"
      by (rule preprocessRequest_keeps [OF conjunct1 [OF preprocess.IH] admissibleD(1) [OF preprocess.hyps(2)] zone ctx(2) preprocess.hyps(3)])
    with preprocess show ?case using system_as_configured_cong request_from_ok(2) [OF admissibleD(1) [OF preprocess.hyps(2)]] by simp
  next
    case (commit r rs s z now xid sid check_acl results s')
    have inv: "keeper_inv (r # rs) s" "request_logged r" using commit.IH by simp_all
    obtain res resp s1 ds where "processRequest ctx now r xid sid (Some z) check_acl False s = Inr (res @ [resp], s1)" "keeper_inv rs s1"
      "step_ok z ds (cview s)" "cview s1 = abs_deltas ds (cview s)"
      using processRequest_keeps [OF inv commit.hyps(2), of ctx now xid sid check_acl] by metis
    with commit show ?case using system_as_configured_step [of ctx s z ds s1] by simp
  next
    case (rollback rs r s z allow_missing s')
    obtain s1 where "rollbackRequest z allow_missing s = Inr s1" "keeper_inv rs s1" "cview s1 = cview s"
      by (rule rollbackRequest_keeps [OF _ rollback.hyps(2), of rs r allow_missing]) (use rollback.IH in simp_all)
    with rollback show ?case using system_as_configured_cong by simp
  next
    case (read rs s r now xid sid check_acl results s')
    obtain resp s1 where "processRequest ctx now r xid sid None check_acl True s
        = Inr ([\<lparr>rfs_session_id = sid, rfs_response = set_ids xid (committed_zxid s) resp\<rparr>], s1)" "keeper_inv rs s1" "cview s1 = cview s"
      by (rule processRequest_local [OF conjunct1 [OF read.IH] read.hyps(2), of ctx now xid sid check_acl])
    with read show ?case using system_as_configured_cong by simp
  next
    case (session rs s now timeout sid s')
    obtain sid1 s1 where "getSessionID now timeout s = Inr (sid1, s1)" "keeper_inv rs s1" "cview s1 = cview s"
      by (rule getSessionID_keeps [of rs s now timeout]) (use session.IH in simp_all)
    with session show ?case using system_as_configured_cong by simp
  next
    case (restart rs s sizeof_node tick nu meta config ph ndebug now super result)
    have fits: "storage_fits sizeof_node ctx s"
      by (rule storage_fits_run [of rs, OF _ _ restart.hyps(2)]) (use restart.IH in simp_all)
    obtain s1 where "result = \<lparr>dr_storage = s1, dr_snapshot_meta = meta, dr_cluster_config = config\<rparr>" "restored_from ctx tick now s s1"
      by (rule restart_in_phase [OF conjunct1 [OF restart.IH] fits restart.hyps(4) ctx(1) restart.hyps(3),
          where ph = ph and ndebug = ndebug and now = now and super = super]) (use restart.hyps(5) in auto)
    then show ?case using restart.IH system_as_configured_cong by (simp add: restored_from_def)
  qed
qed

lemma reachable_inv:
  assumes "reachable ctx rs s" "context_ok ctx"
  shows "keeper_inv rs s \<and> (\<forall>r\<in>set rs. request_logged r)"
  using reachable_run [OF assms] by simp

lemma reachable_fits:
  assumes "reachable ctx rs s" "context_ok ctx" "storage_in_range sizeof_node s"
  shows "storage_fits sizeof_node ctx s"
  by (rule storage_fits_run [of rs, OF _ _ assms(3)]) (use reachable_run [OF assms(1,2)] in simp_all)

text \<open>A read outside the log on a reachable storage.\<close>

lemma read_reachable:
  assumes "context_ok ctx" "reachable ctx rs s" "local_request r"
  obtains resp s' where "processRequest ctx now r xid sid None check_acl True s
      = Inr ([\<lparr>rfs_session_id = sid, rfs_response = set_ids xid (committed_zxid s) resp\<rparr>], s')" "reachable ctx rs s'"
    "cview s' = cview s" "uview s' = uview s" "local_outcome ctx check_acl sid r resp s"
    "watch_tables_of s' = watch_tables_of (register_watch r (resp_error resp) sid s)"
proof -
  have "keeper_inv rs s" using reachable_run [OF assms(2,1)] by simp
  then obtain resp s' where s': "processRequest ctx now r xid sid None check_acl True s
      = Inr ([\<lparr>rfs_session_id = sid, rfs_response = set_ids xid (committed_zxid s) resp\<rparr>], s')"
    "cview s' = cview s" "uview s' = uview s" "local_outcome ctx check_acl sid r resp s"
    "watch_tables_of s' = watch_tables_of (register_watch r (resp_error resp) sid s)"
    by (rule processRequest_local [OF _ assms(3)])
  show ?thesis by (rule that [OF s'(1) reachable.read [OF assms(2,3) s'(1)] s'(2-5)])
qed

text \<open>Preprocessing an admitted request on a reachable storage.\<close>

lemma preprocess_admissible:
  assumes "context_ok ctx" "reachable ctx rs s" "admissible ctx sid r" "getNextZXID s \<le> z"
  obtains ds s' where "preprocessRequest ctx r sid time z check_acl digest log_idx s = Inr s'" "keeper_inv (rs @ [r]) s'" "cview s' = cview s"
    "uncommitted_transactions s' \<noteq> []" "ti_zxid (last (uncommitted_transactions s')) = z"
    "us_deltas (uncommitted s') = us_deltas (uncommitted s) @ ds" "step_ok z ds (uview s)" "answered z r ds (uview s)"
    "\<forall>d\<in>set (us_deltas (uncommitted s)). delta_zxid d \<noteq> z" "r = CloseRequest \<longrightarrow> closes sid s ds"
    "multi_result ctx z sid time check_acl r ds (uview s)"
proof -
  have run: "keeper_inv rs s" "system_as_configured ctx s" using reachable_run [OF assms(2,1)] by simp_all
  show ?thesis
    by (rule preprocessRequest_keeps [OF run(1) admissibleD(1) [OF assms(3)] admissible_zone [OF run assms(3)] context_okD(2) [OF assms(1)] assms(4)])
      (rule that)
qed

text \<open>Once every request is committed or rolled back, the visible tree is the committed tree.\<close>

lemma keeper_inv_drained:
  assumes "keeper_inv [] s"
  shows "us_deltas (uncommitted s) = []" "uview s = cview s"
proof -
  obtain dss where dss: "us_deltas (uncommitted s) = concat dss" "groups (uncommitted_transactions s) [] dss (cview s)"
    using assms unfolding keeper_inv_def by blast
  have "dss = []" using dss(2) by (cases "uncommitted_transactions s") (auto elim: groups_Cons)
  then show us: "us_deltas (uncommitted s) = []" using dss(1) by simp
  show "uview s = cview s" using syncD(2) [OF keeper_invD(2) [OF assms]] us by simp
qed

lemma keeper_inv_one:
  assumes "keeper_inv [r] s"
  shows "\<exists>tx. uncommitted_transactions s = [tx]"
proof -
  obtain dss where "groups (uncommitted_transactions s) [r] dss (cview s)" using assms unfolding keeper_inv_def by blast
  then show ?thesis
    by (cases "uncommitted_transactions s" rule: remdups_adj.cases) (auto elim!: groups_Cons)
qed

text \<open>A system node has its data, default statistics and no ACL.\<close>

lemma system_node_view: "length d < 2 ^ 32 \<Longrightarrow> abs_node [] (system_node d) = \<lparr>an_stats = default_stats\<lparr>ns_data_size := length d\<rparr>, an_data = d, an_acls = []\<rparr>"
  by (simp add: abs_node_def system_node_def copy_node_def assign_node_def setData_def getData_def default_node_def default_stats_def Let_def)

lemma reachable_system_counter:
  assumes "reachable ctx rs s" "context_ok ctx" "find_node s p = Some n" "sys p"
  shows "numChildren (mn_stats n) = 0"
proof -
  note run = reachable_run [OF assms(1,2)]
  have view: "cview s p = Some (abs_node (acls_of (acl_map_of s) (mn_acl_id n)) n)" using assms(3) by (simp add: cview_def)
  have can: "canonical_path p" using run assms(3) by (auto simp: keeper_inv_def committed_inv_def children_exact_def)
  consider "p = keeper_system_path" | "matchPath p keeper_system_path = IS_CHILD"
    using assms(4) at_system_iff [OF can] not_sys_root by (cases "p = root"; cases "matchPath p keeper_system_path") (auto simp: sys_def)
  then show ?thesis
  proof cases
    case 1
    then show ?thesis using run view by (simp add: system_as_configured_def abs_node_def default_stats_def numChildren_def isEphemeral_def)
  next
    case 2
    then obtain d where "mn_stats n = mn_stats (system_node d)"
      using run view unfolding system_as_configured_def abs_node_def by (metis (no_types, lifting) anode.select_convs(1) map_option_eq_Some)
    then show ?thesis
      by (simp add: system_node_def copy_node_def assign_node_def setData_def default_node_def default_stats_def numChildren_def isEphemeral_def Let_def)
  qed
qed

lemma reachable_system_node:
  assumes "reachable ctx rs s" "context_ok ctx" "matchPath p keeper_system_path = IS_CHILD"
  shows "cview s p = map_option (\<lambda>d. \<lparr>an_stats = default_stats\<lparr>ns_data_size := length d\<rparr>, an_data = d, an_acls = []\<rparr>)
           (map_of (kc_system_nodes_with_data ctx) p)"
proof -
  have "cview s p = map_option (\<lambda>d. abs_node [] (system_node d)) (map_of (kc_system_nodes_with_data ctx) p)"
    using reachable_run [OF assms(1,2)] assms(3) by (simp add: system_as_configured_def)
  also have "\<dots> = map_option (\<lambda>d. \<lparr>an_stats = default_stats\<lparr>ns_data_size := length d\<rparr>, an_data = d, an_acls = []\<rparr>)
      (map_of (kc_system_nodes_with_data ctx) p)"
  proof (rule option.map_cong0)
    fix d assume "d \<in> set_option (map_of (kc_system_nodes_with_data ctx) p)"
    then have "length d < 2 ^ 32"
      using context_okD(1) [OF assms(2)] by (auto simp: system_nodes_ok_def dest!: map_of_SomeD)
    then show "abs_node [] (system_node d) = \<lparr>an_stats = default_stats\<lparr>ns_data_size := length d\<rparr>, an_data = d, an_acls = []\<rparr>"
      by (rule system_node_view)
  qed
  finally show ?thesis .
qed

text \<open>The pending transactions do not change the system nodes either.\<close>

subsection \<open>Pending transactions of a replaced storage\<close>

text \<open>
  When a follower installs a snapshot, \<open>applyUncommittedState\<close> hands its later transactions over to the new storage. It
  applies every delta with \<open>applyDelta\<close>, which is meant for deltas with a path.
\<close>

definition hand_over_delta :: "delta \<Rightarrow> storage \<Rightarrow> storage result" where
  "hand_over_delta d o1 = res_bind (applyDelta d (None, o1)) (\<lambda>(g, o2). Inr (addDeltas [d] o2))"

lemma hand_over_delta_frame:
  assumes "hand_over_delta d s = Inr s'"
  shows "us_session_and_auth (uncommitted s') = us_session_and_auth (uncommitted s)"
    "us_closed_sessions (uncommitted s') = us_closed_sessions (uncommitted s)" "us_ephemerals (uncommitted s') = us_ephemerals (uncommitted s)"
    "us_deltas (uncommitted s') = us_deltas (uncommitted s) @ [d]"
    "find_entry s' (delta_path d) \<noteq> None" "find_entry s p \<noteq> None \<Longrightarrow> find_entry s' p \<noteq> None"
proof -
  obtain e s1 where l: "load_entry (delta_path d) s = (e, s1)" by fastforce
  have s1: "us_session_and_auth (uncommitted s1) = us_session_and_auth (uncommitted s)" "us_closed_sessions (uncommitted s1) = us_closed_sessions (uncommitted s)"
    "us_ephemerals (uncommitted s1) = us_ephemerals (uncommitted s)" "us_deltas (uncommitted s1) = us_deltas (uncommitted s)"
    "find_entry s p \<noteq> None \<Longrightarrow> find_entry s1 p \<noteq> None" for p
    using l by (auto simp: load_entry_def emplace_entry_def find_entry_def Let_def map_of_alist_update split: option.splits)
  from assms show "us_session_and_auth (uncommitted s') = us_session_and_auth (uncommitted s)"
    "us_closed_sessions (uncommitted s') = us_closed_sessions (uncommitted s)" "us_ephemerals (uncommitted s') = us_ephemerals (uncommitted s)"
    "us_deltas (uncommitted s') = us_deltas (uncommitted s) @ [d]" "find_entry s' (delta_path d) \<noteq> None"
    by (auto simp: hand_over_delta_def applyDelta_def l Let_def res_bind_Inr_iff addDeltas_def s1(1-4) find_entry_def map_of_alist_update)
  from assms show "find_entry s p \<noteq> None \<Longrightarrow> find_entry s' p \<noteq> None"
    using s1(5) [of p] by (auto simp: hand_over_delta_def applyDelta_def l Let_def res_bind_Inr_iff addDeltas_def find_entry_def map_of_alist_update)
qed

lemma hand_over_deltas_frame:
  assumes "res_fold hand_over_delta ds s = Inr s'"
  shows "us_session_and_auth (uncommitted s') = us_session_and_auth (uncommitted s)
    \<and> us_closed_sessions (uncommitted s') = us_closed_sessions (uncommitted s) \<and> us_ephemerals (uncommitted s') = us_ephemerals (uncommitted s)
    \<and> us_deltas (uncommitted s') = us_deltas (uncommitted s) @ ds
    \<and> (\<forall>p. find_entry s p \<noteq> None \<or> p \<in> delta_path ` set ds \<longrightarrow> find_entry s' p \<noteq> None)"
  using assms
proof (induction ds arbitrary: s)
  case (Cons d ds)
  then obtain s1 where s1: "hand_over_delta d s = Inr s1" "res_fold hand_over_delta ds s1 = Inr s'" by (auto simp: res_bind_Inr_iff)
  note f = hand_over_delta_frame [OF s1(1)]
  have "find_entry s1 p \<noteq> None" if "find_entry s p \<noteq> None \<or> p = delta_path d" for p using that f(5,6) by blast
  then show ?case using Cons.IH [OF s1(2)] f(1-4) by auto
qed simp

subsection \<open>From the handler to the answer\<close>

text \<open>The answer to a request that goes through the log is the one of \<open>process\<close> on the deltas of the request.\<close>

lemma processRequest_response:
  assumes "processRequest ctx now r xid sid (Some z) check_acl False s
      = Inr (results @ [\<lparr>rfs_session_id = sid, rfs_response = set_ids xid z resp\<rparr>], s')" "r \<noteq> CloseRequest" "r \<noteq> HeartbeatRequest"
  obtains resp' s1 s2 where "process ctx r (takeWhile (\<lambda>d. delta_zxid d = z) (us_deltas (uncommitted s))) s1 = Inr (resp', s2)"
    "set_ids xid z resp' = set_ids xid z resp"
  using assms
  by (auto simp: processRequest_def process_normal_def take_deltas_def res_bind_Inr_iff Let_def split: if_splits)

lemma answer_of_handler:
  assumes "context_ok ctx" "reachable ctx [] s" "admissible ctx sid r" "getNextZXID s \<le> z" "r \<noteq> CloseRequest" "r \<noteq> HeartbeatRequest"
  obtains ds s1 results resp s2 s3 s4 where "preprocessRequest ctx r sid time z check_acl digest log_idx s = Inr s1"
    "multi_result ctx z sid time check_acl r ds (uview s)" "process ctx r ds s2 = Inr (resp, s3)"
    "processRequest ctx now r xid sid (Some z) check_acl False s1
      = Inr (results @ [\<lparr>rfs_session_id = sid, rfs_response = Response (resp_error resp) xid z (resp_body resp)\<rparr>], s4)"
proof -
  have inv: "keeper_inv [] s" using reachable_inv [OF assms(2,1)] by simp
  obtain ds s1 where s1: "preprocessRequest ctx r sid time z check_acl digest log_idx s = Inr s1" "keeper_inv ([] @ [r]) s1"
    "ti_zxid (last (uncommitted_transactions s1)) = z" "us_deltas (uncommitted s1) = us_deltas (uncommitted s) @ ds"
    "step_ok z ds (uview s)" "multi_result ctx z sid time check_acl r ds (uview s)"
    by (rule preprocess_admissible [OF assms(1-4)])
  have inv1: "keeper_inv [r] s1" using s1(2) by simp
  have one: "z = ti_zxid (hd (uncommitted_transactions s1))" using keeper_inv_one [OF inv1] s1(3) by auto
  have ds: "takeWhile (\<lambda>d. delta_zxid d = z) (us_deltas (uncommitted s1)) = ds"
    using s1(4) step_okD(1) [OF s1(5)] keeper_inv_drained(1) [OF inv] by simp
  obtain results resp s4 where s4: "processRequest ctx now r xid sid (Some z) check_acl False s1
      = Inr (results @ [\<lparr>rfs_session_id = sid, rfs_response = set_ids xid z resp\<rparr>], s4)"
    by (rule processRequest_keeps [OF inv1 request_from_ok(2) [OF admissibleD(1) [OF assms(3)]] one])
  obtain resp' s2 s3 where run: "process ctx r ds s2 = Inr (resp', s3)" "set_ids xid z resp' = set_ids xid z resp"
    by (rule processRequest_response [OF s4 assms(5,6), unfolded ds])
  have "processRequest ctx now r xid sid (Some z) check_acl False s1
      = Inr (results @ [\<lparr>rfs_session_id = sid, rfs_response = Response (resp_error resp') xid z (resp_body resp')\<rparr>], s4)"
    using s4 run(2) by (simp add: set_ids_def)
  then show ?thesis by (rule that [OF s1(1,6) run(1)])
qed

lemma getNode_stats: "map_option mn_stats (fst (getNode p s)) = map_option an_stats (uview s p)"
  by (auto simp: getNode_def uview_def entry_view_def cview_def tryGetNodeFromStorage_def abs_node_def shallowCopy_def option.map_comp comp_def
      Let_def split: option.splits)

lemma getNode_same_stats: "map_option an_stats (uview (snd (getNode q s)) p) = map_option an_stats (uview s p)"
  by (auto simp: getNode_def uview_def entry_view_def cview_def tryGetNodeFromStorage_def abs_node_def shallowCopy_def emplace_entry_def
      fresh_entry_def find_entry_def find_node_def map_of_alist_update Let_def split: option.splits)

text \<open>\<open>CreateIfNotExists\<close> of a node that exists makes no delta.\<close>

lemma create_existing:
  assumes "tree_inv (uview s)" "uview s (cr_path c) \<noteq> None" "cr_not_exists c" "\<not> cr_is_sequential c"
    "matchPath (cr_path c) keeper_system_path = NOT_MATCH" "create_path_ok c"
    and run: "preprocess ctx z sid time (CreateRequest c) g s = Inr (ds, g', s')"
  shows "ds = []"
proof -
  let ?p = "parentOf (cr_path c)"
  obtain a where a: "uview s (cr_path c) = Some a" "anode_ok (uview s) (cr_path c) a" using assms(1,2) by (auto simp: tree_inv_def)
  have "\<exists>b. uview s ?p = Some b \<and> \<not> isEphemeral (an_stats b)"
  proof (cases "cr_path c = root")
    case True
    then have "?p = root" by (auto simp: parentOf_def parentNodePath_def slash_def split: option.splits)
    then show ?thesis using assms(1) by (auto simp: tree_inv_def)
  next
    case False
    then show ?thesis using a(2) by (auto simp: anode_ok_def)
  qed
  then obtain b where b: "uview s ?p = Some b" "\<not> isEphemeral (an_stats b)" by blast
  obtain parent s1 where p: "getNode ?p s = (Some parent, s1)" "mn_stats parent = an_stats b"
    using getNode_stats [of ?p s] b(1) by (cases "getNode ?p s") auto
  have "fst (getNode (cr_path c) s1) \<noteq> None"
    using getNode_stats [of "cr_path c" s1] getNode_same_stats [of ?p s "cr_path c"] a(1) p(1) by auto
  then show ?thesis
    using run assms(3-6) p b(2) create_path_parent [OF assms(6)]
    by (auto simp: with_digest_def preprocess_create_def Let_def case_prod_unfold res_bind_Inr_iff)
qed

lemma single_multi:
  assumes "\<And>s g ds g' s'. uview s = t \<Longrightarrow> preprocess ctx z sid time (CreateRequest c) g s = Inr (ds, g', s') \<Longrightarrow> ds = []"
  shows "multi_run ctx z sid time True [CreateRequest c] ds t \<Longrightarrow> ds = [sub_end z]" "\<not> multi_fails ctx z sid time [CreateRequest c] es t"
proof -
  show "multi_run ctx z sid time True [CreateRequest c] ds t \<Longrightarrow> ds = [sub_end z]" using assms by (auto simp del: preprocess.simps)
  show "\<not> multi_fails ctx z sid time [CreateRequest c] es t"
    using assms by (fastforce simp: multi_fails_def Cons_eq_append_conv simp del: preprocess.simps)
qed

end
