(* ===== verification/Keeper_Digest.thy ===== *)
theory Keeper_Digest
  imports Keeper_Handlers
begin

section \<open>The digest of a transaction\<close>

text \<open>
  The digest of the tree is kept up to date by every transaction: \<open>applyDelta\<close> subtracts the digest of a node when the
  transaction touches it for the first time, and \<open>updateNodesDigest\<close> adds the digests of all nodes that the transaction
  touched. This theory follows the deltas of one path through both.
\<close>

text \<open>A delta on a node in the cache that changes its ACL or its statistics.\<close>

lemma applyDelta_cached:
  assumes e: "find_entry s p = Some e" "un_node e = Some n" and p: "p \<noteq> []" and wf: "omap_wf (us_zxid_to_nodes (uncommitted s))"
    and op: "op = SetACLDelta old new v \<or> op = UpdateNodeStatDelta st st' v'"
  shows "\<exists>s' e' n'. applyDeltas_step (Delta p z op) (Some g, s)
      = Inr (Some (if (\<exists>st st' v. op = UpdateNodeStatDelta st st' v) \<and> p \<notin> set (bucket (map_of (us_zxid_to_nodes (uncommitted s))) z)
                   then g - fst (getDigest p n) else g), s')
    \<and> find_entry s' p = Some e' \<and> un_node e' = Some n' \<and> omap_wf (us_zxid_to_nodes (uncommitted s'))
    \<and> bucket (map_of (us_zxid_to_nodes (uncommitted s'))) z = uset_insert p (bucket (map_of (us_zxid_to_nodes (uncommitted s))) z)
    \<and> map_of (us_zxid_to_nodes (uncommitted s')) z = Some (uset_insert p (bucket (map_of (us_zxid_to_nodes (uncommitted s))) z))
    \<and> invalidateDigestCache n' = invalidateDigestCache (case op of UpdateNodeStatDelta st st' v \<Rightarrow> n\<lparr>mn_stats := st'\<rparr> | _ \<Rightarrow> n)"
proof -
  define u where "u = (\<lambda>e'. upd_uncommitted (\<lambda>u.
      u\<lparr>us_nodes := AList.update p (e'\<lparr>un_applied_zxids := uset_insert z (un_applied_zxids e')\<rparr>) (us_nodes u),
        us_zxid_to_nodes := track_node z p (us_zxid_to_nodes u)\<rparr>) s)"
  have u: "\<exists>e''. find_entry (u e') p = Some e'' \<and> un_node e'' = un_node e'" "omap_wf (us_zxid_to_nodes (uncommitted (u e')))"
    "bucket (map_of (us_zxid_to_nodes (uncommitted (u e')))) z = uset_insert p (bucket (map_of (us_zxid_to_nodes (uncommitted s))) z)"
    "map_of (us_zxid_to_nodes (uncommitted (u e'))) z = Some (uset_insert p (bucket (map_of (us_zxid_to_nodes (uncommitted s))) z))" for e'
    using wf by (auto simp: u_def find_entry_def map_of_alist_update track_node_def bucket_def map_of_omap_update omap_wf_update)
  have run: "applyDeltas_step (Delta p z op) (Some g, s)
      = res_bind (apply_operation p (p \<in> set (bucket (map_of (us_zxid_to_nodes (uncommitted s))) z)) op (Some g) e) (\<lambda>(g', e'). Inr (g', u e'))"
    using p e by (simp add: applyDeltas_step_def applyDelta_def load_entry_def Let_def u_def)
  from op show ?thesis
  proof
    assume o: "op = SetACLDelta old new v"
    let ?e = "e\<lparr>un_acls := Some new\<rparr>"
    have "applyDeltas_step (Delta p z op) (Some g, s) = Inr (Some g, u ?e)" by (simp add: o run [unfolded o] apply_operation_def)
    with u [of ?e] e(2) o show ?thesis by auto
  next
    assume o: "op = UpdateNodeStatDelta st st' v'"
    let ?m = "if p \<in> set (bucket (map_of (us_zxid_to_nodes (uncommitted s))) z) then n else snd (getDigest p n)"
    let ?e = "e\<lparr>un_node := Some ((invalidateDigestCache ?m)\<lparr>mn_stats := st'\<rparr>)\<rparr>"
    have m: "invalidateDigestCache ((invalidateDigestCache ?m)\<lparr>mn_stats := st'\<rparr>) = invalidateDigestCache (n\<lparr>mn_stats := st'\<rparr>)"
      by (simp add: invalidateDigestCache_def getDigest_def Let_def)
    have "applyDeltas_step (Delta p z op) (Some g, s)
        = Inr (Some (if p \<in> set (bucket (map_of (us_zxid_to_nodes (uncommitted s))) z) then g else g - fst (getDigest p n)), u ?e)"
      using e(2) by (simp add: o run [unfolded o] apply_operation_def subtract_digest_def split_def Let_def)
    with u [of ?e] m o show ?thesis by auto
  qed
qed

lemma preprocess_set_acl_loaded:
  assumes "preprocess_set_acl ctx p acls version z sid s = Inr ([d1, d2], s1)"
  obtains e n old new where "find_entry s1 p = Some e" "un_node e = Some n" "d1 = Delta p z (SetACLDelta old new version)"
    "d2 = Delta p z (UpdateNodeStatDelta (mn_stats n) ((mn_stats n)\<lparr>ns_aversion := ns_aversion (mn_stats n) + 1\<rparr>) (-1))"
proof -
  obtain node s2 where g: "getNode p s = (node, s2)" by fastforce
  from assms g obtain n old new where n: "node = Some n" "getACLs p s2 = Inr (old, s1)" "d1 = Delta p z (SetACLDelta old new version)"
    "d2 = Delta p z (new_stat_delta n (\<lambda>st. st\<lparr>ns_aversion := ns_aversion st + 1\<rparr>) (-1))"
    by (auto simp: preprocess_set_acl_def res_bind_Inr_iff split: if_splits option.splits)
  obtain e where e: "find_entry s2 p = Some e" "un_node e = Some n"
    using g n(1) by (auto simp: getNode_def emplace_entry_def find_entry_def fresh_entry_def map_of_alist_update split: option.splits)
  obtain e' where "find_entry s1 p = Some e'" "un_node e' = Some n"
    using n(2) e by (auto simp: getACLs_def materializeACL_def res_bind_Inr_iff set_entry_def find_entry_def map_of_alist_update split: option.splits)
  with n that show ?thesis by (simp add: new_stat_delta_def)
qed

text \<open>A storage with one node in the cache, for an example.\<close>

definition demo_cached :: storage where
  "demo_cached = (base_storage 500 [])\<lparr>uncommitted := empty_uncommitted\<lparr>us_nodes :=
     [(''/a'', (fresh_entry (Some default_node))\<lparr>un_acls := Some []\<rparr>)]\<rparr>\<rparr>"

definition demo_digest_ctx :: keeper_context where
  "demo_digest_ctx = \<lparr>kc_digest_enabled = True, kc_digest_enabled_on_commit = True, kc_server_state = RUNNING,
     kc_ignore_system_path_on_startup = False, kc_system_nodes_with_data = [], kc_cluster_config = [], kc_base64_sha1 = (\<lambda>s. s)\<rparr>"

text \<open>
  C37. \<open>SetACL\<close> spoils the digest of the tree. It changes the ACL first and the statistics second, both on the same node.
  Applying the first delta marks the node as seen without subtracting its digest, so the second one does not subtract it
  either: the digest is still \<open>g\<close> when \<open>updateNodesDigest\<close> adds that of the changed node, and the old digest of the node
  stays in the sum. The same deltas in the other order subtract it.
\<close>

theorem set_acl_keeps_old_digest:
  assumes run: "preprocess_set_acl ctx p acls version z sid s = Inr ([d1, d2], s1)" and inv: "cache_inv s1"
    and p: "p \<noteq> []" and on: "kc_digest_enabled ctx" and first: "bucket (map_of (us_zxid_to_nodes (uncommitted s1))) z = []"
  shows "\<exists>n s2 s3 s4. getNode p s1 = (Some n, s1)
     \<and> applyDeltas [d1, d2] (Some g, s1) = Inr (Some g, s2)
     \<and> updateNodesDigest ctx g z s2
         = Inr (g + fst (getDigest p (invalidateDigestCache (n\<lparr>mn_stats := (mn_stats n)\<lparr>ns_aversion := ns_aversion (mn_stats n) + 1\<rparr>\<rparr>))), s3)
     \<and> applyDeltas [d2, d1] (Some g, s1) = Inr (Some (g - fst (getDigest p n)), s4)"
proof -
  obtain e n old new where e: "find_entry s1 p = Some e" "un_node e = Some n" and d: "d1 = Delta p z (SetACLDelta old new version)"
    "d2 = Delta p z (UpdateNodeStatDelta (mn_stats n) ((mn_stats n)\<lparr>ns_aversion := ns_aversion (mn_stats n) + 1\<rparr>) (-1))"
    by (rule preprocess_set_acl_loaded [OF run])
  let ?st = "(mn_stats n)\<lparr>ns_aversion := ns_aversion (mn_stats n) + 1\<rparr>"
  have wf: "omap_wf (us_zxid_to_nodes (uncommitted s1))" using inv by (simp add: cache_inv_def tracking_ok_def)
  obtain t f m where t: "applyDeltas_step d1 (Some g, s1) = Inr (Some g, t)" "find_entry t p = Some f" "un_node f = Some m"
    "omap_wf (us_zxid_to_nodes (uncommitted t))" "bucket (map_of (us_zxid_to_nodes (uncommitted t))) z = [p]"
    "invalidateDigestCache m = invalidateDigestCache n"
    using applyDelta_cached [OF e p wf, of "SetACLDelta old new version" old new version _ _ _ z g] first
    by (auto simp: d uset_insert_def)
  obtain s2 f2 m2 where s2: "applyDeltas_step d2 (Some g, t) = Inr (Some g, s2)" "find_entry s2 p = Some f2" "un_node f2 = Some m2"
    "map_of (us_zxid_to_nodes (uncommitted s2)) z = Some [p]" "invalidateDigestCache m2 = invalidateDigestCache (m\<lparr>mn_stats := ?st\<rparr>)"
    using applyDelta_cached [OF t(2,3) p t(4), of "UpdateNodeStatDelta (mn_stats n) ?st (-1)" _ _ _ "mn_stats n" ?st "-1" z g] t(5)
    by (auto simp: d uset_insert_def)
  have "invalidateDigestCache m2 = invalidateDigestCache (n\<lparr>mn_stats := ?st\<rparr>)"
    using s2(5) t(6) by (cases m; cases n) (simp add: invalidateDigestCache_def)
  with s2(2-4) on have dig: "\<exists>s3. updateNodesDigest ctx g z s2 = Inr (g + fst (getDigest p (invalidateDigestCache (n\<lparr>mn_stats := ?st\<rparr>))), s3)"
    by (simp add: updateNodesDigest_def digest_step_def split_def Let_def)
  obtain t' f' m' where t': "applyDeltas_step d2 (Some g, s1) = Inr (Some (g - fst (getDigest p n)), t')" "find_entry t' p = Some f'"
    "un_node f' = Some m'" "omap_wf (us_zxid_to_nodes (uncommitted t'))"
    using applyDelta_cached [OF e p wf, of "UpdateNodeStatDelta (mn_stats n) ?st (-1)" _ _ _ "mn_stats n" ?st "-1" z g] first
    by (auto simp: d)
  obtain s4 where "applyDeltas_step d1 (Some (g - fst (getDigest p n)), t') = Inr (Some (g - fst (getDigest p n)), s4)"
    using applyDelta_cached [OF t'(2,3) p t'(4), of "SetACLDelta old new version" old new version _ _ _ z "g - fst (getDigest p n)"]
    by (auto simp: d)
  with t(1) s2(1) t'(1) e dig show ?thesis by (auto simp: applyDeltas_def getNode_def)
qed

theorem set_acl_keeps_old_digest_witness:
  "\<exists>d1 d2 s2 s4. preprocess_set_acl demo_digest_ctx ''/a'' [] (-1) 1 7 demo_cached = Inr ([d1, d2], demo_cached)
     \<and> applyDeltas [d1, d2] (Some 5, demo_cached) = Inr (Some 5, s2)
     \<and> applyDeltas [d2, d1] (Some 5, demo_cached) = Inr (Some (5 - fst (getDigest ''/a'' default_node)), s4)"
proof -
  let ?d1 = "Delta ''/a'' 1 (SetACLDelta [] [] (-1))"
  let ?d2 = "Delta ''/a'' 1 (new_stat_delta default_node (\<lambda>st. st\<lparr>ns_aversion := ns_aversion st + 1\<rparr>) (-1))"
  have "matchPath ''/a'' keeper_system_path = NOT_MATCH" by code_simp
  then have run: "preprocess_set_acl demo_digest_ctx ''/a'' [] (-1) 1 7 demo_cached = Inr ([?d1, ?d2], demo_cached)"
    by (simp add: preprocess_set_acl_def getNode_def getACLs_def materializeACL_def fixupACL_def find_entry_def set_entry_def
      demo_cached_def fresh_entry_def)
  have inv: "cache_inv demo_cached"
    by (simp add: cache_inv_def tracking_ok_def entry_ok_def find_entry_def demo_cached_def fresh_entry_def empty_uncommitted_def bucket_def
      omap_wf_def)
  have node: "getNode ''/a'' demo_cached = (Some default_node, demo_cached)"
    by (simp add: getNode_def find_entry_def demo_cached_def fresh_entry_def)
  have "kc_digest_enabled demo_digest_ctx" "bucket (map_of (us_zxid_to_nodes (uncommitted demo_cached))) 1 = []"
    by (simp_all add: demo_digest_ctx_def demo_cached_def empty_uncommitted_def bucket_def)
  from set_acl_keeps_old_digest [OF run inv _ this, of 5] run node show ?thesis by auto
qed

end
