(* ===== verification/Snapshot_Table.thy ===== *)
theory Snapshot_Table
  imports Prelude "HOL-Library.AList" "HOL-Library.Word"
begin

section \<open>The hash table with snapshots\<close>

text \<open>
  \<open>SnapshotableHashTable\<close> of \<open>src/src/Coordination/SnapshotableHashTable.h\<close>, the container of the
  nodes. A linked list holds the elements, a hash map points from a key to its current element. In
  snapshot mode an element that a snapshot may read is never changed: an update appends a new
  element and remembers the old one in \<open>snapshot_invalid_iters\<close>, to be dropped later.

  A list iterator is a number that is never reused; the list is the list of the elements with their
  iterators. The keys are heap strings: an element has the address of its key, \<open>ht_arena\<close> holds the
  addresses that are allocated, and freeing another address is an error. \<open>sizeInBytes\<close> of the values
  is a parameter \<open>sz\<close>; sizes are 64-bit words, versions are numbers that wrap where the code does.
\<close>

subsection \<open>Elements and the table\<close>

record 'v list_elem =
  le_iter :: nat
  le_key :: string
  le_key_ptr :: nat
  le_value :: 'v
  le_active_in_map :: bool
  le_free_key :: bool
  le_version :: nat

definition setVersion :: "nat \<Rightarrow> 'v list_elem \<Rightarrow> 'v list_elem" where
  "setVersion version e = e\<lparr>le_version := version mod 2 ^ 62\<rparr>"

definition setInactiveInMap :: "'v list_elem \<Rightarrow> 'v list_elem" where
  "setInactiveInMap e = e\<lparr>le_active_in_map := False\<rparr>"

definition setActiveInMap :: "'v list_elem \<Rightarrow> 'v list_elem" where
  "setActiveInMap e = e\<lparr>le_active_in_map := True\<rparr>"

definition setFreeKey :: "'v list_elem \<Rightarrow> 'v list_elem" where
  "setFreeKey e = e\<lparr>le_free_key := True\<rparr>"

text \<open>\<open>ListElem{key, value}\<close>: the metadata is \<open>{false, false, 0}\<close>.\<close>

definition list_elem_init :: "string \<Rightarrow> nat \<Rightarrow> 'v \<Rightarrow> 'v list_elem" where
  "list_elem_init key ptr v =
     \<lparr>le_iter = 0, le_key = key, le_key_ptr = ptr, le_value = v,
      le_active_in_map = False, le_free_key = False, le_version = 0\<rparr>"

record 'v table =
  ht_list :: "'v list_elem list"
  ht_map :: "(string \<times> nat) list"
  ht_snapshot_mode :: bool
  ht_current_version :: nat
  ht_snapshot_up_to_version :: nat
  ht_arena :: "nat list"
  ht_snapshot_invalid_iters :: "nat list"
  ht_approximate_data_size :: "64 word"
  ht_next :: nat

definition new_table :: "'v table" where
  "new_table =
     \<lparr>ht_list = [], ht_map = [], ht_snapshot_mode = False, ht_current_version = 0,
      ht_snapshot_up_to_version = 0, ht_arena = [], ht_snapshot_invalid_iters = [],
      ht_approximate_data_size = 0, ht_next = 0\<rparr>"

subsection \<open>Arena, list and data size\<close>

definition arena_alloc :: "'v table \<Rightarrow> nat \<times> 'v table" where
  "arena_alloc t = (ht_next t, t\<lparr>ht_arena := ht_next t # ht_arena t, ht_next := Suc (ht_next t)\<rparr>)"

definition arena_free :: "nat \<Rightarrow> 'v table \<Rightarrow> 'v table result" where
  "arena_free ptr t =
     (if ptr \<in> set (ht_arena t) then Inr (t\<lparr>ht_arena := remove1 ptr (ht_arena t)\<rparr>)
      else Inl (Undefined ''free of an address that is not allocated''))"

definition list_insert :: "'v list_elem \<Rightarrow> 'v table \<Rightarrow> nat \<times> 'v table" where
  "list_insert e t =
     (ht_next t, t\<lparr>ht_list := ht_list t @ [e\<lparr>le_iter := ht_next t\<rparr>], ht_next := Suc (ht_next t)\<rparr>)"

definition elem_at :: "nat \<Rightarrow> 'v table \<Rightarrow> 'v list_elem option" where
  "elem_at itr t = find (\<lambda>e. le_iter e = itr) (ht_list t)"

definition deref :: "nat \<Rightarrow> 'v table \<Rightarrow> 'v list_elem result" where
  "deref itr t = (case elem_at itr t of None \<Rightarrow> Inl (Undefined ''invalid list iterator'') | Some e \<Rightarrow> Inr e)"

definition list_update_at :: "nat \<Rightarrow> ('v list_elem \<Rightarrow> 'v list_elem) \<Rightarrow> 'v table \<Rightarrow> 'v table" where
  "list_update_at itr f t = t\<lparr>ht_list := map (\<lambda>e. if le_iter e = itr then f e else e) (ht_list t)\<rparr>"

definition list_erase :: "nat \<Rightarrow> 'v table \<Rightarrow> 'v table" where
  "list_erase itr t = t\<lparr>ht_list := filter (\<lambda>e. le_iter e \<noteq> itr) (ht_list t)\<rparr>"

datatype operation_type = INSERT_OR_REPLACE | ERASE | UPDATE | CLEAR

fun updateDataSize :: "operation_type \<Rightarrow> 64 word \<Rightarrow> 64 word \<Rightarrow> 64 word \<Rightarrow> bool \<Rightarrow> 'v table \<Rightarrow> 'v table" where
  "updateDataSize INSERT_OR_REPLACE key_size value_size old_value_size remove_old t =
     (let s = ht_approximate_data_size t + key_size + value_size in
      t\<lparr>ht_approximate_data_size :=
          (if remove_old \<and> old_value_size \<noteq> 0 then s - key_size - old_value_size else s)\<rparr>)"
| "updateDataSize UPDATE key_size value_size old_value_size remove_old t =
     (let s = ht_approximate_data_size t + key_size + value_size in
      t\<lparr>ht_approximate_data_size := (if remove_old then s - key_size - old_value_size else s)\<rparr>)"
| "updateDataSize ERASE key_size value_size old_value_size remove_old t =
     (let s = ht_approximate_data_size t in
      t\<lparr>ht_approximate_data_size := (if remove_old then s - key_size - old_value_size else s)\<rparr>)"
| "updateDataSize CLEAR key_size value_size old_value_size remove_old t = t\<lparr>ht_approximate_data_size := 0\<rparr>"

definition key_size :: "string \<Rightarrow> 64 word" where
  "key_size key = of_nat (length key)"

subsection \<open>Operations\<close>

text \<open>The branch of both insertions for a key that the map does not have.\<close>

definition insert_new :: "string \<Rightarrow> nat \<Rightarrow> 'v \<Rightarrow> 'v table \<Rightarrow> 'v table" where
  "insert_new key ptr v t =
     (let (itr, t1) = list_insert (setVersion (ht_current_version t) (list_elem_init key ptr v)) t;
          t2 = t1\<lparr>ht_map := AList.update key itr (ht_map t1)\<rparr>
      in list_update_at itr setActiveInMap t2)"

text \<open>\<open>owned\<close>: the address of the key if the caller hands it over (\<open>owns_key\<close>).\<close>

definition insertOrReplace :: "('v \<Rightarrow> 64 word) \<Rightarrow> string \<Rightarrow> nat option \<Rightarrow> 'v \<Rightarrow> 'v table \<Rightarrow> 'v table result" where
  "insertOrReplace sz key owned v t =
     (case map_of (ht_map t) key of
        None \<Rightarrow>
          (let (ptr, t1) = (case owned of Some p \<Rightarrow> (p, t) | None \<Rightarrow> arena_alloc t)
           in Inr (updateDataSize INSERT_OR_REPLACE (key_size key) (sz v) 0 (\<not> ht_snapshot_mode t) (insert_new key ptr v t1)))
      | Some list_itr \<Rightarrow>
          res_bind (deref list_itr t) (\<lambda>e.
          res_bind (case owned of Some p \<Rightarrow> arena_free p t | None \<Rightarrow> Inr t) (\<lambda>t1.
            Inr (updateDataSize INSERT_OR_REPLACE (key_size key) (sz v) (sz (le_value e)) (\<not> ht_snapshot_mode t)
              (if ht_snapshot_mode t1
               then (let t2 = list_update_at list_itr setInactiveInMap t1;
                         (new_itr, t3) = list_insert
                           (setVersion (ht_current_version t) (list_elem_init (le_key e) (le_key_ptr e) v)) t2
                     in t3\<lparr>ht_map := AList.update key new_itr (ht_map t3),
                            ht_snapshot_invalid_iters := ht_snapshot_invalid_iters t3 @ [list_itr]\<rparr>)
               else list_update_at list_itr (\<lambda>e. e\<lparr>le_value := v\<rparr>) t1)))))"

definition insert_key :: "('v \<Rightarrow> 64 word) \<Rightarrow> string \<Rightarrow> 'v \<Rightarrow> 'v table \<Rightarrow> bool \<times> 'v table" where
  "insert_key sz key v t =
     (case map_of (ht_map t) key of
        None \<Rightarrow>
          (let (ptr, t1) = arena_alloc t
           in (True, updateDataSize INSERT_OR_REPLACE (key_size key) (sz v) 0 True (insert_new key ptr v t1)))
      | Some _ \<Rightarrow> (False, t))"

definition allocateKey :: "'v table \<Rightarrow> nat \<times> 'v table" where
  "allocateKey t = arena_alloc t"

text \<open>\<open>insertOrReplace(KeyPtr, key_size, value)\<close> with a key from \<open>allocateKey\<close>.\<close>

definition insertOrReplace_owned :: "('v \<Rightarrow> 64 word) \<Rightarrow> string \<Rightarrow> 'v \<Rightarrow> 'v table \<Rightarrow> 'v table result" where
  "insertOrReplace_owned sz key v t = (let (ptr, t1) = allocateKey t in insertOrReplace sz key (Some ptr) v t1)"

definition erase :: "('v \<Rightarrow> 64 word) \<Rightarrow> string \<Rightarrow> 'v table \<Rightarrow> (bool \<times> 'v table) result" where
  "erase sz key t =
     (case map_of (ht_map t) key of
        None \<Rightarrow> Inr (False, t)
      | Some list_itr \<Rightarrow>
          res_bind (deref list_itr t) (\<lambda>e.
          res_bind
            (if ht_snapshot_mode t
             then (let t1 = list_update_at list_itr setInactiveInMap t;
                       t2 = t1\<lparr>ht_snapshot_invalid_iters := ht_snapshot_invalid_iters t1 @ [list_itr]\<rparr>;
                       t3 = list_update_at list_itr setFreeKey t2
                   in Inr (t3\<lparr>ht_map := AList.delete key (ht_map t3)\<rparr>))
             else (let t1 = t\<lparr>ht_map := AList.delete key (ht_map t)\<rparr>
                   in res_bind (arena_free (le_key_ptr e) t1) (\<lambda>t2. Inr (list_erase list_itr t2)))) (\<lambda>t4.
            Inr (True, updateDataSize ERASE (key_size key) 0 (sz (le_value e)) (\<not> ht_snapshot_mode t) t4))))"

definition contains :: "string \<Rightarrow> 'v table \<Rightarrow> bool" where
  "contains key t = (map_of (ht_map t) key \<noteq> None)"

text \<open>The result is the iterator of the updated element.\<close>

definition update_value ::
  "('v \<Rightarrow> 64 word) \<Rightarrow> string \<Rightarrow> ('v \<Rightarrow> 'v) \<Rightarrow> 'v table \<Rightarrow> (nat \<times> 'v table) result" where
  "update_value sz key updater t =
     (case map_of (ht_map t) key of
        None \<Rightarrow> Inl (LogicalError ''Could not find key'')
      | Some list_itr \<Rightarrow>
          res_bind (deref list_itr t) (\<lambda>e.
            (let (ret, remove_old_size, t4) =
               (if ht_snapshot_mode t \<and> le_version e \<le> ht_snapshot_up_to_version t
                then (let t1 = list_update_at list_itr setInactiveInMap t;
                          t2 = t1\<lparr>ht_snapshot_invalid_iters := ht_snapshot_invalid_iters t1 @ [list_itr]\<rparr>;
                          (itr, t3) = list_insert (setVersion (ht_current_version t) (e\<lparr>le_value := updater (le_value e)\<rparr>)) t2
                      in (itr, False, t3\<lparr>ht_map := AList.update key itr (ht_map t3)\<rparr>))
                else (list_itr, True, list_update_at list_itr (\<lambda>e. e\<lparr>le_value := updater (le_value e)\<rparr>) t))
             in Inr (ret, updateDataSize UPDATE (key_size key) (sz (updater (le_value e))) (sz (le_value e)) remove_old_size t4))))"

definition find_key :: "string \<Rightarrow> 'v table \<Rightarrow> 'v list_elem option" where
  "find_key key t = (case map_of (ht_map t) key of None \<Rightarrow> None | Some itr \<Rightarrow> elem_at itr t)"

definition getValue :: "string \<Rightarrow> 'v table \<Rightarrow> 'v result" where
  "getValue key t =
     (case map_of (ht_map t) key of
        None \<Rightarrow> Inl (LogicalError ''Could not find key'')
      | Some itr \<Rightarrow> res_bind (deref itr t) (\<lambda>e. Inr (le_value e)))"

definition clear_outdated_node :: "('v \<Rightarrow> 64 word) \<Rightarrow> nat \<Rightarrow> 'v table \<Rightarrow> 'v table result" where
  "clear_outdated_node sz itr t =
     res_bind (deref itr t) (\<lambda>e.
       if le_active_in_map e then Inl (LogicalError ''is not active in map'')
       else (let t1 = updateDataSize ERASE (key_size (le_key e)) 0 (sz (le_value e)) True t
             in res_bind (if le_free_key e then arena_free (le_key_ptr e) t1 else Inr t1) (\<lambda>t2.
                  Inr (list_erase itr t2))))"

definition clearOutdatedNodes :: "('v \<Rightarrow> 64 word) \<Rightarrow> 'v table \<Rightarrow> 'v table result" where
  "clearOutdatedNodes sz t =
     res_bind (res_fold (clear_outdated_node sz) (ht_snapshot_invalid_iters t) t) (\<lambda>t1.
       Inr (t1\<lparr>ht_snapshot_invalid_iters := []\<rparr>))"

definition clear_table :: "('v \<Rightarrow> 64 word) \<Rightarrow> 'v table \<Rightarrow> 'v table result" where
  "clear_table sz t =
     res_bind (clearOutdatedNodes sz t) (\<lambda>t1.
     res_bind (res_fold (\<lambda>e. arena_free (le_key_ptr e)) (ht_list t1) (t1\<lparr>ht_map := []\<rparr>)) (\<lambda>t2.
       Inr (updateDataSize CLEAR 0 0 0 True (t2\<lparr>ht_list := []\<rparr>))))"

definition enableSnapshotMode :: "nat \<Rightarrow> 'v table \<Rightarrow> 'v table" where
  "enableSnapshotMode version t =
     t\<lparr>ht_snapshot_mode := True, ht_snapshot_up_to_version := version,
       ht_current_version := (ht_current_version t + 1) mod 2 ^ 64\<rparr>"

definition disableSnapshotMode :: "'v table \<Rightarrow> 'v table" where
  "disableSnapshotMode t = t\<lparr>ht_snapshot_mode := False\<rparr>"

definition table_size :: "'v table \<Rightarrow> nat" where
  "table_size t = length (ht_map t)"

definition snapshotSizeWithVersion :: "'v table \<Rightarrow> nat \<times> nat" where
  "snapshotSizeWithVersion t = (length (ht_list t), ht_current_version t)"

definition recalculateDataSize :: "('v \<Rightarrow> 64 word) \<Rightarrow> 'v table \<Rightarrow> 'v table" where
  "recalculateDataSize sz t =
     t\<lparr>ht_approximate_data_size :=
         foldl (\<lambda>s e. s + key_size (le_key e) + sz (le_value e)) 0 (ht_list t)\<rparr>"

subsection \<open>The invariant\<close>

text \<open>
  The elements that are not outdated are the ones that the map points to. An element owns its key if
  it is current, or if it is outdated and was erased: then it frees the key. Every allocated key is
  owned by exactly one element, up to the keys \<open>K\<close> that callers still hold.
\<close>

definition owners :: "'v list_elem list \<Rightarrow> nat list \<Rightarrow> 'v list_elem set" where
  "owners L I = {e \<in> set L. le_iter e \<notin> set I \<or> le_free_key e}"

definition elem_size :: "('v \<Rightarrow> 64 word) \<Rightarrow> 'v list_elem \<Rightarrow> 64 word" where
  "elem_size sz e = key_size (le_key e) + sz (le_value e)"

definition elems_size :: "('v \<Rightarrow> 64 word) \<Rightarrow> 'v list_elem list \<Rightarrow> 64 word" where
  "elems_size sz L = sum_list (map (elem_size sz) L)"

definition iters_ok :: "nat set \<Rightarrow> 'v list_elem list \<Rightarrow> nat list \<Rightarrow> nat \<Rightarrow> bool" where
  "iters_ok K L I N \<longleftrightarrow> distinct (map le_iter L) \<and> distinct I \<and> set I \<subseteq> le_iter ` set L
     \<and> (\<forall>e\<in>set L. le_iter e < N \<and> le_key_ptr e < N \<and> le_key_ptr e \<notin> K) \<and> (\<forall>p\<in>K. p < N)
     \<and> (\<forall>e\<in>set L. le_iter e \<in> set I \<longrightarrow> \<not> le_active_in_map e) \<and> (\<forall>e\<in>set L. le_free_key e \<longrightarrow> le_iter e \<in> set I)"

definition map_ok :: "'v list_elem list \<Rightarrow> (string \<rightharpoonup> nat) \<Rightarrow> nat list \<Rightarrow> bool" where
  "map_ok L m I \<longleftrightarrow> (\<forall>k itr. m k = Some itr \<longleftrightarrow> (\<exists>e\<in>set L. le_iter e = itr \<and> le_key e = k \<and> itr \<notin> set I))"

definition keys_ok :: "nat set \<Rightarrow> 'v list_elem list \<Rightarrow> nat list \<Rightarrow> nat list \<Rightarrow> bool" where
  "keys_ok K L A I \<longleftrightarrow> distinct A \<and> set A = K \<union> le_key_ptr ` owners L I \<and> inj_on le_key_ptr (owners L I)"

definition parts_ok ::
  "nat set \<Rightarrow> 'v list_elem list \<Rightarrow> (string \<rightharpoonup> nat) \<Rightarrow> nat list \<Rightarrow> nat list \<Rightarrow> nat \<Rightarrow> bool" where
  "parts_ok K L m A I N \<longleftrightarrow> iters_ok K L I N \<and> map_ok L m I \<and> keys_ok K L A I"

definition table_inv :: "('v \<Rightarrow> 64 word) \<Rightarrow> nat set \<Rightarrow> 'v table \<Rightarrow> bool" where
  "table_inv sz K t \<longleftrightarrow>
     parts_ok K (ht_list t) (map_of (ht_map t)) (ht_arena t) (ht_snapshot_invalid_iters t) (ht_next t)
     \<and> distinct (map fst (ht_map t)) \<and> ht_approximate_data_size t = elems_size sz (ht_list t)"

lemma elems_size_simps [simp]:
  "elems_size sz [] = 0" "elems_size sz (e # L) = elem_size sz e + elems_size sz L"
  "elems_size sz (L @ L') = elems_size sz L + elems_size sz L'"
  by (simp_all add: elems_size_def)

lemma new_table_inv: "table_inv sz {} new_table"
  by (simp add: table_inv_def parts_ok_def iters_ok_def map_ok_def keys_ok_def owners_def new_table_def)

subsection \<open>The steps that operations are made of\<close>

lemma iters_split:
  assumes "distinct (map le_iter (xs @ e # ys))" "x \<in> set xs \<union> set ys"
  shows "le_iter x \<noteq> le_iter e"
  using assms by (force simp: image_iff)

lemma parts_alloc:
  assumes "parts_ok K L m A I N"
  shows "parts_ok (insert N K) L m (N # A) I (Suc N)"
  using assms by (auto simp: parts_ok_def iters_ok_def keys_ok_def owners_def less_Suc_eq)

lemma parts_free:
  assumes "parts_ok K L m A I N" "p \<in> K"
  shows "p \<in> set A" "parts_ok (K - {p}) L m (remove1 p A) I N"
proof -
  show "p \<in> set A" using assms by (auto simp: parts_ok_def keys_ok_def)
  have "p \<notin> le_key_ptr ` owners L I" using assms by (auto simp: parts_ok_def iters_ok_def owners_def)
  then show "parts_ok (K - {p}) L m (remove1 p A) I N"
    using assms by (auto simp: parts_ok_def iters_ok_def keys_ok_def set_remove1_eq)
qed

lemma parts_new:
  assumes ok: "parts_ok K L m A I N" and k: "m k = None" and p: "p \<in> K"
    and e: "le_iter e = N" "le_key e = k" "le_key_ptr e = p" "\<not> le_free_key e"
  shows "parts_ok (K - {p}) (L @ [e]) (m(k \<mapsto> N)) A I (Suc N)"
proof -
  have N: "N \<notin> set I" "\<forall>x\<in>set L. le_iter x \<noteq> N" "p < N" using ok p by (auto simp: parts_ok_def iters_ok_def)
  have owners: "owners (L @ [e]) I = insert e (owners L I)" using N e by (auto simp: owners_def)
  have fresh: "p \<notin> le_key_ptr ` owners L I" using ok p by (auto simp: parts_ok_def iters_ok_def owners_def)
  have "iters_ok (K - {p}) (L @ [e]) I (Suc N)"
    using ok N e p by (auto simp: parts_ok_def iters_ok_def less_Suc_eq)
  moreover have "map_ok (L @ [e]) (m(k \<mapsto> N)) I"
  proof -
    have none: "le_key x \<noteq> k" if "x \<in> set L" "le_iter x \<notin> set I" for x
    proof
      assume "le_key x = k"
      then have "m k = Some (le_iter x)" using ok that by (auto simp: parts_ok_def map_ok_def)
      with k show False by simp
    qed
    show ?thesis using ok N e none by (auto simp: parts_ok_def map_ok_def)
  qed
  moreover have "keys_ok (K - {p}) (L @ [e]) A I"
    using ok p e fresh unfolding keys_ok_def owners parts_ok_def by (auto simp: inj_on_insert)
  ultimately show ?thesis by (simp add: parts_ok_def)
qed

text \<open>The current element of a key, with the elements around it.\<close>

definition at_key :: "'v list_elem list \<Rightarrow> nat list \<Rightarrow> string \<Rightarrow> 'v list_elem list \<Rightarrow> 'v list_elem \<Rightarrow> 'v list_elem list \<Rightarrow> bool" where
  "at_key L I k xs e ys \<longleftrightarrow> L = xs @ e # ys \<and> le_key e = k \<and> le_iter e \<notin> set I \<and> \<not> le_free_key e
     \<and> (\<forall>x\<in>set xs \<union> set ys. le_iter x \<noteq> le_iter e \<and> (le_iter x \<notin> set I \<longrightarrow> le_key x \<noteq> k)
          \<and> (le_iter x \<notin> set I \<or> le_free_key x \<longrightarrow> le_key_ptr x \<noteq> le_key_ptr e))"

lemma parts_lookup:
  assumes ok: "parts_ok K L m A I N" and k: "m k = Some itr"
  obtains xs e ys where "at_key L I k xs e ys" "le_iter e = itr"
proof -
  obtain e where e: "e \<in> set L" "le_iter e = itr" "le_key e = k" "itr \<notin> set I"
    using ok k by (auto simp: parts_ok_def map_ok_def)
  obtain xs ys where L: "L = xs @ e # ys" using split_list [OF e(1)] by blast
  have d: "distinct (map le_iter (xs @ e # ys))" using ok by (simp add: L parts_ok_def iters_ok_def)
  have iter: "le_iter x \<noteq> itr" if "x \<in> set xs \<union> set ys" for x using iters_split [OF d that] e by simp
  have "le_key x \<noteq> k" if x: "x \<in> set xs \<union> set ys" "le_iter x \<notin> set I" for x
  proof
    assume "le_key x = k"
    then have "m k = Some (le_iter x)" using ok x by (auto simp: parts_ok_def map_ok_def L)
    with k iter [OF x(1)] show False by simp
  qed
  moreover have "le_key_ptr x \<noteq> le_key_ptr e" if x: "x \<in> set xs \<union> set ys" "le_iter x \<notin> set I \<or> le_free_key x" for x
  proof
    assume same: "le_key_ptr x = le_key_ptr e"
    have "x \<in> owners L I" "e \<in> owners L I" using x e by (auto simp: owners_def L)
    then have "x = e" using ok same by (auto simp: parts_ok_def keys_ok_def inj_on_def)
    with iter [OF x(1)] e show False by simp
  qed
  moreover have "\<not> le_free_key e" using ok e by (auto simp: parts_ok_def iters_ok_def)
  ultimately have "at_key L I k xs e ys"
    using L e iter unfolding at_key_def by blast
  from this e(2) show thesis by (rule that)
qed

lemma at_key_unmapped:
  assumes "parts_ok K L m A I N" "at_key L I k xs e ys"
  shows "m k = Some (le_iter e)"
  using assms by (auto simp: parts_ok_def map_ok_def at_key_def)

text \<open>A newer copy takes over the key of a current element, which becomes outdated.\<close>

lemma parts_supersede:
  assumes ok: "parts_ok K L m A I N" and at: "at_key L I k xs e ys" and e': "e' = setInactiveInMap e"
    and n: "le_iter n = N" "le_key n = k" "le_key_ptr n = le_key_ptr e" "\<not> le_free_key n"
  shows "parts_ok K (xs @ e' # ys @ [n]) (m(k \<mapsto> N)) A (I @ [le_iter e]) (Suc N)"
proof -
  note f = at [unfolded at_key_def]
  have L: "L = xs @ e # ys" using f by blast
  have N: "\<forall>x\<in>set L. le_iter x < N" "N \<notin> set I" using ok by (auto simp: parts_ok_def iters_ok_def)
  have fields: "le_iter e' = le_iter e" "le_key e' = k" "le_key_ptr e' = le_key_ptr e" "\<not> le_free_key e'" "\<not> le_active_in_map e'"
    using f by (simp_all add: e' setInactiveInMap_def)
  have own: "owners L I = insert e (owners (xs @ ys) I)" "owners (xs @ e' # ys @ [n]) (I @ [le_iter e]) = insert n (owners (xs @ ys) I)"
    using N f fields n by (auto simp: owners_def L)
  have "iters_ok K (xs @ e' # ys @ [n]) (I @ [le_iter e]) (Suc N)"
    using ok N f fields n unfolding parts_ok_def iters_ok_def L by (auto simp: less_Suc_eq)
  moreover have "map_ok (xs @ e' # ys @ [n]) (m(k \<mapsto> N)) (I @ [le_iter e])"
    using ok N f fields n unfolding parts_ok_def map_ok_def L by (auto split: if_splits)
  moreover have "keys_ok K (xs @ e' # ys @ [n]) A (I @ [le_iter e])"
    using ok n f unfolding parts_ok_def keys_ok_def own by (auto simp: inj_on_insert owners_def)
  ultimately show ?thesis by (simp add: parts_ok_def)
qed

text \<open>An erased element keeps its key until it is dropped.\<close>

lemma parts_retire:
  assumes ok: "parts_ok K L m A I N" and at: "at_key L I k xs e ys" and e': "e' = setFreeKey (setInactiveInMap e)"
  shows "parts_ok K (xs @ e' # ys) (m(k := None)) A (I @ [le_iter e]) N"
proof -
  note f = at [unfolded at_key_def]
  have L: "L = xs @ e # ys" using f by blast
  have fields: "le_iter e' = le_iter e" "le_key e' = k" "le_key_ptr e' = le_key_ptr e" "le_free_key e'" "\<not> le_active_in_map e'"
    using f by (simp_all add: e' setInactiveInMap_def setFreeKey_def)
  have own: "owners L I = insert e (owners (xs @ ys) I)" "owners (xs @ e' # ys) (I @ [le_iter e]) = insert e' (owners (xs @ ys) I)"
    using f fields by (auto simp: owners_def L)
  have "iters_ok K (xs @ e' # ys) (I @ [le_iter e]) N"
    using ok f fields unfolding parts_ok_def iters_ok_def L by auto
  moreover have "map_ok (xs @ e' # ys) (m(k := None)) (I @ [le_iter e])"
    using ok f fields unfolding parts_ok_def map_ok_def L by auto
  moreover have "keys_ok K (xs @ e' # ys) A (I @ [le_iter e])"
    using ok fields f unfolding parts_ok_def keys_ok_def own by (auto simp: inj_on_insert owners_def)
  ultimately show ?thesis by (simp add: parts_ok_def)
qed

lemma parts_drop:
  assumes ok: "parts_ok K L m A I N" and at: "at_key L I k xs e ys"
  shows "le_key_ptr e \<in> set A" "parts_ok K (xs @ ys) (m(k := None)) (remove1 (le_key_ptr e) A) I N"
proof -
  note f = at [unfolded at_key_def]
  have L: "L = xs @ e # ys" using f by blast
  have own: "owners L I = insert e (owners (xs @ ys) I)" using f by (auto simp: owners_def L)
  show "le_key_ptr e \<in> set A" using ok unfolding parts_ok_def keys_ok_def own by auto
  have free: "le_key_ptr e \<notin> K" "le_key_ptr e \<notin> le_key_ptr ` owners (xs @ ys) I"
    using ok f by (auto simp: parts_ok_def iters_ok_def owners_def L)
  have "iters_ok K (xs @ ys) I N"
    using ok f unfolding parts_ok_def iters_ok_def L by auto
  moreover have "map_ok (xs @ ys) (m(k := None)) I"
    using ok f unfolding parts_ok_def map_ok_def L by auto
  moreover have "keys_ok K (xs @ ys) (remove1 (le_key_ptr e) A) I"
    using ok free unfolding parts_ok_def keys_ok_def own by (auto simp: inj_on_insert set_remove1_eq)
  ultimately show "parts_ok K (xs @ ys) (m(k := None)) (remove1 (le_key_ptr e) A) I N" by (simp add: parts_ok_def)
qed

lemma owners_split:
  "owners (xs @ e # ys) I = (if le_iter e \<notin> set I \<or> le_free_key e then insert e (owners (xs @ ys) I) else owners (xs @ ys) I)"
  by (auto simp: owners_def)

lemma parts_modify:
  assumes ok: "parts_ok K (xs @ e # ys) m A I N"
  shows "parts_ok K (xs @ e\<lparr>le_value := v\<rparr> # ys) m A I N"
proof -
  let ?e = "e\<lparr>le_value := v\<rparr>"
  have iter: "le_iter x \<noteq> le_iter e" if "x \<in> set xs \<union> set ys" for x
    by (rule iters_split [OF _ that]) (use ok in \<open>auto simp: parts_ok_def iters_ok_def\<close>)
  have out: "owners (xs @ ys) I - {e} = owners (xs @ ys) I" "owners (xs @ ys) I - {?e} = owners (xs @ ys) I"
    using iter [of e] iter [of ?e] by (auto simp: owners_def)
  have "keys_ok K (xs @ ?e # ys) A I"
    using ok unfolding parts_ok_def keys_ok_def owners_split by (simp add: out split: if_splits)
  moreover have "iters_ok K (xs @ ?e # ys) I N" using ok unfolding parts_ok_def iters_ok_def by simp
  moreover have "map_ok (xs @ ?e # ys) m I" using ok unfolding parts_ok_def map_ok_def by simp
  ultimately show ?thesis by (simp add: parts_ok_def)
qed

text \<open>An outdated element is dropped.\<close>

lemma parts_purge:
  assumes ok: "parts_ok K (xs @ e # ys) m A (le_iter e # I) N"
  shows "le_free_key e \<Longrightarrow> le_key_ptr e \<in> set A"
    "parts_ok K (xs @ ys) m (if le_free_key e then remove1 (le_key_ptr e) A else A) I N"
proof -
  have iter: "le_iter x \<noteq> le_iter e" if "x \<in> set xs \<union> set ys" for x
    by (rule iters_split [OF _ that]) (use ok in \<open>auto simp: parts_ok_def iters_ok_def\<close>)
  have own: "owners (xs @ e # ys) (le_iter e # I) = (if le_free_key e then insert e (owners (xs @ ys) I) else owners (xs @ ys) I)"
    using iter by (auto simp: owners_def)
  show "le_free_key e \<Longrightarrow> le_key_ptr e \<in> set A" using ok unfolding parts_ok_def keys_ok_def own by auto
  have e: "e \<notin> owners (xs @ ys) I" using iter by (auto simp: owners_def)
  have "iters_ok K (xs @ ys) I N" using ok iter unfolding parts_ok_def iters_ok_def by auto
  moreover have "map_ok (xs @ ys) m I" using ok iter unfolding parts_ok_def map_ok_def by auto
  moreover have "keys_ok K (xs @ ys) (if le_free_key e then remove1 (le_key_ptr e) A else A) I"
  proof (cases "le_free_key e")
    case True
    have "le_key_ptr e \<notin> K" "le_key_ptr e \<notin> le_key_ptr ` owners (xs @ ys) I"
      using ok True e unfolding parts_ok_def keys_ok_def iters_ok_def own by (auto simp: inj_on_insert)
    then show ?thesis using ok True unfolding parts_ok_def keys_ok_def own by (auto simp: inj_on_insert set_remove1_eq)
  next
    case False
    then show ?thesis using ok unfolding parts_ok_def keys_ok_def own by simp
  qed
  ultimately show "parts_ok K (xs @ ys) m (if le_free_key e then remove1 (le_key_ptr e) A else A) I N"
    by (simp add: parts_ok_def)
qed

subsection \<open>Every operation keeps the invariant\<close>

lemma find_first: "(\<forall>x\<in>set xs. \<not> P x) \<Longrightarrow> P e \<Longrightarrow> find P (xs @ e # ys) = Some e"
  by (induction xs) auto

lemma elem_at_split:
  assumes "at_key (ht_list t) I k xs e ys" "le_iter e = itr"
  shows "deref itr t = Inr e" "elem_at itr t = Some e"
proof -
  have "find (\<lambda>x. le_iter x = itr) (xs @ e # ys) = Some e"
    by (rule find_first) (use assms in \<open>auto simp: at_key_def\<close>)
  then show "elem_at itr t = Some e" using assms by (simp add: elem_at_def at_key_def)
  then show "deref itr t = Inr e" by (simp add: deref_def)
qed

lemma list_at_split:
  assumes "\<forall>x\<in>set xs \<union> set ys. le_iter x \<noteq> itr" "le_iter e = itr"
  shows "map (\<lambda>x. if le_iter x = itr then f x else x) (xs @ e # ys) = xs @ f e # ys"
    "filter (\<lambda>x. le_iter x \<noteq> itr) (xs @ e # ys) = xs @ ys"
  using assms by (auto intro!: map_idI filter_True)

lemmas step_defs = insert_new_def list_insert_def list_update_at_def list_erase_def arena_alloc_def arena_free_def
  setVersion_def list_elem_init_def setActiveInMap_def Let_def

lemma table_invD:
  assumes "table_inv sz K t"
  shows "parts_ok K (ht_list t) (map_of (ht_map t)) (ht_arena t) (ht_snapshot_invalid_iters t) (ht_next t)"
    "distinct (map fst (ht_map t))" "ht_approximate_data_size t = elems_size sz (ht_list t)"
  using assms by (simp_all add: table_inv_def)

lemma fresh_iter:
  assumes "table_inv sz K t"
  shows "\<forall>x\<in>set (ht_list t). le_iter x < ht_next t" "ht_next t \<notin> set (ht_snapshot_invalid_iters t)"
proof -
  show lt: "\<forall>x\<in>set (ht_list t). le_iter x < ht_next t"
    using table_invD(1) [OF assms] by (simp add: parts_ok_def iters_ok_def)
  have "set (ht_snapshot_invalid_iters t) \<subseteq> le_iter ` set (ht_list t)"
    using table_invD(1) [OF assms] by (simp add: parts_ok_def iters_ok_def)
  with lt show "ht_next t \<notin> set (ht_snapshot_invalid_iters t)" by (metis imageE less_irrefl subsetD)
qed

text \<open>The value of a key.\<close>

definition contents :: "'v table \<Rightarrow> string \<rightharpoonup> 'v" where
  "contents t k = map_option le_value (find_key k t)"

lemma contents_iff:
  assumes inv: "table_inv sz K t"
  shows "contents t k = Some v \<longleftrightarrow>
    (\<exists>e\<in>set (ht_list t). le_key e = k \<and> le_iter e \<notin> set (ht_snapshot_invalid_iters t) \<and> le_value e = v)"
proof (cases "map_of (ht_map t) k")
  case None
  then have "\<forall>e\<in>set (ht_list t). le_key e = k \<longrightarrow> le_iter e \<in> set (ht_snapshot_invalid_iters t)"
    using table_invD(1) [OF inv] by (force simp: parts_ok_def map_ok_def)
  with None show ?thesis by (auto simp: contents_def find_key_def)
next
  case (Some itr)
  obtain xs e ys where at: "at_key (ht_list t) (ht_snapshot_invalid_iters t) k xs e ys" "le_iter e = itr"
    by (rule parts_lookup [OF table_invD(1) [OF inv] Some])
  have "contents t k = Some (le_value e)" using elem_at_split(2) [OF at] Some by (simp add: contents_def find_key_def)
  with at(1) show ?thesis by (auto simp: at_key_def)
qed

lemma contents_cong: "ht_map t' = ht_map t \<Longrightarrow> ht_list t' = ht_list t \<Longrightarrow> contents t' = contents t"
  by (simp add: contents_def find_key_def elem_at_def fun_eq_iff cong: option.case_cong)

lemma map_eqI: "(\<And>k v. m k = Some v \<longleftrightarrow> m' k = Some v) \<Longrightarrow> m = m'"
  by (rule ext) (metis not_Some_eq)

text \<open>What an operation in snapshot mode leaves alone: the elements that a snapshot may read, and every key.\<close>

definition snap_step :: "'v table \<Rightarrow> 'v table \<Rightarrow> bool" where
  "snap_step t t' \<longleftrightarrow>
     (\<exists>g zs. ht_list t' = map g (ht_list t) @ zs
        \<and> (\<forall>e\<in>set (ht_list t). le_key (g e) = le_key e \<and> le_version (g e) = le_version e \<and> le_key_ptr (g e) = le_key_ptr e
             \<and> (le_version e \<le> ht_snapshot_up_to_version t \<longrightarrow> le_value (g e) = le_value e)))
     \<and> ht_snapshot_mode t' = ht_snapshot_mode t \<and> ht_current_version t' = ht_current_version t
     \<and> ht_snapshot_up_to_version t' = ht_snapshot_up_to_version t \<and> set (ht_arena t) \<subseteq> set (ht_arena t')"

lemma snap_stepI:
  assumes "ht_list t' = map g (ht_list t) @ zs"
    "\<And>e. e \<in> set (ht_list t) \<Longrightarrow> le_key (g e) = le_key e \<and> le_version (g e) = le_version e \<and> le_key_ptr (g e) = le_key_ptr e
       \<and> (le_version e \<le> ht_snapshot_up_to_version t \<longrightarrow> le_value (g e) = le_value e)"
    "ht_snapshot_mode t' = ht_snapshot_mode t" "ht_current_version t' = ht_current_version t"
    "ht_snapshot_up_to_version t' = ht_snapshot_up_to_version t" "set (ht_arena t) \<subseteq> set (ht_arena t')"
  shows "snap_step t t'"
  using assms unfolding snap_step_def by blast

text \<open>The fields that no operation on the elements changes. No element is newer than the table.\<close>

definition versions_ok :: "'v table \<Rightarrow> bool" where
  "versions_ok t \<longleftrightarrow> (\<forall>e\<in>set (ht_list t). le_version e \<le> ht_current_version t)"

definition same_mode :: "'v table \<Rightarrow> 'v table \<Rightarrow> bool" where
  "same_mode t t' \<longleftrightarrow> ht_snapshot_mode t' = ht_snapshot_mode t \<and> ht_current_version t' = ht_current_version t
     \<and> ht_snapshot_up_to_version t' = ht_snapshot_up_to_version t \<and> (versions_ok t \<longrightarrow> versions_ok t')"

lemmas mode_defs = same_mode_def versions_ok_def setVersion_def setInactiveInMap_def setFreeKey_def list_elem_init_def

lemma versions_ok_invalid [simp]: "versions_ok (t\<lparr>ht_snapshot_invalid_iters := J\<rparr>) = versions_ok t"
  by (simp add: versions_ok_def)

lemma same_mode_trans: "same_mode t t' \<Longrightarrow> same_mode t' t'' \<Longrightarrow> same_mode t t''"
  by (simp add: same_mode_def)

lemma insert_new_inv:
  fixes t :: "'v table" and v :: 'v
  assumes inv: "table_inv sz K t" and k: "map_of (ht_map t) k = None" and p: "p \<in> K"
  defines "t' \<equiv> (insert_new k p v t)\<lparr>ht_approximate_data_size := ht_approximate_data_size t + key_size k + sz v\<rparr>"
  shows "table_inv sz (K - {p}) t'" "contents t' = (contents t)(k \<mapsto> v)" "snap_step t t'"
    "ht_approximate_data_size (insert_new k p v t) = ht_approximate_data_size t" "same_mode t t'"
proof -
  let ?n = "\<lparr>le_iter = ht_next t, le_key = k, le_key_ptr = p, le_value = v, le_active_in_map = True,
       le_free_key = False, le_version = ht_current_version t mod 2 ^ 62\<rparr>"
  note ok = table_invD(1) [OF inv]
  have iter: "le_iter x \<noteq> ht_next t" if "x \<in> set (ht_list t)" for x
    using ok that by (auto simp: parts_ok_def iters_ok_def)
  have list: "ht_list t' = ht_list t @ [?n]"
    using iter by (auto simp: t'_def step_defs intro!: map_idI)
  have m: "ht_map t' = AList.update k (ht_next t) (ht_map t)" "ht_next t' = Suc (ht_next t)" "ht_arena t' = ht_arena t"
    "ht_snapshot_invalid_iters t' = ht_snapshot_invalid_iters t"
    "ht_approximate_data_size t' = ht_approximate_data_size t + key_size k + sz v"
    by (simp_all add: t'_def step_defs)
  show "ht_approximate_data_size (insert_new k p v t) = ht_approximate_data_size t" by (simp add: step_defs)
  have mode: "ht_snapshot_mode t' = ht_snapshot_mode t" "ht_current_version t' = ht_current_version t"
    "ht_snapshot_up_to_version t' = ht_snapshot_up_to_version t"
    by (simp_all add: t'_def step_defs)
  show "same_mode t t'" by (simp add: same_mode_def mode versions_ok_def list)
  show inv': "table_inv sz (K - {p}) t'"
    using parts_new [OF ok k p, of ?n] table_invD(2,3) [OF inv]
    by (simp add: table_inv_def list m map_of_alist_update distinct_update elem_size_def)
  have "ht_next t \<notin> set (ht_snapshot_invalid_iters t)" using fresh_iter [OF inv] by simp
  moreover have "contents t k = None" using k by (simp add: contents_def find_key_def)
  moreover from this have "le_iter e \<in> set (ht_snapshot_invalid_iters t)" if "e \<in> set (ht_list t)" "le_key e = k" for e
    using contents_iff [OF inv, of k "le_value e"] that by auto
  ultimately show "contents t' = (contents t)(k \<mapsto> v)"
    by (intro map_eqI) (auto simp: contents_iff [OF inv] contents_iff [OF inv'] list m)
  show "snap_step t t'"
    by (rule snap_stepI [of _ "\<lambda>e. e" _ "[?n]"]) (simp_all add: list m mode)
qed

lemma alloc_inv:
  assumes "table_inv sz K t"
  shows "table_inv sz (insert (ht_next t) K) (snd (arena_alloc t))" "contents (snd (arena_alloc t)) = contents t"
    "snap_step t (snd (arena_alloc t))" "same_mode t (snd (arena_alloc t))"
proof -
  show "same_mode t (snd (arena_alloc t))" by (simp add: mode_defs arena_alloc_def)
  show "table_inv sz (insert (ht_next t) K) (snd (arena_alloc t))"
    using parts_alloc [OF table_invD(1) [OF assms]] table_invD(2,3) [OF assms] by (simp add: table_inv_def arena_alloc_def)
  show "contents (snd (arena_alloc t)) = contents t"
    by (rule contents_cong) (simp_all add: arena_alloc_def)
  show "snap_step t (snd (arena_alloc t))"
    by (rule snap_stepI [of _ "\<lambda>e. e" _ "[]"]) (auto simp: arena_alloc_def)
qed

lemma snap_step_trans:
  assumes "snap_step t t'" "snap_step t' t''"
  shows "snap_step t t''"
proof -
  obtain g zs where g: "ht_list t' = map g (ht_list t) @ zs"
    "\<forall>e\<in>set (ht_list t). le_key (g e) = le_key e \<and> le_version (g e) = le_version e \<and> le_key_ptr (g e) = le_key_ptr e
       \<and> (le_version e \<le> ht_snapshot_up_to_version t \<longrightarrow> le_value (g e) = le_value e)"
    using assms(1) by (auto simp: snap_step_def)
  obtain h ws where h: "ht_list t'' = map h (ht_list t') @ ws"
    "\<forall>e\<in>set (ht_list t'). le_key (h e) = le_key e \<and> le_version (h e) = le_version e \<and> le_key_ptr (h e) = le_key_ptr e
       \<and> (le_version e \<le> ht_snapshot_up_to_version t' \<longrightarrow> le_value (h e) = le_value e)"
    using assms(2) by (auto simp: snap_step_def)
  show ?thesis
    by (rule snap_stepI [of _ "h \<circ> g" _ "map h zs @ ws"]) (use g h assms in \<open>auto simp: snap_step_def\<close>)
qed

lemma insert_key_keeps:
  assumes inv: "table_inv sz K t"
  obtains b t' where "insert_key sz k v t = (b, t')" "table_inv sz K t'" "b = (contents t k = None)"
    "contents t' = (if contents t k = None then (contents t)(k \<mapsto> v) else contents t)" "snap_step t t'" "same_mode t t'"
proof (cases "map_of (ht_map t) k")
  case None
  let ?a = "snd (arena_alloc t)"
  note a = alloc_inv [OF inv]
  have k: "map_of (ht_map ?a) k = None" "ht_next t \<in> insert (ht_next t) K" using None by (simp_all add: arena_alloc_def)
  note n = insert_new_inv [OF a(1) k, where v = v]
  have K: "insert (ht_next t) K - {ht_next t} = K" using table_invD(1) [OF inv] by (auto simp: parts_ok_def iters_ok_def)
  have c: "contents t k = None" using None by (simp add: contents_def find_key_def)
  have "insert_key sz k v t = (True, (insert_new k (ht_next t) v ?a)\<lparr>ht_approximate_data_size := ht_approximate_data_size ?a + key_size k + sz v\<rparr>)"
    using None n(4) by (simp add: insert_key_def arena_alloc_def)
  then show ?thesis
    by (rule that) (use n(1,2) c a(2) K snap_step_trans [OF a(3) n(3)] same_mode_trans [OF a(4) n(5)] in simp_all)
next
  case (Some itr)
  obtain xs e ys where at: "at_key (ht_list t) (ht_snapshot_invalid_iters t) k xs e ys" "le_iter e = itr"
    by (rule parts_lookup [OF table_invD(1) [OF inv] Some])
  have "contents t k \<noteq> None" using elem_at_split(2) [OF at] Some by (simp add: contents_def find_key_def)
  then show ?thesis
    by (intro that [of False t])
      (use Some inv in \<open>auto simp: insert_key_def same_mode_def intro: snap_stepI [of _ "\<lambda>e. e" _ "[]"]\<close>)
qed

lemma contents_at:
  assumes inv: "table_inv sz K t" and at: "at_key (ht_list t) (ht_snapshot_invalid_iters t) k xs e ys"
  shows "map_of (ht_map t) k = Some (le_iter e)" "contents t k = Some (le_value e)"
  using at_key_unmapped [OF table_invD(1) [OF inv] at] at contents_iff [OF inv, of k "le_value e"] by (auto simp: at_key_def)

lemma lookup_at:
  assumes inv: "table_inv sz K t" and k: "map_of (ht_map t) k = Some itr"
  obtains xs e ys where "at_key (ht_list t) (ht_snapshot_invalid_iters t) k xs e ys" "le_iter e = itr" "deref itr t = Inr e"
    "contents t k = Some (le_value e)" "ht_list t = xs @ e # ys" "\<forall>x\<in>set xs \<union> set ys. le_iter x \<noteq> itr" "le_key e = k"
proof -
  obtain xs e ys where at: "at_key (ht_list t) (ht_snapshot_invalid_iters t) k xs e ys" "le_iter e = itr"
    by (rule parts_lookup [OF table_invD(1) [OF inv] k])
  show ?thesis
    by (rule that [OF at elem_at_split(1) [OF at] contents_at(2) [OF inv at(1)]]) (use at in \<open>auto simp: at_key_def\<close>)
qed


lemma supersede_inv:
  assumes inv: "table_inv sz K t" and at: "at_key (ht_list t) (ht_snapshot_invalid_iters t) k xs e ys"
    and n: "le_iter n = ht_next t" "le_key n = k" "le_key_ptr n = le_key_ptr e" "\<not> le_free_key n"
    and t': "ht_list t' = xs @ setInactiveInMap e # ys @ [n]" "ht_map t' = AList.update k (ht_next t) (ht_map t)"
      "ht_arena t' = ht_arena t" "ht_snapshot_invalid_iters t' = ht_snapshot_invalid_iters t @ [le_iter e]"
      "ht_next t' = Suc (ht_next t)" "ht_approximate_data_size t' = ht_approximate_data_size t + elem_size sz n" "same_mode t t'"
  shows "table_inv sz K t'" "contents t' = (contents t)(k \<mapsto> le_value n)" "snap_step t t'"
proof -
  note f = at [unfolded at_key_def]
  have L: "ht_list t = xs @ e # ys" using f by blast
  have e: "elem_size sz (setInactiveInMap e) = elem_size sz e" by (simp add: elem_size_def setInactiveInMap_def)
  show inv': "table_inv sz K t'"
    using parts_supersede [OF table_invD(1) [OF inv] at refl n] table_invD(2,3) [OF inv]
    by (simp add: table_inv_def t' map_of_alist_update distinct_update L e algebra_simps)
  note fresh = fresh_iter [OF inv]
  show "contents t' = (contents t)(k \<mapsto> le_value n)"
    using f fresh n by (intro map_eqI) (auto simp: contents_iff [OF inv] contents_iff [OF inv'] t' setInactiveInMap_def)
  have "map (\<lambda>x. if le_iter x = le_iter e then setInactiveInMap e else x) (xs @ e # ys) = xs @ setInactiveInMap e # ys"
    by (rule list_at_split(1) [where f = "\<lambda>_. setInactiveInMap e"]) (use f in auto)
  then show "snap_step t t'"
    by (intro snap_stepI [of _ "\<lambda>x. if le_iter x = le_iter e then setInactiveInMap e else x" _ "[n]"])
      (use t' f in \<open>auto simp: same_mode_def L setInactiveInMap_def\<close>)
qed

lemma retire_inv:
  assumes inv: "table_inv sz K t" and at: "at_key (ht_list t) (ht_snapshot_invalid_iters t) k xs e ys"
    and t': "ht_list t' = xs @ setFreeKey (setInactiveInMap e) # ys" "ht_map t' = AList.delete k (ht_map t)"
      "ht_arena t' = ht_arena t" "ht_snapshot_invalid_iters t' = ht_snapshot_invalid_iters t @ [le_iter e]"
      "ht_next t' = ht_next t" "ht_approximate_data_size t' = ht_approximate_data_size t" "same_mode t t'"
  shows "table_inv sz K t'" "contents t' = (contents t)(k := None)" "snap_step t t'"
proof -
  let ?e = "setFreeKey (setInactiveInMap e)"
  note f = at [unfolded at_key_def]
  have L: "ht_list t = xs @ e # ys" using f by blast
  have e: "elem_size sz ?e = elem_size sz e" by (simp add: elem_size_def setInactiveInMap_def setFreeKey_def)
  show inv': "table_inv sz K t'"
    using parts_retire [OF table_invD(1) [OF inv] at refl] table_invD(2,3) [OF inv]
    by (simp add: table_inv_def t' map_of_alist_delete distinct_delete L e)
  show "contents t' = (contents t)(k := None)"
    using f by (intro map_eqI) (auto simp: contents_iff [OF inv] contents_iff [OF inv'] t' setInactiveInMap_def setFreeKey_def)
  have "map (\<lambda>x. if le_iter x = le_iter e then ?e else x) (xs @ e # ys) = xs @ ?e # ys"
    by (rule list_at_split(1) [where f = "\<lambda>_. ?e"]) (use f in auto)
  then show "snap_step t t'"
    by (intro snap_stepI [of _ "\<lambda>x. if le_iter x = le_iter e then ?e else x" _ "[]"])
      (use t' f in \<open>auto simp: same_mode_def L setInactiveInMap_def setFreeKey_def\<close>)
qed

lemma modify_inv:
  assumes inv: "table_inv sz K t" and at: "at_key (ht_list t) (ht_snapshot_invalid_iters t) k xs e ys"
    and t': "ht_list t' = xs @ e\<lparr>le_value := v\<rparr> # ys" "ht_map t' = ht_map t"
      "ht_arena t' = ht_arena t" "ht_snapshot_invalid_iters t' = ht_snapshot_invalid_iters t"
      "ht_next t' = ht_next t" "ht_approximate_data_size t' = ht_approximate_data_size t + sz v - sz (le_value e)" "same_mode t t'"
  shows "table_inv sz K t'" "contents t' = (contents t)(k \<mapsto> v)"
    "\<not> le_version e \<le> ht_snapshot_up_to_version t \<Longrightarrow> snap_step t t'"
proof -
  let ?e = "e\<lparr>le_value := v\<rparr>"
  note f = at [unfolded at_key_def]
  have L: "ht_list t = xs @ e # ys" using f by blast
  show inv': "table_inv sz K t'"
    using parts_modify [OF table_invD(1) [OF inv, unfolded L]] table_invD(2,3) [OF inv]
    by (simp add: table_inv_def t' L elem_size_def)
  show "contents t' = (contents t)(k \<mapsto> v)"
    using f by (intro map_eqI) (auto simp: contents_iff [OF inv] contents_iff [OF inv'] t')
  have "map (\<lambda>x. if le_iter x = le_iter e then ?e else x) (xs @ e # ys) = xs @ ?e # ys"
    by (rule list_at_split(1) [where f = "\<lambda>_. ?e"]) (use f in auto)
  then show "\<not> le_version e \<le> ht_snapshot_up_to_version t \<Longrightarrow> snap_step t t'"
    by (intro snap_stepI [of _ "\<lambda>x. if le_iter x = le_iter e then ?e else x" _ "[]"])
      (use t' f in \<open>auto simp: same_mode_def L\<close>)
qed

lemma drop_inv:
  assumes inv: "table_inv sz K t" and at: "at_key (ht_list t) (ht_snapshot_invalid_iters t) k xs e ys"
    and t': "ht_list t' = xs @ ys" "ht_map t' = AList.delete k (ht_map t)"
      "ht_arena t' = remove1 (le_key_ptr e) (ht_arena t)" "ht_snapshot_invalid_iters t' = ht_snapshot_invalid_iters t"
      "ht_next t' = ht_next t" "ht_approximate_data_size t' = ht_approximate_data_size t - elem_size sz e"
  shows "le_key_ptr e \<in> set (ht_arena t)" "table_inv sz K t'" "contents t' = (contents t)(k := None)"
proof -
  note f = at [unfolded at_key_def] and p = parts_drop [OF table_invD(1) [OF inv] at]
  have L: "ht_list t = xs @ e # ys" using f by blast
  show "le_key_ptr e \<in> set (ht_arena t)" by (rule p(1))
  show inv': "table_inv sz K t'"
    using p(2) table_invD(2,3) [OF inv] by (simp add: table_inv_def t' map_of_alist_delete distinct_delete L)
  show "contents t' = (contents t)(k := None)"
    using f by (intro map_eqI) (auto simp: contents_iff [OF inv] contents_iff [OF inv'] t')
qed

lemma free_inv:
  assumes "table_inv sz K t" "p \<in> K"
  shows "arena_free p t = Inr (t\<lparr>ht_arena := remove1 p (ht_arena t)\<rparr>)"
    "table_inv sz (K - {p}) (t\<lparr>ht_arena := remove1 p (ht_arena t)\<rparr>)"
  using parts_free [OF table_invD(1) [OF assms(1)] assms(2)] table_invD(2,3) [OF assms(1)]
  by (simp_all add: arena_free_def table_inv_def)

text \<open>Values that take no bytes would break the accounting of \<open>insertOrReplace\<close>.\<close>

lemma insertOrReplace_keeps:
  assumes inv: "table_inv sz K t" and sz: "\<And>v. sz v \<noteq> 0"
  obtains t' where "insertOrReplace sz k None v t = Inr t'" "table_inv sz K t'" "contents t' = (contents t)(k \<mapsto> v)"
    "ht_snapshot_mode t \<longrightarrow> snap_step t t'" "same_mode t t'"
proof (cases "map_of (ht_map t) k")
  case None
  let ?a = "snd (arena_alloc t)"
  note a = alloc_inv [OF inv]
  have k: "map_of (ht_map ?a) k = None" "ht_next t \<in> insert (ht_next t) K" using None by (simp_all add: arena_alloc_def)
  note n = insert_new_inv [OF a(1) k, where v = v]
  have K: "insert (ht_next t) K - {ht_next t} = K" using table_invD(1) [OF inv] by (auto simp: parts_ok_def iters_ok_def)
  let ?t = "(insert_new k (ht_next t) v ?a)\<lparr>ht_approximate_data_size := ht_approximate_data_size ?a + key_size k + sz v\<rparr>"
  have "insertOrReplace sz k None v t = Inr ?t"
    using None n(4) by (simp add: insertOrReplace_def arena_alloc_def)
  moreover have "snap_step t ?t" by (rule snap_step_trans [OF a(3) n(3)])
  ultimately show ?thesis
    by (intro that [of ?t]) (use n(1,2) a(2) K same_mode_trans [OF a(4) n(5)] in simp_all)
next
  case (Some itr)
  obtain xs e ys where e: "at_key (ht_list t) (ht_snapshot_invalid_iters t) k xs e ys" "le_iter e = itr" "deref itr t = Inr e"
    "contents t k = Some (le_value e)" "ht_list t = xs @ e # ys" "\<forall>x\<in>set xs \<union> set ys. le_iter x \<noteq> itr" "le_key e = k"
    by (rule lookup_at [OF inv Some])
  note at = list_at_split [of xs ys itr e, OF e(6) e(2)]
  show ?thesis
  proof (cases "ht_snapshot_mode t")
    case True
    define n where "n = (setVersion (ht_current_version t) (list_elem_init k (le_key_ptr e) v))\<lparr>le_iter := ht_next t\<rparr>"
    define t' where "t' = t\<lparr>ht_list := xs @ setInactiveInMap e # ys @ [n], ht_map := AList.update k (ht_next t) (ht_map t),
      ht_snapshot_invalid_iters := ht_snapshot_invalid_iters t @ [itr], ht_next := Suc (ht_next t),
      ht_approximate_data_size := ht_approximate_data_size t + key_size k + sz v\<rparr>"
    have run: "insertOrReplace sz k None v t = Inr t'"
      using Some True e(3,7) at(1) [where f = setInactiveInMap]
      by (simp add: insertOrReplace_def list_update_at_def list_insert_def Let_def t'_def n_def e(5))
    have mode: "same_mode t t'" by (auto simp: mode_defs t'_def n_def e(5))
    show ?thesis
      by (rule that [OF run])
        (use supersede_inv [OF inv e(1), of n t'] e(2) mode in \<open>simp_all add: t'_def n_def setVersion_def list_elem_init_def elem_size_def\<close>)
  next
    case False
    define t' where "t' = t\<lparr>ht_list := xs @ e\<lparr>le_value := v\<rparr> # ys,
      ht_approximate_data_size := ht_approximate_data_size t + sz v - sz (le_value e)\<rparr>"
    have run: "insertOrReplace sz k None v t = Inr t'"
      using Some False e(3) at(1) [where f = "\<lambda>e. e\<lparr>le_value := v\<rparr>"] sz [of "le_value e"]
      by (simp add: insertOrReplace_def list_update_at_def Let_def t'_def e(5))
    have mode: "same_mode t t'" by (auto simp: mode_defs t'_def e(5))
    show ?thesis
      by (rule that [OF run]) (use modify_inv [OF inv e(1), of t' v] False mode in \<open>simp_all add: t'_def\<close>)
  qed
qed

lemma erase_keeps:
  assumes inv: "table_inv sz K t"
  obtains b t' where "erase sz k t = Inr (b, t')" "table_inv sz K t'" "b = (contents t k \<noteq> None)"
    "contents t' = (contents t)(k := None)" "ht_snapshot_mode t \<longrightarrow> snap_step t t'" "same_mode t t'"
proof (cases "map_of (ht_map t) k")
  case None
  then have "contents t k = None" by (simp add: contents_def find_key_def)
  then show ?thesis
    by (intro that [of False t]) (use None inv in \<open>auto simp: erase_def same_mode_def intro: snap_stepI [of _ "\<lambda>e. e" _ "[]"]\<close>)
next
  case (Some itr)
  obtain xs e ys where e: "at_key (ht_list t) (ht_snapshot_invalid_iters t) k xs e ys" "le_iter e = itr" "deref itr t = Inr e"
    "contents t k = Some (le_value e)" "ht_list t = xs @ e # ys" "\<forall>x\<in>set xs \<union> set ys. le_iter x \<noteq> itr" "le_key e = k"
    by (rule lookup_at [OF inv Some])
  note at = list_at_split [of xs ys itr e, OF e(6) e(2)]
  show ?thesis
  proof (cases "ht_snapshot_mode t")
    case True
    define t' where "t' = t\<lparr>ht_list := xs @ setFreeKey (setInactiveInMap e) # ys, ht_map := AList.delete k (ht_map t),
      ht_snapshot_invalid_iters := ht_snapshot_invalid_iters t @ [itr]\<rparr>"
    have "le_iter (setInactiveInMap e) = itr" using e(2) by (simp add: setInactiveInMap_def)
    note at2 = list_at_split [of xs ys itr "setInactiveInMap e", OF e(6) this]
    have run: "erase sz k t = Inr (True, t')"
      using Some True e(3) at(1) [where f = setInactiveInMap] at2(1) [where f = setFreeKey]
      by (simp add: erase_def list_update_at_def Let_def t'_def e(5))
    have mode: "same_mode t t'" by (auto simp: mode_defs t'_def e(5))
    show ?thesis
      by (rule that [OF run]) (use retire_inv [OF inv e(1), of t'] e(2,4) mode in \<open>simp_all add: t'_def\<close>)
  next
    case False
    define t' where "t' = t\<lparr>ht_list := xs @ ys, ht_map := AList.delete k (ht_map t),
      ht_arena := remove1 (le_key_ptr e) (ht_arena t), ht_approximate_data_size := ht_approximate_data_size t - elem_size sz e\<rparr>"
    note d = drop_inv [OF inv e(1), of t']
    have run: "erase sz k t = Inr (True, t')"
      using Some False e(3,7) at(2) d(1)
      by (simp add: erase_def list_erase_def arena_free_def Let_def t'_def e(5) elem_size_def algebra_simps)
    have mode: "same_mode t t'" by (auto simp: mode_defs t'_def e(5))
    show ?thesis
      by (rule that [OF run]) (use d(2,3) e(4) False mode in \<open>simp_all add: t'_def\<close>)
  qed
qed

lemma update_value_keeps:
  assumes inv: "table_inv sz K t" and k: "contents t k = Some u"
  obtains itr t' where "update_value sz k f t = Inr (itr, t')" "table_inv sz K t'" "contents t' = (contents t)(k \<mapsto> f u)"
    "ht_snapshot_mode t \<longrightarrow> snap_step t t'" "same_mode t t'"
proof -
  obtain itr where Some: "map_of (ht_map t) k = Some itr" using k by (auto simp: contents_def find_key_def split: option.splits)
  obtain xs e ys where e: "at_key (ht_list t) (ht_snapshot_invalid_iters t) k xs e ys" "le_iter e = itr" "deref itr t = Inr e"
    "contents t k = Some (le_value e)" "ht_list t = xs @ e # ys" "\<forall>x\<in>set xs \<union> set ys. le_iter x \<noteq> itr" "le_key e = k"
    by (rule lookup_at [OF inv Some])
  note at = list_at_split [of xs ys itr e, OF e(6) e(2)]
  have u: "le_value e = u" "\<not> le_free_key e" using e(1,4) k by (simp_all add: at_key_def)
  show ?thesis
  proof (cases "ht_snapshot_mode t \<and> le_version e \<le> ht_snapshot_up_to_version t")
    case True
    define n where "n = (setVersion (ht_current_version t) (e\<lparr>le_value := f u\<rparr>))\<lparr>le_iter := ht_next t\<rparr>"
    define t' where "t' = t\<lparr>ht_list := xs @ setInactiveInMap e # ys @ [n], ht_map := AList.update k (ht_next t) (ht_map t),
      ht_snapshot_invalid_iters := ht_snapshot_invalid_iters t @ [itr], ht_next := Suc (ht_next t),
      ht_approximate_data_size := ht_approximate_data_size t + key_size k + sz (f u)\<rparr>"
    have run: "update_value sz k f t = Inr (ht_next t, t')"
      using Some True e(3) at(1) [where f = setInactiveInMap] u
      by (simp add: update_value_def list_update_at_def list_insert_def Let_def t'_def n_def e(5))
    have mode: "same_mode t t'" by (auto simp: mode_defs t'_def n_def e(5))
    show ?thesis
      by (rule that [OF run])
        (use supersede_inv [OF inv e(1), of n t'] e(2,7) u mode in \<open>simp_all add: t'_def n_def setVersion_def elem_size_def\<close>)
  next
    case False
    define t' where "t' = t\<lparr>ht_list := xs @ e\<lparr>le_value := f u\<rparr> # ys,
      ht_approximate_data_size := ht_approximate_data_size t + sz (f u) - sz (le_value e)\<rparr>"
    have run: "update_value sz k f t = Inr (itr, t')"
      using Some False e(3) at(1) [where f = "\<lambda>e. e\<lparr>le_value := f (le_value e)\<rparr>"] u
      by (auto simp: update_value_def list_update_at_def Let_def t'_def e(5))
    have mode: "same_mode t t'" by (auto simp: mode_defs t'_def e(5))
    show ?thesis
      by (rule that [OF run]) (use modify_inv [OF inv e(1), of t' "f u"] False mode in \<open>simp_all add: t'_def\<close>)
  qed
qed

lemma clear_outdated_node_keeps:
  assumes inv: "table_inv sz K t" and I: "ht_snapshot_invalid_iters t = itr # I"
  obtains t' where "clear_outdated_node sz itr t = Inr t'" "table_inv sz K (t'\<lparr>ht_snapshot_invalid_iters := I\<rparr>)"
    "contents (t'\<lparr>ht_snapshot_invalid_iters := I\<rparr>) = contents t" "ht_snapshot_invalid_iters t' = itr # I" "same_mode t t'"
proof -
  note ok = table_invD(1) [OF inv, unfolded I]
  obtain e where e: "e \<in> set (ht_list t)" "le_iter e = itr" using ok by (auto simp: parts_ok_def iters_ok_def)
  obtain xs ys where L: "ht_list t = xs @ e # ys" using split_list [OF e(1)] by blast
  have iter: "\<forall>x\<in>set xs \<union> set ys. le_iter x \<noteq> itr"
    using iters_split [of xs e ys] ok e(2) by (auto simp: parts_ok_def iters_ok_def L)
  have active: "\<not> le_active_in_map e" using ok e by (auto simp: parts_ok_def iters_ok_def)
  have at: "deref itr t = Inr e"
    using find_first [of xs "\<lambda>x. le_iter x = itr" e ys] iter e(2) by (simp add: deref_def elem_at_def L)
  define t' where "t' = t\<lparr>ht_list := xs @ ys, ht_arena := (if le_free_key e then remove1 (le_key_ptr e) (ht_arena t) else ht_arena t),
    ht_approximate_data_size := ht_approximate_data_size t - elem_size sz e\<rparr>"
  note purge = parts_purge [OF ok [unfolded L, folded e(2)]]
  have run: "clear_outdated_node sz itr t = Inr t'"
    using at active purge(1) list_at_split(2) [OF iter e(2)]
    by (simp add: clear_outdated_node_def arena_free_def list_erase_def Let_def t'_def L elem_size_def algebra_simps)
  have inv': "table_inv sz K (t'\<lparr>ht_snapshot_invalid_iters := I\<rparr>)"
    using purge(2) table_invD(2,3) [OF inv] by (simp add: table_inv_def t'_def L)
  have "contents (t'\<lparr>ht_snapshot_invalid_iters := I\<rparr>) = contents t"
    using iter e(2) by (intro map_eqI) (auto simp: contents_iff [OF inv] contents_iff [OF inv'] I, auto simp: t'_def L)
  with run inv' show ?thesis by (rule that) (auto simp: t'_def I mode_defs L)
qed

lemma contents_none:
  assumes "table_inv sz K t"
  shows "contents t k = None \<longleftrightarrow> map_of (ht_map t) k = None"
proof (cases "map_of (ht_map t) k")
  case None
  then show ?thesis by (simp add: contents_def find_key_def)
next
  case (Some itr)
  then show ?thesis using lookup_at [OF assms Some] by auto
qed

lemma insertOrReplace_owned_keeps:
  assumes inv: "table_inv sz K t" and sz: "\<And>v. sz v \<noteq> 0"
  obtains t' where "insertOrReplace_owned sz k v t = Inr t'" "table_inv sz K t'" "contents t' = (contents t)(k \<mapsto> v)"
    "ht_snapshot_mode t \<longrightarrow> snap_step t t'" "same_mode t t'"
proof (cases "map_of (ht_map t) k")
  case None
  then have run: "insertOrReplace_owned sz k v t = insertOrReplace sz k None v t"
    by (simp add: insertOrReplace_owned_def insertOrReplace_def allocateKey_def arena_alloc_def)
  show ?thesis
    by (rule insertOrReplace_keeps [OF inv sz, of k v]) (rule that, simp_all add: run)
next
  case (Some itr)
  let ?t = "t\<lparr>ht_next := Suc (ht_next t)\<rparr>"
  have K: "insert (ht_next t) K - {ht_next t} = K" using table_invD(1) [OF inv] by (auto simp: parts_ok_def iters_ok_def)
  have inv': "table_inv sz K ?t"
    using free_inv(2) [OF alloc_inv(1) [OF inv], of "ht_next t"] by (simp add: arena_alloc_def K)
  have run: "insertOrReplace_owned sz k v t = insertOrReplace sz k None v ?t"
    using Some
    by (simp add: insertOrReplace_owned_def insertOrReplace_def allocateKey_def arena_alloc_def arena_free_def deref_def elem_at_def
        split: option.splits)
  have c: "contents ?t = contents t" by (rule contents_cong) simp_all
  have s: "snap_step t ?t" by (rule snap_stepI [of _ "\<lambda>e. e" _ "[]"]) auto
  obtain t' where t': "insertOrReplace sz k None v ?t = Inr t'" "table_inv sz K t'" "contents t' = (contents ?t)(k \<mapsto> v)"
    "ht_snapshot_mode ?t \<longrightarrow> snap_step ?t t'" "same_mode ?t t'"
    by (rule insertOrReplace_keeps [OF inv' sz])
  have "same_mode t ?t" by (simp add: mode_defs)
  from same_mode_trans [OF this t'(5)] show ?thesis
    by (intro that [of t']) (use t' run c snap_step_trans [OF s] in simp_all)
qed

lemma clear_outdated_node_invalid:
  "clear_outdated_node sz itr (t\<lparr>ht_snapshot_invalid_iters := J\<rparr>)
     = map_sum id (\<lambda>t. t\<lparr>ht_snapshot_invalid_iters := J\<rparr>) (clear_outdated_node sz itr t)"
  by (simp add: clear_outdated_node_def deref_def elem_at_def arena_free_def list_erase_def Let_def split: option.splits)

lemma clear_fold_keeps:
  assumes "table_inv sz K (t\<lparr>ht_snapshot_invalid_iters := I\<rparr>)"
  shows "\<exists>t'. res_fold (clear_outdated_node sz) I t = Inr t' \<and> table_inv sz K (t'\<lparr>ht_snapshot_invalid_iters := []\<rparr>)
    \<and> contents t' = contents t \<and> same_mode t t'"
  using assms
proof (induction I arbitrary: t)
  case Nil
  then show ?case by (simp add: same_mode_def)
next
  case (Cons itr I)
  let ?t = "t\<lparr>ht_snapshot_invalid_iters := itr # I\<rparr>"
  obtain t1 where t1: "clear_outdated_node sz itr ?t = Inr t1" "table_inv sz K (t1\<lparr>ht_snapshot_invalid_iters := I\<rparr>)"
    "contents (t1\<lparr>ht_snapshot_invalid_iters := I\<rparr>) = contents ?t" "same_mode ?t t1"
    by (rule clear_outdated_node_keeps [OF Cons.prems, of itr I]) simp
  obtain t2 where t2: "clear_outdated_node sz itr t = Inr t2" "t1 = t2\<lparr>ht_snapshot_invalid_iters := itr # I\<rparr>"
    using t1(1) unfolding clear_outdated_node_invalid by (cases "clear_outdated_node sz itr t") auto
  have "table_inv sz K (t2\<lparr>ht_snapshot_invalid_iters := I\<rparr>)" using t1(2) by (simp add: t2(2))
  then obtain t' where t': "res_fold (clear_outdated_node sz) I t2 = Inr t'" "table_inv sz K (t'\<lparr>ht_snapshot_invalid_iters := []\<rparr>)"
    "contents t' = contents t2" "same_mode t2 t'"
    using Cons.IH by blast
  have "contents t2 = contents t"
    using t1(3) contents_cong [of "t1\<lparr>ht_snapshot_invalid_iters := I\<rparr>" t2] contents_cong [of ?t t] by (simp add: t2(2))
  then show ?case using t' t1(4) t2 by (auto simp: same_mode_def)
qed

lemma clearOutdatedNodes_keeps:
  assumes "table_inv sz K t"
  obtains t' where "clearOutdatedNodes sz t = Inr t'" "table_inv sz K t'" "contents t' = contents t"
    "ht_snapshot_invalid_iters t' = []" "same_mode t t'"
proof -
  obtain t' where t': "res_fold (clear_outdated_node sz) (ht_snapshot_invalid_iters t) t = Inr t'"
    "table_inv sz K (t'\<lparr>ht_snapshot_invalid_iters := []\<rparr>)" "contents t' = contents t" "same_mode t t'"
    using clear_fold_keeps [where I = "ht_snapshot_invalid_iters t" and t = t] assms by auto
  show ?thesis
    by (rule that [of "t'\<lparr>ht_snapshot_invalid_iters := []\<rparr>"])
      (use t' contents_cong [of "t'\<lparr>ht_snapshot_invalid_iters := []\<rparr>" t'] in \<open>simp_all add: clearOutdatedNodes_def same_mode_def\<close>)
qed

lemma free_keys:
  assumes "distinct (map le_key_ptr L)" "le_key_ptr ` set L \<subseteq> set (ht_arena t)" "distinct (ht_arena t)"
  shows "\<exists>A. res_fold (\<lambda>e. arena_free (le_key_ptr e)) L t = Inr (t\<lparr>ht_arena := A\<rparr>) \<and> distinct A
    \<and> set A = set (ht_arena t) - le_key_ptr ` set L"
  using assms
proof (induction L arbitrary: t)
  case Nil
  then show ?case by (auto intro: exI [of _ "ht_arena t"])
next
  case (Cons e L)
  let ?t = "t\<lparr>ht_arena := remove1 (le_key_ptr e) (ht_arena t)\<rparr>"
  have free: "arena_free (le_key_ptr e) t = Inr ?t" using Cons.prems by (simp add: arena_free_def)
  have "le_key_ptr ` set L \<subseteq> set (ht_arena ?t)" using Cons.prems by (simp add: set_remove1_eq) blast
  then obtain A where A: "res_fold (\<lambda>e. arena_free (le_key_ptr e)) L ?t = Inr (?t\<lparr>ht_arena := A\<rparr>)" "distinct A"
    "set A = set (ht_arena ?t) - le_key_ptr ` set L"
    using Cons.IH [of ?t] Cons.prems by auto
  then show ?case using Cons.prems free by (intro exI [of _ A]) (auto simp: set_remove1_eq)
qed

lemma clear_table_keeps:
  assumes inv: "table_inv sz {} t"
  obtains t' where "clear_table sz t = Inr t'" "table_inv sz {} t'" "contents t' = Map.empty" "ht_arena t' = []" "same_mode t t'"
    "ht_list t' = []"
proof -
  obtain t1 where t1: "clearOutdatedNodes sz t = Inr t1" "table_inv sz {} t1" "contents t1 = contents t"
    "ht_snapshot_invalid_iters t1 = []" "same_mode t t1"
    by (rule clearOutdatedNodes_keeps [OF inv])
  have own: "owners (ht_list t1) [] = set (ht_list t1)" by (auto simp: owners_def)
  have ok: "distinct (map le_iter (ht_list t1))" "distinct (ht_arena t1)" "set (ht_arena t1) = le_key_ptr ` set (ht_list t1)"
    "inj_on le_key_ptr (set (ht_list t1))"
    using table_invD(1) [OF t1(2)] by (simp_all add: parts_ok_def iters_ok_def keys_ok_def t1(4) own)
  have "distinct (map le_key_ptr (ht_list t1))" using ok(1,4) by (simp add: distinct_map)
  then obtain A where A: "res_fold (\<lambda>e. arena_free (le_key_ptr e)) (ht_list t1) (t1\<lparr>ht_map := []\<rparr>)
      = Inr (t1\<lparr>ht_map := [], ht_arena := A\<rparr>)" "set A = {}"
    using free_keys [of "ht_list t1" "t1\<lparr>ht_map := []\<rparr>"] ok(2,3) by auto
  show ?thesis
    by (rule that [of "t1\<lparr>ht_map := [], ht_arena := [], ht_list := [], ht_approximate_data_size := 0\<rparr>"])
      (use t1 A in \<open>auto simp: clear_table_def mode_defs contents_def find_key_def fun_eq_iff table_inv_def parts_ok_def
          iters_ok_def map_ok_def keys_ok_def owners_def\<close>)
qed

subsection \<open>Runs of operations\<close>

datatype 'v table_op =
    Insert string 'v
  | InsertOrReplace string 'v
  | InsertOrReplaceOwned string 'v
  | Erase string
  | UpdateValue string "'v \<Rightarrow> 'v"
  | ClearOutdatedNodes
  | Clear
  | EnableSnapshotMode nat
  | DisableSnapshotMode

fun table_step :: "('v \<Rightarrow> 64 word) \<Rightarrow> 'v table_op \<Rightarrow> 'v table \<Rightarrow> 'v table result" where
  "table_step sz (Insert k v) t = Inr (snd (insert_key sz k v t))"
| "table_step sz (InsertOrReplace k v) t = insertOrReplace sz k None v t"
| "table_step sz (InsertOrReplaceOwned k v) t = insertOrReplace_owned sz k v t"
| "table_step sz (Erase k) t = res_bind (erase sz k t) (\<lambda>(b, t'). Inr t')"
| "table_step sz (UpdateValue k f) t = res_bind (update_value sz k f t) (\<lambda>(itr, t'). Inr t')"
| "table_step sz ClearOutdatedNodes t = clearOutdatedNodes sz t"
| "table_step sz Clear t = clear_table sz t"
| "table_step sz (EnableSnapshotMode version) t = Inr (enableSnapshotMode version t)"
| "table_step sz DisableSnapshotMode t = Inr (disableSnapshotMode t)"

text \<open>The specification: the operations on a map, and the one error.\<close>

fun spec_step :: "'v table_op \<Rightarrow> (string \<rightharpoonup> 'v) \<Rightarrow> (string \<rightharpoonup> 'v)" where
  "spec_step (Insert k v) m = (if m k = None then m(k \<mapsto> v) else m)"
| "spec_step (InsertOrReplace k v) m = m(k \<mapsto> v)"
| "spec_step (InsertOrReplaceOwned k v) m = m(k \<mapsto> v)"
| "spec_step (Erase k) m = m(k := None)"
| "spec_step (UpdateValue k f) m = m(k := map_option f (m k))"
| "spec_step Clear m = Map.empty"
| "spec_step _ m = m"

fun op_fails :: "'v table_op \<Rightarrow> (string \<rightharpoonup> 'v) \<Rightarrow> bool" where
  "op_fails (UpdateValue k f) m = (m k = None)"
| "op_fails _ m = False"

text \<open>The operations on elements, which a snapshot has to be isolated from.\<close>

fun data_op :: "'v table_op \<Rightarrow> bool" where
  "data_op ClearOutdatedNodes = False"
| "data_op Clear = False"
| "data_op (EnableSnapshotMode _) = False"
| "data_op DisableSnapshotMode = False"
| "data_op _ = True"

lemma table_inv_mode [simp]:
  "table_inv sz K (enableSnapshotMode version t) = table_inv sz K t" "table_inv sz K (disableSnapshotMode t) = table_inv sz K t"
  "contents (enableSnapshotMode version t) = contents t" "contents (disableSnapshotMode t) = contents t"
  by (simp_all add: table_inv_def enableSnapshotMode_def disableSnapshotMode_def)
    (rule contents_cong; simp)+

lemma table_step_keeps:
  assumes inv: "table_inv sz {} t" and sz: "\<And>v. sz v \<noteq> 0" and ok: "\<not> op_fails op (contents t)"
  shows "\<exists>t'. table_step sz op t = Inr t' \<and> table_inv sz {} t' \<and> contents t' = spec_step op (contents t)
    \<and> (data_op op \<longrightarrow> (ht_snapshot_mode t \<longrightarrow> snap_step t t') \<and> same_mode t t')"
proof (cases op)
  case (Insert k v)
  obtain b t' where "insert_key sz k v t = (b, t')" "table_inv sz {} t'" "b = (contents t k = None)"
    "contents t' = (if contents t k = None then (contents t)(k \<mapsto> v) else contents t)" "snap_step t t'" "same_mode t t'"
    by (rule insert_key_keeps [OF inv])
  then show ?thesis by (simp add: Insert)
next
  case (InsertOrReplace k v)
  show ?thesis by (rule insertOrReplace_keeps [OF inv sz, of k v]) (simp add: InsertOrReplace)
next
  case (InsertOrReplaceOwned k v)
  show ?thesis by (rule insertOrReplace_owned_keeps [OF inv sz, of k v]) (simp add: InsertOrReplaceOwned)
next
  case (Erase k)
  show ?thesis by (rule erase_keeps [OF inv, of k]) (simp add: Erase)
next
  case (UpdateValue k f)
  then obtain u where u: "contents t k = Some u" using ok by auto
  show ?thesis by (rule update_value_keeps [OF inv u, of f]) (simp add: UpdateValue u)
next
  case ClearOutdatedNodes
  show ?thesis by (rule clearOutdatedNodes_keeps [OF inv]) (simp add: ClearOutdatedNodes)
next
  case Clear
  show ?thesis by (rule clear_table_keeps [OF inv]) (simp add: Clear)
qed (use inv in simp_all)

definition table_run :: "('v \<Rightarrow> 64 word) \<Rightarrow> 'v table_op list \<Rightarrow> 'v table \<Rightarrow> 'v table result" where
  "table_run sz ops t = res_fold (table_step sz) ops t"

fun spec_run :: "'v table_op list \<Rightarrow> (string \<rightharpoonup> 'v) \<Rightarrow> (string \<rightharpoonup> 'v) option" where
  "spec_run [] m = Some m"
| "spec_run (op # ops) m = (if op_fails op m then None else spec_run ops (spec_step op m))"

text \<open>
  The contract of a machine that implements a specification: in a state that satisfies the
  invariant a step either fails exactly when the specification refuses the operation, or gives a
  state whose abstraction is the specified one.
\<close>

locale step_simulation =
  fixes step :: "'o \<Rightarrow> 's \<Rightarrow> 's result" and inv :: "'s \<Rightarrow> bool" and abs :: "'s \<Rightarrow> 'a"
    and spec :: "'o \<Rightarrow> 'a \<Rightarrow> 'a" and refuses :: "'o \<Rightarrow> 'a \<Rightarrow> bool" and error :: failure
  assumes steps: "inv s \<Longrightarrow> \<not> refuses op (abs s) \<Longrightarrow> \<exists>s'. step op s = Inr s' \<and> inv s' \<and> abs s' = spec op (abs s)"
    and refused: "inv s \<Longrightarrow> refuses op (abs s) \<Longrightarrow> step op s = Inl error"
begin

fun accepted :: "'o list \<Rightarrow> 'a \<Rightarrow> 'a option" where
  "accepted [] m = Some m"
| "accepted (op # ops) m = (if refuses op m then None else accepted ops (spec op m))"

lemma runs:
  "inv s \<Longrightarrow> (case accepted ops (abs s) of
      None \<Rightarrow> res_fold step ops s = Inl error
    | Some m \<Rightarrow> \<exists>s'. res_fold step ops s = Inr s' \<and> inv s' \<and> abs s' = m)"
proof (induction ops arbitrary: s)
  case Nil
  then show ?case by simp
next
  case (Cons op ops)
  show ?case
  proof (cases "refuses op (abs s)")
    case True
    then show ?thesis using refused [OF Cons.prems True] by simp
  next
    case False
    obtain s' where s': "step op s = Inr s'" "inv s'" "abs s' = spec op (abs s)" using steps [OF Cons.prems False] by blast
    show ?thesis using Cons.IH [OF s'(2)] False s' by (simp split: option.splits)
  qed
qed

end

lemma op_fails_error:
  assumes inv: "table_inv sz K t" and "op_fails op (contents t)"
  shows "table_step sz op t = Inl (LogicalError ''Could not find key'')"
proof (cases op)
  case (UpdateValue k f)
  then have "map_of (ht_map t) k = None" using assms contents_none [OF inv] by simp
  then show ?thesis by (simp add: UpdateValue update_value_def)
qed (use assms in simp_all)

interpretation tab: step_simulation "table_step sz" "\<lambda>t. (\<forall>v. sz v \<noteq> 0) \<and> table_inv sz {} t" contents spec_step op_fails
  "LogicalError ''Could not find key''" for sz
  using table_step_keeps op_fails_error by unfold_locales blast+

lemma accepted_spec_run: "tab.accepted ops m = spec_run ops m"
  by (induction ops arbitrary: m) simp_all

lemma table_run_spec:
  assumes "\<forall>v. sz v \<noteq> 0" "table_inv sz {} t"
  shows "case spec_run ops (contents t) of
      None \<Rightarrow> table_run sz ops t = Inl (LogicalError ''Could not find key'')
    | Some m \<Rightarrow> \<exists>t'. table_run sz ops t = Inr t' \<and> table_inv sz {} t' \<and> contents t' = m"
  using tab.runs [of sz t ops] assms unfolding accepted_spec_run table_run_def by (simp split: option.splits)

lemma new_table_contents: "contents new_table = Map.empty"
  by (simp add: contents_def find_key_def new_table_def fun_eq_iff)

lemma table_run_inv:
  assumes "\<forall>v. sz v \<noteq> 0" "table_inv sz {} t" "table_run sz ops t = Inr t'"
  shows "table_inv sz {} t'"
  using table_run_spec [OF assms(1,2), of ops] assms(3) by (auto split: option.splits)

lemma recalculate_exact: "table_inv sz K t \<Longrightarrow> recalculateDataSize sz t = t"
proof -
  have fold: "foldl (\<lambda>s e. s + key_size (le_key e) + sz (le_value e)) a L = a + elems_size sz L" for a and L :: "'a list_elem list"
    by (induction L arbitrary: a) (simp_all add: elem_size_def algebra_simps)
  assume "table_inv sz K t"
  from table_invD(3) [OF this] show ?thesis by (simp add: recalculateDataSize_def fold)
qed

lemma contents_dom: "table_inv sz K t \<Longrightarrow> dom (contents t) = fst ` set (ht_map t)"
  using contents_none [of sz K t] by (auto simp: dom_def map_of_eq_None_iff image_iff)

lemma table_size_card:
  assumes "table_inv sz K t"
  shows "table_size t = card (dom (contents t))"
proof -
  have "distinct (map fst (ht_map t))" by (rule table_invD(2) [OF assms])
  then have "card (set (map fst (ht_map t))) = length (ht_map t)" by (simp only: distinct_card length_map)
  then show ?thesis by (simp add: table_size_def contents_dom [OF assms])
qed

subsection \<open>Isolation of snapshots\<close>

definition key_values :: "'v list_elem list \<Rightarrow> (string \<times> 'v) list" where
  "key_values L = map (\<lambda>e. (le_key e, le_value e)) L"

definition enables :: "'v table_op list \<Rightarrow> nat" where
  "enables ops = length (filter (\<lambda>op. case op of EnableSnapshotMode _ \<Rightarrow> True | _ \<Rightarrow> False) ops)"

lemma enables_Cons: "enables (op # ops) = (case op of EnableSnapshotMode _ \<Rightarrow> 1 | _ \<Rightarrow> 0) + enables ops"
  by (cases op) (simp_all add: enables_def)

lemma table_step_versions:
  assumes inv: "table_inv sz {} t" and sz: "\<And>v. sz v \<noteq> 0" and run: "table_step sz op t = Inr t'"
    and ok: "versions_ok t" "ht_current_version t + enables [op] < 2 ^ 64"
  shows "versions_ok t' \<and> ht_current_version t' = ht_current_version t + enables [op]"
proof -
  have nf: "\<not> op_fails op (contents t)" using op_fails_error [OF inv] run by auto
  note keeps = table_step_keeps [OF inv sz nf]
  show ?thesis
  proof (cases op)
    case ClearOutdatedNodes
    show ?thesis by (rule clearOutdatedNodes_keeps [OF inv]) (use run ok in \<open>simp add: ClearOutdatedNodes same_mode_def enables_def\<close>)
  next
    case Clear
    show ?thesis by (rule clear_table_keeps [OF inv]) (use run ok in \<open>simp add: Clear same_mode_def enables_def\<close>)
  next
    case (EnableSnapshotMode version)
    then show ?thesis using run ok by (auto simp: enableSnapshotMode_def versions_ok_def enables_def le_Suc_eq)
  next
    case DisableSnapshotMode
    then show ?thesis using run ok by (auto simp: disableSnapshotMode_def versions_ok_def enables_def)
  qed (use keeps run ok in \<open>auto simp: same_mode_def enables_def\<close>)
qed

lemma table_run_versions:
  assumes sz: "\<forall>v. sz v \<noteq> 0" and inv: "table_inv sz {} t" and run: "table_run sz ops t = Inr t'"
    and ok: "versions_ok t" "ht_current_version t + enables ops < 2 ^ 64"
  shows "versions_ok t' \<and> ht_current_version t' = ht_current_version t + enables ops"
  using inv run ok
proof (induction ops arbitrary: t)
  case Nil
  then show ?case by (simp add: table_run_def enables_def)
next
  case (Cons op ops)
  obtain t1 where t1: "table_step sz op t = Inr t1" "table_run sz ops t1 = Inr t'"
    using Cons.prems(2) by (auto simp: table_run_def res_bind_Inr_iff)
  have e: "enables (op # ops) = enables [op] + enables ops" by (simp add: enables_Cons enables_def [of "[]"])
  have inv1: "table_inv sz {} t1"
    by (rule table_run_inv [OF sz Cons.prems(1), of "[op]"]) (simp add: table_run_def t1)
  have v1: "versions_ok t1 \<and> ht_current_version t1 = ht_current_version t + enables [op]"
    by (rule table_step_versions [OF Cons.prems(1) sz [rule_format] t1(1) Cons.prems(3)]) (use Cons.prems(4) e in simp)
  then show ?case using Cons.IH [OF inv1 t1(2)] Cons.prems(4) e by simp
qed

lemma snap_step_take:
  assumes step: "snap_step t t'" and n: "n \<le> length (ht_list t)"
    and v: "\<forall>e\<in>set (take n (ht_list t)). le_version e \<le> ht_snapshot_up_to_version t"
  shows "key_values (take n (ht_list t')) = key_values (take n (ht_list t))" "n \<le> length (ht_list t')"
    "\<forall>e\<in>set (take n (ht_list t')). le_version e \<le> ht_snapshot_up_to_version t'"
    "map le_key_ptr (take n (ht_list t')) = map le_key_ptr (take n (ht_list t))" "set (ht_arena t) \<subseteq> set (ht_arena t')"
proof -
  obtain g zs where g: "ht_list t' = map g (ht_list t) @ zs"
    "\<forall>e\<in>set (ht_list t). le_key (g e) = le_key e \<and> le_version (g e) = le_version e \<and> le_key_ptr (g e) = le_key_ptr e
       \<and> (le_version e \<le> ht_snapshot_up_to_version t \<longrightarrow> le_value (g e) = le_value e)"
    using step by (auto simp: snap_step_def)
  have take: "take n (ht_list t') = map g (take n (ht_list t))" using n by (simp add: g(1) take_map)
  have up: "ht_snapshot_up_to_version t' = ht_snapshot_up_to_version t" using step by (simp add: snap_step_def)
  show "key_values (take n (ht_list t')) = key_values (take n (ht_list t))"
    "map le_key_ptr (take n (ht_list t')) = map le_key_ptr (take n (ht_list t))"
    "\<forall>e\<in>set (take n (ht_list t')). le_version e \<le> ht_snapshot_up_to_version t'"
    using g(2) v in_set_takeD [of _ n "ht_list t"] by (auto simp: key_values_def take up)
  show "n \<le> length (ht_list t')" using n by (simp add: g(1))
  show "set (ht_arena t) \<subseteq> set (ht_arena t')" using step by (simp add: snap_step_def)
qed

lemma snapshot_run:
  assumes sz: "\<forall>v. sz v \<noteq> 0" and inv: "table_inv sz {} t" and mode: "ht_snapshot_mode t" and ops: "\<forall>op\<in>set ops. data_op op"
    and run: "table_run sz ops t = Inr t'" and n: "n \<le> length (ht_list t)"
    and v: "\<forall>e\<in>set (take n (ht_list t)). le_version e \<le> ht_snapshot_up_to_version t"
  shows "key_values (take n (ht_list t')) = key_values (take n (ht_list t))"
    "map le_key_ptr (take n (ht_list t')) = map le_key_ptr (take n (ht_list t))" "set (ht_arena t) \<subseteq> set (ht_arena t')"
proof -
  have "key_values (take n (ht_list t')) = key_values (take n (ht_list t))
    \<and> map le_key_ptr (take n (ht_list t')) = map le_key_ptr (take n (ht_list t)) \<and> set (ht_arena t) \<subseteq> set (ht_arena t')"
    using inv mode ops run n v
  proof (induction ops arbitrary: t)
    case Nil
    then show ?case by (simp add: table_run_def)
  next
    case (Cons op ops)
    obtain t1 where t1: "table_step sz op t = Inr t1" "table_run sz ops t1 = Inr t'"
      using Cons.prems(4) by (auto simp: table_run_def res_bind_Inr_iff)
    have "\<not> op_fails op (contents t)" using op_fails_error [OF Cons.prems(1)] t1(1) by auto
    from table_step_keeps [OF Cons.prems(1) sz [rule_format] this]
    have s: "table_inv sz {} t1" "snap_step t t1" "ht_snapshot_mode t1" using t1 Cons.prems(2,3) by (auto simp: same_mode_def)
    note take = snap_step_take [OF s(2) Cons.prems(5,6)]
    show ?case using Cons.IH [OF s(1,3) _ t1(2) take(2,3)] Cons.prems(3) take by auto
  qed
  then show "key_values (take n (ht_list t')) = key_values (take n (ht_list t))"
    "map le_key_ptr (take n (ht_list t')) = map le_key_ptr (take n (ht_list t))" "set (ht_arena t) \<subseteq> set (ht_arena t')"
    by blast+
qed

text \<open>Without outdated elements the list holds exactly the contents, and every key is allocated.\<close>

lemma clean_list:
  assumes inv: "table_inv sz K t" and clean: "ht_snapshot_invalid_iters t = []"
  shows "map_of (key_values (ht_list t)) = contents t" "le_key_ptr ` set (ht_list t) \<subseteq> set (ht_arena t)"
    "length (ht_list t) = table_size t"
proof -
  note ok = table_invD(1) [OF inv, unfolded clean]
  have "set (key_values (ht_list t)) = {(k, v). contents t k = Some v}"
    by (auto simp: key_values_def contents_iff [OF inv] clean)
  moreover have keys: "inj_on le_key (set (ht_list t))"
  proof (rule inj_onI)
    fix x y assume xy: "x \<in> set (ht_list t)" "y \<in> set (ht_list t)" "le_key x = le_key y"
    then have "map_of (ht_map t) (le_key x) = Some (le_iter x)" "map_of (ht_map t) (le_key x) = Some (le_iter y)"
      using ok by (auto simp: parts_ok_def map_ok_def)
    then show "x = y" using ok xy by (auto simp: parts_ok_def iters_ok_def distinct_map inj_on_def)
  qed
  moreover have distinct: "distinct (map fst (key_values (ht_list t)))"
    using keys ok by (simp add: key_values_def comp_def distinct_map parts_ok_def iters_ok_def)
  ultimately show eq: "map_of (key_values (ht_list t)) = contents t"
    by (intro map_eqI) auto
  show "le_key_ptr ` set (ht_list t) \<subseteq> set (ht_arena t)"
    using ok by (auto simp: parts_ok_def keys_ok_def owners_def)
  have "card (set (map fst (key_values (ht_list t)))) = length (map fst (key_values (ht_list t)))"
    by (rule distinct_card [OF distinct])
  then have "card (dom (map_of (key_values (ht_list t)))) = length (ht_list t)"
    by (simp add: dom_map_of_conv_image_fst key_values_def image_image)
  then show "length (ht_list t) = table_size t" by (simp add: table_size_card [OF inv] eq)
qed

subsection \<open>Properties\<close>

text \<open>
  C19. The table is a map. Any sequence of operations on a new table returns, unless it updates a
  missing key, which raises \<open>LOGICAL_ERROR\<close>; in particular no iterator dangles and no key is freed
  twice. Afterwards \<open>find\<close>, \<open>contains\<close> and \<open>getValue\<close> give what the same operations on a finite map give,
  \<open>size\<close> is the number of keys, and the approximate data size is exact: recomputing it changes nothing.
  Values have a size other than zero.
\<close>

theorem table_implements_map:
  assumes "\<forall>v. sz v \<noteq> 0"
  shows "case spec_run ops Map.empty of
      None \<Rightarrow> table_run sz ops new_table = Inl (LogicalError ''Could not find key'')
    | Some m \<Rightarrow> \<exists>t. table_run sz ops new_table = Inr t \<and> (\<forall>k. map_option le_value (find_key k t) = m k)
        \<and> (\<forall>k. contains k t \<longleftrightarrow> m k \<noteq> None)
        \<and> (\<forall>k. getValue k t = (case m k of None \<Rightarrow> Inl (LogicalError ''Could not find key'') | Some v \<Rightarrow> Inr v))
        \<and> table_size t = card (dom m) \<and> recalculateDataSize sz t = t"
proof (cases "spec_run ops Map.empty")
  case None
  then show ?thesis using table_run_spec [OF assms new_table_inv, of ops] by (simp add: new_table_contents)
next
  case (Some m)
  obtain t where t: "table_run sz ops new_table = Inr t" "table_inv sz {} t" "contents t = m"
    using table_run_spec [OF assms new_table_inv, of ops] Some by (auto simp: new_table_contents)
  have "getValue k t = (case m k of None \<Rightarrow> Inl (LogicalError ''Could not find key'') | Some v \<Rightarrow> Inr v)" for k
  proof (cases "map_of (ht_map t) k")
    case None
    then show ?thesis using contents_none [OF t(2), of k] t(3) by (simp add: getValue_def)
  next
    case (Some itr)
    show ?thesis by (rule lookup_at [OF t(2) Some]) (use t(3) Some in \<open>simp add: getValue_def\<close>)
  qed
  moreover have "contains k t \<longleftrightarrow> m k \<noteq> None" for k
    using contents_none [OF t(2), of k] t(3) by (simp add: contains_def)
  moreover have "map_option le_value (find_key k t) = m k" for k using t(3) by (simp add: contents_def [symmetric])
  ultimately show ?thesis
    using Some t(1,3) table_size_card [OF t(2)] recalculate_exact [OF t(2)] by auto
qed

definition demo_ops :: "nat table_op list" where
  "demo_ops = [Insert ''a'' 1, Insert ''b'' 2, EnableSnapshotMode 0, UpdateValue ''a'' Suc, Erase ''b'', Insert ''b'' 7,
     ClearOutdatedNodes, DisableSnapshotMode]"

theorem table_implements_map_witness:
  "(\<forall>v::nat. (1::64 word) \<noteq> 0) \<and>
   (\<exists>t. table_run (\<lambda>_. 1) demo_ops new_table = Inr t \<and> getValue ''a'' t = Inr 2 \<and> getValue ''b'' t = Inr 7
      \<and> \<not> contains ''c'' t)"
proof -
  have "spec_run demo_ops Map.empty = Some [''a'' \<mapsto> 2, ''b'' \<mapsto> 7]"
    by (auto simp: demo_ops_def fun_eq_iff)
  with table_implements_map [of "\<lambda>_::nat. 1" demo_ops] show ?thesis by auto
qed

text \<open>
  C20. A snapshot is isolated. Take a table without outdated elements and start a snapshot as
  \<open>KeeperStorageSnapshot\<close> does, with the size \<open>n\<close> and the version of \<open>snapshotSizeWithVersion\<close>. Whatever
  operations on elements follow, the first \<open>n\<close> elements of the list keep their keys and values and the
  memory of their keys, and these are exactly the contents of the table when the snapshot was started.
\<close>

theorem snapshot_isolated:
  assumes sz: "\<forall>v. sz v \<noteq> 0" and run: "table_run sz ops new_table = Inr t" and clean: "ht_snapshot_invalid_iters t = []"
    and few: "enables ops < 2 ^ 64" and snap: "snapshotSizeWithVersion t = (n, version)"
    and ops': "\<forall>op\<in>set ops'. data_op op" and run': "table_run sz ops' (enableSnapshotMode version t) = Inr t'"
  shows "n = table_size t \<and> key_values (take n (ht_list t')) = key_values (ht_list t)
    \<and> (\<forall>k. map_of (key_values (take n (ht_list t'))) k = map_option le_value (find_key k t))
    \<and> (\<forall>e\<in>set (take n (ht_list t')). le_key_ptr e \<in> set (ht_arena t'))"
proof -
  have inv: "table_inv sz {} t" by (rule table_run_inv [OF sz new_table_inv run])
  have v: "versions_ok t"
    by (rule conjunct1 [OF table_run_versions [OF sz new_table_inv run]]) (use few in \<open>simp_all add: versions_ok_def new_table_def\<close>)
  let ?t = "enableSnapshotMode version t"
  have t: "ht_snapshot_mode ?t" "ht_list ?t = ht_list t" "ht_arena ?t = ht_arena t" "ht_snapshot_up_to_version ?t = version"
    by (simp_all add: enableSnapshotMode_def)
  have n: "n = length (ht_list t)" "version = ht_current_version t" using snap by (simp_all add: snapshotSizeWithVersion_def)
  have run1: "key_values (take n (ht_list t')) = key_values (take n (ht_list ?t))"
    "map le_key_ptr (take n (ht_list t')) = map le_key_ptr (take n (ht_list ?t))" "set (ht_arena ?t) \<subseteq> set (ht_arena t')"
    by (rule snapshot_run [OF sz _ t(1) ops' run', of n]; use inv v n t in \<open>simp add: versions_ok_def\<close>)+
  note c = clean_list [OF inv clean]
  have "le_key_ptr ` set (take n (ht_list t')) \<subseteq> set (ht_arena t')"
    using arg_cong [OF run1(2), of set] run1(3) c(2) t n by auto
  then show ?thesis using run1(1) c t n by (auto simp: contents_def [symmetric])
qed

theorem snapshot_isolated_witness:
  "\<exists>t t'. table_run (\<lambda>_. 1) [Insert ''a'' (1::nat), Insert ''b'' 2] new_table = Inr t
     \<and> table_run (\<lambda>_. 1) [UpdateValue ''a'' Suc, Erase ''b'', Insert ''c'' 5] (enableSnapshotMode 0 t) = Inr t'
     \<and> key_values (take 2 (ht_list t')) = [(''a'', 1), (''b'', 2)]"
proof -
  let ?sz = "\<lambda>_::nat. 1 :: 64 word"
  define ops where "ops = [Insert ''a'' (1::nat), Insert ''b'' 2]"
  define ops' where "ops' = [UpdateValue ''a'' Suc, Erase ''b'', Insert ''c'' (5::nat)]"
  obtain t where t: "table_run ?sz ops new_table = Inr t" "ht_snapshot_invalid_iters t = []" "snapshotSizeWithVersion t = (2, 0)"
    "key_values (ht_list t) = [(''a'', 1), (''b'', 2)]"
    by (simp add: ops_def table_run_def insert_key_def step_defs new_table_def snapshotSizeWithVersion_def key_values_def)
  have "spec_run ops Map.empty = Some [''a'' \<mapsto> 1, ''b'' \<mapsto> 2]" by (auto simp: ops_def)
  then have c: "table_inv ?sz {} t" "contents t = [''a'' \<mapsto> 1, ''b'' \<mapsto> 2]"
    using table_run_spec [of ?sz new_table ops, OF _ new_table_inv] t(1) by (auto simp: new_table_contents)
  have "spec_run ops' (contents (enableSnapshotMode 0 t)) \<noteq> None" by (simp add: c(2) ops'_def)
  then obtain t' where t': "table_run ?sz ops' (enableSnapshotMode 0 t) = Inr t'"
    using table_run_spec [of ?sz "enableSnapshotMode 0 t" ops'] c(1) by (auto split: option.splits)
  have "key_values (take 2 (ht_list t')) = key_values (ht_list t)"
    using snapshot_isolated [OF _ t(1,2) _ t(3) _ t'] by (simp add: ops_def ops'_def enables_def)
  then show ?thesis using t t' unfolding ops_def ops'_def by auto
qed

text \<open>No key leaks: \<open>clear\<close>, which is also what the destructor does, succeeds and frees every key that is still allocated.\<close>

lemma clear_frees_all_keys:
  assumes "\<forall>v. sz v \<noteq> 0" "table_run sz ops new_table = Inr t"
  shows "\<exists>t'. clear_table sz t = Inr t' \<and> ht_arena t' = [] \<and> ht_list t' = []"
  by (rule clear_table_keeps [OF table_run_inv [OF assms(1) new_table_inv assms(2)]]) auto

text \<open>The value and the flag of the element that the map has for a key.\<close>

definition key_state :: "string \<Rightarrow> 'v table \<Rightarrow> ('v \<times> bool) option" where
  "key_state k t = map_option (\<lambda>e. (le_value e, le_active_in_map e)) (find_key k t)"

lemma find_append_last: "find P (xs @ [n]) = (case find P xs of None \<Rightarrow> if P n then Some n else None | Some x \<Rightarrow> Some x)"
  by (induction xs) simp_all

lemma find_updated:
  assumes "\<And>e. le_iter (f e) = le_iter e"
  shows "find (\<lambda>e. le_iter e = i) (map (\<lambda>e. if le_iter e = j then f e else e) xs)
    = map_option (\<lambda>e. if i = j then f e else e) (find (\<lambda>e. le_iter e = i) xs)"
  using assms by (induction xs) auto

lemma find_fresh: "table_inv sz K t \<Longrightarrow> ht_next t \<le> i \<Longrightarrow> find (\<lambda>e. le_iter e = i) (ht_list t) = None"
  using fresh_iter(1) by (fastforce simp: find_None_iff)

lemma updateDataSize_same [simp]:
  "ht_map (updateDataSize op ks vs os b t) = ht_map t" "ht_list (updateDataSize op ks vs os b t) = ht_list t"
  by (cases op; simp add: Let_def)+

lemma insertOrReplace_flag:
  assumes inv: "table_inv sz K t" and run: "insertOrReplace sz k None w t = Inr t'"
  shows "key_state k t' = Some (w, case key_state k t of None \<Rightarrow> True | Some (v, flag) \<Rightarrow> \<not> ht_snapshot_mode t \<and> flag)"
proof (cases "map_of (ht_map t) k")
  case None
  then show ?thesis
    using run by (auto simp: insertOrReplace_def step_defs key_state_def find_key_def elem_at_def map_of_alist_update find_append_last find_updated
      find_fresh [OF inv])
next
  case (Some itr)
  then obtain e where "find (\<lambda>e. le_iter e = itr) (ht_list t) = Some e"
    using run by (auto simp: insertOrReplace_def deref_def elem_at_def split: option.splits)
  then show ?thesis
    using run Some
    by (cases "ht_snapshot_mode t") (auto simp: insertOrReplace_def step_defs key_state_def find_key_def deref_def elem_at_def map_of_alist_update
        setInactiveInMap_def find_append_last find_updated find_fresh [OF inv])
qed

lemma update_value_flag:
  assumes inv: "table_inv sz K t" and old: "key_state k t = Some (v, flag)" and run: "update_value sz k f t = Inr (itr', t')"
  shows "key_state k t' = Some (f v, flag)"
  using assms
  by (auto simp: update_value_def step_defs key_state_def find_key_def deref_def elem_at_def map_of_alist_update res_bind_Inr_iff
      setInactiveInMap_def find_append_last find_updated find_fresh [OF inv] split: option.splits if_splits)

text \<open>
  C31. How the flag \<open>active_in_map\<close> of the element of a key develops, after any operations. An insertion of a new key
  sets it. \<open>insertOrReplace\<close> of a key that is there keeps it outside snapshot mode, but leaves it unset in
  snapshot mode, since \<open>setActiveInMap\<close> is not called for the new element; an update keeps it, so that it stays unset
  after such a replacement.
\<close>

theorem replaced_element_inactive:
  assumes "\<forall>v. sz v \<noteq> 0" "table_run sz ops new_table = Inr t"
  shows "(\<exists>t'. insertOrReplace sz k None w t = Inr t'
        \<and> map_option (\<lambda>e. (le_value e, le_active_in_map e)) (find_key k t')
          = Some (w, case find_key k t of None \<Rightarrow> True | Some e \<Rightarrow> \<not> ht_snapshot_mode t \<and> le_active_in_map e))
    \<and> (\<forall>e. find_key k t = Some e \<longrightarrow> (\<exists>itr t'. update_value sz k f t = Inr (itr, t')
        \<and> map_option (\<lambda>e. (le_value e, le_active_in_map e)) (find_key k t') = Some (f (le_value e), le_active_in_map e)))"
proof (intro conjI allI impI)
  have inv: "table_inv sz {} t" by (rule table_run_inv [OF assms(1) new_table_inv assms(2)])
  obtain t' where "insertOrReplace sz k None w t = Inr t'" by (rule insertOrReplace_keeps [OF inv]) (use assms(1) in auto)
  with insertOrReplace_flag [OF inv this] show "\<exists>t'. insertOrReplace sz k None w t = Inr t'
        \<and> map_option (\<lambda>e. (le_value e, le_active_in_map e)) (find_key k t')
          = Some (w, case find_key k t of None \<Rightarrow> True | Some e \<Rightarrow> \<not> ht_snapshot_mode t \<and> le_active_in_map e)"
    by (auto simp: key_state_def split: option.splits)
  fix e assume e: "find_key k t = Some e"
  then have c: "contents t k = Some (le_value e)" by (simp add: contents_def)
  obtain itr t' where "update_value sz k f t = Inr (itr, t')" by (rule update_value_keeps [OF inv c])
  with update_value_flag [OF inv _ this] e show "\<exists>itr t'. update_value sz k f t = Inr (itr, t')
        \<and> map_option (\<lambda>e. (le_value e, le_active_in_map e)) (find_key k t') = Some (f (le_value e), le_active_in_map e)"
    by (auto simp: key_state_def)
qed

theorem replaced_element_inactive_witness:
  "\<exists>t t'. table_run (\<lambda>_. 8) [Insert ''a'' 1, EnableSnapshotMode 0] new_table = Inr t
     \<and> insertOrReplace (\<lambda>_. 8) ''a'' None (2 :: nat) t = Inr t'
     \<and> map_option (\<lambda>e. (le_value e, le_active_in_map e)) (find_key ''a'' t') = Some (2, False)"
proof -
  obtain t :: "nat table" where t: "table_run (\<lambda>_. 8) [Insert ''a'' 1, EnableSnapshotMode 0] new_table = Inr t" "ht_snapshot_mode t" "find_key ''a'' t \<noteq> None"
    by (auto simp: table_run_def insert_key_def step_defs new_table_def enableSnapshotMode_def elem_at_def find_key_def)
  from replaced_element_inactive [OF _ t(1), of "''a''" 2 id] t show ?thesis by auto
qed

end
