(* ===== verification/Zk_Prefix.thy ===== *)
theory Zk_Prefix
  imports Keeper_Connection
begin

section \<open>Incomplete messages\<close>

text \<open>
  A reader that succeeds has seen all it needs: it reads the same from a longer buffer and leaves the additional
  bytes. It follows that a message that was cut off is never taken for another message.
\<close>

definition extends :: "'a reader \<Rightarrow> bool" where
  "extends R \<longleftrightarrow> (\<forall>inp x rest extra. R inp = Inr (x, rest) \<longrightarrow> R (inp @ extra) = Inr (x, rest @ extra))"

named_theorems extending \<open>readers that leave additional bytes alone\<close>

lemma extends_return [extending]: "extends (\<lambda>inp. Inr (x, inp))"
  by (simp add: extends_def)

lemma extends_fail [extending]: "extends (\<lambda>inp. Inl e)"
  by (simp add: extends_def)

lemma extends_bind [extending]:
  assumes "extends R" "\<And>x. extends (f x)"
  shows "extends (\<lambda>inp. res_bind (R inp) (\<lambda>(x, rest). f x rest))"
  using assms by (fastforce simp: extends_def res_bind_Inr_iff)

lemma extends_if [extending]: "extends R \<Longrightarrow> extends R' \<Longrightarrow> extends (\<lambda>inp. if b then R inp else R' inp)"
  by (simp add: extends_def)

lemma extends_bytes [extending]: "extends (read_bytes n)"
  by (auto simp: extends_def read_bytes_def split: if_splits)

lemma extends_numbers [extending]:
  "extends read_int32" "extends read_int64" "extends read_uint32" "extends read_uint8" "extends read_bool"
  unfolding read_int32_def read_int64_def read_uint32_def read_uint8_def read_bool_def by (intro extending)+

lemma extends_take:
  "extends (\<lambda>rest. if length rest < n then Inl e else Inr (g (take n rest), drop n rest))"
  by (auto simp: extends_def split: if_splits)

lemma extends_string [extending]: "extends read_string"
  unfolding read_string_def by (intro extending extends_take)

lemma extends_elems: "extends rd \<Longrightarrow> extends (read_elems n rd)"
proof (induction n)
  case (Suc n)
  then show ?case unfolding read_elems.simps by (intro extending) simp_all
qed (simp add: extends_def)

lemma extends_vector: "extends rd \<Longrightarrow> extends (read_vector rd)"
  unfolding read_vector_def by (intro extending extends_elems)

lemma extends_acls [extending]: "extends (read_vector read_acl)"
  by (rule extends_vector) (unfold read_acl_def, intro extending)

lemma extends_op_num [extending]: "extends read_op_num"
proof -
  have "extends (\<lambda>rest. res_bind (getOpNum_raw raw) (\<lambda>op. Inr (op, rest)))" for raw
    by (cases "getOpNum_raw raw") (simp_all add: extends_def)
  then show ?thesis unfolding read_op_num_def by (intro extending)
qed

lemma extends_path_and [extending]: "extends rd \<Longrightarrow> extends (read_path_and rd f)"
  unfolding read_path_and_def by (intro extending)

lemma extends_requests [extending]:
  "extends sync_read" "extends reconfig_read" "extends auth_read" "extends (create_read b)" "extends remove_read"
  "extends remove_recursive_read" "extends exists_read" "extends get_read" "extends set_read" "extends (list_read k)"
  "extends filtered_list_read" "extends setACL_read" "extends getACL_read" "extends (check_read b)" "extends session_id_read"
  unfolding sync_read_def reconfig_read_def auth_read_def create_read_def remove_read_def remove_recursive_read_def
    exists_read_def get_read_def set_read_def list_read_def filtered_list_read_def setACL_read_def getACL_read_def
    check_read_def session_id_read_def
  by (intro extending)+

lemma extends_cong: "(\<And>inp. R inp = R' inp) \<Longrightarrow> extends R' \<Longrightarrow> extends R"
  by (simp add: extends_def)

lemma extends_simple: "extends (read_simple op)"
  by (cases op; hypsubst; rule extends_cong, rule read_simple.simps, intro extending)

lemma extends_header: "extends read_multi_header"
  unfolding read_multi_header_def by (intro extending)

lemma extendsD: "extends R \<Longrightarrow> R inp = Inr (x, rest) \<Longrightarrow> R (inp @ extra) = Inr (x, rest @ extra)"
  by (simp add: extends_def)

lemma read_multi_extends_step:
  assumes request: "\<And>op inp r rest. read_request fuel op inp = Inr (r, rest) \<Longrightarrow> read_request fuel' op (inp @ extra) = Inr (r, rest @ extra)"
    and multi: "\<And>inp rs rest. read_multi v fuel inp = Inr (rs, rest) \<Longrightarrow> read_multi v fuel' (inp @ extra) = Inr (rs, rest @ extra)"
    and "read_multi v (Suc fuel) inp = Inr (rs, rest)"
  shows "read_multi v (Suc fuel') (inp @ extra) = Inr (rs, rest @ extra)"
proof -
  obtain op finished error r1 where h: "read_multi_header inp = Inr ((op, finished, error), r1)"
    using assms(3) by (auto simp: res_bind_Inr_iff)
  then have h': "read_multi_header (inp @ extra) = Inr ((op, finished, error), r1 @ extra)"
    by (rule extendsD [OF extends_header])
  show ?thesis
  proof (cases finished)
    case True
    then show ?thesis using assms(3) h h' by (auto split: if_splits)
  next
    case False
    then obtain r r2 rs' where sub: "read_request fuel op r1 = Inr (r, r2)" "v r = Inr ()" "r2 \<noteq> []"
      "read_multi v fuel r2 = Inr (rs', rest)" "rs = r # rs'"
      using assms(3) h by (auto simp: res_bind_Inr_iff split: if_splits)
    show ?thesis using False h' request [OF sub(1)] sub(2,3,5) multi [OF sub(4)] by simp
  qed
qed

lemma read_request_extends_aux:
  "(\<forall>v inp rs rest fuel'. fuel \<le> fuel' \<longrightarrow> read_multi v fuel inp = Inr (rs, rest) \<longrightarrow> read_multi v fuel' (inp @ extra) = Inr (rs, rest @ extra))
   \<and> (\<forall>op inp r rest fuel'. fuel \<le> fuel' \<longrightarrow> read_request fuel op inp = Inr (r, rest) \<longrightarrow> read_request fuel' op (inp @ extra) = Inr (r, rest @ extra))"
proof -
  have request: "read_request fuel' op (inp @ extra) = Inr (r, rest @ extra)"
    if "read_request fuel op inp = Inr (r, rest)"
      "\<And>v inp rs rest. read_multi v fuel inp = Inr (rs, rest) \<Longrightarrow> read_multi v fuel' (inp @ extra) = Inr (rs, rest @ extra)"
    for fuel fuel' op inp r rest
    using that by (auto simp: read_request.simps res_bind_Inr_iff dest: extendsD [OF extends_simple] split: if_splits)
  show ?thesis
  proof (induction fuel)
    case 0
    then show ?case using request [of 0] by simp
  next
    case (Suc fuel)
    have multi: "read_multi v fuel' (inp @ extra) = Inr (rs, rest @ extra)"
      if le: "Suc fuel \<le> fuel'" and m: "read_multi v (Suc fuel) inp = Inr (rs, rest)" for v inp rs rest fuel'
    proof -
      obtain f where f: "fuel' = Suc f" "fuel \<le> f" using le by (cases fuel') auto
      show ?thesis unfolding f(1) by (rule read_multi_extends_step [OF _ _ m]) (use Suc.IH f(2) in blast)+
    qed
    then show ?case using request [of "Suc fuel"] by blast
  qed
qed

text \<open>Reading a request from the server's buffer, with the fuel that the length of the buffer gives.\<close>

lemma receiveRequest_extends: "extends (receiveRequest flags u)"
proof -
  have multi: "extends (\<lambda>inp. read_multi v (Suc (length inp)) inp)" for v
    unfolding extends_def
  proof (intro allI impI)
    fix inp x rest extra assume "read_multi v (Suc (length inp)) inp = Inr (x, rest)"
    with read_request_extends_aux [of "Suc (length inp)" extra]
    show "read_multi v (Suc (length (inp @ extra))) (inp @ extra) = Inr (x, rest @ extra)" by (simp del: read_multi.simps)
  qed
  have valid: "extends (\<lambda>rest. res_bind (request_validator flags request) (\<lambda>_. Inr (x, rest)))" for request and x :: "op_num \<times> int \<times> zk_request"
    by (cases "request_validator flags request") (simp_all add: extends_def)
  have "extends (read_xid u)" by (cases u) (simp_all add: read_xid_def extending)
  then show ?thesis unfolding receiveRequest_def by (intro extending multi valid extends_simple)
qed

text \<open>C22: a message that is cut off anywhere is refused: from no proper part of what a client writes the server reads
  a request, and it never takes the beginning of a message for a message.\<close>

theorem cut_message_refused:
  assumes "wire_ok r" "xid_ok u xid" "admitted flags r" "write_request_message u xid r = part @ missing" "missing \<noteq> []"
  shows "\<exists>e. receiveRequest flags u part = Inl e"
proof (cases "receiveRequest flags u part")
  case (Inr res)
  obtain x rest where "res = (x, rest)" by (cases res)
  then have "receiveRequest flags u (part @ missing) = Inr (x, rest @ missing)"
    using extendsD [OF receiveRequest_extends] Inr by blast
  moreover have "receiveRequest flags u (part @ missing) = Inr ((getOpNum r, xid, received r), [])"
    using receiveRequest_write [OF assms(1,2), of flags "[]"] assms(3,4) by simp
  ultimately show ?thesis using assms(5) by simp
qed simp

theorem cut_message_refused_witness:
  "\<exists>e. receiveRequest [0] False (butlast (write_request_message False 3 (GetRequest ''/a'' True))) = Inl e"
proof -
  let ?m = "write_request_message False 3 (GetRequest ''/a'' True)"
  have "?m \<noteq> []" by (simp add: write_request_message_def Let_def)
  then have "?m = butlast ?m @ [last ?m]" by simp
  then show ?thesis
    by (intro cut_message_refused [where r = "GetRequest ''/a'' True" and xid = 3 and missing = "[last ?m]"])
       (simp_all add: string_ok_def xid_ok_def del: append_butlast_last_id)
qed

end
