(* ===== verification/Keeper_Typing.thy ===== *)
theory Keeper_Typing
  imports Keeper_Process
begin

section \<open>Every answer has the type of its request\<close>

text \<open>
  The client reads a response into the object that \<open>makeResponse\<close> of its request made, and
  \<open>fillLogElements\<close> (\<open>src/src/Common/ZooKeeper/ZooKeeperCommon.cpp\<close>) asserts that the operation numbers
  agree. This theory shows that \<open>process\<close> keeps to it: the response of a request has the class that
  \<open>makeResponse\<close> gives it, and a \<open>Multi\<close> is answered by one response for each subrequest, of the class of the
  subrequest or, when the \<open>Multi\<close> failed, an error response.
\<close>

fun multi_responses :: "response_body \<Rightarrow> zk_response list" where
  "multi_responses (MultiWriteBody rs) = rs"
| "multi_responses (MultiReadBody rs) = rs"
| "multi_responses _ = []"

lemma size_nth [termination_simp]: "i < length rs \<Longrightarrow> size (rs ! i) < Suc (size_list size rs)"
  using size_list_estimation' [of "rs ! i" rs "size (rs ! i)" size] by simp

fun typed_answer :: "zk_request \<Rightarrow> zk_response \<Rightarrow> bool" where
  "typed_answer (MultiRequest ty rs) resp \<longleftrightarrow>
     response_getOpNum (resp_body resp) = Some (getOpNum (MultiRequest ty rs))
     \<and> length (multi_responses (resp_body resp)) = length rs
     \<and> (\<forall>i < length rs. let sub = multi_responses (resp_body resp) ! i in
          resp_body sub = ErrorBody \<or> typed_answer (rs ! i) sub)"
| "typed_answer r resp \<longleftrightarrow> response_getOpNum (resp_body resp) = response_getOpNum (resp_body (makeResponse r))"

lemma resp_body_response_of [simp]: "resp_body (response_of e b) = b"
  by (simp add: response_of_def)

lemma after_commit_body:
  assumes "after_commit ctx ds b k s = Inr (resp, s')" "\<And>s1. k s1 = Inr (resp, s') \<Longrightarrow> P (resp_body resp)" "P b"
  shows "P (resp_body resp)"
  using assms by (auto simp: after_commit_def res_bind_Inr_iff split: if_splits)

lemma read_node_body:
  assumes "read_node is_local p b msg f s = Inr (resp, s')" "\<And>n. f n = Inr resp \<Longrightarrow> P (resp_body resp)" "P b"
  shows "P (resp_body resp)"
  using assms by (auto simp: read_node_def res_bind_Inr_iff split: option.splits if_splits)

lemma get_body_op: "get_body ctx l p s = Inr (resp, s') \<Longrightarrow> response_getOpNum (resp_body resp) = Some OpGet"
  by (auto simp: get_body_def split: if_splits elim!: read_node_body)

lemma exists_body_op: "exists_body l p s = Inr (resp, s') \<Longrightarrow> response_getOpNum (resp_body resp) = Some OpExists"
  by (auto simp: exists_body_def elim!: read_node_body)

lemma list_body_op:
  "list_body l k p s = Inr (resp, s') \<Longrightarrow>
     response_getOpNum (resp_body resp) = Some (if k = SimpleList then OpSimpleList else OpList)"
  by (auto simp: list_body_def Let_def res_bind_Inr_iff split: if_splits elim!: read_node_body)

lemma check_body_op:
  "check_body l p v ne s = Inr (resp, s') \<Longrightarrow> response_getOpNum (resp_body resp) = Some (if ne then OpCheckNotExists else OpCheck)"
  by (auto simp: check_body_def Let_def split: if_splits option.splits)

lemma get_acl_body_op: "get_acl_body l p s = Inr (resp, s') \<Longrightarrow> response_getOpNum (resp_body resp) = Some OpGetACL"
  by (auto simp: get_acl_body_def res_bind_Inr_iff elim!: read_node_body)

lemma stat_after_commit_body:
  assumes "stat_after_commit ctx p ds body msg s = Inr (resp, s')"
  shows "\<exists>st. resp_body resp = body st"
  using assms unfolding stat_after_commit_def
  by (rule after_commit_body [where P = "\<lambda>b. \<exists>st. b = body st"]) (auto elim!: read_node_body [where P = "\<lambda>b. \<exists>st. b = body st"])

lemma process_create_op:
  "process_create ctx c ds s = Inr (resp, s') \<Longrightarrow>
     response_getOpNum (resp_body resp) = Some (if cr_not_exists c then OpCreateIfNotExists else OpCreate)"
  by (auto simp: process_create_def Let_def split: if_splits elim!: after_commit_body)

lemma failed_multi_answers:
  assumes "failed_responses rs errors = Inr responses"
  shows "length responses = length rs" "\<forall>i < length rs. resp_body (responses ! i) = ErrorBody"
  using assms by (auto simp: failed_responses_def split: if_splits)

lemma multi_answers:
  assumes "length responses = length rs" "\<forall>i < length rs. resp_body (responses ! i) = ErrorBody \<or> typed_answer (rs ! i) (responses ! i)"
  shows "typed_answer (MultiRequest ty rs)
    (response_of e ((if getOpNum (MultiRequest ty rs) = OpMulti then MultiWriteBody else MultiReadBody) responses))"
  using assms by (cases ty) (auto simp: Let_def split: multi_type.splits)

lemma make_list_response [simp]:
  "response_getOpNum (resp_body (makeResponse (ListRequest k p w))) = Some (if k = SimpleList then OpSimpleList else OpList)"
  by (cases k) simp_all

lemma process_multi_answers:
  assumes "process ctx (MultiRequest ty rs) ds s = Inr (resp, s')"
    and all: "\<And>responses s1. ds \<noteq> [] \<Longrightarrow> is_failed_multi (hd ds) = None \<Longrightarrow> process_all ctx rs ds s = Inr (responses, s1) \<Longrightarrow>
      length responses = length rs \<and> (\<forall>i < length rs. typed_answer (rs ! i) (responses ! i))"
  shows "typed_answer (MultiRequest ty rs) resp"
proof (cases "is_failed_multi (hd ds)")
  case None
  then obtain responses s1 where "process_all ctx rs ds s = Inr (responses, s1)" "ds \<noteq> []"
    "resp = response_of ZOK ((if getOpNum (MultiRequest ty rs) = OpMulti then MultiWriteBody else MultiReadBody) responses)"
    using assms(1) by (auto simp: Let_def res_bind_Inr_iff simp del: getOpNum.simps split: if_splits)
  then show ?thesis using all [of responses s1] None multi_answers [of responses rs ty ZOK] by simp
next
  case (Some failed)
  then obtain responses where "failed_responses rs (fst failed) = Inr responses"
    "resp = response_of (snd failed) ((if getOpNum (MultiRequest ty rs) = OpMulti then MultiWriteBody else MultiReadBody) responses)"
    using assms(1) by (cases failed) (auto simp: Let_def res_bind_Inr_iff simp del: getOpNum.simps split: if_splits)
  then show ?thesis using failed_multi_answers [of rs "fst failed" responses] multi_answers [of responses rs ty "snd failed"] by simp
qed

lemma process_answers_aux:
  "process ctx r ds s = Inr (resp, s') \<Longrightarrow> typed_answer r resp"
  "process_all ctx rs ds s = Inr (resps, s') \<Longrightarrow>
     length resps = length rs \<and> (\<forall>i < length rs. typed_answer (rs ! i) (resps ! i))"
proof (induction ctx r ds s and ctx rs ds s arbitrary: resp s' and resps s' rule: process_process_all.induct)
  case (15 ctx ty rs ds s)
  show ?case by (rule process_multi_answers [OF "15.prems"], rule "15.IH") auto
next
  case (19 ctx r rs ds s)
  then show ?case
    by (auto simp: Let_def res_bind_Inr_iff nth_Cons' split: prod.splits)
qed (auto simp: res_bind_Inr_iff dest!: process_create_op get_body_op list_body_op stat_after_commit_body elim!: after_commit_body
     dest: exists_body_op check_body_op get_acl_body_op)

text \<open>C15. Whatever the deltas of a request are, the response that \<open>process\<close> computes has the type of the request:
  its class is that of \<open>makeResponse\<close>, and a \<open>Multi\<close> has one response for each subrequest, of its type or an
  error response.\<close>

theorem answers_have_request_type:
  assumes "process ctx r ds s = Inr (resp, s')"
  shows "typed_answer r resp"
  using assms by (rule process_answers_aux)

theorem answers_have_request_type_witness:
  "\<forall>ctx s. typed_answer (MultiRequest (Some WriteOps) [CheckRequest ''/b'' 1 False])
     (response_of ZNONODE (MultiWriteBody [response_of ZNONODE ErrorBody]))"
proof (intro allI)
  fix ctx :: keeper_context and s :: storage
  show "typed_answer (MultiRequest (Some WriteOps) [CheckRequest ''/b'' 1 False])
     (response_of ZNONODE (MultiWriteBody [response_of ZNONODE ErrorBody]))"
    by (rule answers_have_request_type [of ctx _ "[Delta [] 1 (FailedMultiDelta [ZNONODE] ZNONODE)]" s _ s])
       (simp add: is_failed_multi_def failed_responses_def)
qed

end
