(* ===== verification/Keeper_Delivery.thy ===== *)
theory Keeper_Delivery
  imports Keeper_Typing Log_Entry
begin

section \<open>From the client to the replicas and back\<close>

text \<open>
  The path of a request through the components: the client writes it, the handler of the server reads it, the
  dispatcher makes a log entry of it, the leader completes the entry, and every replica parses it; the response
  of the storage is then written to the client.
\<close>

lemma received_received [simp]: "received (received r) = received r"
proof (induction r)
  case (MultiRequest ty rs)
  then show ?case by (auto simp: comp_def)
qed simp_all

lemma wire_ok_received [simp]: "wire_ok (received r) = wire_ok r"
proof (induction r)
  case (MultiRequest ty rs)
  then show ?case by auto
qed simp_all

lemma write_request_received [simp]: "write_request (received r) = write_request r"
proof (induction r)
  case (MultiRequest ty rs)
  then show ?case by (auto simp: comp_def cong: map_cong)
qed (simp_all add: create_flags_def)

lemma request_bytes_received [simp]: "request_bytes (received r) = request_bytes r"
  by (simp add: request_bytes_def)

text \<open>C13. A request that a client sends over a connection reaches every replica as it was sent: the server reads it
  from the message, and from the log entry that is made of it and completed by the leader each replica parses the same
  session, \<open>xid\<close>, time, transaction and digest, and the request with the fields that are not sent reset.\<close>

theorem request_reaches_replicas:
  assumes "wire_ok r" "xid_ok u xid" "admitted flags r" "length (request_bytes r) < 2 ^ 30"
    and "int64_ok session_id" "int64_ok time" "int64_ok zxid" "digest_ok d" "ld_version d \<noteq> 0"
  shows "\<exists>request pe pe' rfs.
      receiveRequest flags u (write_request_message u xid r) = Inr ((getOpNum r, xid, request), [])
    \<and> rfs = \<lparr>lr_session_id = session_id, lr_time = time, lr_request = request, lr_xid = xid, lr_zxid = 0, lr_digest = None, lr_use_xid_64 = u\<rparr>
    \<and> parseRequest m now False (getZooKeeperLogEntry rfs) (\<lambda>_ _. None) = Inr pe
    \<and> parseRequest m' now' final
        (preAppendLogLeader memory (pe_version pe) (pe_request_end_position pe) (lr_time (pe_request pe)) zxid d
           (getZooKeeperLogEntry rfs)) (\<lambda>_ _. None) = Inr pe'
    \<and> pe_request pe' = \<lparr>lr_session_id = session_id, lr_time = time, lr_request = received r, lr_xid = xid, lr_zxid = zxid,
                          lr_digest = Some d, lr_use_xid_64 = False\<rparr>"
proof -
  let ?rfs = "\<lparr>lr_session_id = session_id, lr_time = time, lr_request = received r, lr_xid = xid, lr_zxid = 0, lr_digest = None, lr_use_xid_64 = u\<rparr>"
  have ok: "fits_entry ?rfs" using assms by (simp add: fits_entry_def)
  have d: "digest_written \<lparr>ld_version = 0, ld_value = 0\<rparr> d = d" using assms(9) by (simp add: digest_written_def)
  note leader = parse_entry [of ?rfs 0 _ "\<lambda>_ _. None", OF ok no_digest_ok refl, of m now False]
  note replica = parse_entry [of ?rfs zxid d "\<lambda>_ _. None", OF ok assms(7,8) refl, of m' now' final]
  have "receiveRequest flags u (write_request_message u xid r) = Inr ((getOpNum r, xid, received r), [])"
    using receiveRequest_write [OF assms(1,2), of flags "[]"] assms(3) by simp
  then show ?thesis
    using preAppend_entry [of memory ?rfs]
    by (intro exI [of _ "received r"], simp add: getZooKeeperLogEntry_bytes leader del: received.simps)
       (simp add: replica d logged_fields)
qed

theorem request_reaches_replicas_witness:
  "\<exists>request pe pe' rfs.
      receiveRequest [0] True (write_request_message True (2 ^ 40) (SetRequest ''/a'' ''x'' 3)) = Inr ((OpSet, 2 ^ 40, request), [])
    \<and> rfs = \<lparr>lr_session_id = 1, lr_time = 9, lr_request = request, lr_xid = 2 ^ 40, lr_zxid = 0, lr_digest = None, lr_use_xid_64 = True\<rparr>
    \<and> parseRequest 0 0 False (getZooKeeperLogEntry rfs) (\<lambda>_ _. None) = Inr pe
    \<and> parseRequest 0 0 True
        (preAppendLogLeader (\<lambda>_. 0) (pe_version pe) (pe_request_end_position pe) (lr_time (pe_request pe)) 7
           \<lparr>ld_version = 4, ld_value = 99\<rparr> (getZooKeeperLogEntry rfs)) (\<lambda>_ _. None) = Inr pe'
    \<and> pe_request pe' = \<lparr>lr_session_id = 1, lr_time = 9, lr_request = SetRequest ''/a'' ''x'' 3, lr_xid = 2 ^ 40, lr_zxid = 7,
                          lr_digest = Some \<lparr>ld_version = 4, ld_value = 99\<rparr>, lr_use_xid_64 = False\<rparr>"
proof -
  have "wire_ok (SetRequest ''/a'' ''x'' 3)" "xid_ok True (2 ^ 40)" "admitted [0] (SetRequest ''/a'' ''x'' 3)"
    "length (request_bytes (SetRequest ''/a'' ''x'' 3)) < 2 ^ 30" "int64_ok 1" "int64_ok 9" "int64_ok 7"
    "digest_ok \<lparr>ld_version = 4, ld_value = 99\<rparr>" "ld_version \<lparr>ld_version = 4, ld_value = 99\<rparr> \<noteq> 0"
    by (simp_all add: string_ok_def xid_ok_def int64_ok_def digest_ok_def request_bytes_def size_string_def)
  from request_reaches_replicas [OF this, of 0 0 0 0 True "\<lambda>_. 0"] show ?thesis
    unfolding received.simps getOpNum.simps .
qed

subsection \<open>The way back\<close>

lemma answers_simple: "\<not> is_multi r \<Longrightarrow> typed_answer r resp \<Longrightarrow> response_getOpNum (resp_body resp) = response_getOpNum (resp_body (makeResponse r))"
  by (cases r) (simp_all del: makeResponse.simps)

lemma make_simple_body: "\<not> is_multi r \<Longrightarrow> response_getOpNum (resp_body (makeResponse r)) \<notin> {None, Some OpMulti, Some OpMultiRead}"
proof (cases r)
  case (ListRequest k p w)
  then show ?thesis by (simp del: makeResponse.simps)
qed simp_all

lemma body_ok_simple: "response_getOpNum b \<notin> {None, Some OpMulti, Some OpMultiRead} \<Longrightarrow> body_ok b"
  by (cases b) simp_all

lemma body_ok_multi:
  "body_ok b" if "response_getOpNum b \<noteq> None"
    "\<And>q. q \<in> set (multi_responses b) \<Longrightarrow> response_getOpNum (resp_body q) \<noteq> None \<and> body_ok (resp_body q)"
  using that by (cases b) simp_all

lemma answers_body_ok: "typed_answer r resp \<Longrightarrow> response_getOpNum (resp_body resp) \<noteq> None \<and> body_ok (resp_body resp)"
proof (induction r arbitrary: resp)
  case (MultiRequest ty rs)
  have op: "response_getOpNum (resp_body resp) \<noteq> None" using MultiRequest.prems by simp
  have "body_ok (resp_body resp)"
  proof (rule body_ok_multi [OF op])
    fix q assume "q \<in> set (multi_responses (resp_body resp))"
    then obtain i where i: "i < length rs" "q = multi_responses (resp_body resp) ! i"
      using MultiRequest.prems by (auto simp: in_set_conv_nth)
    then have "resp_body q = ErrorBody \<or> typed_answer (rs ! i) q" using MultiRequest.prems by (simp add: Let_def)
    then show "response_getOpNum (resp_body q) \<noteq> None \<and> body_ok (resp_body q)"
      using MultiRequest.IH [of "rs ! i" q] i(1) by auto
  qed
  with op show ?case by blast
qed (use answers_simple make_simple_body body_ok_simple in \<open>metis insertCI is_multi.simps\<close>)+

text \<open>C14. Whatever the storage answers, the server can send: the response of \<open>process\<close> with its \<open>xid\<close> and transaction
  is written as one message with its own length in front.\<close>

theorem every_answer_can_be_sent:
  assumes "process ctx r ds s = Inr (resp, s')"
  shows "\<exists>bs. write_response_message u (set_ids xid zxid resp) = Inr bs \<and> bs \<noteq> []
    \<and> (length bs < 2 ^ 31 \<longrightarrow> read_int32 bs = Inr (int (length bs) - 4, drop 4 bs))"
proof -
  have ok: "response_getOpNum (resp_body resp) \<noteq> None" "body_ok (resp_body resp)"
    using answers_body_ok [OF process_answers_aux(1) [OF assms]] by blast+
  then have "\<not> (\<exists>ty state p. resp_body (set_ids xid zxid resp) = WatchBody ty state p)"
    by (auto simp: set_ids_def)
  then show ?thesis
    using write_message_frame [of "set_ids xid zxid resp" u] ok(2) by (auto simp: set_ids_def)
qed

theorem every_answer_can_be_sent_witness:
  "\<forall>ctx. process ctx (SyncRequest ''/a'') [] (base_storage 500 []) = Inr (response_of ZOK (SyncBody ''/a''), base_storage 500 [])
    \<and> (\<exists>bs. write_response_message False (set_ids 3 9 (response_of ZOK (SyncBody ''/a''))) = Inr bs \<and> bs \<noteq> [])"
proof
  fix ctx
  have p: "process ctx (SyncRequest ''/a'') [] (base_storage 500 []) = Inr (response_of ZOK (SyncBody ''/a''), base_storage 500 [])"
    by simp
  with every_answer_can_be_sent [OF p, of False 3 9]
  show "process ctx (SyncRequest ''/a'') [] (base_storage 500 []) = Inr (response_of ZOK (SyncBody ''/a''), base_storage 500 [])
    \<and> (\<exists>bs. write_response_message False (set_ids 3 9 (response_of ZOK (SyncBody ''/a''))) = Inr bs \<and> bs \<noteq> [])"
    by blast
qed

end
