(* ===== verification/Spec2Isabelle.thy ===== *)
theory Spec2Isabelle
  imports Keeper_Steps Keeper_Digest Snapshot_Table Zk_Prefix Keeper_Delivery
begin

text \<open>
  \<^bold>\<open>ClickHouse Keeper\<close>

  This development verifies the coordination service of ClickHouse: the replicated tree of nodes that
  \<^verbatim>\<open>src/src/Coordination\<close> implements with the protocol of \<^verbatim>\<open>src/src/Common/ZooKeeper\<close>. A request first
  enters the log; every replica preprocesses it (\<^verbatim>\<open>KeeperStorage::preprocessRequest\<close>), which checks
  access, computes the deltas of the request on the uncommitted state and applies them there; when the
  log entry is committed, \<^verbatim>\<open>processRequest\<close> applies the deltas to the committed tree, answers the
  client and fires watches; an entry that is not committed is undone by \<^verbatim>\<open>rollbackRequest\<close>.

  \<^bold>\<open>The model, theory by theory\<close>

  \<^item> \<^verbatim>\<open>Prelude\<close>: results with failures, folds over them, ordered maps and hash sets as lists.
  \<^item> \<^verbatim>\<open>Keeper_Types\<close> (\<^verbatim>\<open>IKeeper.h\<close>, \<^verbatim>\<open>ZooKeeperConstants\<close>, \<^verbatim>\<open>ZooKeeperCommon\<close>): error codes, operation
    numbers, requests, responses, statistics and ACLs. \<^verbatim>\<open>Keeper_Paths\<close> (\<^verbatim>\<open>KeeperCommon.cpp\<close>,
    \<^verbatim>\<open>KeeperStorage.cpp\<close>): parents, base names and prefix matching of paths.
  \<^item> \<^verbatim>\<open>Acl_Map\<close> (\<^verbatim>\<open>ACLMap.cpp\<close>): interned, reference-counted ACL lists. \<^verbatim>\<open>Session_Expiry\<close>
    (\<^verbatim>\<open>SessionExpiryQueue.cpp\<close>): sessions in buckets of rounded deadlines. \<^verbatim>\<open>Sip_Hash\<close>
    (\<^verbatim>\<open>SipHash.h\<close>): the hash of the node digests on 64-bit words.
  \<^item> \<^verbatim>\<open>Snapshot_Table\<close> (\<^verbatim>\<open>SnapshotableHashTable.h\<close>): the container of the nodes with its list, its hash map,
    the memory of its keys and the snapshot mode. The storage model uses the map that this theory shows
    the container to implement.
  \<^item> \<^verbatim>\<open>Keeper_Node\<close>, \<^verbatim>\<open>Keeper_Storage\<close> (\<^verbatim>\<open>KeeperStorage.h\<close>): nodes with their union of ephemeral owner
    and children counter, deltas, uncommitted state, transactions and the storage record.
  \<^item> \<^verbatim>\<open>Keeper_Uncommitted\<close> (\<^verbatim>\<open>UncommittedState\<close>): loading, applying, rolling back, cleaning up.
    \<^verbatim>\<open>Keeper_Commit\<close>: \<^verbatim>\<open>commit\<close>, \<^verbatim>\<open>createNode\<close>, \<^verbatim>\<open>removeNode\<close>, the system nodes and the constructor.
  \<^item> \<^verbatim>\<open>Keeper_Preprocess\<close>, \<^verbatim>\<open>Keeper_Requests\<close>: access checks and the \<^verbatim>\<open>preprocess\<close> function of every
    request, \<^verbatim>\<open>Multi\<close>, \<^verbatim>\<open>Close\<close>, \<^verbatim>\<open>RemoveRecursive\<close>, \<^verbatim>\<open>preprocessRequest\<close>, \<^verbatim>\<open>rollbackRequest\<close>.
    \<^verbatim>\<open>Keeper_Process\<close>: \<^verbatim>\<open>process\<close> and \<^verbatim>\<open>processLocal\<close> of every request, watches, \<^verbatim>\<open>processRequest\<close>,
    sessions.
  \<^item> \<^verbatim>\<open>Zk_Wire\<close> (\<^verbatim>\<open>ZooKeeperIO\<close>, \<^verbatim>\<open>ZooKeeperCommon.cpp\<close>): requests as bytes, with a reader, a writer and a
    size for each class, and the request factory. \<^verbatim>\<open>Zk_Response\<close>: responses as bytes and the framing of
    messages. \<^verbatim>\<open>Keeper_Features\<close> (\<^verbatim>\<open>KeeperFeatureFlags.cpp\<close>, \<^verbatim>\<open>KeeperContext.cpp\<close>): the optional
    operations of a server. \<^verbatim>\<open>Keeper_Connection\<close> (\<^verbatim>\<open>KeeperTCPHandler.cpp\<close>, \<^verbatim>\<open>ZooKeeperImpl.cpp\<close>): the
    handshake of both sides and the reading of a request. \<^verbatim>\<open>Log_Entry\<close> (\<^verbatim>\<open>KeeperStateMachine.cpp\<close>,
    \<^verbatim>\<open>KeeperServer.cpp\<close>): the entries of the log, the callback in which the leader completes them,
    and the cache of parsed requests, whose objects the leader, \<^verbatim>\<open>pre_commit\<close> and \<^verbatim>\<open>commit\<close> share and assign to.
  \<^item> \<^verbatim>\<open>Keeper_Snapshot\<close> (\<^verbatim>\<open>KeeperSnapshotManager.cpp\<close>, \<^verbatim>\<open>VarInt.h\<close>): taking a snapshot of a storage, \<^verbatim>\<open>serialize\<close>,
    and \<^verbatim>\<open>deserialize\<close> for all formats. The consensus library, which turns its metadata into bytes, is an argument.

  Stateful code passes the storage record along and returns a result: \<^verbatim>\<open>Inl\<close> carries a thrown
  exception, a call of \<^verbatim>\<open>onStorageInconsistency\<close> (which terminates the server), an operation whose
  behaviour the language leaves undefined (a null node, a stale iterator, the front of an empty
  range), or a loop that does not end. Zxids, versions, times and counters of children are unbounded
  integers; the data size wraps at 32 bits, the digest at 64 bits and the observed nodes of a recursive
  removal at 32 bits, as in the code. The clock, the cluster configuration and the SHA-1 digest are
  arguments. The only unbounded loop of the storage, the search of the recursive removal, is a partial
  function. The reader of requests takes the number of headers it may read as fuel; one more than the
  number of bytes is enough, because every header takes nine bytes. The depth of the stack is not modelled: the
  code reads a \<^verbatim>\<open>Multi\<close> inside a \<^verbatim>\<open>Multi\<close> by a recursive call. Messages are lists of 8-bit words.

  \<^bold>\<open>The specification and what is shown\<close>

  \<^item> \<^verbatim>\<open>Keeper_View\<close> gives the specification: a tree is a map from paths to statistics, data and ACLs, and
    a delta is an update of it. \<^verbatim>\<open>cview\<close> is the tree of the committed container, \<^verbatim>\<open>uview\<close> the tree the
    request handlers see.
  \<^item> \<^verbatim>\<open>Keeper_Apply\<close> and \<^verbatim>\<open>Keeper_Refine\<close>: loading nodes and checking access leave both trees alone;
    \<^verbatim>\<open>applyDeltas\<close> carries out the abstract updates. \<^verbatim>\<open>Keeper_Rollback\<close>: rolling back undoes them.
    \<^verbatim>\<open>Keeper_Commit_Refine\<close>: \<^verbatim>\<open>commit\<close> carries out the abstract updates on the committed tree and keeps
    the counters of ACL uses and the map of ephemeral nodes exact. \<^verbatim>\<open>Keeper_Sync\<close>: the relation between
    the two trees and the pending deltas, and how commit, cleanup, apply and rollback keep it.
  \<^item> \<^verbatim>\<open>Keeper_Tree\<close>: the invariant of the trees. \<^verbatim>\<open>Keeper_Handlers\<close>: what every request handler does to
    the tree; its deltas fit, keep the invariant, leave the system nodes alone, date the nodes they modify
    and can be undone. \<^verbatim>\<open>Keeper_Transactions\<close>: digests, the
    subrequests of \<^verbatim>\<open>Multi\<close>, the end of preprocessing. \<^verbatim>\<open>Keeper_Close\<close>: the deltas of \<^verbatim>\<open>Close\<close>, which remove
    the ephemeral nodes of a session. \<^verbatim>\<open>Keeper_Watches\<close>: the tables of watches by path and by session agree.
    \<^verbatim>\<open>Keeper_Machine\<close>: the invariant of the storage
    with its pending requests, kept by preprocessing and rollback. \<^verbatim>\<open>Keeper_Init\<close>: the constructor
    establishes it. \<^verbatim>\<open>Keeper_Answers\<close>: commit keeps it, and every answer can be computed.
    \<^verbatim>\<open>Keeper_Restore\<close> and \<^verbatim>\<open>Keeper_Restart\<close>: reading what was written of a storage gives a storage with the
    same tree, sessions and counters in which the invariant holds. \<^verbatim>\<open>Keeper_Local\<close>: reads outside the log report the
    committed tree, check access on it and register watches. \<^verbatim>\<open>Keeper_Steps\<close>: the runs of the storage, with
    reads outside the log and restarts from snapshots, and how the answer to a request follows from its handler.
    \<^verbatim>\<open>Keeper_Digest\<close>: how the order of the deltas of \<open>SetACL\<close> leaves the old digest of its node in the digest of the tree.
  \<^item> \<^verbatim>\<open>Zk_Wire\<close> to \<^verbatim>\<open>Log_Entry\<close> show that what one side writes the other side reads: requests of a client,
    both directions of the handshake, and log entries of the leader, also those of older servers; that the
    lengths in front of messages are exact; that reading ends on every input; and (\<^verbatim>\<open>Zk_Prefix\<close>) that a
    message that was cut off is never taken for another one. \<^verbatim>\<open>Keeper_Connection\<close> and
    \<^verbatim>\<open>Log_Entry\<close> also state what the code accepts although it means to refuse it. \<^verbatim>\<open>Keeper_Typing\<close>: every
    answer has the type of its request. \<^verbatim>\<open>Keeper_Delivery\<close> puts the parts together: a request of a client
    reaches every replica as it was sent, and every answer can be written to the client.
  \<^item> This theory states the properties of all runs, requests that the code mistreats, and what is lost
    when a follower installs a snapshot.

  \<^bold>\<open>Limits\<close>

  The properties of the runs cover all requests but \<^verbatim>\<open>RemoveRecursive\<close>, \<^verbatim>\<open>Reconfig\<close>, an empty \<^verbatim>\<open>Multi\<close>
  and a \<^verbatim>\<open>Multi\<close> inside a \<^verbatim>\<open>Multi\<close>; these are modelled, but not part of the runs. \<^verbatim>\<open>Close\<close> is part of the
  runs for sessions other than 0, and what it removes is stated for a storage with nothing pending. A created path
  must be canonical (no empty component), and the path of a \<^verbatim>\<open>Remove\<close> or \<^verbatim>\<open>CheckNotExists\<close> must have a slash, because the
  code itself does not reject other paths; without a slash the behaviour is undefined. The context has the system node
  of the feature flags; that of the availability zone is optional, but a run reads it through the log only where it is
  configured, since otherwise the server terminates. The tick of the expiry queue is not 0. A restart from a snapshot is
  part of a run when the values of the storage fit their machine types. Not modelled: consensus, log and snapshot files,
  the dispatcher and its threads, sockets and compression, the readers of responses, the RocksDB container, statistics counters, and
  everything in ClickHouse outside the coordination service.
\<close>

section \<open>A demonstration storage\<close>

text \<open>The witnesses below run on the storage of this context.\<close>

definition demo_ctx :: keeper_context where
  "demo_ctx = \<lparr>kc_digest_enabled = True, kc_digest_enabled_on_commit = False, kc_server_state = RUNNING,
     kc_ignore_system_path_on_startup = False,
     kc_system_nodes_with_data = [(keeper_api_feature_flags_path, ''flags''), (keeper_availability_zone_path, ''zone'')],
     kc_cluster_config = ''server.1'', kc_base64_sha1 = (\<lambda>s. s)\<rparr>"

definition demo_create :: zk_request where
  "demo_create = CreateRequest \<lparr>cr_path = ''/a'', cr_data = ''x'', cr_is_ephemeral = False, cr_is_sequential = False,
     cr_acls = [], cr_not_exists = False, cr_parent_cversion = -1\<rparr>"

definition demo_multi :: zk_request where
  "demo_multi = MultiRequest (Some WriteOps) [demo_create, CheckRequest ''/b'' (-1) False]"

definition demo_auth :: delta where
  "demo_auth = Delta [] 1 (AddAuthDelta 7 0 \<lparr>au_scheme = ''digest'', au_ident = ''user''\<rparr>)"

definition demo_follower :: storage where
  "demo_follower = (base_storage 500 [])\<lparr>uncommitted := empty_uncommitted\<lparr>us_deltas := [demo_auth],
       us_session_and_auth := [7 \<mapsto> [(1, 0, \<lparr>au_scheme = ''digest'', au_ident = ''user''\<rparr>)]]\<rparr>,
     uncommitted_transactions := [\<lparr>ti_zxid = 1, ti_nodes_digest = \<lparr>kd_version = NO_DIGEST, kd_value = 0\<rparr>, ti_log_idx = 5\<rparr>]\<rparr>"

lemma demo_system_paths: "system_child keeper_api_feature_flags_path" "system_child keeper_availability_zone_path"
  by (simp_all add: system_child_def keeper_api_feature_flags_path_def keeper_availability_zone_path_def slash_def)

lemma demo_paths_distinct: "distinct [root, keeper_system_path, keeper_api_feature_flags_path, keeper_availability_zone_path]"
  by (simp add: keeper_api_feature_flags_path_def keeper_availability_zone_path_def keeper_system_path_def slash_def)

lemma demo_context_ok: "context_ok demo_ctx"
  using demo_system_paths demo_paths_distinct by (simp add: context_ok_def demo_ctx_def system_nodes_ok_def system_paths_open_def)

lemma demo_requests_ok: "admissible demo_ctx sid demo_create" "admissible demo_ctx sid demo_multi"
  by (simp_all add: admissible_def request_from_def demo_create_def demo_multi_def create_path_ok_def canonical_path_def slash_def)

lemma demo_start:
  obtains s where "reachable demo_ctx [] s" "keeper_inv [] s"
proof -
  obtain s where s: "new_storage demo_ctx 500 [] True = Inr s" "keeper_inv [] s"
    by (rule new_storage_keeper_inv [OF context_okD(1) [OF demo_context_ok], of 500 "[]"]) simp
  moreover have "reachable demo_ctx [] s" by (rule reachable.construct [OF _ s(1)]) simp
  ultimately show ?thesis using that by blast
qed

lemma demo_storage:
  obtains s r k where "new_storage demo_ctx 500 [] True = Inr s"
    "container s = [(root, r), (keeper_system_path, k), (keeper_api_feature_flags_path, system_node ''flags''), (keeper_availability_zone_path, system_node ''zone'')]"
    "mn_stats r = increaseNumChildren default_stats" "mn_data r = []" "mn_acl_id r = 0" "mn_stats k = default_stats" "mn_data k = []" "mn_acl_id k = 0"
    "length (mn_children r) \<le> 1" "length (mn_children k) \<le> 2"
    "acl_map_of s = empty_acl_map" "committed_zxid s = 0" "session_id_counter s = 1" "session_and_timeout s = Map.empty"
proof -
  note par = demo_system_paths [THEN system_child_facts(1)] demo_system_paths [THEN system_child_facts(4), THEN parentNodePath_canonical]
  have neq: "root \<noteq> keeper_system_path" "keeper_system_path \<noteq> root" "root \<noteq> keeper_api_feature_flags_path" "keeper_api_feature_flags_path \<noteq> root"
     "root \<noteq> keeper_availability_zone_path" "keeper_availability_zone_path \<noteq> root" "keeper_system_path \<noteq> keeper_api_feature_flags_path"
     "keeper_api_feature_flags_path \<noteq> keeper_system_path" "keeper_system_path \<noteq> keeper_availability_zone_path" "keeper_availability_zone_path \<noteq> keeper_system_path"
     "keeper_api_feature_flags_path \<noteq> keeper_availability_zone_path" "keeper_availability_zone_path \<noteq> keeper_api_feature_flags_path"
    using demo_paths_distinct by auto
  define r where "r = snd (getDigest root (invalidateDigestCache (addChild (getBaseNodeName keeper_system_path)
    ((snd (getDigest root (copy_node default_node)))\<lparr>mn_stats := increaseNumChildren (mn_stats default_node)\<rparr>))))"
  define k where "k = addChild (getBaseNodeName keeper_availability_zone_path) (addChild (getBaseNodeName keeper_api_feature_flags_path) (copy_node default_node))"
  let ?C = "[(root, r), (keeper_system_path, k), (keeper_api_feature_flags_path, system_node ''flags''), (keeper_availability_zone_path, system_node ''zone'')]"
  have base: "container (base_storage t x) = []" "nodes_digest (base_storage t x) = 0" "\<not> initialized (base_storage t x)" for t x by (simp_all add: base_storage_def)
  have "\<exists>D. new_storage demo_ctx 500 [] True = Inr ((base_storage 500 [])\<lparr>nodes_digest := D, container := ?C, initialized := True\<rparr>)"
    by (rule exI) (simp add: new_storage_def initializeSystemNodes_def insert_node_def find_node_def addDigest_def Let_def
    cache_digest_def removeDigest_def updateValue_def insert_system_node_def demo_ctx_def par neq root_literal system_node_def r_def k_def base)
  then obtain D where run: "new_storage demo_ctx 500 [] True = Inr ((base_storage 500 [])\<lparr>nodes_digest := D, container := ?C, initialized := True\<rparr>)" ..
  show ?thesis
    by (rule that [OF run, of r k]) (simp_all add: r_def k_def base_storage_def addChild_def copy_node_def assign_node_def default_node_def default_stats_def
      uset_insert_def invalidateDigestCache_def getDigest_def Let_def)
qed

lemma demo_storage_in_range:
  obtains s where "new_storage demo_ctx 500 [] True = Inr s" "storage_in_range 200 s"
proof -
  obtain s r k where s: "new_storage demo_ctx 500 [] True = Inr s"
    "container s = [(root, r), (keeper_system_path, k), (keeper_api_feature_flags_path, system_node ''flags''), (keeper_availability_zone_path, system_node ''zone'')]"
    "mn_stats r = increaseNumChildren default_stats" "mn_data r = []" "mn_acl_id r = 0" "mn_stats k = default_stats" "mn_data k = []" "mn_acl_id k = 0"
    "length (mn_children r) \<le> 1" "length (mn_children k) \<le> 2"
    "acl_map_of s = empty_acl_map" "committed_zxid s = 0" "session_id_counter s = 1" "session_and_timeout s = Map.empty"
    by (rule demo_storage) (rule that)
  have sys: "mn_stats (system_node d) = default_stats\<lparr>ns_data_size := length d mod 2 ^ 32\<rparr>" for d
    by (simp add: system_node_def copy_node_def assign_node_def setData_def default_node_def Let_def)
  have len: "length keeper_system_path = 7" "length keeper_api_feature_flags_path = 21" "length keeper_availability_zone_path = 25"
    by (simp_all add: keeper_system_path_def keeper_api_feature_flags_path_def keeper_availability_zone_path_def)
  have "storage_in_range 200 s"
    using demo_paths_distinct s
    by (simp add: storage_in_range_def sizeInBytes_def sys len acl_map_fits_def empty_acl_map_def int64_ok_def)
      (simp add: stats_in_range_def default_stats_def increaseNumChildren_def int64_ok_def int32_ok_def)
  then show ?thesis by (rule that [OF s(1)])
qed

lemma demo_pending:
  assumes "admissible demo_ctx 1 r"
  obtains s z where "reachable demo_ctx [r] s" "keeper_inv [r] s"
proof -
  obtain s where s: "reachable demo_ctx [] s" "keeper_inv [] s" by (rule demo_start)
  obtain ds s' where s': "preprocessRequest demo_ctx r 1 0 (getNextZXID s) True None 1 s = Inr s'" "keeper_inv ([] @ [r]) s'"
    by (rule preprocess_admissible [OF demo_context_ok s(1) assms order_refl])
  have "reachable demo_ctx ([] @ [r]) s'" by (rule reachable.preprocess [OF s(1) assms order_refl s'(1)])
  then show ?thesis using that s'(2) by simp
qed

section \<open>Runs of the storage\<close>

text \<open>
  C1. In every state that a storage reaches by preprocessing, committing and rolling back requests
  in any order, with reads outside the log, new sessions and restarts between them, the tree that the request handlers see is the committed tree with the pending deltas
  applied in order, every pending delta still fits the tree it will be committed to, and both trees
  are well formed: the root and the system node exist, parents exist and are not ephemeral, data have
  their recorded size, and the recorded numbers of children are exact.
\<close>

theorem reachable_storage_consistent:
  assumes "context_ok ctx" "reachable ctx rs s"
  shows "uview s = abs_deltas (us_deltas (uncommitted s)) (cview s)
    \<and> ok_deltas (us_deltas (uncommitted s)) (cview s) \<and> tree_inv (uview s) \<and> tree_inv (cview s)"
proof -
  have inv: "keeper_inv rs s" using reachable_inv [OF assms(2,1)] by simp
  then obtain dss where dss: "us_deltas (uncommitted s) = concat dss" "groups (uncommitted_transactions s) rs dss (cview s)"
    unfolding keeper_inv_def by blast
  have view: "uview s = abs_deltas (us_deltas (uncommitted s)) (cview s)" "ok_deltas (us_deltas (uncommitted s)) (cview s)"
    using syncD(2,3) [OF keeper_invD(2) [OF inv]] by simp_all
  moreover have "tree_inv (cview s)" using groups_tree [OF dss(2)] by simp
  moreover have "tree_inv (uview s)" unfolding view(1) dss(1) using groups_final [OF dss(2)] by simp
  ultimately show ?thesis by (intro conjI)
qed

theorem reachable_storage_consistent_witness:
  "\<exists>s. reachable demo_ctx [demo_create] s \<and> uview s = abs_deltas (us_deltas (uncommitted s)) (cview s) \<and> tree_inv (uview s)"
proof -
  obtain s where "reachable demo_ctx [demo_create] s" by (rule demo_pending [OF demo_requests_ok(1)])
  with reachable_storage_consistent [OF demo_context_ok this] show ?thesis by blast
qed



text \<open>
  C3. Committing never fails and commits what was preprocessed: on a reachable storage,
  \<open>processRequest\<close> of the oldest pending request returns, moves the deltas of its transaction from
  the pending list to the committed tree, answers the session last, and leaves the visible tree
  unchanged. In particular no inconsistency between uncommitted and committed data is found.
\<close>

theorem process_commits_pending:
  assumes "context_ok ctx" "reachable ctx (r # rs) s" "z = ti_zxid (hd (uncommitted_transactions s))"
  shows "\<exists>results resp s' ds. processRequest ctx now r xid sid (Some z) check_acl False s
             = Inr (results @ [\<lparr>rfs_session_id = sid, rfs_response = set_ids xid z resp\<rparr>], s')
           \<and> us_deltas (uncommitted s) = ds @ us_deltas (uncommitted s') \<and> (\<forall>d\<in>set ds. delta_zxid d = z)
           \<and> cview s' = abs_deltas ds (cview s) \<and> uview s' = uview s \<and> committed_zxid s' = z"
proof -
  have inv: "keeper_inv (r # rs) s" "request_logged r" using reachable_inv [OF assms(2,1)] by simp_all
  obtain results resp s' where s': "processRequest ctx now r xid sid (Some z) check_acl False s
      = Inr (results @ [\<lparr>rfs_session_id = sid, rfs_response = set_ids xid z resp\<rparr>], s')"
    "uview s' = uview s" "committed_zxid s' = z"
    "\<exists>ds. us_deltas (uncommitted s) = ds @ us_deltas (uncommitted s') \<and> step_ok z ds (cview s) \<and> answered z r ds (cview s) \<and> cview s' = abs_deltas ds (cview s)"
    by (rule processRequest_keeps [OF inv assms(3)])
  from s'(4) obtain ds where ds: "us_deltas (uncommitted s) = ds @ us_deltas (uncommitted s')" "step_ok z ds (cview s)" "cview s' = abs_deltas ds (cview s)"
    by blast
  have "\<forall>d\<in>set ds. delta_zxid d = z" using step_okD(1) [OF ds(2)] by blast
  then show ?thesis
    using s'(1-3) ds(1,3) by (intro exI [of _ results] exI [of _ resp] exI [of _ s'] exI [of _ ds] conjI)
qed

theorem process_commits_pending_witness:
  "\<exists>s results s'. reachable demo_ctx [demo_create] s
     \<and> processRequest demo_ctx 0 demo_create 7 1 (Some (ti_zxid (hd (uncommitted_transactions s)))) True False s = Inr (results, s')"
proof -
  obtain s where s: "reachable demo_ctx [demo_create] s" by (rule demo_pending [OF demo_requests_ok(1)])
  from process_commits_pending [OF demo_context_ok s refl, of 0 7 1 True] obtain results resp s' where
    "processRequest demo_ctx 0 demo_create 7 1 (Some (ti_zxid (hd (uncommitted_transactions s)))) True False s = Inr (results @ [resp], s')"
    by auto
  with s show ?thesis by (intro exI conjI)
qed

text \<open>
  C4. Rolling back undoes preprocessing: after a request has been preprocessed on a reachable
  storage, \<open>rollbackRequest\<close> of its transaction returns and restores the visible tree, the committed
  tree and the list of pending deltas.
\<close>

theorem rollback_undoes_preprocess:
  assumes "context_ok ctx" "reachable ctx rs s" "admissible ctx sid r" "getNextZXID s \<le> z"
    and "preprocessRequest ctx r sid time z check_acl digest log_idx s = Inr s1"
  shows "\<exists>s2. rollbackRequest z allow_missing s1 = Inr s2 \<and> uview s2 = uview s \<and> cview s2 = cview s
           \<and> us_deltas (uncommitted s2) = us_deltas (uncommitted s)"
proof -
  have inv: "keeper_inv rs s" using reachable_inv [OF assms(2,1)] by simp
  obtain ds s' where s': "preprocessRequest ctx r sid time z check_acl digest log_idx s = Inr s'" "keeper_inv (rs @ [r]) s'"
    "cview s' = cview s" "ti_zxid (last (uncommitted_transactions s')) = z"
    "us_deltas (uncommitted s') = us_deltas (uncommitted s) @ ds" "step_ok z ds (uview s)"
    "\<forall>d\<in>set (us_deltas (uncommitted s)). delta_zxid d \<noteq> z"
    by (rule preprocess_admissible [OF assms(1-4)])
  have eq: "s1 = s'" using s'(1) assms(5) by simp
  obtain s2 where s2: "rollbackRequest z allow_missing s1 = Inr s2" "keeper_inv rs s2" "cview s2 = cview s1"
    "us_deltas (uncommitted s2) = filter (\<lambda>d. delta_zxid d \<noteq> z) (us_deltas (uncommitted s1))"
    unfolding eq by (rule rollbackRequest_keeps [OF s'(2) s'(4) [symmetric]])
  have "filter (\<lambda>d. delta_zxid d \<noteq> z) ds = []" using step_okD(1) [OF s'(6)] by simp
  then have us: "us_deltas (uncommitted s2) = us_deltas (uncommitted s)"
    using s2(4) s'(5,7) eq by simp
  moreover have "uview s2 = uview s"
    using syncD(2) [OF keeper_invD(2) [OF s2(2)]] syncD(2) [OF keeper_invD(2) [OF inv]] us s2(3) s'(3) eq by simp
  ultimately show ?thesis
    using s2(1,3) s'(3) eq by (intro exI [of _ s2] conjI) simp_all
qed

theorem rollback_undoes_preprocess_witness:
  "\<exists>s s1 s2. preprocessRequest demo_ctx demo_create 1 0 (getNextZXID s) True None 1 s = Inr s1
     \<and> rollbackRequest (getNextZXID s) False s1 = Inr s2 \<and> uview s2 = uview s"
proof -
  obtain s where s: "reachable demo_ctx [] s" "keeper_inv [] s" by (rule demo_start)
  obtain ds s1 where s1: "preprocessRequest demo_ctx demo_create 1 0 (getNextZXID s) True None 1 s = Inr s1"
    by (rule preprocess_admissible [OF demo_context_ok s(1) demo_requests_ok(1) order_refl])
  obtain s2 where "rollbackRequest (getNextZXID s) False s1 = Inr s2" "uview s2 = uview s"
    using rollback_undoes_preprocess [OF demo_context_ok s(1) demo_requests_ok(1) order_refl s1, of False] by auto
  with s1 show ?thesis by (intro exI conjI)
qed

text \<open>
  C5. A \<open>Multi\<close> is atomic. Its outcome on a reachable storage is one of three. The access check refuses it: the only
  delta reports this, and the visible tree is unchanged. It is a write and one of its subrequests fails: the only delta
  reports success for those before it, the error that its handler gives on the tree they leave, and that the rest was not
  tried, and the visible tree is unchanged. Or the deltas are those of the handlers of all subrequests, run one after the
  other, each on the tree that the ones before it leave, without an error if it is a write, and all of them take effect.
\<close>

theorem multi_all_or_nothing:
  assumes "context_ok ctx" "reachable ctx rs s" "admissible ctx sid (MultiRequest ty qs)" "getNextZXID s \<le> z"
    and "preprocessRequest ctx (MultiRequest ty qs) sid time z check_acl digest log_idx s = Inr s'"
  shows "\<exists>ds. us_deltas (uncommitted s') = us_deltas (uncommitted s) @ ds
     \<and> (multi_denied z sid check_acl qs ds (uview s) \<and> uview s' = uview s
        \<or> (\<exists>es. ds = [Delta [] z (FailedMultiDelta es ZOK)] \<and> getOpNum (MultiRequest ty qs) = OpMulti
             \<and> multi_fails ctx z sid time qs es (uview s) \<and> uview s' = uview s)
        \<or> multi_run ctx z sid time (getOpNum (MultiRequest ty qs) = OpMulti) qs ds (uview s) \<and> uview s' = abs_deltas ds (uview s))"
proof -
  have inv: "keeper_inv rs s" using reachable_inv [OF assms(2,1)] by simp
  obtain ds s1 where s1: "preprocessRequest ctx (MultiRequest ty qs) sid time z check_acl digest log_idx s = Inr s1"
    "keeper_inv (rs @ [MultiRequest ty qs]) s1" "cview s1 = cview s"
    "us_deltas (uncommitted s1) = us_deltas (uncommitted s) @ ds" "multi_result ctx z sid time check_acl (MultiRequest ty qs) ds (uview s)"
    by (rule preprocess_admissible [OF assms(1-4)])
  have eq: "s' = s1" using s1(1) assms(5) by simp
  have view: "uview s' = abs_deltas ds (uview s)"
    using syncD(2) [OF keeper_invD(2) [OF s1(2)]] syncD(2) [OF keeper_invD(2) [OF inv]] s1(3,4) eq by simp
  have same: "uview s' = uview s" if "ds = [Delta [] z (FailedMultiDelta es e)]" for es e
    using view that by (simp add: abs_delta_def)
  from s1(5) consider "multi_denied z sid check_acl qs ds (uview s)"
    | es where "ds = [Delta [] z (FailedMultiDelta es ZOK)]" "getOpNum (MultiRequest ty qs) = OpMulti" "multi_fails ctx z sid time qs es (uview s)"
    | "multi_run ctx z sid time (getOpNum (MultiRequest ty qs) = OpMulti) qs ds (uview s)"
    unfolding multi_result.simps multi_outcome_def by blast
  then show ?thesis
  proof cases
    case 1
    then have "uview s' = uview s" using same by (simp add: multi_denied_def)
    with 1 s1(4) eq show ?thesis by blast
  next
    case (2 es)
    with same [OF 2(1)] s1(4) eq show ?thesis by blast
  next
    case 3
    with view s1(4) eq show ?thesis by blast
  qed
qed

text \<open>The demonstration: the first subrequest checks a node that does not exist.\<close>

definition demo_failing :: "zk_request list" where
  "demo_failing = [CheckRequest ''/b'' (-1) False, demo_create]"

lemma demo_check_fails:
  assumes "uview s ''/b'' = None" "preprocess demo_ctx z sid time (CheckRequest ''/b'' (-1) False) None s = Inr (ds, g, s')"
  shows "ds = [error_delta z ZNONODE]" "\<not> clean ds"
proof -
  have "fst (getNode ''/b'' s) = None"
    using assms(1) by (auto simp: getNode_def uview_def entry_view_def cview_def tryGetNodeFromStorage_def split: option.splits)
  then show "ds = [error_delta z ZNONODE]"
    using assms(2) by (auto simp: with_digest_def preprocess_check_def case_prod_unfold Let_def)
  then show "\<not> clean ds" by simp
qed

lemma demo_failing_fails:
  assumes "uview s ''/b'' = None"
  shows "multi_fails demo_ctx z sid time demo_failing es (uview s) \<Longrightarrow> es = [ZNONODE, ZRUNTIMEINCONSISTENCY]"
    "\<not> multi_run demo_ctx z sid time True demo_failing ds (uview s)"
proof -
  have run: "\<not> multi_run demo_ctx z sid time True (CheckRequest ''/b'' (-1) False # rs) ds (uview s)" for rs ds
  proof
    assume "multi_run demo_ctx z sid time True (CheckRequest ''/b'' (-1) False # rs) ds (uview s)"
    then obtain sub s1 s2 where "uview s1 = uview s" "clean sub"
      "preprocess demo_ctx z sid time (CheckRequest ''/b'' (-1) False) None s1 = Inr (sub, None, s2)"
      unfolding multi_run.simps by blast
    with demo_check_fails(2) [of s1 z sid time sub None s2] assms show False by (simp del: preprocess.simps)
  qed
  then show "\<not> multi_run demo_ctx z sid time True demo_failing ds (uview s)" by (simp add: demo_failing_def del: multi_run.simps)
  assume "multi_fails demo_ctx z sid time demo_failing es (uview s)"
  then obtain before r after ds e s1 s2 where f: "demo_failing = before @ r # after" "multi_run demo_ctx z sid time True before ds (uview s)"
    "uview s1 = abs_deltas ds (uview s)" "preprocess demo_ctx z sid time r None s1 = Inr ([error_delta z e], None, s2)"
    "es = replicate (length before) ZOK @ e # replicate (length after) ZRUNTIMEINCONSISTENCY"
    unfolding multi_fails_def by blast
  have "before = []" using f(1,2) run by (cases before) (auto simp: demo_failing_def simp del: multi_run.simps(2))
  with f demo_check_fails(1) [of s1 z sid time "[error_delta z e]" None s2] assms
  show "es = [ZNONODE, ZRUNTIMEINCONSISTENCY]" by (auto simp: demo_failing_def error_delta_def simp del: preprocess.simps)
qed

theorem multi_all_or_nothing_witness:
  "\<exists>s s'. reachable demo_ctx [] s \<and> preprocessRequest demo_ctx (MultiRequest (Some WriteOps) demo_failing) 1 0 (getNextZXID s) False None 1 s = Inr s'
     \<and> us_deltas (uncommitted s')
         = us_deltas (uncommitted s) @ [Delta [] (getNextZXID s) (FailedMultiDelta [ZNONODE, ZRUNTIMEINCONSISTENCY] ZOK)]
     \<and> uview s' = uview s"
proof -
  obtain s r k where s0: "new_storage demo_ctx 500 [] True = Inr s"
    "container s = [(root, r), (keeper_system_path, k), (keeper_api_feature_flags_path, system_node ''flags''), (keeper_availability_zone_path, system_node ''zone'')]"
    by (rule demo_storage)
  have s: "reachable demo_ctx [] s" by (rule reachable.construct [OF _ s0(1)]) simp
  have "keeper_inv [] s" using reachable_inv [OF s demo_context_ok] by simp
  then have "uview s = cview s" by (rule keeper_inv_drained(2))
  then have none: "uview s ''/b'' = None"
    by (simp add: cview_def find_node_def s0(2) keeper_system_path_def keeper_api_feature_flags_path_def keeper_availability_zone_path_def slash_def)
  have adm: "admissible demo_ctx 1 (MultiRequest (Some WriteOps) demo_failing)"
    using demo_requests_ok(2) [of 1] by (auto simp: demo_multi_def demo_failing_def admissible_def request_from_def)
  obtain ds s' where s': "preprocessRequest demo_ctx (MultiRequest (Some WriteOps) demo_failing) 1 0 (getNextZXID s) False None 1 s = Inr s'"
    by (rule preprocess_admissible [OF demo_context_ok s adm order_refl])
  from multi_all_or_nothing [OF demo_context_ok s adm order_refl s'] demo_failing_fails [OF none] s s'
  show ?thesis by (auto simp: multi_denied_def simp del: multi_run.simps)
qed

text \<open>
  C6. Closing a session ends it: on a reachable storage with nothing pending, \<open>Close\<close> of a session is preprocessed and
  committed without an error; exactly the ephemeral nodes of the session disappear from the committed tree; and
  the session is forgotten with its timeout, deadline, authentications and all its watches.
\<close>

theorem close_ends_session:
  assumes "context_ok ctx" "reachable ctx [] s" "sid \<noteq> 0" "getNextZXID s \<le> z"
  shows "\<exists>s1 results s2. preprocessRequest ctx CloseRequest sid time z check_acl digest log_idx s = Inr s1
           \<and> processRequest ctx now CloseRequest xid sid (Some z) check_acl False s1 = Inr (results, s2)
           \<and> (\<forall>p. cview s2 p = None \<longleftrightarrow> cview s p = None \<or> (\<exists>a. cview s p = Some a \<and> ephemeralOwner (an_stats a) = sid))
           \<and> session_gone sid s2"
proof -
  have inv: "keeper_inv [] s" using reachable_inv [OF assms(2,1)] by simp
  note idle = keeper_inv_drained [OF inv]
  have req: "admissible ctx sid CloseRequest" using assms(3) by (simp add: admissible_def request_from_def)
  obtain ds s1 where s1: "preprocessRequest ctx CloseRequest sid time z check_acl digest log_idx s = Inr s1" "keeper_inv ([] @ [CloseRequest]) s1"
    "cview s1 = cview s" "uncommitted_transactions s1 \<noteq> []" "ti_zxid (last (uncommitted_transactions s1)) = z"
    "us_deltas (uncommitted s1) = us_deltas (uncommitted s) @ ds" "CloseRequest = CloseRequest \<longrightarrow> closes sid s ds"
    by (rule preprocess_admissible [OF assms(1,2) req assms(4)])
  have inv1: "keeper_inv [CloseRequest] s1" using s1(2) by simp
  have one: "z = ti_zxid (hd (uncommitted_transactions s1))" using keeper_inv_one [OF inv1] s1(5) by auto
  obtain results resp s2 where s2: "processRequest ctx now CloseRequest xid sid (Some z) check_acl False s1
      = Inr (results @ [\<lparr>rfs_session_id = sid, rfs_response = set_ids xid z resp\<rparr>], s2)" "keeper_inv [] s2"
    "CloseRequest = CloseRequest \<longrightarrow> session_gone sid s2"
    "\<exists>ds. us_deltas (uncommitted s1) = ds @ us_deltas (uncommitted s2) \<and> step_ok z ds (cview s1) \<and> answered z CloseRequest ds (cview s1) \<and> cview s2 = abs_deltas ds (cview s1)"
    by (rule processRequest_keeps [OF inv1 _ one]) (simp add: request_logged_def)
  have "cview s2 = abs_deltas ds (cview s)"
    using s2(4) s1(3,6) idle(1) keeper_inv_drained(1) [OF s2(2)] by auto
  moreover have "p \<in> owned (cview s) sid (set (bucket (us_ephemerals (uncommitted s)) sid) \<union> set (bucket (committed_ephemerals s) sid))
      \<longleftrightarrow> (\<exists>a. cview s p = Some a \<and> ephemeralOwner (an_stats a) = sid)" for p
    using keeper_invD(3) [OF inv] assms(3) by (auto simp: owned_def committed_inv_def ephemerals_exact_def cview_def abs_node_def)
  ultimately have "cview s2 p = None \<longleftrightarrow> cview s p = None \<or> (\<exists>a. cview s p = Some a \<and> ephemeralOwner (an_stats a) = sid)" for p
    using s1(7) idle(2) by (simp add: closes_def)
  with s1(1) s2(1,3) show ?thesis by blast
qed

theorem close_ends_session_witness:
  "\<exists>s s1 results s2. reachable demo_ctx [] s \<and> preprocessRequest demo_ctx CloseRequest 1 0 (getNextZXID s) True None 1 s = Inr s1
     \<and> processRequest demo_ctx 0 CloseRequest 7 1 (Some (getNextZXID s)) True False s1 = Inr (results, s2) \<and> session_gone 1 s2"
proof -
  obtain s where s: "reachable demo_ctx [] s" by (rule demo_start)
  have "(1 :: int) \<noteq> 0" by simp
  from close_ends_session [OF demo_context_ok s this order_refl, of 0 True None 1 0 7] s show ?thesis by blast
qed

text \<open>
  C7. The watch tables agree in every reachable storage: a session is among the watchers of a path, of the node or
  of its list of children, exactly when the watch is among the watches of the session.
\<close>

theorem watch_tables_consistent:
  assumes "context_ok ctx" "reachable ctx rs s"
  shows "(sid \<in> set (bucket (watches s) p) \<longleftrightarrow> (p, False) \<in> set (bucket (sessions_and_watchers s) sid))
       \<and> (sid \<in> set (bucket (list_watches s) p) \<longleftrightarrow> (p, True) \<in> set (bucket (sessions_and_watchers s) sid))
       \<and> distinct (bucket (sessions_and_watchers s) sid)"
proof -
  have "watches_ok s" using reachable_inv [OF assms(2,1)] keeper_invD(8) by blast
  from tables_agreeD(1) [OF this, of sid False p] tables_agreeD(1) [OF this, of sid True p] tables_agreeD(2) [OF this, of sid]
  show ?thesis by (simp add: watch_table_def watch_tables_of_def)
qed

text \<open>The demonstration: a session has asked outside the log whether a node exists, with a watch.\<close>

theorem watch_tables_consistent_witness:
  "\<exists>s. reachable demo_ctx [] s \<and> 1 \<in> set (bucket (watches s) ''/a'') \<and> (''/a'', False) \<in> set (bucket (sessions_and_watchers s) 1)"
proof -
  obtain s0 where s0: "reachable demo_ctx [] s0" by (rule demo_start)
  let ?r = "ExistsRequest ''/a'' True"
  have r: "local_request ?r" by (simp add: local_part_def)
  obtain resp s where s: "reachable demo_ctx [] s" "local_outcome demo_ctx False 1 ?r resp s0"
    "watch_tables_of s = watch_tables_of (register_watch ?r (resp_error resp) 1 s0)"
    by (rule read_reachable [OF demo_context_ok s0 r, of 0 7 1 False])
  have "resp_error resp = ZOK \<or> resp_error resp = ZNONODE"
    using s(2) by (auto simp: local_outcome_def answer_node_def response_of_def split: option.splits)
  then have "1 \<in> set (bucket (watches s) ''/a'')"
    using s(3) by (auto simp: register_watch_def add_watch_def watch_tables_of_def Let_def)
  with watch_tables_consistent [OF demo_context_ok s(1), of 1 "''/a''"] s(1) show ?thesis by blast
qed

text \<open>
  C8. The committed bookkeeping is exact in every reachable storage: the map of ephemeral nodes lists,
  for every session, exactly the committed nodes it owns, and the usage counter of every ACL number is
  the number of committed nodes that carry it.
\<close>

theorem committed_bookkeeping_exact:
  assumes "context_ok ctx" "reachable ctx rs s"
  shows "(p \<in> set (bucket (committed_ephemerals s) sid)
           \<longleftrightarrow> sid \<noteq> 0 \<and> (\<exists>n. find_node s p = Some n \<and> ephemeralOwner (mn_stats n) = sid))
       \<and> (k = 0 \<or> usage_of (acl_map_of s) k = card {p. \<exists>n. find_node s p = Some n \<and> mn_acl_id n = k})"
proof -
  have "committed_inv s" using reachable_inv [OF assms(2,1)] keeper_invD(3) by blast
  then show ?thesis
    by (auto simp: committed_inv_def ephemerals_exact_def acls_counted_def am.counted_def acl_users_def)
qed

theorem committed_bookkeeping_exact_witness:
  "\<exists>s. reachable demo_ctx [demo_create] s
     \<and> usage_of (acl_map_of s) 1 = card {p. \<exists>n. find_node s p = Some n \<and> mn_acl_id n = 1}"
proof -
  obtain s where s: "reachable demo_ctx [demo_create] s" by (rule demo_pending [OF demo_requests_ok(1)])
  with committed_bookkeeping_exact [OF demo_context_ok s, of _ _ 1] show ?thesis by auto
qed

text \<open>
  C9. The children of every committed node are exact in every reachable storage: the set that the node
  stores holds the base names of exactly the nodes whose parent it is, joining the path with such a name
  gives an existing node. Outside the system path the counter of children is the size of the set; at the system path
  and below it the counter stays 0, although \<open>/keeper\<close> has children.
\<close>

theorem children_sets_exact:
  assumes "context_ok ctx" "reachable ctx rs s" "find_node s p = Some n"
  shows "set (mn_children n) = getBaseNodeName ` {q. find_node s q \<noteq> None \<and> q \<noteq> ''/'' \<and> parentNodePath q = Inr p}
    \<and> (\<forall>c\<in>set (mn_children n). find_node s (fs_join p c) \<noteq> None)
    \<and> numChildren (mn_stats n) = (if matchPath p keeper_system_path = NOT_MATCH then int (card (set (mn_children n))) else 0)"
proof -
  have inv: "keeper_inv rs s" using reachable_inv [OF assms(2,1)] by simp
  note com = keeper_invD(3) [OF inv]
  have ex: "children_exact (find_node s)" using com by (simp add: committed_inv_def)
  have kids: "kids (cview s) p = {q. find_node s q \<noteq> None \<and> q \<noteq> root \<and> parentOf q = p}"
    unfolding kids_def find_node_cview ..
  have "parentNodePath q = Inr (parentOf q)" if "find_node s q \<noteq> None" for q
    by (rule parentNodePath_canonical) (use ex that in \<open>auto simp: children_exact_def\<close>)
  then have kids': "kids (cview s) p = {q. find_node s q \<noteq> None \<and> q \<noteq> root \<and> parentNodePath q = Inr p}"
    unfolding kids by auto
  have set: "set (mn_children n) = getBaseNodeName ` kids (cview s) p"
    using ex assms(3) unfolding kids by (simp add: children_exact_def)
  have "inj_on getBaseNodeName (kids (cview s) p)"
    using ex canonical_path_inj unfolding kids by (auto simp: inj_on_def children_exact_def)
  then have "card (set (mn_children n)) = card (kids (cview s) p)" by (simp add: set card_image)
  moreover have "cview s p = Some (abs_node (acls_of (acl_map_of s) (mn_acl_id n)) n)" using assms(3) by (simp add: cview_def)
  from tree_inv_node(6) [OF keeper_inv_tree [OF inv] this]
  have "matchPath p keeper_system_path = NOT_MATCH \<Longrightarrow> numChildren (mn_stats n) = int (card (kids (cview s) p))"
    by (simp add: sys_def abs_node_def)
  moreover have "numChildren (mn_stats n) = 0" if "matchPath p keeper_system_path \<noteq> NOT_MATCH"
    by (rule reachable_system_counter [OF assms(2,1,3)]) (use that in \<open>simp add: sys_def\<close>)
  ultimately show ?thesis
    using set children_found [OF com assms(3)] unfolding kids' root_literal by simp
qed

theorem children_sets_exact_witness:
  "\<exists>s n. reachable demo_ctx [demo_create] s \<and> find_node s ''/'' = Some n \<and> numChildren (mn_stats n) = int (card (set (mn_children n)))"
proof -
  obtain s where s: "reachable demo_ctx [demo_create] s" by (rule demo_pending [OF demo_requests_ok(1)])
  have inv: "keeper_inv [demo_create] s" using reachable_inv [OF s demo_context_ok] by simp
  obtain n where n: "find_node s ''/'' = Some n"
    using tree_invD(3) [OF keeper_inv_tree [OF inv]] unfolding root_literal by (auto simp: cview_def)
  have "matchPath ''/'' keeper_system_path = NOT_MATCH" by code_simp
  with children_sets_exact [OF demo_context_ok s n] s n show ?thesis by auto
qed

text \<open>
  C10. A snapshot restores the storage: what \<open>serialize\<close> writes of a reachable storage whose values fit their machine
  types, \<open>deserializeSnapshotFromBuffer\<close> reads without an error in debug and in release builds. The new storage has
  the metadata and the cluster configuration of the snapshot, the same tree, last transaction, sessions with their
  authentications and, if digests are kept, the same digest; it is idle and satisfies the invariant of the state
  machine, so that the log can be continued on it; and every session has its whole timeout again.
\<close>

theorem snapshot_restores:
  assumes "context_ok ctx" "reachable ctx rs s" "storage_in_range sizeof_node s" "codec_reads nu meta config" "tick \<noteq> 0"
  shows "\<exists>s'. deserializeSnapshotFromBuffer nu (ctx\<lparr>kc_server_state := ph\<rparr>) ndebug now tick super
             (serialize nu sizeof_node ctx (take_snapshot meta config s))
           = Inr \<lparr>dr_storage = s', dr_snapshot_meta = meta, dr_cluster_config = config\<rparr> \<and> restored_from ctx tick now s s'"
proof -
  have "keeper_inv rs s" using reachable_inv [OF assms(2,1)] by simp
  then show ?thesis
    by (rule restart_in_phase [OF _ reachable_fits [OF assms(2,1,3)] assms(4) context_okD(1) [OF assms(1)] assms(5)]) blast
qed

theorem snapshot_restores_witness:
  "\<exists>s s'. reachable demo_ctx [] s \<and> deserializeSnapshotFromBuffer demo_codec (demo_ctx\<lparr>kc_server_state := INIT\<rparr>) False 1000 500 []
       (serialize demo_codec 200 demo_ctx (take_snapshot [7] (Some [8, 9]) s))
     = Inr \<lparr>dr_storage = s', dr_snapshot_meta = [7], dr_cluster_config = Some [8, 9]\<rparr> \<and> cview s' = cview s"
proof -
  obtain s where s: "new_storage demo_ctx 500 [] True = Inr s" "storage_in_range 200 s" by (rule demo_storage_in_range)
  have r: "reachable demo_ctx [] s" by (rule reachable.construct [OF _ s(1)]) simp
  have "codec_reads demo_codec [7] (Some [8, 9])" by (simp add: codec_reads_def demo_codec_def)
  from snapshot_restores [OF demo_context_ok r s(2) this, of 500 INIT False 1000 "[]"] r show ?thesis
    by (auto simp: restored_from_def)
qed

text \<open>
  C11. No request changes a system node: in a reachable storage, whatever requests, rollbacks and restarts came before and
  whatever is pending, the nodes below \<open>/keeper\<close> in the committed tree and in the uncommitted view are exactly those of the
  configuration, with their data, default statistics and no ACL.
\<close>

theorem system_nodes_untouched:
  assumes "context_ok ctx" "reachable ctx rs s" "matchPath p keeper_system_path = IS_CHILD"
  shows "cview s p = map_option (\<lambda>d. \<lparr>an_stats = default_stats\<lparr>ns_data_size := length d\<rparr>, an_data = d, an_acls = []\<rparr>)
           (map_of (kc_system_nodes_with_data ctx) p)
       \<and> uview s p = cview s p"
  using reachable_system_node [OF assms(2,1,3)] keeper_inv_system [OF conjunct1 [OF reachable_run [OF assms(2,1)]]] assms(3)
  by (simp add: sys_def)

theorem system_nodes_untouched_witness:
  "\<exists>s a. reachable demo_ctx [demo_create] s \<and> uview s keeper_availability_zone_path = Some a \<and> an_data a = ''zone''"
proof -
  obtain s where s: "reachable demo_ctx [demo_create] s" by (rule demo_pending [OF demo_requests_ok(1)])
  have "matchPath keeper_availability_zone_path keeper_system_path = IS_CHILD" by code_simp
  with system_nodes_untouched [OF demo_context_ok s this] s show ?thesis
    using demo_paths_distinct by (auto simp: demo_ctx_def)
qed

text \<open>
  C12. Local reads answer from the committed tree: on a reachable storage, a read that does not go through the log never
  fails and changes nothing; \<open>Get\<close>, \<open>Exists\<close>, \<open>GetACL\<close> and \<open>Check\<close> report the node of the committed tree or its absence, a
  list names exactly the children of the node that have the requested type, and a \<open>Multi\<close> of reads gives the
  answers of its reads in order.
\<close>

theorem local_reads_committed:
  assumes "context_ok ctx" "reachable ctx rs s" "local_read r" "list_all local_read qs"
  shows "(\<exists>resp. processLocal ctx r s = Inr (resp, s) \<and> local_answer ctx (cview s) r resp)
    \<and> (\<exists>resps. processLocal ctx (MultiRequest ty qs) s = Inr (response_of ZOK (MultiReadBody resps), s)
         \<and> list_all2 (local_answer ctx (cview s)) qs resps)"
proof -
  have inv: "committed_inv s" using reachable_inv [OF assms(2,1)] keeper_invD(3) by blast
  obtain resps where "processLocal_all ctx qs s = Inr (resps, s)" "list_all2 (local_answer ctx (cview s)) qs resps"
    using processLocal_all_answers [OF inv assms(4), of ctx] by blast
  with processLocal_answers [OF inv assms(3), of ctx] show ?thesis by auto
qed

theorem local_reads_committed_witness:
  "\<exists>s names. reachable demo_ctx [] s
     \<and> processLocal demo_ctx (ListRequest SimpleList keeper_availability_zone_path False) s = Inr (response_of ZOK (SimpleListBody names
          (reported (default_stats\<lparr>ns_data_size := 4\<rparr>))), s)
     \<and> (\<exists>resps. processLocal demo_ctx (MultiRequest (Some ReadOps) [ExistsRequest ''/a'' False]) s = Inr (response_of ZOK (MultiReadBody resps), s))"
proof -
  obtain s where s: "reachable demo_ctx [] s" by (rule demo_start)
  have "matchPath keeper_availability_zone_path keeper_system_path = IS_CHILD" by code_simp
  then have "cview s keeper_availability_zone_path
      = Some \<lparr>an_stats = default_stats\<lparr>ns_data_size := 4\<rparr>, an_data = ''zone'', an_acls = []\<rparr>"
    using reachable_system_node [OF s demo_context_ok, of keeper_availability_zone_path] demo_paths_distinct by (auto simp: demo_ctx_def)
  with local_reads_committed [OF demo_context_ok s, of "ListRequest SimpleList keeper_availability_zone_path False" "[ExistsRequest ''/a'' False]" "Some ReadOps"]
    s show ?thesis by (auto simp: answer_node_def)
qed



section \<open>Requests that the storage treats unexpectedly\<close>

text \<open>
  C29. A \<open>Get\<close> of the availability zone that goes through the log passes preprocessing without a look at
  the tree; when no zone is configured the node does not exist and processing the request terminates
  the server.
\<close>

theorem get_availability_zone_terminates:
  assumes "find_node s keeper_availability_zone_path = None"
  shows "preprocess ctx z sid time (GetRequest keeper_availability_zone_path w) g s = Inr ([], g, s)
    \<and> (\<exists>msg. process ctx (GetRequest keeper_availability_zone_path w) [] s = Inl (Terminated msg))"
proof -
  have "keeper_availability_zone_path \<noteq> keeper_config_path"
    by (simp add: keeper_availability_zone_path_def keeper_config_path_def)
  with assms show ?thesis
    by (simp add: with_digest_def preprocess_get_def after_commit_def get_body_def read_node_def)
qed

theorem get_availability_zone_terminates_witness:
  "\<exists>msg. process demo_ctx (GetRequest keeper_availability_zone_path False) [] (base_storage 500 []) = Inl (Terminated msg)"
  using get_availability_zone_terminates [of "base_storage 500 []" demo_ctx 1 1 0 False None]
  by (simp add: base_storage_def find_node_def)



text \<open>
  C40. The condition on paths is needed: a \<open>Create\<close>, a \<open>Remove\<close> or a \<open>CheckNotExists\<close> whose path has no slash, which a client
  can send, makes the access check of \<open>preprocessRequest\<close> look up a parent path that runs past the end of the string,
  on every reachable storage.
\<close>

theorem path_without_slash_undefined:
  assumes "context_ok ctx" "reachable ctx rs s" "getNextZXID s \<le> z" "slash \<notin> set p"
    and "r = RemoveRequest p v restored \<or> r = CheckRequest p v True \<or> r = CreateRequest c \<and> cr_path c = p"
  shows "\<exists>msg. preprocessRequest ctx r sid time z True digest log_idx s = Inl (Undefined msg)"
proof -
  have inv: "keeper_inv rs s" using reachable_inv [OF assms(2,1)] by simp
  have none: "parentNodePath p = Inl (Undefined ''string reference past the end of the path'')"
    using assms(4) parentNodePath_iff [of p] by (auto simp: parentNodePath_def split: option.splits)
  have checked: "preprocess_checked ctx r sid time z True g s' = Inl (Undefined ''string reference past the end of the path'')" for g s'
    using assms(5) none by (auto simp: preprocess_checked_def)
  have "r \<noteq> CloseRequest" using assms(5) by auto
  then show ?thesis
    using keeper_invD(1) [OF inv] assms(3)
    by (auto simp: preprocessRequest_def checked Let_def split: option.split)
qed

theorem path_without_slash_undefined_witness:
  "\<exists>s msg. reachable demo_ctx [] s
     \<and> preprocessRequest demo_ctx (RemoveRequest ''abc'' (-1) False) 1 0 (getNextZXID s) True None 1 s = Inl (Undefined msg)"
proof -
  obtain s where s: "reachable demo_ctx [] s" by (rule demo_start)
  have "slash \<notin> set ''abc''" by (simp add: slash_def)
  from path_without_slash_undefined [OF demo_context_ok s order_refl this, where r = "RemoveRequest ''abc'' (-1) False" and v = "-1"
      and restored = False and sid = 1 and time = 0 and digest = None and log_idx = 1] s
  show ?thesis by auto
qed

text \<open>
  C38. A follower that installs a snapshot forgets what its pending requests mean for sessions: \<open>applyUncommittedState\<close>
  hands over the deltas of the later transactions, but no pending authentication, no closed session and no
  uncommitted ephemeral node. A pending authentication leaves an entry for the empty path, which \<open>applyDelta\<close> excludes, and
  rolling it back reads the last element of an empty list.
\<close>

theorem handover_forgets_sessions:
  assumes "applyUncommittedState s last_log_idx other = Inr other'" "us_session_and_auth (uncommitted other) = Map.empty"
    and "Delta [] z (AddAuthDelta sid k auth) \<in> set (us_deltas (uncommitted s))"
    and "tx \<in> set (uncommitted_transactions s)" "ti_zxid tx = z" "last_log_idx < ti_log_idx tx"
  shows "Delta [] z (AddAuthDelta sid k auth) \<in> set (us_deltas (uncommitted other'))
    \<and> us_session_and_auth (uncommitted other') = Map.empty
    \<and> us_closed_sessions (uncommitted other') = us_closed_sessions (uncommitted other)
    \<and> us_ephemerals (uncommitted other') = us_ephemerals (uncommitted other)
    \<and> find_entry other' [] \<noteq> None
    \<and> (\<exists>msg. rollback_step (Delta [] z (AddAuthDelta sid k auth)) other' = Inl (Undefined msg))"
proof -
  let ?d = "Delta [] z (AddAuthDelta sid k auth)"
  let ?ts = "filter (\<lambda>t. \<not> ti_log_idx t \<le> last_log_idx) (uncommitted_transactions s)"
  let ?ds = "filter (\<lambda>d. delta_zxid d \<in> set (map ti_zxid ?ts)) (us_deltas (uncommitted s))"
  have run: "res_fold hand_over_delta ?ds (other\<lparr>uncommitted_transactions := uncommitted_transactions other @ ?ts\<rparr>) = Inr other'"
    using assms(1) by (simp add: applyUncommittedState_def hand_over_delta_def [abs_def] Let_def split: if_splits)
  have "tx \<in> set ?ts" using assms(4,6) by simp
  then have "z \<in> set (map ti_zxid ?ts)" using assms(5) by (auto simp del: set_filter)
  then have d: "?d \<in> set ?ds" using assms(3) by simp
  note f = hand_over_deltas_frame [OF run, simplified]
  have none: "us_session_and_auth (uncommitted other') = Map.empty" using f assms(2) by simp
  have "[] \<in> delta_path ` set ?ds" using d by (metis delta.sel(1) image_eqI)
  with hand_over_deltas_frame [OF run] have "find_entry other' [] \<noteq> None" by blast
  moreover have "?d \<in> set (us_deltas (uncommitted other'))" using hand_over_deltas_frame [OF run] d by simp
  moreover have "rollback_step ?d other' = Inl (Undefined ''back of an empty list'')"
    using none by (simp add: rollback_step_def bucket_def)
  ultimately show ?thesis using f none by auto
qed

theorem handover_forgets_sessions_witness:
  "\<exists>other'. applyUncommittedState demo_follower 4 (base_storage 500 []) = Inr other'
     \<and> demo_auth \<in> set (us_deltas (uncommitted other')) \<and> us_session_and_auth (uncommitted other') = Map.empty
     \<and> (\<exists>msg. rollback_step demo_auth other' = Inl (Undefined msg))"
proof -
  obtain e s1 where l: "load_entry [] ((base_storage 500 [])\<lparr>uncommitted_transactions := uncommitted_transactions demo_follower\<rparr>) = (e, s1)" by fastforce
  have "\<exists>other'. applyUncommittedState demo_follower 4 (base_storage 500 []) = Inr other'"
    using l by (simp add: applyUncommittedState_def demo_follower_def demo_auth_def applyDelta_def apply_operation_def Let_def base_storage_def)
  then obtain other' where run: "applyUncommittedState demo_follower 4 (base_storage 500 []) = Inr other'" ..
  have "us_session_and_auth (uncommitted (base_storage 500 [])) = Map.empty" by (simp add: base_storage_def empty_uncommitted_def)
  from handover_forgets_sessions [OF run this, of 1 7 0 "\<lparr>au_scheme = ''digest'', au_ident = ''user''\<rparr>"
      "\<lparr>ti_zxid = 1, ti_nodes_digest = \<lparr>kd_version = NO_DIGEST, kd_value = 0\<rparr>, ti_log_idx = 5\<rparr>"] run
  show ?thesis by (simp add: demo_follower_def demo_auth_def)
qed

end
